(* ===== verification/Prelude.thy ===== *)
theory Prelude
  imports
    Main
    "HOL-Library.Word"
    "HOL-Library.Char_ord"
    "HOL-Library.List_Lexorder"
    "HOL-Library.Sublist"
begin

text \<open>
  Shared vocabulary of the development: the exceptions of the code as values, a bind for
  fallible code, bytes and digits, and generic lemmas on lists and suffixes.

  A C++ pointer into a document that ends at \<^verbatim>\<open>end_\<close> is modelled by the part of the
  document from that pointer on, a list of characters; \<^verbatim>\<open>end_\<close> is the empty list, the
  difference \<^verbatim>\<open>q - p\<close> of two pointers is \<open>length p - length q\<close>, and \<^verbatim>\<open>*p\<close> is the head.
\<close>

named_theorems res_simps \<open>evaluation of fallible code\<close>
named_theorems scan_len \<open>how much of the input a scanner leaves unread\<close>
named_theorems scan_suffix \<open>a scanner returns a suffix of its input\<close>

section \<open>Fallible code\<close>

text \<open>
  \<open>RuntimeError\<close> and \<open>LogicError\<close> are the exceptions of \<^verbatim>\<open>throwRuntimeError\<close> and
  \<^verbatim>\<open>throwLogicError\<close> (also what \<^verbatim>\<open>JSON_ASSERT\<close> and \<^verbatim>\<open>JSON_FAIL_MESSAGE\<close> raise);
  \<open>AssertFail\<close> is a failed C \<^verbatim>\<open>assert\<close> (abort); \<open>Undef\<close> marks a path that executes
  undefined behaviour of C++; \<open>OutOfFuel\<close> belongs to the model only and is proved
  unreachable for every entry point.
\<close>

datatype exn =
    RuntimeError string
  | LogicError string
  | AssertFail string
  | Undef string
  | OutOfFuel

type_synonym 'a res = "exn + 'a"

definition bind_res :: "'a res \<Rightarrow> ('a \<Rightarrow> 'b res) \<Rightarrow> 'b res" where
  "bind_res m k = (case m of Inl e \<Rightarrow> Inl e | Inr a \<Rightarrow> k a)"

lemma bind_res_simps [simp, res_simps]:
  "bind_res (Inl e) k = Inl e"
  "bind_res (Inr a) k = k a"
  by (simp_all add: bind_res_def)

lemma bind_res_cong [fundef_cong]:
  "m = m' \<Longrightarrow> (\<And>a. m' = Inr a \<Longrightarrow> k a = k' a) \<Longrightarrow> bind_res m k = bind_res m' k'"
  by (simp add: bind_res_def split: sum.splits)

lemma bind_res_Inr_iff:
  "bind_res m k = Inr b \<longleftrightarrow> (\<exists>a. m = Inr a \<and> k a = Inr b)"
  by (simp add: bind_res_def split: sum.splits)

lemma bind_res_Inl_iff:
  "bind_res m k = Inl e \<longleftrightarrow> m = Inl e \<or> (\<exists>a. m = Inr a \<and> k a = Inl e)"
  by (auto simp add: bind_res_def split: sum.splits)

lemma bind_res_assoc:
  "bind_res (bind_res m k) h = bind_res m (\<lambda>a. bind_res (k a) h)"
  by (simp add: bind_res_def split: sum.splits)

definition json_assert :: "bool \<Rightarrow> string \<Rightarrow> 'a res \<Rightarrow> 'a res" where
  \<comment> \<open>\<^verbatim>\<open>JSON_ASSERT_MESSAGE(condition, message)\<close> before the rest of a function\<close>
  "json_assert c msg k = (if c then k else Inl (LogicError msg))"

lemma json_assert_simps [simp, res_simps]:
  "json_assert True msg k = k"
  "json_assert False msg k = Inl (LogicError msg)"
  by (simp_all add: json_assert_def)

section \<open>Machine integers\<close>

type_synonym int64 = "64 word"
type_synonym uint64 = "64 word"
type_synonym uint32 = "32 word"
type_synonym int32 = "32 word"

lemma sint_of_int_32:
  "- (2 ^ 31) \<le> k \<Longrightarrow> k < 2 ^ 31 \<Longrightarrow> sint (of_int k :: int32) = k"
  by (simp add: signed_of_int signed_take_bit_int_eq_self)

lemma sint_of_int_64:
  "- (2 ^ 63) \<le> k \<Longrightarrow> k < 2 ^ 63 \<Longrightarrow> sint (of_int k :: int64) = k"
  by (simp add: signed_of_int signed_take_bit_int_eq_self)

lemma uint_of_int_32: "0 \<le> k \<Longrightarrow> k < 2 ^ 32 \<Longrightarrow> uint (of_int k :: uint32) = k"
  by (simp add: unsigned_of_int take_bit_int_eq_self)

lemma uint_of_int_64: "0 \<le> k \<Longrightarrow> k < 2 ^ 64 \<Longrightarrow> uint (of_int k :: uint64) = k"
  by (simp add: unsigned_of_int take_bit_int_eq_self)

lemma sint_uint_small: "uint (u :: uint64) < 2 ^ 63 \<Longrightarrow> sint u = uint u"
  by (simp add: sint_uint [of u] signed_take_bit_int_eq_self order.trans [OF _ uint_ge_0])

lemma sint_ucast_64_32:
  fixes i :: int64
  assumes "- (2 ^ 31) \<le> sint i" "sint i < 2 ^ 31"
  shows "sint (ucast i :: int32) = sint i"
proof -
  have "sint (ucast i :: int32) = signed_take_bit 31 (uint i)"
    by (simp add: signed_ucast_eq)
  also have "\<dots> = signed_take_bit 31 (take_bit 64 (sint i))"
    by (simp add: uint_sint [of i])
  also have "\<dots> = sint i"
    using assms by (simp add: signed_take_bit_take_bit signed_take_bit_int_eq_self)
  finally show ?thesis .
qed

lemma sint_ucast_u64_32:
  fixes u :: uint64
  assumes "uint u < 2 ^ 31"
  shows "sint (ucast u :: int32) = uint u"
  using assms by (simp add: signed_ucast_eq signed_take_bit_int_eq_self order.trans [OF _ uint_ge_0])

lemma sint_scast_int32: "sint (scast (x :: int32) :: int64) = sint x"
  by (simp add: sint_up_scast is_up)

lemma uint_ucast_64_32: "uint (u :: uint64) < 2 ^ 32 \<Longrightarrow> uint (ucast u :: uint32) = uint u"
  by (simp add: unsigned_ucast_eq take_bit_int_eq_self)

section \<open>Characters\<close>

type_synonym loc = string

abbreviation NUL :: char where "NUL \<equiv> CHR 0x00"
abbreviation TAB :: char where "TAB \<equiv> CHR 0x09"
abbreviation LF :: char where "LF \<equiv> CHR 0x0A"
abbreviation CR :: char where "CR \<equiv> CHR 0x0D"
abbreviation BSP :: char where "BSP \<equiv> CHR 0x08"
abbreviation FF :: char where "FF \<equiv> CHR 0x0C"
abbreviation DQ :: char where "DQ \<equiv> CHR 0x22"
abbreviation SQ :: char where "SQ \<equiv> CHR 0x27"
abbreviation BSL :: char where "BSL \<equiv> CHR 0x5C"

definition byte :: "char \<Rightarrow> nat" where
  \<comment> \<open>\<^verbatim>\<open>static_cast<unsigned char>(c)\<close>\<close>
  "byte c = of_char c"

definition chr :: "nat \<Rightarrow> char" where
  \<comment> \<open>\<^verbatim>\<open>static_cast<char>(n)\<close>\<close>
  "chr n = char_of n"

lemma byte_less_256 [simp]: "byte c < 256"
  by (simp add: byte_def)

lemma chr_byte [simp]: "chr (byte c) = c"
  by (simp add: byte_def chr_def)

lemma byte_chr: "byte (chr n) = n mod 256"
  by (simp add: byte_def chr_def)

lemma byte_chr_small [simp]: "n < 256 \<Longrightarrow> byte (chr n) = n"
  by (simp add: byte_chr)

lemma byte_inject [simp]: "byte c = byte d \<longleftrightarrow> c = d"
  by (metis chr_byte)

lemma eq_chr_iff: "c = chr n \<longleftrightarrow> byte c = n mod 256"
  by (metis byte_chr chr_byte byte_inject)

lemma byte_less_iff: "byte c < byte d \<longleftrightarrow> c < d"
  by (simp add: byte_def less_char_def)

definition is_digit :: "char \<Rightarrow> bool" where
  "is_digit c \<longleftrightarrow> 48 \<le> byte c \<and> byte c \<le> 57"

definition digit_val :: "char \<Rightarrow> nat" where
  \<comment> \<open>\<^verbatim>\<open>c - '0'\<close>\<close>
  "digit_val c = byte c - 48"

definition digit_chr :: "nat \<Rightarrow> char" where
  "digit_chr d = chr (d + 48)"

lemma is_digit_digit_chr [simp]: "d < 10 \<Longrightarrow> is_digit (digit_chr d)"
  by (simp add: is_digit_def digit_chr_def)

lemma digit_val_digit_chr [simp]: "d < 10 \<Longrightarrow> digit_val (digit_chr d) = d"
  by (simp add: digit_val_def digit_chr_def)

lemma digit_val_less: "is_digit c \<Longrightarrow> digit_val c < 10"
  by (auto simp: is_digit_def digit_val_def)

section \<open>Lists\<close>

definition map_snd :: "('a \<Rightarrow> 'b) \<Rightarrow> ('k \<times> 'a) list \<Rightarrow> ('k \<times> 'b) list" where
  "map_snd f xs = map (\<lambda>(k, v). (k, f v)) xs"

lemma map_snd_cong [fundef_cong]:
  "xs = ys \<Longrightarrow> (\<And>k v. (k, v) \<in> set ys \<Longrightarrow> f v = g v) \<Longrightarrow> map_snd f xs = map_snd g ys"
  by (auto simp: map_snd_def)

lemma map_snd_simps [simp]:
  "map_snd f [] = []"
  "map_snd f ((k, v) # xs) = (k, f v) # map_snd f xs"
  by (simp_all add: map_snd_def)

lemma map_fst_map_snd [simp]: "map fst (map_snd f xs) = map fst xs"
  by (induction xs) auto

lemma length_map_snd [simp]: "length (map_snd f xs) = length xs"
  by (simp add: map_snd_def)

fun join :: "string \<Rightarrow> string list \<Rightarrow> string" where
  "join sep [] = []"
| "join sep [x] = x"
| "join sep (x # y # xs) = x @ sep @ join sep (y # xs)"

lemma suffix_length_less: "suffix xs ys \<Longrightarrow> xs \<noteq> ys \<Longrightarrow> length xs < length ys"
  by (auto simp: suffix_def)

lemma suffix_tl_trans: "suffix xs (tl ys) \<Longrightarrow> suffix xs ys"
  using suffix_order.trans suffix_tl by blast

lemma size_pair_list [termination_simp]:
  "(k, v) \<in> set xs \<Longrightarrow> size v < Suc (size_list (size_prod (\<lambda>_. 0) size) xs)"
  by (induction xs) auto

end
