(* ===== verification/OMap.thy ===== *)
theory OMap
  imports Prelude
begin

text \<open>
  \<^verbatim>\<open>std::map\<close>, the container behind \<^verbatim>\<open>Json::Value::ObjectValues\<close> (include/json/value.h):
  an association list in strictly increasing key order. Iteration visits the list from
  the front, \<^verbatim>\<open>--end()\<close> is its last element. The interface that \<^verbatim>\<open>Json::Value\<close> relies on
  is the locale \<open>ordered_map\<close>; it is interpreted on the definitions below as \<open>om\<close>.
\<close>

section \<open>Operations\<close>

type_synonym ('k, 'v) omap = "('k \<times> 'v) list"

fun om_find :: "'k::linorder \<Rightarrow> ('k, 'v) omap \<Rightarrow> 'v option" where
  \<comment> \<open>\<^verbatim>\<open>find(key)\<close>: neither key is less than the other\<close>
  "om_find k [] = None"
| "om_find k ((k', v) # m) =
     (if k' < k then om_find k m else if k < k' then None else Some v)"

fun om_lower_bound :: "'k::linorder \<Rightarrow> ('k, 'v) omap \<Rightarrow> ('k, 'v) omap \<times> ('k, 'v) omap" where
  \<comment> \<open>\<^verbatim>\<open>lower_bound(key)\<close>: the elements before the returned iterator, and from it on\<close>
  "om_lower_bound k [] = ([], [])"
| "om_lower_bound k ((k', v) # m) =
     (if k' < k then (case om_lower_bound k m of (l, r) \<Rightarrow> ((k', v) # l, r))
      else ([], (k', v) # m))"

fun om_emplace :: "'k::linorder \<Rightarrow> 'v \<Rightarrow> ('k, 'v) omap \<Rightarrow> ('k, 'v) omap" where
  \<comment> \<open>\<^verbatim>\<open>emplace(key, value)\<close>: keeps an element that is already there\<close>
  "om_emplace k v [] = [(k, v)]"
| "om_emplace k v ((k', v') # m) =
     (if k' < k then (k', v') # om_emplace k v m
      else if k < k' then (k, v) # (k', v') # m
      else (k', v') # m)"

fun om_put :: "'k::linorder \<Rightarrow> 'v \<Rightarrow> ('k, 'v) omap \<Rightarrow> ('k, 'v) omap" where
  \<comment> \<open>\<^verbatim>\<open>m[key] = value\<close>\<close>
  "om_put k v [] = [(k, v)]"
| "om_put k v ((k', v') # m) =
     (if k' < k then (k', v') # om_put k v m
      else if k < k' then (k, v) # (k', v') # m
      else (k', v) # m)"

fun om_erase :: "'k::linorder \<Rightarrow> ('k, 'v) omap \<Rightarrow> ('k, 'v) omap" where
  \<comment> \<open>\<^verbatim>\<open>erase(key)\<close>\<close>
  "om_erase k [] = []"
| "om_erase k ((k', v') # m) =
     (if k' < k then (k', v') # om_erase k m
      else if k < k' then (k', v') # m
      else m)"

definition om_sorted :: "('k::linorder, 'v) omap \<Rightarrow> bool" where
  "om_sorted m \<longleftrightarrow> sorted_wrt (<) (map fst m)"

definition om_keys :: "('k, 'v) omap \<Rightarrow> 'k list" where
  "om_keys m = map fst m"

lemma om_sorted_simps [simp]:
  "om_sorted []"
  "om_sorted ((k, v) # m) \<longleftrightarrow> (\<forall>k' \<in> fst ` set m. k < k') \<and> om_sorted m"
  by (auto simp: om_sorted_def)

section \<open>The interface\<close>

locale ordered_map =
  fixes empty :: "'m"
    and lookup :: "'k::linorder \<Rightarrow> 'm \<Rightarrow> 'v option"
    and emplace :: "'k \<Rightarrow> 'v \<Rightarrow> 'm \<Rightarrow> 'm"
    and put :: "'k \<Rightarrow> 'v \<Rightarrow> 'm \<Rightarrow> 'm"
    and erase :: "'k \<Rightarrow> 'm \<Rightarrow> 'm"
    and keys :: "'m \<Rightarrow> 'k list"
    and invar :: "'m \<Rightarrow> bool"
  assumes lookup_empty: "lookup k empty = None"
    and lookup_emplace: "invar m \<Longrightarrow>
      lookup k' (emplace k v m) = (if k' = k \<and> lookup k m = None then Some v else lookup k' m)"
    and lookup_put: "invar m \<Longrightarrow> lookup k' (put k v m) = (if k' = k then Some v else lookup k' m)"
    and lookup_erase: "invar m \<Longrightarrow> lookup k' (erase k m) = (if k' = k then None else lookup k' m)"
    and keys_sorted: "invar m \<Longrightarrow> sorted_wrt (<) (keys m)"
    and keys_dom: "invar m \<Longrightarrow> set (keys m) = {k. lookup k m \<noteq> None}"
    and invar_empty: "invar empty"
    and invar_emplace: "invar m \<Longrightarrow> invar (emplace k v m)"
    and invar_put: "invar m \<Longrightarrow> invar (put k v m)"
    and invar_erase: "invar m \<Longrightarrow> invar (erase k m)"
begin

lemma lookup_emplace_same:
  "invar m \<Longrightarrow> lookup k (emplace k v m) = (case lookup k m of None \<Rightarrow> Some v | Some w \<Rightarrow> Some w)"
  by (simp add: lookup_emplace split: option.split)

lemma lookup_emplace_other: "invar m \<Longrightarrow> k' \<noteq> k \<Longrightarrow> lookup k' (emplace k v m) = lookup k' m"
  by (simp add: lookup_emplace)

lemma lookup_put_emplace:
  "invar m \<Longrightarrow> lookup k' (put k w (emplace k v m)) = lookup k' (put k w m)"
  by (simp add: lookup_put lookup_emplace invar_emplace)

lemma keys_distinct: "invar m \<Longrightarrow> distinct (keys m)"
  using keys_sorted strict_sorted_iff by blast

lemma keys_eq_sorted_list: "invar m \<Longrightarrow> keys m = sorted_list_of_set {k. lookup k m \<noteq> None}"
  by (metis keys_sorted keys_dom sorted_list_of_set.idem_if_sorted_distinct strict_sorted_iff)

lemma set_keys_put: "invar m \<Longrightarrow> set (keys (put k v m)) = insert k (set (keys m))"
  by (auto simp: keys_dom invar_put lookup_put)

lemma set_keys_emplace: "invar m \<Longrightarrow> set (keys (emplace k v m)) = insert k (set (keys m))"
  by (auto simp: keys_dom invar_emplace lookup_emplace)

lemma set_keys_erase: "invar m \<Longrightarrow> set (keys (erase k m)) = set (keys m) - {k}"
  by (auto simp: keys_dom invar_erase lookup_erase split: if_splits)

end

section \<open>The association list provides it\<close>

lemma om_find_map_of: "om_sorted m \<Longrightarrow> om_find k m = map_of m k"
proof (induction m)
  case (Cons p m)
  obtain k' v' where p: "p = (k', v')" by (cases p)
  from Cons p have IH: "om_find k m = map_of m k" by simp
  have "k < k' \<Longrightarrow> map_of m k = None"
    using Cons.prems p by (auto simp: map_of_eq_None_iff)
  with IH p show ?case by auto
qed simp

lemma fst_om_put: "fst ` set (om_put k v m) = insert k (fst ` set m)"
  by (induction k v m rule: om_put.induct) auto

lemma fst_om_emplace: "fst ` set (om_emplace k v m) = insert k (fst ` set m)"
  by (induction k v m rule: om_emplace.induct) auto

lemma fst_om_erase: "fst ` set (om_erase k m) \<subseteq> fst ` set m"
  by (induction k m rule: om_erase.induct) auto

lemma om_sorted_put: "om_sorted m \<Longrightarrow> om_sorted (om_put k v m)"
  by (induction k v m rule: om_put.induct) (auto simp: fst_om_put dest: less_trans)

lemma om_sorted_emplace: "om_sorted m \<Longrightarrow> om_sorted (om_emplace k v m)"
  by (induction k v m rule: om_emplace.induct) (auto simp: fst_om_emplace dest: less_trans)

lemma om_sorted_erase: "om_sorted m \<Longrightarrow> om_sorted (om_erase k m)"
  by (induction k m rule: om_erase.induct) (use fst_om_erase in fastforce)+

lemma map_of_om_put: "om_sorted m \<Longrightarrow> map_of (om_put k v m) = (map_of m)(k \<mapsto> v)"
  by (induction k v m rule: om_put.induct) (auto simp: fun_eq_iff)

lemma map_of_om_emplace:
  "om_sorted m \<Longrightarrow> map_of (om_emplace k v m) = (if map_of m k = None then (map_of m)(k \<mapsto> v) else map_of m)"
proof (induction k v m rule: om_emplace.induct)
  case (2 k v k' v' m)
  have "k < k' \<Longrightarrow> map_of m k = None"
    using "2.prems" by (auto simp: map_of_eq_None_iff)
  with 2 show ?case by (auto simp: fun_eq_iff)
qed simp

lemma map_of_om_erase: "om_sorted m \<Longrightarrow> map_of (om_erase k m) = (map_of m)(k := None)"
proof (induction k m rule: om_erase.induct)
  case (2 k k' v' m)
  have "\<not> k' < k \<Longrightarrow> map_of m k = None"
    using "2.prems" by (auto simp: map_of_eq_None_iff)
  with 2 show ?case by (auto simp: fun_eq_iff)
qed simp

lemmas om_sorted_intros = om_sorted_put om_sorted_emplace om_sorted_erase

interpretation om: ordered_map "[]" om_find om_emplace om_put om_erase om_keys om_sorted
proof unfold_locales
  fix m :: "('a \<times> 'b) list" and k
  assume s: "om_sorted m"
  show "sorted_wrt (<) (om_keys m)"
    using s by (simp add: om_keys_def om_sorted_def)
  show "set (om_keys m) = {k. om_find k m \<noteq> None}"
    using s by (auto simp: om_keys_def om_find_map_of map_of_eq_None_iff)
qed (simp_all add: om_find_map_of om_sorted_intros map_of_om_put map_of_om_emplace map_of_om_erase)

section \<open>Further facts\<close>

lemma om_lower_bound_append: "om_lower_bound k m = (l, r) \<Longrightarrow> m = l @ r"
  by (induction k m arbitrary: l r rule: om_lower_bound.induct) (auto split: if_splits prod.splits)

lemma om_find_lower_bound:
  "om_find k m = (case snd (om_lower_bound k m) of [] \<Rightarrow> None | (k', v) # _ \<Rightarrow> if k' = k then Some v else None)"
  by (induction k m rule: om_find.induct) (auto split: prod.splits)

lemma om_put_emplace: "om_put k w (om_emplace k v m) = om_put k w m"
  by (induction k v m rule: om_emplace.induct) auto

lemma om_put_new:
  "om_find k m = None \<Longrightarrow> om_put k v m = fst (om_lower_bound k m) @ (k, v) # snd (om_lower_bound k m)"
  by (induction k v m rule: om_put.induct) (auto split: prod.splits if_splits)

lemma om_find_Some_in_set: "om_find k m = Some v \<Longrightarrow> (k, v) \<in> set m"
  by (induction k m rule: om_find.induct) (auto split: if_splits)

lemma om_find_in_set: "om_sorted m \<Longrightarrow> (k, v) \<in> set m \<Longrightarrow> om_find k m = Some v"
  by (metis map_of_is_SomeI om_find_map_of om_sorted_def strict_sorted_iff)

lemma om_put_last:
  "om_sorted (m @ [(k, v)]) \<Longrightarrow> om_put k v m = m @ [(k, v)]"
proof (induction m)
  case (Cons p m)
  then show ?case by (cases p) auto
qed simp

lemma om_find_map_snd: "om_find k (map_snd f m) = map_option f (om_find k m)"
  by (induction k m rule: om_find.induct) auto

lemma om_sorted_map_snd [simp]: "om_sorted (map_snd f m) \<longleftrightarrow> om_sorted m"
  by (simp add: om_sorted_def)

lemma om_sorted_append:
  "om_sorted (l @ r) \<longleftrightarrow> om_sorted l \<and> om_sorted r \<and> (\<forall>k \<in> fst ` set l. \<forall>k' \<in> fst ` set r. k < k')"
  by (auto simp: om_sorted_def sorted_wrt_append)

lemma set_om_put: "p \<in> set (om_put k v m) \<Longrightarrow> p = (k, v) \<or> p \<in> set m"
  by (induction k v m rule: om_put.induct) (auto split: if_splits)

lemma set_om_emplace: "p \<in> set (om_emplace k v m) \<Longrightarrow> p = (k, v) \<or> p \<in> set m"
  by (induction k v m rule: om_emplace.induct) (auto split: if_splits)

lemma set_om_erase: "p \<in> set (om_erase k m) \<Longrightarrow> p \<in> set m"
  by (induction k m rule: om_erase.induct) (auto split: if_splits)

end
