(* ===== verification/Dbl.thy ===== *)
theory Dbl
  imports Complex_Main Prelude
begin

text \<open>
  The C++ type \<^verbatim>\<open>double\<close> (IEEE 754 binary64), as far as the JSON code uses it: exact
  comparison, truncation, rounding of a rational to the nearest double (ties to even),
  what \<^verbatim>\<open>istream >> double\<close> does to the text of a number token, and what \<^verbatim>\<open>printf\<close> prints
  for \<^verbatim>\<open>%.*g\<close> and \<^verbatim>\<open>%.*f\<close>. Everything computes on integers, so the kernel can evaluate it.
\<close>

section \<open>Representation\<close>

text \<open>\<open>DFin s m e\<close> is \<open>(-1)^s * m * 2^e\<close>; \<open>wf_dbl\<close> says that it is a binary64 value in
  its unique normal form.\<close>

datatype dbl = DFin bool nat int | DInf bool | DNaN

fun wf_dbl :: "dbl \<Rightarrow> bool" where
  "wf_dbl (DFin s m e) \<longleftrightarrow> m < 2 ^ 53 \<and> -1074 \<le> e \<and> e \<le> 971 \<and> (e = -1074 \<or> 2 ^ 52 \<le> m)"
| "wf_dbl (DInf s) \<longleftrightarrow> True"
| "wf_dbl DNaN \<longleftrightarrow> True"

definition dzero :: dbl where "dzero = DFin False 0 (-1074)"

fun is_nan :: "dbl \<Rightarrow> bool" where
  "is_nan DNaN = True"
| "is_nan _ = False"

fun is_finite :: "dbl \<Rightarrow> bool" where
  "is_finite (DFin s m e) = True"
| "is_finite _ = False"

fun is_inf :: "dbl \<Rightarrow> bool" where
  "is_inf (DInf s) = True"
| "is_inf _ = False"

fun dval :: "dbl \<Rightarrow> real" where
  \<comment> \<open>the number a finite double denotes (for specifications)\<close>
  "dval (DFin s m e) = (if s then -1 else 1) * real m * 2 powi e"
| "dval _ = 0"

section \<open>Comparison\<close>

definition dscale :: "int \<Rightarrow> bool \<Rightarrow> nat \<Rightarrow> int \<Rightarrow> int" where
  \<comment> \<open>the value in units of \<open>2^e0\<close>\<close>
  "dscale e0 s m e = (if s then - int m else int m) * 2 ^ nat (e - e0)"

fun dbl_less :: "dbl \<Rightarrow> dbl \<Rightarrow> bool" where
  "dbl_less (DFin s m e) (DFin s' m' e') =
     (dscale (min e e') s m e < dscale (min e e') s' m' e')"
| "dbl_less (DFin s m e) (DInf s') = (\<not> s')"
| "dbl_less (DInf s) (DFin s' m' e') = s"
| "dbl_less (DInf s) (DInf s') = (s \<and> \<not> s')"
| "dbl_less _ _ = False"

fun dbl_eq :: "dbl \<Rightarrow> dbl \<Rightarrow> bool" where
  "dbl_eq (DFin s m e) (DFin s' m' e') =
     (dscale (min e e') s m e = dscale (min e e') s' m' e')"
| "dbl_eq (DInf s) (DInf s') = (s = s')"
| "dbl_eq _ _ = False"

definition dbl_le :: "dbl \<Rightarrow> dbl \<Rightarrow> bool" where
  "dbl_le x y = (dbl_less x y \<or> dbl_eq x y)"

lemma dscale_dval:
  assumes "e0 \<le> e"
  shows "real_of_int (dscale e0 s m e) * 2 powi e0 = dval (DFin s m e)"
proof -
  have "(2::real) ^ nat (e - e0) * 2 powi e0 = 2 powi int (nat (e - e0)) * 2 powi e0"
    by (simp only: power_int_of_nat)
  also have "\<dots> = 2 powi (int (nat (e - e0)) + e0)"
    by (simp only: power_int_add [of 2] simp_thms numeral_neq_zero not_False_eq_True)
  also have "\<dots> = 2 powi e"
    using assms by simp
  finally have "(2::real) ^ nat (e - e0) * 2 powi e0 = 2 powi e" .
  then show ?thesis
    by (simp add: dscale_def algebra_simps)
qed

lemma dbl_less_dval:
  "is_finite x \<Longrightarrow> is_finite y \<Longrightarrow> dbl_less x y \<longleftrightarrow> dval x < dval y"
proof (cases x; cases y)
  fix s m e s' m' e'
  assume xy: "x = DFin s m e" "y = DFin s' m' e'"
  define e0 where "e0 = min e e'"
  have "dval x = real_of_int (dscale e0 s m e) * 2 powi e0"
    and "dval y = real_of_int (dscale e0 s' m' e') * 2 powi e0"
    using dscale_dval[of e0 e s m] dscale_dval[of e0 e' s' m'] by (simp_all add: xy e0_def)
  moreover have "(0::real) < 2 powi e0" by simp
  ultimately show ?thesis by (simp add: xy flip: e0_def)
qed simp_all

lemma dbl_eq_dval:
  "is_finite x \<Longrightarrow> is_finite y \<Longrightarrow> dbl_eq x y \<longleftrightarrow> dval x = dval y"
proof (cases x; cases y)
  fix s m e s' m' e'
  assume xy: "x = DFin s m e" "y = DFin s' m' e'"
  define e0 where "e0 = min e e'"
  have "dval x = real_of_int (dscale e0 s m e) * 2 powi e0"
    and "dval y = real_of_int (dscale e0 s' m' e') * 2 powi e0"
    using dscale_dval[of e0 e s m] dscale_dval[of e0 e' s' m'] by (simp_all add: xy e0_def)
  moreover have "(0::real) < 2 powi e0" by simp
  ultimately show ?thesis by (simp add: xy flip: e0_def)
qed simp_all

section \<open>Conversion to an integer\<close>

fun dbl_trunc :: "dbl \<Rightarrow> int" where
  \<comment> \<open>the integer part, towards zero, of a finite double\<close>
  "dbl_trunc (DFin s m e) =
     (let a = (if 0 \<le> e then int m * 2 ^ nat e else int m div 2 ^ nat (- e))
      in if s then - a else a)"
| "dbl_trunc _ = 0"

fun dbl_integral :: "dbl \<Rightarrow> bool" where
  \<comment> \<open>\<^verbatim>\<open>modf(d, &i) == 0.0\<close>: an infinity has fractional part 0, NaN has NaN\<close>
  "dbl_integral (DFin s m e) = (0 \<le> e \<or> int m mod 2 ^ nat (- e) = 0)"
| "dbl_integral (DInf s) = True"
| "dbl_integral DNaN = False"

section \<open>Rounding\<close>

fun bitlen :: "nat \<Rightarrow> nat" where
  "bitlen n = (if n = 0 then 0 else Suc (bitlen (n div 2)))"

declare bitlen.simps [simp del]

definition scaled_ge :: "nat \<Rightarrow> nat \<Rightarrow> int \<Rightarrow> nat \<Rightarrow> bool" where
  \<comment> \<open>\<open>n / d \<ge> b^k\<close>\<close>
  "scaled_ge n d k b = (if 0 \<le> k then d * b ^ nat k \<le> n else d \<le> n * b ^ nat (- k))"

definition floor_log2 :: "nat \<Rightarrow> nat \<Rightarrow> int" where
  "floor_log2 n d =
     (let k = int (bitlen n) - int (bitlen d) in if scaled_ge n d k 2 then k else k - 1)"

definition round_half_even :: "nat \<Rightarrow> nat \<Rightarrow> nat" where
  "round_half_even n d =
     (let q = n div d; r = n mod d
      in if d < 2 * r \<or> (2 * r = d \<and> odd q) then q + 1 else q)"

definition round_dbl :: "bool \<Rightarrow> nat \<Rightarrow> nat \<Rightarrow> dbl" where
  \<comment> \<open>the double nearest to \<open>(-1)^s * n / d\<close>, ties to even\<close>
  "round_dbl s n d =
     (if n = 0 then DFin s 0 (-1074)
      else let e = max (-1074) (floor_log2 n d - 52);
               q = round_half_even (if 0 \<le> e then n else n * 2 ^ nat (- e))
                                   (if 0 \<le> e then d * 2 ^ nat e else d);
               m = (if q = 2 ^ 53 then 2 ^ 52 else q);
               f = (if q = 2 ^ 53 then e + 1 else e)
           in if 971 < f then DInf s else DFin s m f)"

definition dbl_of_int :: "int \<Rightarrow> dbl" where
  "dbl_of_int i = round_dbl (i < 0) (nat \<bar>i\<bar>) 1"

definition dbl_of_scaled :: "int \<Rightarrow> int \<Rightarrow> dbl" where
  \<comment> \<open>the double nearest to \<open>z * 2^e\<close>\<close>
  "dbl_of_scaled z e =
     round_dbl (z < 0) (if 0 \<le> e then nat \<bar>z\<bar> * 2 ^ nat e else nat \<bar>z\<bar>)
                       (if 0 \<le> e then 1 else 2 ^ nat (- e))"

fun dbl_add :: "dbl \<Rightarrow> dbl \<Rightarrow> dbl" where
  "dbl_add (DFin s m e) (DFin s' m' e') =
     (if m = 0 \<and> m' = 0 then DFin (s \<and> s') 0 (-1074)
      else dbl_of_scaled (dscale (min e e') s m e + dscale (min e e') s' m' e') (min e e'))"
| "dbl_add (DInf s) (DInf s') = (if s = s' then DInf s else DNaN)"
| "dbl_add DNaN y = DNaN"
| "dbl_add x DNaN = DNaN"
| "dbl_add (DInf s) y = DInf s"
| "dbl_add x (DInf s) = DInf s"

fun dbl_double :: "dbl \<Rightarrow> dbl" where
  \<comment> \<open>\<^verbatim>\<open>d * 2.0\<close>\<close>
  "dbl_double (DFin s m e) =
     round_dbl s (if 0 \<le> e + 1 then m * 2 ^ nat (e + 1) else m)
                 (if 0 \<le> e + 1 then 1 else 2 ^ nat (- (e + 1)))"
| "dbl_double x = x"

definition dbl_max :: dbl where
  "dbl_max = DFin False (2 ^ 53 - 1) 971"

section \<open>Decimal text\<close>

fun show_nat :: "nat \<Rightarrow> string" where
  "show_nat n = (if n < 10 then [digit_chr n] else show_nat (n div 10) @ [digit_chr (n mod 10)])"

declare show_nat.simps [simp del]

fun nat_of_dec :: "nat \<Rightarrow> string \<Rightarrow> nat" where
  "nat_of_dec a [] = a"
| "nat_of_dec a (c # cs) = nat_of_dec (a * 10 + digit_val c) cs"

lemma nat_of_dec_append: "nat_of_dec a (xs @ ys) = nat_of_dec (nat_of_dec a xs) ys"
  by (induction a xs rule: nat_of_dec.induct) auto

lemma show_nat_digits: "c \<in> set (show_nat n) \<Longrightarrow> is_digit c"
proof (induction n rule: show_nat.induct)
  case (1 n)
  then show ?case by (cases "n < 10") (auto simp: show_nat.simps [of n])
qed

lemma nat_of_dec_show_nat: "nat_of_dec 0 (show_nat n) = n"
proof (induction n rule: show_nat.induct)
  case (1 n)
  then show ?case
    by (cases "n < 10") (simp_all add: show_nat.simps [of n] nat_of_dec_append)
qed

lemma show_nat_not_Nil [simp]: "show_nat n \<noteq> []"
  by (subst show_nat.simps) simp

lemma show_nat_hd: "0 < n \<Longrightarrow> hd (show_nat n) \<noteq> CHR ''0''"
proof (induction n rule: show_nat.induct)
  case (1 n)
  show ?case
  proof (cases "n < 10")
    case True
    have "digit_val (CHR ''0'') = 0"
      by (simp add: digit_val_def byte_def)
    then have "digit_chr n \<noteq> CHR ''0''"
      using True 1 by (metis digit_val_digit_chr less_irrefl)
    with True show ?thesis by (simp add: show_nat.simps [of n])
  next
    case False
    with 1 show ?thesis by (simp add: show_nat.simps [of n] hd_append)
  qed
qed

lemma show_nat_0: "show_nat 0 = ''0''"
proof -
  have "byte (chr 48) = byte (CHR ''0'')"
    by (simp only: byte_chr) (simp add: byte_def)
  then show ?thesis by (simp add: show_nat.simps digit_chr_def del: byte_chr_small)
qed

text \<open>
  The text of a number token is \<open>[sign] digits [. digits] [e [sign] digits]\<close>.
  \<^verbatim>\<open>istream >> double\<close> reads all of it and hands it to \<^verbatim>\<open>strtod\<close>: without a mantissa digit
  or with an empty exponent it sets \<^verbatim>\<open>failbit\<close> and stores 0; on overflow it sets
  \<^verbatim>\<open>failbit\<close> and stores the largest finite double with the sign of the text.
\<close>

definition dec_to_dbl :: "bool \<Rightarrow> nat \<Rightarrow> int \<Rightarrow> dbl" where
  \<comment> \<open>the double nearest to \<open>(-1)^s * n * 10^x\<close>\<close>
  "dec_to_dbl s n x =
     round_dbl s (if 0 \<le> x then n * 10 ^ nat x else n) (if 0 \<le> x then 1 else 10 ^ nat (- x))"

definition take_sign :: "string \<Rightarrow> bool \<times> string" where
  "take_sign cs = (case cs of [] \<Rightarrow> (False, [])
     | c # r \<Rightarrow> if c = CHR ''-'' then (True, r) else if c = CHR ''+'' then (False, r) else (False, cs))"

definition istream_double :: "string \<Rightarrow> bool \<times> dbl" where
  \<comment> \<open>whether the extraction succeeds, and the value stored\<close>
  "istream_double tx =
     (let (s, r0) = take_sign tx;
          ip = takeWhile is_digit r0; r1 = dropWhile is_digit r0;
          fp = (if r1 \<noteq> [] \<and> hd r1 = CHR ''.'' then takeWhile is_digit (tl r1) else []);
          r2 = (if r1 \<noteq> [] \<and> hd r1 = CHR ''.'' then dropWhile is_digit (tl r1) else r1);
          has_e = (r2 \<noteq> [] \<and> (hd r2 = CHR ''e'' \<or> hd r2 = CHR ''E''));
          (es, ed) = (if has_e then take_sign (tl r2) else (False, []));
          x = (if es then - int (nat_of_dec 0 ed) else int (nat_of_dec 0 ed))
      in if ip @ fp = [] \<or> (has_e \<and> ed = []) then (False, dzero)
         else (case dec_to_dbl s (nat_of_dec 0 (ip @ fp)) (x - int (length fp)) of
                 DInf s' \<Rightarrow> (False, DFin s' (2 ^ 53 - 1) 971)
               | d \<Rightarrow> (True, d)))"

section \<open>printf\<close>

definition floor_log10 :: "nat \<Rightarrow> nat \<Rightarrow> int" where
  "floor_log10 n d =
     (let k = int (length (show_nat n)) - int (length (show_nat d))
      in if scaled_ge n d k 10 then k else k - 1)"

definition round10 :: "nat \<Rightarrow> nat \<Rightarrow> int \<Rightarrow> nat" where
  \<comment> \<open>\<open>n / d\<close> in units of \<open>10^x\<close>, rounded\<close>
  "round10 n d x =
     round_half_even (if 0 \<le> x then n else n * 10 ^ nat (- x)) (if 0 \<le> x then d * 10 ^ nat x else d)"

definition ratio :: "nat \<Rightarrow> int \<Rightarrow> nat \<times> nat" where
  "ratio m e = (if 0 \<le> e then (m * 2 ^ nat e, 1) else (m, 2 ^ nat (- e)))"

definition place_point :: "nat \<Rightarrow> nat \<Rightarrow> string" where
  \<comment> \<open>the digits of \<open>n / 10^p\<close>, with \<open>p\<close> digits after the point\<close>
  "place_point n p =
     (let ds = show_nat n; ds' = replicate (Suc p - length ds) (CHR ''0'') @ ds; k = length ds' - p
      in if p = 0 then ds' else take k ds' @ ''.'' @ drop k ds')"

definition strip_zeros :: "string \<Rightarrow> string" where
  "strip_zeros s =
     (if CHR ''.'' \<in> set s
      then rev ((\<lambda>r. if r \<noteq> [] \<and> hd r = CHR ''.'' then tl r else r) (dropWhile (\<lambda>c. c = CHR ''0'') (rev s)))
      else s)"

definition show_exp :: "int \<Rightarrow> string" where
  "show_exp x = (if x < 0 then ''e-'' else ''e+'') @
     (if \<bar>x\<bar> < 10 then ''0'' else []) @ show_nat (nat \<bar>x\<bar>)"

definition fmt_f :: "nat \<Rightarrow> bool \<Rightarrow> nat \<Rightarrow> int \<Rightarrow> string" where
  \<comment> \<open>\<^verbatim>\<open>%.pf\<close> of a finite double\<close>
  "fmt_f p s m e =
     (let (n, d) = ratio m e
      in (if s then ''-'' else []) @ place_point (round10 n d (- int p)) p)"

definition fmt_g :: "nat \<Rightarrow> bool \<Rightarrow> nat \<Rightarrow> int \<Rightarrow> string" where
  \<comment> \<open>\<^verbatim>\<open>%.pg\<close> of a finite double\<close>
  "fmt_g p s m e =
     (let P = (if p = 0 then 1 else p); (n, d) = ratio m e; x0 = floor_log10 n d;
          r0 = round10 n d (x0 - int P + 1);
          x = (if m = 0 then 0 else if r0 = 10 ^ P then x0 + 1 else x0);
          r = (if m = 0 then 0 else if r0 = 10 ^ P then 10 ^ (P - 1) else r0)
      in (if s then ''-'' else []) @
         (if -4 \<le> x \<and> x < int P then strip_zeros (place_point r (nat (int P - 1 - x)))
          else strip_zeros (place_point r (P - 1)) @ show_exp x))"

section \<open>Facts about truncation\<close>

lemma dbl_trunc_floor:
  "dbl_trunc (DFin s m e) = (if s then - \<lfloor>real m * 2 powi e\<rfloor> else \<lfloor>real m * 2 powi e\<rfloor>)"
proof -
  have "(if 0 \<le> e then int m * 2 ^ nat e else int m div 2 ^ nat (- e)) = \<lfloor>real m * 2 powi e\<rfloor>"
  proof (cases "0 \<le> e")
    case True
    then have "real m * 2 powi e = of_int (int m * 2 ^ nat e)"
      by (simp add: power_int_def)
    then have "\<lfloor>real m * 2 powi e\<rfloor> = int m * 2 ^ nat e"
      by (simp only: floor_of_int)
    with True show ?thesis by simp
  next
    case False
    then have "real m * 2 powi e = of_int (int m) / of_int (2 ^ nat (- e))"
      by (simp add: power_int_def field_simps power_one_over)
    then have "\<lfloor>real m * 2 powi e\<rfloor> = int m div 2 ^ nat (- e)"
      by (simp only: floor_divide_of_int_eq)
    with False show ?thesis by simp
  qed
  then show ?thesis by (simp add: Let_def)
qed

lemma dbl_trunc_lower:
  assumes "is_finite d" "of_int a \<le> dval d"
  shows "a \<le> dbl_trunc d"
proof (cases d)
  case (DFin s m e)
  let ?x = "real m * 2 powi e"
  show ?thesis
  proof (cases s)
    case True
    then have "?x \<le> of_int (- a)" using assms DFin by simp
    then have "\<lfloor>?x\<rfloor> \<le> - a" by linarith
    with True DFin show ?thesis by (simp add: dbl_trunc_floor del: dbl_trunc.simps)
  next
    case False
    then have "of_int a \<le> ?x" using assms DFin by simp
    with False DFin show ?thesis by (simp add: dbl_trunc_floor le_floor_iff del: dbl_trunc.simps)
  qed
qed (use assms in simp_all)

lemma dbl_trunc_upper:
  assumes "is_finite d" "dval d \<le> of_int b"
  shows "dbl_trunc d \<le> b"
proof (cases d)
  case (DFin s m e)
  let ?x = "real m * 2 powi e"
  show ?thesis
  proof (cases s)
    case True
    then have "of_int (- b) \<le> ?x" using assms DFin by simp
    then have "- b \<le> \<lfloor>?x\<rfloor>" by (simp only: le_floor_iff)
    with True DFin show ?thesis by (simp add: dbl_trunc_floor del: dbl_trunc.simps)
  next
    case False
    then have "?x \<le> of_int b" using assms DFin by simp
    then have "\<lfloor>?x\<rfloor> \<le> b" by linarith
    with False DFin show ?thesis by (simp add: dbl_trunc_floor del: dbl_trunc.simps)
  qed
qed (use assms in simp_all)

lemma dbl_trunc_less:
  assumes "is_finite d" "0 \<le> dval d" "dval d < of_int b"
  shows "dbl_trunc d < b"
proof (cases d)
  case (DFin s m e)
  let ?x = "real m * 2 powi e"
  have pos: "0 \<le> ?x" by simp
  show ?thesis
  proof (cases s)
    case True
    then have "?x = 0" using assms DFin pos by simp
    then have "\<lfloor>?x\<rfloor> = 0" by simp
    moreover have "0 < b" using assms by linarith
    ultimately show ?thesis using True DFin by (simp add: dbl_trunc_floor del: dbl_trunc.simps)
  next
    case False
    then have "?x < of_int b" using assms DFin by simp
    with False DFin show ?thesis by (simp add: dbl_trunc_floor floor_less_iff del: dbl_trunc.simps)
  qed
qed (use assms in simp_all)

end
