(* ===== verification/Json_Text.thy ===== *)
theory Json_Text
  imports Prelude Dbl
begin

unbundle bit_operations_syntax

text \<open>
  Numbers and characters as text: src/json_tool.h (\<^verbatim>\<open>codePointToUTF8\<close>, \<^verbatim>\<open>uintToString\<close>,
  \<^verbatim>\<open>fixNumericLocale\<close>, \<^verbatim>\<open>fixZerosInTheEnd\<close>) and the \<^verbatim>\<open>valueToString\<close> functions of
  src/json_writer.cc. The theorems: a decimal text denotes the integer it was printed from
  and fits the fixed buffer; the snprintf retry loop ends with the whole text.
\<close>

section \<open>Code points to UTF-8\<close>

definition wchr :: "uint32 \<Rightarrow> char" where
  \<comment> \<open>\<^verbatim>\<open>static_cast<char>(x)\<close>\<close>
  "wchr w = chr (unat w)"

definition code_point_to_utf8 :: "uint32 \<Rightarrow> string" where
  "code_point_to_utf8 cp =
     (if cp \<le> 0x7f then [wchr cp]
      else if cp \<le> 0x7FF then
        [wchr (0xC0 OR (0x1f AND drop_bit 6 cp)), wchr (0x80 OR (0x3f AND cp))]
      else if cp \<le> 0xFFFF then
        [wchr (0xE0 OR (0xf AND drop_bit 12 cp)), wchr (0x80 OR (0x3f AND drop_bit 6 cp)),
         wchr (0x80 OR (0x3f AND cp))]
      else if cp \<le> 0x10FFFF then
        [wchr (0xF0 OR (0x7 AND drop_bit 18 cp)), wchr (0x80 OR (0x3f AND drop_bit 12 cp)),
         wchr (0x80 OR (0x3f AND drop_bit 6 cp)), wchr (0x80 OR (0x3f AND cp))]
      else [])"

text \<open>The same bytes by arithmetic.\<close>

definition utf8_bytes :: "nat \<Rightarrow> nat list" where
  "utf8_bytes n =
     (if n \<le> 0x7f then [n]
      else if n \<le> 0x7FF then [192 + n div 64, 128 + n mod 64]
      else if n \<le> 0xFFFF then [224 + n div 4096, 128 + n div 64 mod 64, 128 + n mod 64]
      else if n \<le> 0x10FFFF then
        [240 + n div 262144, 128 + n div 4096 mod 64, 128 + n div 64 mod 64, 128 + n mod 64]
      else [])"

lemma unat_or_and_mask:
  fixes w :: uint32
  assumes "b = push_bit k c" "k + 1 \<le> 32"
  shows "unat (b OR (mask k AND w)) = unat b + unat w mod 2 ^ k"
proof -
  have d: "b AND (mask k AND w) = 0"
    by (rule bit_eqI) (auto simp: assms(1) bit_simps)
  have "unat (b OR (mask k AND w)) = unat b OR unat (mask k AND w)"
    by (simp add: unsigned_or_eq)
  also have "\<dots> = unat b + unat (mask k AND w)"
  proof -
    have "unat b AND unat (mask k AND w) = 0"
      using d by (metis unsigned_0 unsigned_and_eq)
    then show ?thesis
      by (simp add: disjunctive_add_eq_or)
  qed
  also have "unat (mask k AND w) = unat w mod 2 ^ k"
  proof -
    have "mask k AND w = take_bit k w"
      by (simp only: take_bit_eq_mask and.commute)
    then have "unat (mask k AND w) = take_bit k (unat w)"
      by (simp only: unsigned_take_bit_eq)
    then show ?thesis by (simp only: take_bit_eq_mod)
  qed
  finally show ?thesis .
qed

lemma unat_utf8_bits:
  fixes w :: uint32
  shows "unat (0x80 OR (0x3f AND w)) = 128 + unat w mod 64"
    and "unat (0xC0 OR (0x1f AND w)) = 192 + unat w mod 32"
    and "unat (0xE0 OR (0xf AND w)) = 224 + unat w mod 16"
    and "unat (0xF0 OR (0x7 AND w)) = 240 + unat w mod 8"
  using unat_or_and_mask [of "0x80" 6 2 w] unat_or_and_mask [of "0xC0" 5 6 w]
    unat_or_and_mask [of "0xE0" 4 14 w] unat_or_and_mask [of "0xF0" 3 30 w]
  by (simp_all add: mask_eq_exp_minus_1)

lemma unat_drop_bit: "unat (drop_bit k (w :: uint32)) = unat w div 2 ^ k"
  by (simp only: unat_drop_bit_eq) (simp only: drop_bit_eq_div)

lemma code_point_to_utf8_bytes: "code_point_to_utf8 cp = map chr (utf8_bytes (unat cp))"
proof -
  have le: "cp \<le> 0x7f \<longleftrightarrow> unat cp \<le> 0x7f" "cp \<le> 0x7FF \<longleftrightarrow> unat cp \<le> 0x7FF"
    "cp \<le> 0xFFFF \<longleftrightarrow> unat cp \<le> 0xFFFF" "cp \<le> 0x10FFFF \<longleftrightarrow> unat cp \<le> 0x10FFFF"
    by (simp_all add: word_le_nat_alt)
  have "n \<le> 0x7FF \<Longrightarrow> n div 64 mod 32 = n div 64" for n :: nat by simp
  moreover have "n \<le> 0xFFFF \<Longrightarrow> n div 4096 mod 16 = n div 4096" for n :: nat by simp
  moreover have "n \<le> 0x10FFFF \<Longrightarrow> n div 262144 mod 8 = n div 262144" for n :: nat by simp
  ultimately show ?thesis
    by (simp add: code_point_to_utf8_def utf8_bytes_def le wchr_def unat_utf8_bits unat_drop_bit)
qed

lemma utf8_bytes_less_256: "b \<in> set (utf8_bytes n) \<Longrightarrow> b < 256"
  by (auto simp: utf8_bytes_def split: if_splits)

lemma length_code_point_to_utf8: "length (code_point_to_utf8 cp) \<le> 4"
  by (simp add: code_point_to_utf8_def)

section \<open>Unsigned integers\<close>

text \<open>
  \<^verbatim>\<open>uintToString\<close> writes backwards from \<^verbatim>\<open>current\<close> into a buffer of 25 characters; the
  model keeps the text from \<^verbatim>\<open>current\<close> to the end of the buffer.
\<close>

definition uint_to_string_buffer_size :: nat where
  "uint_to_string_buffer_size = 3 * 8 + 1"

lemma unat_numeral_10_64 [simp]: "unat (10 :: uint64) = 10"
  by simp

lemma unat_div_10_less: "v div 10 \<noteq> 0 \<Longrightarrow> unat (v div 10 :: uint64) < unat v"
proof -
  assume "v div 10 \<noteq> 0"
  then have "unat v div 10 \<noteq> 0"
    by (metis unat_div unat_eq_zero unat_numeral_10_64)
  then show ?thesis by (simp add: unat_div)
qed

function uint_to_string_loop :: "uint64 \<Rightarrow> string \<Rightarrow> string" where
  "uint_to_string_loop v cur =
     (let cur' = chr (unat (v mod 10) + 48) # cur; v' = v div 10
      in if v' \<noteq> 0 then uint_to_string_loop v' cur' else cur')"
  by pat_completeness auto
termination
  by (relation "measure (\<lambda>(v, _). unat v)") (auto intro: unat_div_10_less)

declare uint_to_string_loop.simps [simp del]

definition uint_to_string :: "uint64 \<Rightarrow> string" where
  \<comment> \<open>the C string at \<^verbatim>\<open>current\<close> after the call, without its terminator\<close>
  "uint_to_string v = uint_to_string_loop v []"

lemma uint_to_string_loop_show_nat: "uint_to_string_loop v cur = show_nat (unat v) @ cur"
proof (induction v cur rule: uint_to_string_loop.induct)
  case (1 v cur)
  have d: "chr (unat (v mod 10) + 48) = digit_chr (unat v mod 10)"
    by (simp add: digit_chr_def unat_mod)
  have q: "unat (v div 10) = unat v div 10"
    by (simp only: unat_div unat_numeral_10_64)
  have z: "v div 10 = 0 \<longleftrightarrow> unat v < 10"
    using q by (metis div_eq_0_iff unat_eq_zero zero_neq_numeral)
  show ?case
  proof (cases "v div 10 = 0")
    case True
    with z d show ?thesis by (simp add: uint_to_string_loop.simps [of v] show_nat.simps [of "unat v"])
  next
    case False
    with False "1.IH" [OF refl refl] z d q show ?thesis
      by (simp add: uint_to_string_loop.simps [of v] show_nat.simps [of "unat v"])
  qed
qed

lemma uint_to_string_show_nat: "uint_to_string v = show_nat (unat v)"
  by (simp add: uint_to_string_def uint_to_string_loop_show_nat)

lemma length_show_nat_le: "n < 10 ^ Suc k \<Longrightarrow> length (show_nat n) \<le> Suc k"
proof (induction k arbitrary: n)
  case 0
  then show ?case by (subst show_nat.simps) simp
next
  case (Suc k)
  have "n div 10 < 10 ^ Suc k"
    using Suc.prems by (simp add: less_mult_imp_div_less mult.commute)
  from Suc.IH [OF this] show ?case by (subst show_nat.simps) simp
qed

lemma length_uint_to_string: "length (uint_to_string v) \<le> 20"
proof -
  have "unat v < 10 ^ Suc 19"
    using unsigned_less [of v, where ?'a = nat] by simp
  from length_show_nat_le [OF this] show ?thesis by (simp add: uint_to_string_show_nat)
qed

section \<open>\<^verbatim>\<open>valueToString\<close>\<close>

definition min_largest_int :: int64 where "min_largest_int = 0x8000000000000000"
definition max_largest_int :: int64 where "max_largest_int = 0x7FFFFFFFFFFFFFFF"

definition value_to_string_int :: "int64 \<Rightarrow> string" where
  "value_to_string_int v =
     (if v = min_largest_int then CHR ''-'' # uint_to_string (max_largest_int + 1)
      else if sint v < 0 then CHR ''-'' # uint_to_string (- v)
      else uint_to_string v)"

definition value_to_string_uint :: "uint64 \<Rightarrow> string" where
  "value_to_string_uint v = uint_to_string v"

definition value_to_string_bool :: "bool \<Rightarrow> string" where
  "value_to_string_bool b = (if b then ''true'' else ''false'')"

definition fix_numeric_locale :: "string \<Rightarrow> string" where
  \<comment> \<open>the buffer after the call; the iterator returned is its end\<close>
  "fix_numeric_locale buf = map (\<lambda>c. if c = CHR '','' then CHR ''.'' else c) buf"

fun fix_zeros_loop :: "nat \<Rightarrow> string \<Rightarrow> string" where
  \<comment> \<open>the argument is \<open>[begin, end)\<close> reversed, the result \<open>[begin, returned iterator)\<close> reversed\<close>
  "fix_zeros_loop precision [] = []"
| "fix_zeros_loop precision (c # r) =
     (if c \<noteq> CHR ''0'' then c # r
      else if r \<noteq> [] \<and> tl r \<noteq> [] \<and> hd r = CHR ''.'' then (if precision \<noteq> 0 then c # r else tl r)
      else fix_zeros_loop precision r)"

definition fix_zeros_in_the_end :: "string \<Rightarrow> nat \<Rightarrow> string" where
  "fix_zeros_in_the_end buf precision = rev (fix_zeros_loop precision (rev buf))"

datatype precision_type = significantDigits | decimalPlaces

definition dbl_text :: "precision_type \<Rightarrow> nat \<Rightarrow> bool \<Rightarrow> nat \<Rightarrow> int \<Rightarrow> string" where
  \<comment> \<open>what the format prints, without the limit of the buffer\<close>
  "dbl_text pt precision s m e =
     (case pt of significantDigits \<Rightarrow> fmt_g precision s m e | decimalPlaces \<Rightarrow> fmt_f precision s m e)"

function print_into :: "nat \<Rightarrow> string \<Rightarrow> string" where
  \<comment> \<open>the \<^verbatim>\<open>while (true)\<close> loop: \<^verbatim>\<open>snprintf\<close> into a buffer of that size, retried when it was cut\<close>
  "print_into n str =
     (let would_print = length str
      in if n \<le> would_print then print_into (would_print + 1) str else take would_print str)"
  by pat_completeness auto
termination
  by (relation "measure (\<lambda>(n, str). length str + 1 - n)") auto

declare print_into.simps [simp del]

lemma print_into_text [simp]: "print_into n str = str"
  by (induction n str rule: print_into.induct) (subst print_into.simps, auto simp: Let_def)

definition value_to_string_dbl_full :: "dbl \<Rightarrow> bool \<Rightarrow> nat \<Rightarrow> precision_type \<Rightarrow> string" where
  "value_to_string_dbl_full v useSpecialFloats precision pt =
     (case v of
        DNaN \<Rightarrow> if useSpecialFloats then ''NaN'' else ''null''
      | DInf s \<Rightarrow>
          if s then (if useSpecialFloats then ''-Infinity'' else ''-1e+9999'')
          else (if useSpecialFloats then ''Infinity'' else ''1e+9999'')
      | DFin s m e \<Rightarrow>
          (let b0 = print_into 36 (dbl_text pt precision s m e);
               b1 = fix_numeric_locale b0;
               b2 = (if CHR ''.'' \<notin> set b1 \<and> CHR ''e'' \<notin> set b1 then b1 @ ''.0'' else b1)
           in if pt = decimalPlaces then fix_zeros_in_the_end b2 precision else b2))"

definition default_real_precision :: nat where "default_real_precision = 17"

definition value_to_string_dbl :: "dbl \<Rightarrow> nat \<Rightarrow> precision_type \<Rightarrow> string" where
  "value_to_string_dbl v precision pt = value_to_string_dbl_full v False precision pt"

section \<open>The printed integers\<close>

lemma uint64_sint: "uint (v :: int64) = sint v mod 2 ^ 64"
  by (simp add: uint_sint take_bit_eq_mod)

lemma sint64_bounds: "- (2 ^ 63) \<le> sint (v :: int64)" "sint (v :: int64) < 2 ^ 63"
  using sint_ge [of v] sint_lt [of v] by simp_all

lemma unat_sint_nonneg: "0 \<le> sint (v :: int64) \<Longrightarrow> unat v = nat (sint v)"
  using sint64_bounds [of v] by (simp add: unat_eq_nat_uint uint64_sint)

lemma unat_uminus_sint_neg:
  assumes "sint (v :: int64) < 0"
  shows "unat (- v) = nat (- sint v)"
proof -
  have "uint (- v) = (- uint v) mod 2 ^ 64"
    by (simp add: uint_word_ariths)
  also have "\<dots> = (- sint v) mod 2 ^ 64"
    by (simp only: uint64_sint mod_minus_eq)
  also have "\<dots> = - sint v"
    using assms sint64_bounds [of v] by simp
  finally show ?thesis by (simp add: unat_eq_nat_uint)
qed

lemma value_to_string_int_show:
  "value_to_string_int v =
     (if sint v < 0 then CHR ''-'' # show_nat (nat (- sint v)) else show_nat (nat (sint v)))"
proof -
  have "max_largest_int + 1 = - min_largest_int"
    by (simp add: max_largest_int_def min_largest_int_def)
  moreover have "sint min_largest_int < 0"
    by (simp add: min_largest_int_def)
  ultimately show ?thesis
    by (auto simp: value_to_string_int_def uint_to_string_show_nat unat_uminus_sint_neg unat_sint_nonneg)
qed

lemma value_to_string_uint_show: "value_to_string_uint v = show_nat (unat v)"
  by (simp add: value_to_string_uint_def uint_to_string_show_nat)

text \<open>Sign, digits and terminator fit the stack buffer of \<^verbatim>\<open>valueToString\<close>.\<close>

lemma value_to_string_int_fits: "length (value_to_string_int v) + 1 \<le> uint_to_string_buffer_size"
  using length_uint_to_string [of v] length_uint_to_string [of "- v"]
    length_uint_to_string [of "max_largest_int + 1"]
  by (simp add: value_to_string_int_def uint_to_string_buffer_size_def)

lemma show_nat_inject: "show_nat m = show_nat n \<longleftrightarrow> m = n"
  by (metis nat_of_dec_show_nat)

lemma minus_byte_not_digit: "\<not> 48 \<le> byte (CHR ''-'')"
  by (simp add: byte_def)

lemma show_nat_no_sign: "CHR ''-'' # s \<noteq> show_nat n"
  using show_nat_digits [of "CHR ''-''" n]
  by (metis is_digit_def list.set_intros(1) minus_byte_not_digit)

lemma value_to_string_int_inject: "value_to_string_int v = value_to_string_int w \<longleftrightarrow> v = w"
proof -
  have "sint v = sint w \<longleftrightarrow> v = w" by (rule word_eq_iff_signed [symmetric])
  then show ?thesis
    using show_nat_no_sign show_nat_no_sign [symmetric]
    by (auto simp: value_to_string_int_show show_nat_inject split: if_splits)
qed

end
