(* ===== verification/Json_Value.thy ===== *)
theory Json_Value
  imports OMap Json_Text
begin

text \<open>
  \<^verbatim>\<open>Json::Value\<close> (include/json/value.h, src/json_value.cc): the tagged union with its
  comments and source offsets, its constructors, comparisons, conversions, and the
  operations on arrays and objects. A value owns its strings and its map, so a deep copy is
  the value itself and no aliasing can be observed; a function that returns a reference to
  a member is modelled by the container with that member created, the member being read
  and replaced by key.
\<close>

section \<open>Types\<close>

datatype value_type =
    nullValue | intValue | uintValue | realValue | stringValue | booleanValue | arrayValue | objectValue

fun value_type_index :: "value_type \<Rightarrow> nat" where
  "value_type_index nullValue = 0"
| "value_type_index intValue = 1"
| "value_type_index uintValue = 2"
| "value_type_index realValue = 3"
| "value_type_index stringValue = 4"
| "value_type_index booleanValue = 5"
| "value_type_index arrayValue = 6"
| "value_type_index objectValue = 7"

lemma value_type_index_inject [simp]: "value_type_index s = value_type_index t \<longleftrightarrow> s = t"
  by (cases s; cases t) simp_all

instantiation value_type :: linorder
begin

definition less_eq_value_type :: "value_type \<Rightarrow> value_type \<Rightarrow> bool" where
  "s \<le> t \<longleftrightarrow> value_type_index s \<le> value_type_index t"

definition less_value_type :: "value_type \<Rightarrow> value_type \<Rightarrow> bool" where
  "s < t \<longleftrightarrow> value_type_index s < value_type_index t"

instance
  by standard (auto simp: less_eq_value_type_def less_value_type_def)

end

datatype comment_placement = commentBefore | commentAfterOnSameLine | commentAfter

record comments =
  c_before :: string
  c_same_line :: string
  c_after :: string

text \<open>What a \<^verbatim>\<open>Value\<close> holds beside its payload: \<^verbatim>\<open>comments_\<close> (a null pointer or the
  three texts), \<^verbatim>\<open>start_\<close> and \<^verbatim>\<open>limit_\<close>.\<close>

record vmeta =
  v_comments :: "comments option"
  v_start :: int
  v_limit :: int

definition meta0 :: vmeta where
  "meta0 = \<lparr>v_comments = None, v_start = 0, v_limit = 0\<rparr>"

datatype json =
    JNull (meta: vmeta)
  | JInt (meta: vmeta) int64
  | JUInt (meta: vmeta) uint64
  | JReal (meta: vmeta) dbl
  | JStr (meta: vmeta) string
  | JBool (meta: vmeta) bool
  | JArr (meta: vmeta) "(uint32 \<times> json) list"
  | JObj (meta: vmeta) "(string \<times> json) list"

fun type_of :: "json \<Rightarrow> value_type" where
  "type_of (JNull _) = nullValue"
| "type_of (JInt _ _) = intValue"
| "type_of (JUInt _ _) = uintValue"
| "type_of (JReal _ _) = realValue"
| "type_of (JStr _ _) = stringValue"
| "type_of (JBool _ _) = booleanValue"
| "type_of (JArr _ _) = arrayValue"
| "type_of (JObj _ _) = objectValue"

section \<open>Keys\<close>

text \<open>
  \<^verbatim>\<open>CZString\<close>: an array index or a string. The string's length lives in a bit field of 30
  bits, so a key is cut to its length modulo \<open>2^30\<close>. The order is \<^verbatim>\<open>memcmp\<close> on the
  common length, then the length.
\<close>

definition czstring :: "string \<Rightarrow> string" where
  "czstring s = take (nat (int (length s) mod 2 ^ 30)) s"

fun memcmp :: "nat \<Rightarrow> string \<Rightarrow> string \<Rightarrow> int" where
  "memcmp 0 a b = 0"
| "memcmp (Suc n) (x # a) (y # b) =
     (if byte x < byte y then -1 else if byte y < byte x then 1 else memcmp n a b)"
| "memcmp (Suc n) _ _ = 0"

definition czstring_less :: "string \<Rightarrow> string \<Rightarrow> bool" where
  "czstring_less a b =
     (let c = memcmp (min (length a) (length b)) a b
      in if c < 0 then True else if c > 0 then False else length a < length b)"

definition czstring_eq :: "string \<Rightarrow> string \<Rightarrow> bool" where
  "czstring_eq a b = (if length a \<noteq> length b then False else memcmp (length a) a b = 0)"

text \<open>The order of the map's keys is the lexicographic order on byte strings.\<close>

lemma czstring_less_lex: "czstring_less a b \<longleftrightarrow> a < b"
proof (induction a arbitrary: b)
  case Nil
  then show ?case by (cases b) (simp_all add: czstring_less_def)
next
  case (Cons x a)
  show ?case
  proof (cases b)
    case Nil
    then show ?thesis by (simp add: czstring_less_def)
  next
    case (Cons y b')
    with Cons.IH [of b'] show ?thesis
      by (auto simp: czstring_less_def Let_def byte_less_iff)
  qed
qed

lemma czstring_eq_iff: "czstring_eq a b \<longleftrightarrow> a = b"
proof -
  have "length a = length b \<Longrightarrow> memcmp (length a) a b = 0 \<longleftrightarrow> a = b"
    by (induction a b rule: list_induct2) (auto simp: not_less_iff_gr_or_eq byte_less_iff)
  then show ?thesis by (auto simp: czstring_eq_def)
qed

lemma czstring_id: "length s < 2 ^ 30 \<Longrightarrow> czstring s = s"
  by (simp add: czstring_def nat_mod_distrib)

definition c_str :: "string \<Rightarrow> string" where
  \<comment> \<open>what \<^verbatim>\<open>strlen\<close> sees of a \<^verbatim>\<open>const char*\<close>\<close>
  "c_str s = takeWhile (\<lambda>c. c \<noteq> NUL) s"

section \<open>Construction, copy and swap\<close>

primrec set_meta :: "vmeta \<Rightarrow> json \<Rightarrow> json" where
  "set_meta m (JNull _) = JNull m"
| "set_meta m (JInt _ i) = JInt m i"
| "set_meta m (JUInt _ i) = JUInt m i"
| "set_meta m (JReal _ d) = JReal m d"
| "set_meta m (JStr _ s) = JStr m s"
| "set_meta m (JBool _ b) = JBool m b"
| "set_meta m (JArr _ xs) = JArr m xs"
| "set_meta m (JObj _ xs) = JObj m xs"

lemma set_meta_simps [simp]:
  "meta (set_meta m v) = m"
  "type_of (set_meta m v) = type_of v"
  "set_meta (meta v) v = v"
  "set_meta m (set_meta m' v) = set_meta m v"
  by (cases v; simp)+

definition null_singleton :: json where
  "null_singleton = JNull meta0"

fun mk_type :: "value_type \<Rightarrow> json" where
  \<comment> \<open>\<^verbatim>\<open>Value(ValueType)\<close>\<close>
  "mk_type nullValue = JNull meta0"
| "mk_type intValue = JInt meta0 0"
| "mk_type uintValue = JUInt meta0 0"
| "mk_type realValue = JReal meta0 dzero"
| "mk_type stringValue = JStr meta0 []"
| "mk_type booleanValue = JBool meta0 False"
| "mk_type arrayValue = JArr meta0 []"
| "mk_type objectValue = JObj meta0 []"

definition mk_int :: "int32 \<Rightarrow> json" where "mk_int i = JInt meta0 (scast i)"
definition mk_uint :: "uint32 \<Rightarrow> json" where "mk_uint i = JUInt meta0 (ucast i)"
definition mk_int64 :: "int64 \<Rightarrow> json" where "mk_int64 i = JInt meta0 i"
definition mk_uint64 :: "uint64 \<Rightarrow> json" where "mk_uint64 i = JUInt meta0 i"
definition mk_real :: "dbl \<Rightarrow> json" where "mk_real d = JReal meta0 d"
definition mk_bool :: "bool \<Rightarrow> json" where "mk_bool b = JBool meta0 b"

definition duplicate_and_prefix :: "string \<Rightarrow> string res" where
  \<comment> \<open>\<^verbatim>\<open>duplicateAndPrefixStringValue\<close>; the length argument is an \<^verbatim>\<open>unsigned\<close>\<close>
  "duplicate_and_prefix s =
     (let n = int (length s) mod 2 ^ 32
      in json_assert (n \<le> 2147483647 - 4 - 1)
           ''in Json::Value::duplicateAndPrefixStringValue(): length too big for prefixing''
           (Inr (take (nat n) s)))"

definition mk_string :: "string \<Rightarrow> json res" where
  \<comment> \<open>\<^verbatim>\<open>Value(const String&)\<close>\<close>
  "mk_string s = bind_res (duplicate_and_prefix s) (\<lambda>t. Inr (JStr meta0 t))"

definition mk_cstring :: "string \<Rightarrow> json res" where
  \<comment> \<open>\<^verbatim>\<open>Value(const char*)\<close>\<close>
  "mk_cstring s = bind_res (duplicate_and_prefix (c_str s)) (\<lambda>t. Inr (JStr meta0 t))"

lemma mk_string_small: "length s < 2147483643 \<Longrightarrow> mk_string s = Inr (JStr meta0 s)"
  by (simp add: mk_string_def duplicate_and_prefix_def Let_def)

definition swap_payload :: "json \<Rightarrow> json \<Rightarrow> json \<times> json" where
  "swap_payload this other = (set_meta (meta this) other, set_meta (meta other) this)"

definition swap_value :: "json \<Rightarrow> json \<Rightarrow> json \<times> json" where
  "swap_value this other = (other, this)"

definition copy_payload :: "json \<Rightarrow> json \<Rightarrow> json" where
  \<comment> \<open>\<^verbatim>\<open>this->copyPayload(other)\<close>\<close>
  "copy_payload this other = set_meta (meta this) other"

definition set_offset_start :: "int \<Rightarrow> json \<Rightarrow> json" where
  "set_offset_start n v = set_meta ((meta v)\<lparr>v_start := n\<rparr>) v"

definition set_offset_limit :: "int \<Rightarrow> json \<Rightarrow> json" where
  "set_offset_limit n v = set_meta ((meta v)\<lparr>v_limit := n\<rparr>) v"

section \<open>Predicates and size\<close>

definition is_null :: "json \<Rightarrow> bool" where "is_null v \<longleftrightarrow> type_of v = nullValue"
definition is_bool :: "json \<Rightarrow> bool" where "is_bool v \<longleftrightarrow> type_of v = booleanValue"
definition is_string :: "json \<Rightarrow> bool" where "is_string v \<longleftrightarrow> type_of v = stringValue"
definition is_array :: "json \<Rightarrow> bool" where "is_array v \<longleftrightarrow> type_of v = arrayValue"
definition is_object :: "json \<Rightarrow> bool" where "is_object v \<longleftrightarrow> type_of v = objectValue"
definition is_double :: "json \<Rightarrow> bool" where
  "is_double v \<longleftrightarrow> type_of v = intValue \<or> type_of v = uintValue \<or> type_of v = realValue"
definition is_numeric :: "json \<Rightarrow> bool" where "is_numeric v \<longleftrightarrow> is_double v"

fun size_of :: "json \<Rightarrow> uint32" where
  \<comment> \<open>an array's size is its highest index + 1\<close>
  "size_of (JArr _ m) = (if m \<noteq> [] then fst (last m) + 1 else 0)"
| "size_of (JObj _ m) = of_nat (length m)"
| "size_of _ = 0"

definition is_empty_value :: "json \<Rightarrow> bool" where
  "is_empty_value v \<longleftrightarrow> (is_null v \<or> is_array v \<or> is_object v) \<and> size_of v = 0"

definition json_bool :: "json \<Rightarrow> bool" where
  \<comment> \<open>\<^verbatim>\<open>operator bool\<close>\<close>
  "json_bool v \<longleftrightarrow> \<not> is_null v"

end
