(* ===== verification/Json_Convert.thy ===== *)
theory Json_Convert
  imports Json_Value
begin

unbundle bit_operations_syntax

text \<open>
  Conversions of \<^verbatim>\<open>Json::Value\<close> (src/json_value.cc): \<^verbatim>\<open>asString\<close> ... \<^verbatim>\<open>asBool\<close>,
  \<^verbatim>\<open>isInt\<close> ... \<^verbatim>\<open>isIntegral\<close>, \<^verbatim>\<open>isConvertibleTo\<close>. A conversion of a double to an
  integer type that cannot hold its integer part is undefined behaviour in C++ and is the
  value \<open>Undef\<close> here. The theorems: every successful conversion keeps the number; the
  32-bit conversions never reach undefined behaviour, the 64-bit ones do exactly at the
  upper limit.
\<close>

section \<open>Limits\<close>

definition min_int :: int where "min_int = -2147483648"
definition max_int :: int where "max_int = 2147483647"
definition max_uint :: int where "max_uint = 4294967295"
definition min_int64 :: int where "min_int64 = -9223372036854775808"
definition max_int64 :: int where "max_int64 = 9223372036854775807"
definition max_uint64 :: int where "max_uint64 = 18446744073709551615"

definition max_uint64_as_double :: dbl where
  \<comment> \<open>the literal 18446744073709551615.0\<close>
  "max_uint64_as_double = dbl_of_int 18446744073709551615"

definition integer_to_double_u64 :: "uint64 \<Rightarrow> dbl" where
  "integer_to_double_u64 v =
     dbl_add (dbl_double (dbl_of_int (sint (v div 2)))) (dbl_of_int (sint (v AND 1)))"

definition integer_to_double :: "int \<Rightarrow> dbl" where
  \<comment> \<open>the template, for the integer types other than \<^verbatim>\<open>UInt64\<close>\<close>
  "integer_to_double i = dbl_of_int i"

definition in_range :: "dbl \<Rightarrow> dbl \<Rightarrow> dbl \<Rightarrow> bool" where
  "in_range d lo hi \<longleftrightarrow> dbl_le lo d \<and> dbl_le d hi"

definition cast_dbl :: "int \<Rightarrow> int \<Rightarrow> dbl \<Rightarrow> int res" where
  \<comment> \<open>the C++ conversion of a double to an integer type with these limits\<close>
  "cast_dbl lo hi d =
     (if is_finite d \<and> lo \<le> dbl_trunc d \<and> dbl_trunc d \<le> hi then Inr (dbl_trunc d)
      else Inl (Undef ''floating-point to integer conversion out of range''))"

section \<open>\<^verbatim>\<open>isInt\<close> and its kin\<close>

fun is_int :: "json \<Rightarrow> bool" where
  "is_int (JInt _ i) = (min_int \<le> sint i \<and> sint i \<le> max_int)"
| "is_int (JUInt _ u) = (uint u \<le> max_int)"
| "is_int (JReal _ d) =
     (dbl_le (dbl_of_int min_int) d \<and> dbl_le d (dbl_of_int max_int) \<and> dbl_integral d)"
| "is_int _ = False"

fun is_uint :: "json \<Rightarrow> bool" where
  "is_uint (JInt _ i) = (0 \<le> sint i \<and> uint i \<le> max_uint)"
| "is_uint (JUInt _ u) = (uint u \<le> max_uint)"
| "is_uint (JReal _ d) =
     (dbl_le dzero d \<and> dbl_le d (dbl_of_int max_uint) \<and> dbl_integral d)"
| "is_uint _ = False"

fun is_int64 :: "json \<Rightarrow> bool" where
  "is_int64 (JInt _ i) = True"
| "is_int64 (JUInt _ u) = (uint u \<le> max_int64)"
| "is_int64 (JReal _ d) =
     (dbl_le (dbl_of_int min_int64) d \<and> dbl_less d (dbl_of_int max_int64) \<and> dbl_integral d)"
| "is_int64 _ = False"

fun is_uint64 :: "json \<Rightarrow> bool" where
  "is_uint64 (JInt _ i) = (0 \<le> sint i)"
| "is_uint64 (JUInt _ u) = True"
| "is_uint64 (JReal _ d) =
     (dbl_le dzero d \<and> dbl_less d max_uint64_as_double \<and> dbl_integral d)"
| "is_uint64 _ = False"

fun is_integral :: "json \<Rightarrow> bool" where
  "is_integral (JInt _ i) = True"
| "is_integral (JUInt _ u) = True"
| "is_integral (JReal _ d) =
     (dbl_le (dbl_of_int min_int64) d \<and> dbl_less d max_uint64_as_double \<and> dbl_integral d)"
| "is_integral _ = False"

section \<open>\<^verbatim>\<open>asString\<close> ... \<^verbatim>\<open>asBool\<close>\<close>

fun get_string :: "json \<Rightarrow> string option" where
  \<comment> \<open>\<^verbatim>\<open>getString(&begin, &end)\<close>: None when it returns false\<close>
  "get_string (JStr _ s) = Some s"
| "get_string _ = None"

fun as_cstring :: "json \<Rightarrow> string res" where
  "as_cstring (JStr _ s) = Inr (c_str s)"
| "as_cstring _ = Inl (LogicError ''in Json::Value::asCString(): requires stringValue'')"

fun as_string :: "json \<Rightarrow> string res" where
  "as_string (JNull _) = Inr []"
| "as_string (JStr _ s) = Inr s"
| "as_string (JBool _ b) = Inr (if b then ''true'' else ''false'')"
| "as_string (JInt _ i) = Inr (value_to_string_int i)"
| "as_string (JUInt _ u) = Inr (value_to_string_uint u)"
| "as_string (JReal _ d) = Inr (value_to_string_dbl d default_real_precision significantDigits)"
| "as_string _ = Inl (LogicError ''Type is not convertible to string'')"

fun as_int :: "json \<Rightarrow> int32 res" where
  "as_int (JInt m i) = json_assert (is_int (JInt m i)) ''LargestInt out of Int range'' (Inr (ucast i))"
| "as_int (JUInt m u) = json_assert (is_int (JUInt m u)) ''LargestUInt out of Int range'' (Inr (ucast u))"
| "as_int (JReal _ d) =
     json_assert (in_range d (integer_to_double min_int) (integer_to_double max_int)) ''double out of Int range''
       (bind_res (cast_dbl min_int max_int d) (\<lambda>i. Inr (of_int i)))"
| "as_int (JNull _) = Inr 0"
| "as_int (JBool _ b) = Inr (if b then 1 else 0)"
| "as_int _ = Inl (LogicError ''Value is not convertible to Int.'')"

fun as_uint :: "json \<Rightarrow> uint32 res" where
  "as_uint (JInt m i) = json_assert (is_uint (JInt m i)) ''LargestInt out of UInt range'' (Inr (ucast i))"
| "as_uint (JUInt m u) = json_assert (is_uint (JUInt m u)) ''LargestUInt out of UInt range'' (Inr (ucast u))"
| "as_uint (JReal _ d) =
     json_assert (in_range d (integer_to_double 0) (integer_to_double max_uint)) ''double out of UInt range''
       (bind_res (cast_dbl 0 max_uint d) (\<lambda>i. Inr (of_int i)))"
| "as_uint (JNull _) = Inr 0"
| "as_uint (JBool _ b) = Inr (if b then 1 else 0)"
| "as_uint _ = Inl (LogicError ''Value is not convertible to UInt.'')"

fun as_int64 :: "json \<Rightarrow> int64 res" where
  "as_int64 (JInt _ i) = Inr i"
| "as_int64 (JUInt m u) = json_assert (is_int64 (JUInt m u)) ''LargestUInt out of Int64 range'' (Inr u)"
| "as_int64 (JReal _ d) =
     json_assert (in_range d (integer_to_double min_int64) (integer_to_double max_int64)) ''double out of Int64 range''
       (bind_res (cast_dbl min_int64 max_int64 d) (\<lambda>i. Inr (of_int i)))"
| "as_int64 (JNull _) = Inr 0"
| "as_int64 (JBool _ b) = Inr (if b then 1 else 0)"
| "as_int64 _ = Inl (LogicError ''Value is not convertible to Int64.'')"

fun as_uint64 :: "json \<Rightarrow> uint64 res" where
  "as_uint64 (JInt m i) = json_assert (is_uint64 (JInt m i)) ''LargestInt out of UInt64 range'' (Inr i)"
| "as_uint64 (JUInt _ u) = Inr u"
| "as_uint64 (JReal _ d) =
     json_assert (in_range d (integer_to_double 0) (integer_to_double_u64 18446744073709551615)) ''double out of UInt64 range''
       (bind_res (cast_dbl 0 max_uint64 d) (\<lambda>i. Inr (of_int i)))"
| "as_uint64 (JNull _) = Inr 0"
| "as_uint64 (JBool _ b) = Inr (if b then 1 else 0)"
| "as_uint64 _ = Inl (LogicError ''Value is not convertible to UInt64.'')"

definition as_largest_int :: "json \<Rightarrow> int64 res" where "as_largest_int v = as_int64 v"
definition as_largest_uint :: "json \<Rightarrow> uint64 res" where "as_largest_uint v = as_uint64 v"

fun as_double :: "json \<Rightarrow> dbl res" where
  "as_double (JInt _ i) = Inr (dbl_of_int (sint i))"
| "as_double (JUInt _ u) = Inr (integer_to_double_u64 u)"
| "as_double (JReal _ d) = Inr d"
| "as_double (JNull _) = Inr dzero"
| "as_double (JBool _ b) = Inr (if b then dbl_of_int 1 else dzero)"
| "as_double _ = Inl (LogicError ''Value is not convertible to double.'')"

fun dbl_is_zero :: "dbl \<Rightarrow> bool" where
  "dbl_is_zero (DFin s m e) = (m = 0)"
| "dbl_is_zero _ = False"

fun as_bool :: "json \<Rightarrow> bool res" where
  "as_bool (JBool _ b) = Inr b"
| "as_bool (JNull _) = Inr False"
| "as_bool (JInt _ i) = Inr (i \<noteq> 0)"
| "as_bool (JUInt _ u) = Inr (u \<noteq> 0)"
| "as_bool (JReal _ d) = Inr (\<not> dbl_is_zero d \<and> \<not> is_nan d)"
| "as_bool _ = Inl (LogicError ''Value is not convertible to bool.'')"

fun is_zero_number :: "json \<Rightarrow> bool" where
  \<comment> \<open>\<^verbatim>\<open>isNumeric() && asDouble() == 0.0\<close>\<close>
  "is_zero_number v =
     (is_numeric v \<and> (case as_double v of Inr d \<Rightarrow> dbl_eq d dzero | Inl _ \<Rightarrow> False))"

fun map_is_empty :: "json \<Rightarrow> bool" where
  "map_is_empty (JArr _ m) = (m = [])"
| "map_is_empty (JObj _ m) = (m = [])"
| "map_is_empty _ = False"

fun real_in_range :: "json \<Rightarrow> dbl \<Rightarrow> dbl \<Rightarrow> bool" where
  \<comment> \<open>\<^verbatim>\<open>type() == realValue && InRange(value_.real_, lo, hi)\<close>\<close>
  "real_in_range (JReal _ d) lo hi = in_range d lo hi"
| "real_in_range _ lo hi = False"

fun is_convertible_to :: "json \<Rightarrow> value_type \<Rightarrow> bool" where
  "is_convertible_to v nullValue =
     (is_zero_number v \<or> (case v of JBool _ b \<Rightarrow> \<not> b | _ \<Rightarrow> False) \<or>
      (case v of JStr _ s \<Rightarrow> s = [] | _ \<Rightarrow> False) \<or> map_is_empty v \<or> is_null v)"
| "is_convertible_to v intValue =
     (is_int v \<or> real_in_range v (integer_to_double min_int) (integer_to_double max_int) \<or> is_bool v \<or> is_null v)"
| "is_convertible_to v uintValue =
     (is_uint v \<or> real_in_range v (integer_to_double 0) (integer_to_double max_uint) \<or> is_bool v \<or> is_null v)"
| "is_convertible_to v realValue = (is_numeric v \<or> is_bool v \<or> is_null v)"
| "is_convertible_to v booleanValue = (is_numeric v \<or> is_bool v \<or> is_null v)"
| "is_convertible_to v stringValue = (is_numeric v \<or> is_bool v \<or> is_string v \<or> is_null v)"
| "is_convertible_to v arrayValue = (is_array v \<or> is_null v)"
| "is_convertible_to v objectValue = (is_object v \<or> is_null v)"

section \<open>The limits as doubles\<close>

lemmas dbl_eval = dbl_of_int_def round_dbl_def floor_log2_def bitlen.simps scaled_ge_def
  round_half_even_def

lemma dbl_limits:
  "dbl_of_int (-2147483648) = DFin True 4503599627370496 (-21)"
  "dbl_of_int 2147483647 = DFin False 9007199250546688 (-22)"
  "dbl_of_int 4294967295 = DFin False 9007199252643840 (-21)"
  "dbl_of_int (-9223372036854775808) = DFin True 4503599627370496 11"
  "dbl_of_int 9223372036854775807 = DFin False 4503599627370496 11"
  "dbl_of_int 18446744073709551615 = DFin False 4503599627370496 12"
  "dbl_of_int 0 = DFin False 0 (-1074)"
  "dbl_of_int 1 = DFin False 4503599627370496 (-52)"
  by (simp_all add: dbl_eval)

lemma dval_limits:
  "dval (dbl_of_int (-2147483648)) = -2147483648"
  "dval (dbl_of_int 2147483647) = 2147483647"
  "dval (dbl_of_int 4294967295) = 4294967295"
  "dval (dbl_of_int (-9223372036854775808)) = -9223372036854775808"
  "dval (dbl_of_int 9223372036854775807) = 9223372036854775808"
  "dval (dbl_of_int 0) = 0"
  by (simp_all add: dbl_limits power_int_def power_divide)

lemma finite_limits [simp]:
  "is_finite (dbl_of_int (-2147483648))" "is_finite (dbl_of_int 2147483647)"
  "is_finite (dbl_of_int 4294967295)" "is_finite (dbl_of_int (-9223372036854775808))"
  "is_finite (dbl_of_int 9223372036854775807)" "is_finite (dbl_of_int 0)"
  by (simp_all add: dbl_limits)

lemma in_range_finite:
  "is_finite lo \<Longrightarrow> is_finite hi \<Longrightarrow>
   in_range d lo hi \<longleftrightarrow> is_finite d \<and> dval lo \<le> dval d \<and> dval d \<le> dval hi"
proof (cases d)
  case (DFin s m e)
  then show "is_finite lo \<Longrightarrow> is_finite hi \<Longrightarrow> ?thesis"
    by (auto simp: in_range_def dbl_le_def dbl_less_dval dbl_eq_dval simp del: dval.simps)
next
  case (DInf s)
  then show "is_finite lo \<Longrightarrow> is_finite hi \<Longrightarrow> ?thesis"
    by (cases lo; cases hi) (auto simp: in_range_def dbl_le_def)
next
  case DNaN
  then show ?thesis by (cases lo) (auto simp: in_range_def dbl_le_def)
qed

lemma cast_dbl_ok:
  assumes "is_finite d" "of_int lo \<le> dval d" "dval d \<le> of_int hi"
  shows "cast_dbl lo hi d = Inr (dbl_trunc d)"
  using dbl_trunc_lower [OF assms(1,2)] dbl_trunc_upper [OF assms(1,3)] assms(1)
  by (simp add: cast_dbl_def)

section \<open>What the conversions return\<close>

lemmas limit_defs = min_int_def max_int_def max_uint_def min_int64_def max_int64_def max_uint64_def
  integer_to_double_def

text \<open>The number a value stands for, before any rounding: the specification of the conversions.\<close>

fun int_value :: "json \<Rightarrow> int option" where
  "int_value (JNull _) = Some 0"
| "int_value (JBool _ b) = Some (if b then 1 else 0)"
| "int_value (JInt _ i) = Some (sint i)"
| "int_value (JUInt _ u) = Some (uint u)"
| "int_value (JReal _ d) = (if is_finite d then Some (dbl_trunc d) else None)"
| "int_value _ = None"

lemma as_int_value:
  assumes "as_int v = Inr i"
  shows "int_value v = Some (sint i)"
  using assms
  by (cases v)
    (auto simp: json_assert_def cast_dbl_def limit_defs sint_of_int_32 sint_ucast_64_32 sint_ucast_u64_32
      split: if_splits)

lemma as_uint_value:
  assumes "as_uint v = Inr u"
  shows "int_value v = Some (uint u)"
proof (cases v)
  case (JInt m i)
  then have i: "0 \<le> sint i" "uint i < 2 ^ 32" "u = ucast i"
    using assms by (auto simp: json_assert_def limit_defs split: if_splits)
  then have "uint i = sint i"
    using sint64_bounds [of i] by (simp add: uint64_sint)
  with i show ?thesis
    using JInt by (simp add: uint_ucast_64_32)
qed (use assms in \<open>auto simp: json_assert_def cast_dbl_def limit_defs uint_of_int_32 uint_ucast_64_32
       split: if_splits\<close>)

lemma as_int64_value:
  assumes "as_int64 v = Inr i"
  shows "int_value v = Some (sint i)"
  using assms
  by (cases v)
    (auto simp: json_assert_def cast_dbl_def limit_defs sint_of_int_64 sint_uint_small split: if_splits)

lemma as_uint64_value:
  assumes "as_uint64 v = Inr u"
  shows "int_value v = Some (uint u)"
proof (cases v)
  case (JInt m i)
  then have "0 \<le> sint i" "u = i"
    using assms by (auto simp: json_assert_def split: if_splits)
  then show ?thesis
    using JInt sint64_bounds [of i] by (simp add: uint64_sint)
qed (use assms in \<open>auto simp: json_assert_def cast_dbl_def limit_defs uint_of_int_64 split: if_splits\<close>)

lemma as_int_no_undef: "as_int v \<noteq> Inl (Undef s)"
proof (cases v)
  case (JReal m d)
  show ?thesis
  proof (cases "in_range d (dbl_of_int (-2147483648)) (dbl_of_int 2147483647)")
    case True
    then have "is_finite d" "of_int (-2147483648) \<le> dval d" "dval d \<le> of_int 2147483647"
      by (simp_all add: in_range_finite dval_limits)
    then show ?thesis using JReal by (simp add: limit_defs cast_dbl_ok json_assert_def)
  qed (use JReal in \<open>simp add: limit_defs json_assert_def\<close>)
qed (simp_all add: json_assert_def)

lemma as_uint_no_undef: "as_uint v \<noteq> Inl (Undef s)"
proof (cases v)
  case (JReal m d)
  show ?thesis
  proof (cases "in_range d (dbl_of_int 0) (dbl_of_int 4294967295)")
    case True
    then have "is_finite d" "of_int 0 \<le> dval d" "dval d \<le> of_int 4294967295"
      by (simp_all add: in_range_finite dval_limits)
    then show ?thesis using JReal by (simp add: limit_defs cast_dbl_ok json_assert_def)
  qed (use JReal in \<open>simp add: limit_defs json_assert_def\<close>)
qed (simp_all add: json_assert_def)

text \<open>
  The guard of the 64-bit conversions compares with a limit rounded up to \<open>2^63\<close> or
  \<open>2^64\<close> and accepts equality, so exactly that double passes it and overflows the cast.
\<close>

lemma integer_to_double_u64_max: "integer_to_double_u64 18446744073709551615 = DFin False 4503599627370496 12"
proof -
  have "sint ((18446744073709551615 :: uint64) div 2) = 9223372036854775807"
    by simp
  moreover have "sint ((18446744073709551615 :: uint64) AND 1) = 1"
    by simp
  ultimately show ?thesis
    by (simp add: integer_to_double_u64_def dbl_limits dscale_def dbl_of_scaled_def dbl_eval)
qed

lemma cast_dbl_boundary:
  assumes "is_finite d" "of_int lo \<le> dval d" "0 \<le> dval d \<or> dval d < of_int hi"
    "dval d \<le> of_int hi + 1"
    "- hi \<le> lo" "lo \<le> 0" "0 \<le> hi"
  shows "cast_dbl lo hi d =
    (if dval d = of_int hi + 1 then Inl (Undef ''floating-point to integer conversion out of range'')
     else Inr (dbl_trunc d))"
proof (cases "dval d = of_int hi + 1")
  case True
  then have "hi + 1 \<le> dbl_trunc d"
    using dbl_trunc_lower [of d "hi + 1"] assms(1) by simp
  with True show ?thesis by (simp add: cast_dbl_def)
next
  case False
  have "dbl_trunc d \<le> hi"
  proof (cases "0 \<le> dval d")
    case True
    have "dval d < of_int (hi + 1)" using False assms(4) by simp
    from dbl_trunc_less [OF assms(1) True this] show ?thesis by simp
  next
    case neg: False
    with assms dbl_trunc_upper [of d hi] show ?thesis by linarith
  qed
  with False dbl_trunc_lower [OF assms(1,2)] assms(1) show ?thesis by (simp add: cast_dbl_def)
qed

lemma as_uint64_undef_iff:
  "(\<exists>s. as_uint64 (JReal m d) = Inl (Undef s)) \<longleftrightarrow> is_finite d \<and> dval d = 2 ^ 64"
proof (cases "in_range d (dbl_of_int 0) (DFin False 4503599627370496 12)")
  case True
  then have r: "is_finite d" "0 \<le> dval d" "dval d \<le> 18446744073709551616"
    by (simp_all add: in_range_finite dval_limits)
  then have "cast_dbl 0 max_uint64 d =
    (if dval d = of_int max_uint64 + 1 then Inl (Undef ''floating-point to integer conversion out of range'')
     else Inr (dbl_trunc d))"
    by (intro cast_dbl_boundary) (simp_all add: limit_defs)
  with True r show ?thesis
    by (simp add: integer_to_double_u64_max limit_defs)
next
  case False
  then have "\<not> (is_finite d \<and> dval d = 2 ^ 64)"
    by (auto simp: in_range_finite dval_limits)
  with False show ?thesis by (simp add: integer_to_double_u64_max limit_defs)
qed

lemma as_int64_undef_iff:
  "(\<exists>s. as_int64 (JReal m d) = Inl (Undef s)) \<longleftrightarrow> is_finite d \<and> dval d = 2 ^ 63"
proof (cases "in_range d (dbl_of_int (-9223372036854775808)) (dbl_of_int 9223372036854775807)")
  case True
  then have r: "is_finite d" "-9223372036854775808 \<le> dval d" "dval d \<le> 9223372036854775808"
    by (simp_all add: in_range_finite dval_limits)
  have "cast_dbl min_int64 max_int64 d =
    (if dval d = of_int max_int64 + 1 then Inl (Undef ''floating-point to integer conversion out of range'')
     else Inr (dbl_trunc d))"
  proof (cases "0 \<le> dval d")
    case True
    with r have "dbl_trunc d < 9223372036854775808 \<longleftrightarrow> dval d \<noteq> 9223372036854775808"
      using dbl_trunc_less [of d 9223372036854775808] dbl_trunc_lower [of d 9223372036854775808] by auto
    with True r dbl_trunc_lower [of d 0] show ?thesis by (auto simp: cast_dbl_def limit_defs)
  next
    case False
    with r dbl_trunc_upper [of d 0] dbl_trunc_lower [of d "-9223372036854775808"] show ?thesis
      by (auto simp: cast_dbl_def limit_defs)
  qed
  with True r show ?thesis by (simp add: limit_defs)
next
  case False
  then have "\<not> (is_finite d \<and> dval d = 2 ^ 63)"
    by (auto simp: in_range_finite dval_limits)
  with False show ?thesis by (simp add: limit_defs)
qed

section \<open>\<^verbatim>\<open>asFloat\<close>\<close>

text \<open>
  A \<^verbatim>\<open>float\<close> (binary32) is kept as the double of the same value: \<open>round_flt\<close> rounds to 24 bits,
  ties to even, and to an infinity beyond the largest \<^verbatim>\<open>float\<close>, as IEEE conversions do.
\<close>

definition round_flt :: "bool \<Rightarrow> nat \<Rightarrow> nat \<Rightarrow> dbl" where
  \<comment> \<open>the float nearest to \<open>(-1)^s * n / d\<close>, as its mantissa below \<open>2^24\<close> and exponent\<close>
  "round_flt s n d =
     (if n = 0 then DFin s 0 (-149)
      else let e = max (-149) (floor_log2 n d - 23);
               q = round_half_even (if 0 \<le> e then n else n * 2 ^ nat (- e))
                                   (if 0 \<le> e then d * 2 ^ nat e else d);
               m = (if q = 2 ^ 24 then 2 ^ 23 else q);
               f = (if q = 2 ^ 24 then e + 1 else e)
           in if 104 < f then DInf s else DFin s m f)"

fun to_float :: "dbl \<Rightarrow> dbl" where
  \<comment> \<open>\<^verbatim>\<open>static_cast<float>(d)\<close>\<close>
  "to_float (DFin s m e) =
     round_flt s (if 0 \<le> e then m * 2 ^ nat e else m) (if 0 \<le> e then 1 else 2 ^ nat (- e))"
| "to_float d = d"

fun as_float :: "json \<Rightarrow> dbl res" where
  "as_float (JInt _ i) = Inr (round_flt (sint i < 0) (nat \<bar>sint i\<bar>) 1)"
| "as_float (JUInt _ u) = Inr (to_float (integer_to_double_u64 u))"
| "as_float (JReal _ d) = Inr (to_float d)"
| "as_float (JNull _) = Inr (round_flt False 0 1)"
| "as_float (JBool _ b) = Inr (round_flt False (if b then 1 else 0) 1)"
| "as_float _ = Inl (LogicError ''Value is not convertible to float.'')"

lemma as_float_fails: "(\<exists>e. as_float v = Inl e) \<longleftrightarrow> type_of v \<in> {stringValue, arrayValue, objectValue}"
  by (cases v) simp_all

end
