(* ===== verification/Json_Container.thy ===== *)
theory Json_Container
  imports Json_Convert
begin

text \<open>
  The array and object operations of \<^verbatim>\<open>Json::Value\<close> (src/json_value.cc) and its iterators
  (src/json_valueiterator.inl). Both kinds of container are the ordered map of \<open>OMap\<close>,
  keyed by index or by string, so what they do to their members follows from the laws of
  the \<open>ordered_map\<close> interface. \<open>wf_json\<close> is the invariant of a value: every map in it is
  sorted without duplicates, and the names of members fit the 30 bits of \<^verbatim>\<open>CZString\<close>; each
  operation keeps it (\<open>Json_Wf\<close>).
\<close>

section \<open>The invariant\<close>

fun wf_json :: "json \<Rightarrow> bool" where
  "wf_json (JArr _ m) = (om_sorted m \<and> (\<forall>v \<in> snd ` set m. wf_json v))"
| "wf_json (JObj _ m) = (om_sorted m \<and> (\<forall>v \<in> snd ` set m. wf_json v) \<and> (\<forall>k \<in> fst ` set m. length k < 2 ^ 30))"
| "wf_json _ = True"

lemma wf_set_meta [simp]: "wf_json (set_meta m v) = wf_json v"
  by (cases v) simp_all

lemma wf_set_offset [simp]:
  "wf_json (set_offset_start n v) = wf_json v" "wf_json (set_offset_limit n v) = wf_json v"
  by (simp_all add: set_offset_start_def set_offset_limit_def)

lemma wf_mk_type [simp]: "wf_json (mk_type t)"
  by (cases t) simp_all

lemma wf_null_singleton [simp]: "wf_json null_singleton"
  by (simp add: null_singleton_def)

section \<open>Creating and reading members\<close>

definition ensure_key :: "'k::linorder \<Rightarrow> ('k, json) omap \<Rightarrow> ('k, json) omap" where
  \<comment> \<open>the \<^verbatim>\<open>lower_bound\<close> / \<^verbatim>\<open>insert\<close> idiom of \<^verbatim>\<open>operator[]\<close> and \<^verbatim>\<open>resolveReference\<close>\<close>
  "ensure_key key m =
     (case om_lower_bound key m of (l, it) \<Rightarrow>
        (case it of
           (k, v) # r \<Rightarrow> if k = key then m else l @ (key, null_singleton) # it
         | [] \<Rightarrow> l @ [(key, null_singleton)]))"

lemma ensure_key_emplace: "ensure_key k m = om_emplace k null_singleton m"
proof (induction m)
  case Nil
  then show ?case by (simp add: ensure_key_def)
next
  case (Cons p m)
  then show ?case
    by (cases p) (auto simp: ensure_key_def split: prod.splits list.splits if_splits)
qed

definition array_map :: "json \<Rightarrow> (uint32, json) omap" where
  "array_map v = (case v of JArr _ m \<Rightarrow> m | _ \<Rightarrow> [])"

definition object_map :: "json \<Rightarrow> (string, json) omap" where
  "object_map v = (case v of JObj _ m \<Rightarrow> m | _ \<Rightarrow> [])"

definition as_array :: "json \<Rightarrow> json" where
  \<comment> \<open>\<^verbatim>\<open>if (type() == nullValue) *this = Value(arrayValue);\<close> the assignment replaces the meta data, too\<close>
  "as_array v = (if type_of v = nullValue then mk_type arrayValue else v)"

definition as_object :: "json \<Rightarrow> json" where
  "as_object v = (if type_of v = nullValue then mk_type objectValue else v)"

definition index_ref :: "json \<Rightarrow> uint32 \<Rightarrow> json res" where
  \<comment> \<open>\<^verbatim>\<open>Value& operator[](ArrayIndex)\<close>: the array with that element present\<close>
  "index_ref v i =
     json_assert (type_of v = nullValue \<or> type_of v = arrayValue)
       ''in Json::Value::operator[](ArrayIndex): requires arrayValue''
       (let a = as_array v in Inr (JArr (meta a) (ensure_key i (array_map a))))"

definition index_ref_int :: "json \<Rightarrow> int32 \<Rightarrow> json res" where
  "index_ref_int v i =
     json_assert (0 \<le> sint i) ''in Json::Value::operator[](int index): index cannot be negative''
       (index_ref v i)"

definition index_const :: "json \<Rightarrow> uint32 \<Rightarrow> json res" where
  \<comment> \<open>\<^verbatim>\<open>const Value& operator[](ArrayIndex) const\<close>\<close>
  "index_const v i =
     json_assert (type_of v = nullValue \<or> type_of v = arrayValue)
       ''in Json::Value::operator[](ArrayIndex)const: requires arrayValue''
       (if type_of v = nullValue then Inr null_singleton
        else case om_find i (array_map v) of None \<Rightarrow> Inr null_singleton | Some c \<Rightarrow> Inr c)"

definition index_const_int :: "json \<Rightarrow> int32 \<Rightarrow> json res" where
  "index_const_int v i =
     json_assert (0 \<le> sint i) ''in Json::Value::operator[](int index) const: index cannot be negative''
       (index_const v i)"

definition resolve_reference :: "json \<Rightarrow> string \<Rightarrow> json res" where
  \<comment> \<open>\<^verbatim>\<open>resolveReference(key, end)\<close>: the object with that member present\<close>
  "resolve_reference v key =
     json_assert (type_of v = nullValue \<or> type_of v = objectValue)
       ''in Json::Value::resolveReference(key, end): requires objectValue''
       (let a = as_object v in Inr (JObj (meta a) (ensure_key (czstring key) (object_map a))))"

definition resolve_reference_cstr :: "json \<Rightarrow> string \<Rightarrow> json res" where
  \<comment> \<open>\<^verbatim>\<open>resolveReference(const char*)\<close>, for a \<^verbatim>\<open>StaticString\<close>\<close>
  "resolve_reference_cstr v key =
     json_assert (type_of v = nullValue \<or> type_of v = objectValue)
       ''in Json::Value::resolveReference(): requires objectValue''
       (let a = as_object v in Inr (JObj (meta a) (ensure_key (czstring (c_str key)) (object_map a))))"

definition find_member :: "json \<Rightarrow> string \<Rightarrow> json option res" where
  \<comment> \<open>\<^verbatim>\<open>find(begin, end)\<close>; None is the null pointer\<close>
  "find_member v key =
     json_assert (type_of v = nullValue \<or> type_of v = objectValue)
       ''in Json::Value::find(begin, end): requires objectValue or nullValue''
       (if type_of v = nullValue then Inr None else Inr (om_find (czstring key) (object_map v)))"

definition demand :: "json \<Rightarrow> string \<Rightarrow> json res" where
  "demand v key =
     json_assert (type_of v = nullValue \<or> type_of v = objectValue)
       ''in Json::Value::demand(begin, end): requires objectValue or nullValue''
       (resolve_reference v key)"

definition member_const :: "json \<Rightarrow> string \<Rightarrow> json res" where
  \<comment> \<open>\<^verbatim>\<open>const Value& operator[](const String&) const\<close>\<close>
  "member_const v key =
     bind_res (find_member v key) (\<lambda>r. Inr (case r of None \<Rightarrow> null_singleton | Some c \<Rightarrow> c))"

definition member_const_cstr :: "json \<Rightarrow> string \<Rightarrow> json res" where
  "member_const_cstr v key = member_const v (c_str key)"

definition member_ref :: "json \<Rightarrow> string \<Rightarrow> json res" where
  \<comment> \<open>\<^verbatim>\<open>Value& operator[](const String&)\<close>\<close>
  "member_ref v key = resolve_reference v key"

definition member_ref_cstr :: "json \<Rightarrow> string \<Rightarrow> json res" where
  \<comment> \<open>\<^verbatim>\<open>Value& operator[](const char*)\<close>\<close>
  "member_ref_cstr v key = resolve_reference v (c_str key)"

text \<open>Reading and assigning through the reference returned.\<close>

definition member_get :: "json \<Rightarrow> string \<Rightarrow> json" where
  "member_get v key =
     (case om_find (czstring key) (object_map v) of None \<Rightarrow> null_singleton | Some c \<Rightarrow> c)"

definition member_put :: "json \<Rightarrow> string \<Rightarrow> json \<Rightarrow> json" where
  "member_put v key c = JObj (meta v) (om_put (czstring key) c (object_map v))"

definition index_get :: "json \<Rightarrow> uint32 \<Rightarrow> json" where
  "index_get v i = (case om_find i (array_map v) of None \<Rightarrow> null_singleton | Some c \<Rightarrow> c)"

definition index_put :: "json \<Rightarrow> uint32 \<Rightarrow> json \<Rightarrow> json" where
  "index_put v i c = JArr (meta v) (om_put i c (array_map v))"

definition set_member :: "json \<Rightarrow> string \<Rightarrow> json \<Rightarrow> json res" where
  \<comment> \<open>\<^verbatim>\<open>v[key] = c;\<close> for a string literal \<^verbatim>\<open>key\<close>\<close>
  "set_member v key c =
     bind_res (member_ref_cstr v key) (\<lambda>v'. Inr (member_put v' (c_str key) c))"

definition get_index_default :: "json \<Rightarrow> uint32 \<Rightarrow> json \<Rightarrow> json res" where
  \<comment> \<open>\<^verbatim>\<open>get(index, defaultValue)\<close> compares the address with the null singleton's\<close>
  "get_index_default v i dflt =
     bind_res (index_const v i) (\<lambda>c.
       Inr (if type_of v = nullValue \<or> om_find i (array_map v) = None then dflt else c))"

definition get_member_default :: "json \<Rightarrow> string \<Rightarrow> json \<Rightarrow> json res" where
  "get_member_default v key dflt =
     bind_res (find_member v key) (\<lambda>r. Inr (case r of None \<Rightarrow> dflt | Some c \<Rightarrow> c))"

definition is_valid_index :: "json \<Rightarrow> uint32 \<Rightarrow> bool" where
  "is_valid_index v i \<longleftrightarrow> i < size_of v"

definition is_member :: "json \<Rightarrow> string \<Rightarrow> bool res" where
  "is_member v key = bind_res (find_member v key) (\<lambda>r. Inr (r \<noteq> None))"

definition get_member_names :: "json \<Rightarrow> string list res" where
  "get_member_names v =
     json_assert (type_of v = nullValue \<or> type_of v = objectValue)
       ''in Json::Value::getMemberNames(), value must be objectValue''
       (if type_of v = nullValue then Inr [] else Inr (om_keys (object_map v)))"

section \<open>Changing containers\<close>

definition clear_value :: "json \<Rightarrow> json res" where
  "clear_value v =
     json_assert (type_of v = nullValue \<or> type_of v = arrayValue \<or> type_of v = objectValue)
       ''in Json::Value::clear(): requires complex value''
       (let m = (meta v)\<lparr>v_start := 0, v_limit := 0\<rparr>
        in Inr (case v of JArr _ _ \<Rightarrow> JArr m [] | JObj _ _ \<Rightarrow> JObj m [] | _ \<Rightarrow> set_meta m v))"

fun erase_range :: "nat \<Rightarrow> uint32 \<Rightarrow> (uint32, json) omap \<Rightarrow> (uint32, json) omap" where
  \<comment> \<open>\<^verbatim>\<open>erase(index)\<close> for \<open>n\<close> indices from \<open>i\<close> on\<close>
  "erase_range 0 i m = m"
| "erase_range (Suc n) i m = erase_range n (i + 1) (om_erase i m)"

fun ensure_range :: "nat \<Rightarrow> uint32 \<Rightarrow> (uint32, json) omap \<Rightarrow> (uint32, json) omap" where
  "ensure_range 0 i m = m"
| "ensure_range (Suc n) i m = ensure_range n (i + 1) (ensure_key i m)"

definition resize :: "json \<Rightarrow> uint32 \<Rightarrow> json res" where
  \<comment> \<open>growing creates every index from the old size up to the new one\<close>
  "resize v newSize =
     json_assert (type_of v = nullValue \<or> type_of v = arrayValue)
       ''in Json::Value::resize(): requires arrayValue''
       (let a = as_array v; oldSize = size_of a
        in if newSize = 0 then clear_value a
           else if newSize > oldSize then
             Inr (JArr (meta a) (ensure_range (unat newSize - unat oldSize) oldSize (array_map a)))
           else
             (let a' = JArr (meta a) (erase_range (unat oldSize - unat newSize) newSize (array_map a))
              in json_assert (size_of a' = newSize) ''assert json failed'' (Inr a')))"

definition append_value :: "json \<Rightarrow> json \<Rightarrow> json res" where
  "append_value v c =
     json_assert (type_of v = nullValue \<or> type_of v = arrayValue)
       ''in Json::Value::append: requires arrayValue''
       (let a = as_array v in Inr (JArr (meta a) (om_emplace (size_of a) c (array_map a))))"

fun insert_shift :: "nat \<Rightarrow> uint32 \<Rightarrow> json \<Rightarrow> json res" where
  \<comment> \<open>\<open>n\<close> rounds of \<^verbatim>\<open>(*this)[i] = std::move((*this)[i - 1])\<close>, \<open>i\<close> going down; moving swaps\<close>
  "insert_shift 0 i v = Inr v"
| "insert_shift (Suc n) i v =
     bind_res (index_ref v (i - 1)) (\<lambda>v1.
     bind_res (index_ref v1 i) (\<lambda>v2.
       let a = index_get v2 (i - 1); b = index_get v2 i
       in insert_shift n (i - 1) (index_put (index_put v2 i a) (i - 1) b)))"

definition insert_value :: "json \<Rightarrow> uint32 \<Rightarrow> json \<Rightarrow> (bool \<times> json) res" where
  "insert_value v index c =
     json_assert (type_of v = nullValue \<or> type_of v = arrayValue)
       ''in Json::Value::insert: requires arrayValue''
       (let len = size_of v
        in if index > len then Inr (False, v)
           else bind_res (insert_shift (unat len - unat index) len v) (\<lambda>v1.
                bind_res (index_ref v1 index) (\<lambda>v2. Inr (True, index_put v2 index c))))"

definition remove_member :: "json \<Rightarrow> string \<Rightarrow> bool \<times> json option \<times> json" where
  \<comment> \<open>\<^verbatim>\<open>removeMember(begin, end, removed)\<close>: the result, \<^verbatim>\<open>*removed\<close> when set, the object left\<close>
  "remove_member v key =
     (case v of
        JObj mt m \<Rightarrow>
          (case om_find (czstring key) m of
             None \<Rightarrow> (False, None, v)
           | Some c \<Rightarrow> (True, Some c, JObj mt (om_erase (czstring key) m)))
      | _ \<Rightarrow> (False, None, v))"

definition remove_member_cstr :: "json \<Rightarrow> string \<Rightarrow> json res" where
  \<comment> \<open>\<^verbatim>\<open>void removeMember(const char*)\<close>\<close>
  "remove_member_cstr v key =
     json_assert (type_of v = nullValue \<or> type_of v = objectValue)
       ''in Json::Value::removeMember(): requires objectValue''
       (Inr (case v of JObj mt m \<Rightarrow> JObj mt (om_erase (czstring (c_str key)) m) | _ \<Rightarrow> v))"

fun shift_left :: "nat \<Rightarrow> uint32 \<Rightarrow> (uint32, json) omap \<Rightarrow> (uint32, json) omap" where
  \<comment> \<open>\<^verbatim>\<open>(*value_.map_)[i] = (*this)[i + 1]\<close> for \<open>n\<close> indices from \<open>i\<close> on\<close>
  "shift_left 0 i m = m"
| "shift_left (Suc n) i m =
     (let m1 = ensure_key (i + 1) m;
          c = (case om_find (i + 1) m1 of None \<Rightarrow> null_singleton | Some c \<Rightarrow> c)
      in shift_left n (i + 1) (om_put i c m1))"

definition remove_index :: "json \<Rightarrow> uint32 \<Rightarrow> bool \<times> json option \<times> json" where
  "remove_index v index =
     (case v of
        JArr mt m \<Rightarrow>
          (case om_find index m of
             None \<Rightarrow> (False, None, v)
           | Some c \<Rightarrow>
               (let oldSize = size_of v;
                    m1 = shift_left (unat (oldSize - 1) - unat index) index m
                in (True, Some c, JArr mt (om_erase (oldSize - 1) m1))))
      | _ \<Rightarrow> (False, None, v))"

section \<open>Iteration\<close>

text \<open>
  \<^verbatim>\<open>begin()\<close> and \<^verbatim>\<open>end()\<close>: an iterator is the elements from its position on, or the null
  iterator of a value without members. A \<open>vkey\<close> is what \<^verbatim>\<open>CZString\<close> holds.
\<close>

datatype vkey = KIndex uint32 | KName string

datatype viter = NullIter | AtIter "(vkey \<times> json) list"

definition value_entries :: "json \<Rightarrow> (vkey \<times> json) list" where
  "value_entries v =
     (case v of
        JArr _ m \<Rightarrow> map (\<lambda>(k, c). (KIndex k, c)) m
      | JObj _ m \<Rightarrow> map (\<lambda>(k, c). (KName k, c)) m
      | _ \<Rightarrow> [])"

definition value_begin :: "json \<Rightarrow> viter" where
  "value_begin v = (if is_array v \<or> is_object v then AtIter (value_entries v) else NullIter)"

definition value_end :: "json \<Rightarrow> viter" where
  "value_end v = (if is_array v \<or> is_object v then AtIter [] else NullIter)"

fun iter_is_equal :: "viter \<Rightarrow> viter \<Rightarrow> bool" where
  "iter_is_equal NullIter other = (other = NullIter)"
| "iter_is_equal (AtIter xs) (AtIter ys) = (length xs = length ys)"
| "iter_is_equal (AtIter xs) NullIter = False"

fun iter_increment :: "viter \<Rightarrow> viter" where
  "iter_increment (AtIter (x # xs)) = AtIter xs"
| "iter_increment it = it"

fun iter_deref :: "viter \<Rightarrow> json res" where
  "iter_deref (AtIter ((k, c) # xs)) = Inr c"
| "iter_deref _ = Inl (Undef ''dereference of an end iterator'')"

fun iter_distance :: "viter \<Rightarrow> viter \<Rightarrow> nat" where
  \<comment> \<open>\<^verbatim>\<open>computeDistance\<close>\<close>
  "iter_distance NullIter NullIter = 0"
| "iter_distance (AtIter xs) (AtIter ys) = length xs - length ys"
| "iter_distance _ _ = 0"

fun key_value :: "vkey \<Rightarrow> json res" where
  \<comment> \<open>\<^verbatim>\<open>ValueIteratorBase::key()\<close>\<close>
  "key_value (KName s) = mk_string s"
| "key_value (KIndex i) = Inr (mk_uint i)"

fun key_index :: "vkey \<Rightarrow> uint32" where
  "key_index (KIndex i) = i"
| "key_index (KName s) = -1"

fun key_name :: "vkey \<Rightarrow> string" where
  "key_name (KName s) = s"
| "key_name (KIndex i) = []"

end
