(* ===== verification/Json_Wf.thy ===== *)
theory Json_Wf
  imports Json_Container
begin

text \<open>
  Every container operation of \<^verbatim>\<open>Json::Value\<close> keeps the invariant \<open>wf_json\<close>: the maps of the
  value and of all values below it stay sorted without duplicates.
\<close>

definition wf_map :: "('k::linorder, json) omap \<Rightarrow> bool" where
  "wf_map m \<longleftrightarrow> om_sorted m \<and> (\<forall>(k, c) \<in> set m. wf_json c)"

definition keys_ok :: "(string, json) omap \<Rightarrow> bool" where
  "keys_ok m \<longleftrightarrow> (\<forall>k \<in> fst ` set m. length k < 2 ^ 30)"

lemma wf_json_map [simp]:
  "wf_json (JArr mt m) = wf_map m" "wf_json (JObj mt n) \<longleftrightarrow> wf_map n \<and> keys_ok n"
  by (auto simp: wf_map_def keys_ok_def)

declare wf_json.simps(1, 2) [simp del]

lemma wf_map_Nil [simp]: "wf_map []" "keys_ok []"
  by (simp_all add: wf_map_def keys_ok_def)

lemma length_czstring: "length (czstring k) < 2 ^ 30"
proof -
  have "nat (int (length k) mod 2 ^ 30) < 2 ^ 30" by (simp add: nat_less_iff)
  then show ?thesis by (simp add: czstring_def)
qed

lemma keys_ok_put [simp]: "keys_ok m \<Longrightarrow> keys_ok (om_put (czstring k) c m)"
  using length_czstring [of k] by (auto simp: keys_ok_def fst_om_put)

lemma keys_ok_emplace [simp]: "keys_ok m \<Longrightarrow> keys_ok (om_emplace (czstring k) c m)"
  using length_czstring [of k] by (auto simp: keys_ok_def fst_om_emplace)

lemma keys_ok_erase [simp]: "keys_ok m \<Longrightarrow> keys_ok (om_erase k m)"
  by (auto simp: keys_ok_def dest!: set_om_erase)

lemma keys_ok_ensure [simp]: "keys_ok m \<Longrightarrow> keys_ok (ensure_key (czstring k) m)"
  by (simp add: ensure_key_emplace)

lemma keys_ok_object [simp]: "wf_json v \<Longrightarrow> keys_ok (object_map v)"
  by (cases v) (auto simp: object_map_def keys_ok_def)

lemma wf_map_sorted: "wf_map m \<Longrightarrow> om_sorted m"
  by (simp add: wf_map_def)

lemma wf_map_find: "wf_map m \<Longrightarrow> om_find k m = Some c \<Longrightarrow> wf_json c"
  by (auto simp: wf_map_def dest!: om_find_Some_in_set)

lemma wf_map_put [simp]: "wf_map m \<Longrightarrow> wf_json c \<Longrightarrow> wf_map (om_put k c m)"
  by (auto simp: wf_map_def om_sorted_put dest!: set_om_put)

lemma wf_map_emplace [simp]: "wf_map m \<Longrightarrow> wf_json c \<Longrightarrow> wf_map (om_emplace k c m)"
  by (auto simp: wf_map_def om_sorted_emplace dest!: set_om_emplace)

lemma wf_map_erase [simp]: "wf_map m \<Longrightarrow> wf_map (om_erase k m)"
  by (auto simp: wf_map_def om_sorted_erase dest!: set_om_erase)

lemma wf_map_ensure [simp]: "wf_map m \<Longrightarrow> wf_map (ensure_key k m)"
  by (simp add: ensure_key_emplace)

lemma wf_map_array [simp]: "wf_json v \<Longrightarrow> wf_map (array_map v)"
  by (cases v) (simp_all add: array_map_def)

lemma wf_map_object [simp]: "wf_json v \<Longrightarrow> wf_map (object_map v)"
  by (cases v) (simp_all add: object_map_def)

lemma wf_as [simp]: "wf_json v \<Longrightarrow> wf_json (as_array v)" "wf_json v \<Longrightarrow> wf_json (as_object v)"
  by (simp_all add: as_array_def as_object_def del: mk_type.simps)

lemma json_assert_Inr_iff: "json_assert c msg k = Inr x \<longleftrightarrow> c \<and> k = Inr x"
  by (simp add: json_assert_def)

lemma wf_member_put [simp]: "wf_json v \<Longrightarrow> wf_json c \<Longrightarrow> wf_json (member_put v k c)"
  by (simp add: member_put_def)

lemma wf_index_put [simp]: "wf_json v \<Longrightarrow> wf_json c \<Longrightarrow> wf_json (index_put v i c)"
  by (simp add: index_put_def)

lemma wf_member_get [simp]: "wf_json v \<Longrightarrow> wf_json (member_get v k)"
  by (auto simp: member_get_def split: option.splits intro: wf_map_find [OF wf_map_object])

lemma wf_index_get [simp]: "wf_json v \<Longrightarrow> wf_json (index_get v i)"
  by (auto simp: index_get_def split: option.splits intro: wf_map_find [OF wf_map_array])

lemma wf_resolve_reference: "resolve_reference v k = Inr v' \<Longrightarrow> wf_json v \<Longrightarrow> wf_json v'"
  by (auto simp: resolve_reference_def json_assert_Inr_iff Let_def)

lemma wf_index_ref: "index_ref v i = Inr v' \<Longrightarrow> wf_json v \<Longrightarrow> wf_json v'"
  by (auto simp: index_ref_def json_assert_Inr_iff Let_def)

lemma wf_index_ref_int: "index_ref_int v i = Inr v' \<Longrightarrow> wf_json v \<Longrightarrow> wf_json v'"
  by (auto simp: index_ref_int_def json_assert_Inr_iff wf_index_ref)

lemma wf_set_member: "set_member v k c = Inr v' \<Longrightarrow> wf_json v \<Longrightarrow> wf_json c \<Longrightarrow> wf_json v'"
  by (auto simp: set_member_def member_ref_cstr_def bind_res_Inr_iff wf_resolve_reference)

lemma wf_clear_value: "clear_value v = Inr v' \<Longrightarrow> wf_json v \<Longrightarrow> wf_json v'"
  by (cases v) (auto simp: clear_value_def json_assert_Inr_iff Let_def)

lemma wf_erase_range: "wf_map m \<Longrightarrow> wf_map (erase_range n i m)"
  by (induction n i m rule: erase_range.induct) simp_all

lemma wf_ensure_range: "wf_map m \<Longrightarrow> wf_map (ensure_range n i m)"
  by (induction n i m rule: ensure_range.induct) simp_all

lemma wf_resize: "resize v n = Inr v' \<Longrightarrow> wf_json v \<Longrightarrow> wf_json v'"
  by (auto simp: resize_def json_assert_Inr_iff Let_def wf_erase_range wf_ensure_range
      split: if_splits intro: wf_clear_value)

lemma wf_append_value: "append_value v c = Inr v' \<Longrightarrow> wf_json v \<Longrightarrow> wf_json c \<Longrightarrow> wf_json v'"
  by (auto simp: append_value_def json_assert_Inr_iff Let_def)

lemma wf_insert_shift: "insert_shift n i v = Inr v' \<Longrightarrow> wf_json v \<Longrightarrow> wf_json v'"
proof (induction n i v arbitrary: v' rule: insert_shift.induct)
  case (2 n i v)
  from "2.prems"(1) obtain a b where r: "index_ref v (i - 1) = Inr a" "index_ref a i = Inr b"
    and s: "insert_shift n (i - 1)
              (index_put (index_put b i (index_get b (i - 1))) (i - 1) (index_get b i)) = Inr v'"
    by (auto simp: bind_res_Inr_iff Let_def)
  have "wf_json b" using r "2.prems"(2) wf_index_ref by blast
  then show ?case using "2.IH" [OF r refl refl s] by simp
qed simp

lemma wf_insert_value:
  "insert_value v i c = Inr (b, v') \<Longrightarrow> wf_json v \<Longrightarrow> wf_json c \<Longrightarrow> wf_json v'"
  by (auto simp: insert_value_def json_assert_Inr_iff Let_def bind_res_Inr_iff
      split: if_splits dest!: wf_insert_shift wf_index_ref)

lemma wf_remove_member:
  "remove_member v k = (b, c, v') \<Longrightarrow> wf_json v \<Longrightarrow> wf_json v' \<and> (\<forall>x. c = Some x \<longrightarrow> wf_json x)"
  by (auto simp: remove_member_def split: json.splits option.splits intro: wf_map_find)

lemma wf_remove_member_cstr: "remove_member_cstr v k = Inr v' \<Longrightarrow> wf_json v \<Longrightarrow> wf_json v'"
  by (auto simp: remove_member_cstr_def json_assert_Inr_iff split: json.splits)

lemma wf_shift_left: "wf_map m \<Longrightarrow> wf_map (shift_left n i m)"
proof (induction n i m rule: shift_left.induct)
  case (2 n i m)
  let ?m1 = "ensure_key (i + 1) m"
  let ?c = "case om_find (i + 1) ?m1 of None \<Rightarrow> null_singleton | Some c \<Rightarrow> c"
  have m1: "wf_map ?m1" using "2.prems" by simp
  then have "wf_json ?c" by (auto split: option.splits intro: wf_map_find)
  then show ?case using "2.IH" [OF refl refl] m1 by (simp add: Let_def)
qed simp

lemma wf_remove_index:
  "remove_index v i = (b, c, v') \<Longrightarrow> wf_json v \<Longrightarrow> wf_json v' \<and> (\<forall>x. c = Some x \<longrightarrow> wf_json x)"
  by (auto simp: remove_index_def Let_def wf_shift_left split: json.splits option.splits intro: wf_map_find)

end
