(* ===== verification/Options.thy ===== *)
theory Options
  imports Json_Wf
begin

text \<open>
  \<^verbatim>\<open>options_from_json\<close> of src/options_json.cc: RocksDB options out of a JSON object.
  The fields of \<^verbatim>\<open>rocksdb::Options\<close> that the code assigns are the fields of \<open>options\<close>; the
  rest of the struct is the record's extension, and RocksDB's own methods and default
  values are the parameter \<open>options_api\<close>. The lemmas: which inputs are accepted, and that
  a plain option of the JSON object ends up in its field.
\<close>

section \<open>RocksDB options\<close>

datatype info_log_level_t =
  DEBUG_LEVEL | INFO_LEVEL | WARN_LEVEL | ERROR_LEVEL | FATAL_LEVEL | HEADER_LEVEL

datatype access_hint = HINT_NONE | HINT_NORMAL | HINT_SEQUENTIAL | HINT_WILLNEED

datatype compression_type =
    kNoCompression | kSnappyCompression | kZlibCompression | kBZip2Compression | kLZ4Compression
  | kLZ4HCCompression | kXpressCompression | kZSTD | kZSTDNotFinalCompression
  | kDisableCompressionOption

record options =
  info_log_level :: info_log_level_t
  max_open_files :: int32
  num_levels :: int32
  level0_file_num_compaction_trigger :: int32
  level0_slowdown_writes_trigger :: int32
  level0_stop_writes_trigger :: int32
  target_file_size_multiplier :: int32
  max_write_buffer_number :: int32
  min_write_buffer_number_to_merge :: int32
  max_write_buffer_number_to_maintain :: int32
  max_background_compactions :: int32
  max_background_flushes :: int32
  table_cache_numshardbits :: int32
  use_fsync :: bool
  access_hint_on_compaction_start :: access_hint
  disable_auto_compactions :: bool
  report_bg_io_stats :: bool
  compression :: compression_type
  create_if_missing :: bool
  create_missing_column_families :: bool
  error_if_exists :: bool
  paranoid_checks :: bool
  allow_mmap_reads :: bool
  allow_mmap_writes :: bool
  is_fd_close_on_exec :: bool
  advise_random_on_open :: bool
  use_adaptive_mutex :: bool
  inplace_update_support :: bool
  max_total_wal_size :: uint64
  target_file_size_base :: uint64
  max_bytes_for_level_base :: uint64
  WAL_ttl_seconds :: uint64
  WAL_size_limit_MB :: uint64
  bytes_per_sync :: uint64
  max_sequential_skip_in_iterations :: uint64
  delete_obsolete_files_period_micros :: uint64

text \<open>The constructor and the methods of \<^verbatim>\<open>rocksdb::Options\<close> that the program calls; two of
  them also with their default arguments.\<close>

record 'o options_api =
  default_options :: 'o
  increase_parallelism :: "int32 \<Rightarrow> 'o \<Rightarrow> 'o"
  optimize_for_point_lookup :: "uint64 \<Rightarrow> 'o \<Rightarrow> 'o"
  optimize_level_style_compaction :: "uint64 \<Rightarrow> 'o \<Rightarrow> 'o"
  optimize_universal_style_compaction :: "uint64 \<Rightarrow> 'o \<Rightarrow> 'o"
  increase_parallelism_default :: "'o \<Rightarrow> 'o"
  optimize_level_style_compaction_default :: "'o \<Rightarrow> 'o"

section \<open>The enumerations\<close>

definition log_level_of_int :: "int32 \<Rightarrow> info_log_level_t" where
  "log_level_of_int k =
     (if k = 1 then INFO_LEVEL else if k = 2 then WARN_LEVEL else if k = 3 then ERROR_LEVEL
      else if k = 4 then FATAL_LEVEL else if k = 5 then HEADER_LEVEL else DEBUG_LEVEL)"

definition access_hint_of_int :: "int32 \<Rightarrow> access_hint" where
  "access_hint_of_int k =
     (if k = 0 then HINT_NONE else if k = 2 then HINT_SEQUENTIAL
      else if k = 3 then HINT_WILLNEED else HINT_NORMAL)"

definition compression_of_int :: "int32 \<Rightarrow> compression_type" where
  "compression_of_int k =
     (if k = 1 then kSnappyCompression else if k = 2 then kZlibCompression
      else if k = 3 then kBZip2Compression else if k = 4 then kLZ4Compression
      else if k = 5 then kLZ4HCCompression else if k = 6 then kXpressCompression
      else if k = 7 then kZSTD else if k = 8 then kZSTDNotFinalCompression
      else if k = 9 then kDisableCompressionOption else kNoCompression)"

section \<open>The options by name\<close>

text \<open>
  The branches of the \<^verbatim>\<open>if\<close> chain compare \<open>key\<close> with distinct literals, so they are tables
  from the literal to what the branch does with the converted value.
\<close>

definition int_options ::
    "'z options_scheme options_api \<Rightarrow> (string \<times> (int32 \<Rightarrow> 'z options_scheme \<Rightarrow> 'z options_scheme)) list" where
  "int_options api =
    [(''increase_parallelism'', increase_parallelism api),
     (''info_log_level'', \<lambda>i opts. opts\<lparr>info_log_level := log_level_of_int i\<rparr>),
     (''max_open_files'', \<lambda>i opts. opts\<lparr>max_open_files := i\<rparr>),
     (''num_levels'', \<lambda>i opts. opts\<lparr>num_levels := i\<rparr>),
     (''level0_file_num_compaction_trigger'', \<lambda>i opts. opts\<lparr>level0_file_num_compaction_trigger := i\<rparr>),
     (''level0_slowdown_writes_trigger'', \<lambda>i opts. opts\<lparr>level0_slowdown_writes_trigger := i\<rparr>),
     (''level0_stop_writes_trigger'', \<lambda>i opts. opts\<lparr>level0_stop_writes_trigger := i\<rparr>),
     (''target_file_size_multiplier'', \<lambda>i opts. opts\<lparr>target_file_size_multiplier := i\<rparr>),
     (''max_write_buffer_number'', \<lambda>i opts. opts\<lparr>max_write_buffer_number := i\<rparr>),
     (''min_write_buffer_number_to_merge'', \<lambda>i opts. opts\<lparr>min_write_buffer_number_to_merge := i\<rparr>),
     (''max_write_buffer_number_to_maintain'', \<lambda>i opts. opts\<lparr>max_write_buffer_number_to_maintain := i\<rparr>),
     (''max_background_compactions'', \<lambda>i opts. opts\<lparr>max_background_compactions := i\<rparr>),
     (''max_background_flushes'', \<lambda>i opts. opts\<lparr>max_background_flushes := i\<rparr>),
     (''table_cache_numshardbits'', \<lambda>i opts. opts\<lparr>table_cache_numshardbits := i\<rparr>),
     (''use_fsync'', \<lambda>i opts. opts\<lparr>use_fsync := i \<noteq> 0\<rparr>),
     (''access_hint_on_compaction_start'',
        \<lambda>i opts. opts\<lparr>access_hint_on_compaction_start := access_hint_of_int i\<rparr>),
     (''disable_auto_compactions'', \<lambda>i opts. opts\<lparr>disable_auto_compactions := i \<noteq> 0\<rparr>),
     (''report_bg_io_stats'', \<lambda>i opts. opts\<lparr>report_bg_io_stats := i \<noteq> 0\<rparr>),
     (''compression'', \<lambda>i opts. opts\<lparr>compression := compression_of_int i\<rparr>),
     (''compaction_style'', \<lambda>i opts. opts)]"

definition bool_options :: "(string \<times> (bool \<Rightarrow> 'z options_scheme \<Rightarrow> 'z options_scheme)) list" where
  "bool_options =
    [(''create_if_missing'', \<lambda>b opts. opts\<lparr>create_if_missing := b\<rparr>),
     (''create_missing_column_families'', \<lambda>b opts. opts\<lparr>create_missing_column_families := b\<rparr>),
     (''error_if_exists'', \<lambda>b opts. opts\<lparr>error_if_exists := b\<rparr>),
     (''paranoid_checks'', \<lambda>b opts. opts\<lparr>paranoid_checks := b\<rparr>),
     (''allow_mmap_reads'', \<lambda>b opts. opts\<lparr>allow_mmap_reads := b\<rparr>),
     (''allow_mmap_writes'', \<lambda>b opts. opts\<lparr>allow_mmap_writes := b\<rparr>),
     (''is_fd_close_on_exec'', \<lambda>b opts. opts\<lparr>is_fd_close_on_exec := b\<rparr>),
     (''advise_random_on_open'', \<lambda>b opts. opts\<lparr>advise_random_on_open := b\<rparr>),
     (''use_adaptive_mutex'', \<lambda>b opts. opts\<lparr>use_adaptive_mutex := b\<rparr>),
     (''inplace_update_support'', \<lambda>b opts. opts\<lparr>inplace_update_support := b\<rparr>)]"

definition uint64_options ::
    "'z options_scheme options_api \<Rightarrow> (string \<times> (uint64 \<Rightarrow> 'z options_scheme \<Rightarrow> 'z options_scheme)) list" where
  "uint64_options api =
    [(''optimize_for_point_lookup'', optimize_for_point_lookup api),
     (''optimize_level_style_compaction'', optimize_level_style_compaction api),
     (''optimize_universal_style_compaction'', optimize_universal_style_compaction api),
     (''max_total_wal_size'', \<lambda>u opts. opts\<lparr>max_total_wal_size := u\<rparr>),
     (''target_file_size_base'', \<lambda>u opts. opts\<lparr>target_file_size_base := u\<rparr>),
     (''max_bytes_for_level_base'', \<lambda>u opts. opts\<lparr>max_bytes_for_level_base := u\<rparr>),
     (''WAL_ttl_seconds'', \<lambda>u opts. opts\<lparr>WAL_ttl_seconds := u\<rparr>),
     (''WAL_size_limit_MB'', \<lambda>u opts. opts\<lparr>WAL_size_limit_MB := u\<rparr>),
     (''bytes_per_sync'', \<lambda>u opts. opts\<lparr>bytes_per_sync := u\<rparr>),
     (''max_sequential_skip_in_iterations'', \<lambda>u opts. opts\<lparr>max_sequential_skip_in_iterations := u\<rparr>),
     (''delete_obsolete_files_period_micros'', \<lambda>u opts. opts\<lparr>delete_obsolete_files_period_micros := u\<rparr>)]"

definition apply_option ::
    "'z options_scheme options_api \<Rightarrow> string \<Rightarrow> json \<Rightarrow> 'z options_scheme \<Rightarrow> 'z options_scheme res" where
  \<comment> \<open>one round of the loop, for the member \<open>v\<close> named \<open>key\<close>; an unknown key is ignored\<close>
  "apply_option api key v opts =
     (case map_of (int_options api) key of
        Some assign \<Rightarrow> bind_res (as_int v) (\<lambda>i. Inr (assign i opts))
      | None \<Rightarrow>
          (case map_of bool_options key of
             Some assign \<Rightarrow> bind_res (as_bool v) (\<lambda>b. Inr (assign b opts))
           | None \<Rightarrow>
               (case map_of (uint64_options api) key of
                  Some assign \<Rightarrow> bind_res (as_uint64 v) (\<lambda>u. Inr (assign u opts))
                | None \<Rightarrow> Inr opts)))"

fun options_loop ::
    "'z options_scheme options_api \<Rightarrow> (vkey \<times> json) list \<Rightarrow> 'z options_scheme \<Rightarrow> 'z options_scheme res" where
  "options_loop api [] opts = Inr opts"
| "options_loop api ((k, v) # r) opts =
     bind_res (bind_res (key_value k) as_string) (\<lambda>key.
     bind_res (apply_option api key v opts) (\<lambda>opts'.
       options_loop api r opts'))"

definition options_from_json :: "'z options_scheme options_api \<Rightarrow> json \<Rightarrow> 'z options_scheme res" where
  "options_from_json api json = options_loop api (value_entries json) (default_options api)"

section \<open>What the loop computes\<close>

text \<open>
  A field that RocksDB's own methods do not touch: every branch for another name keeps it.
\<close>

definition methods_keep :: "('z options_scheme \<Rightarrow> 'a) \<Rightarrow> 'z options_scheme options_api \<Rightarrow> bool" where
  "methods_keep get api \<longleftrightarrow>
     (\<forall>i opts. get (increase_parallelism api i opts) = get opts) \<and>
     (\<forall>u opts. get (optimize_for_point_lookup api u opts) = get opts) \<and>
     (\<forall>u opts. get (optimize_level_style_compaction api u opts) = get opts) \<and>
     (\<forall>u opts. get (optimize_universal_style_compaction api u opts) = get opts)"

definition only_written_by :: "string \<Rightarrow> ('z options_scheme \<Rightarrow> 'a) \<Rightarrow> 'z options_scheme options_api \<Rightarrow> bool" where
  "only_written_by key get api \<longleftrightarrow>
     (\<forall>(k, assign) \<in> set (int_options api). k \<noteq> key \<longrightarrow> (\<forall>i opts. get (assign i opts) = get opts)) \<and>
     (\<forall>(k, assign) \<in> set bool_options. k \<noteq> key \<longrightarrow> (\<forall>b opts. get (assign b opts) = get opts)) \<and>
     (\<forall>(k, assign) \<in> set (uint64_options api). k \<noteq> key \<longrightarrow> (\<forall>u opts. get (assign u opts) = get opts))"

lemma apply_option_other:
  assumes "only_written_by key get api" "k \<noteq> key" "apply_option api k v opts = Inr opts'"
  shows "get opts' = get opts"
proof -
  have "map_of (int_options api) k = Some f \<Longrightarrow> get (f i opts) = get opts"
    "map_of bool_options k = Some g \<Longrightarrow> get (g b opts) = get opts"
    "map_of (uint64_options api) k = Some h \<Longrightarrow> get (h u opts) = get opts" for f g h i b u
    using assms(1, 2) by (auto simp: only_written_by_def dest!: map_of_SomeD)
  then show ?thesis
    using assms(3) by (auto simp: apply_option_def bind_res_Inr_iff split: option.splits)
qed

lemma key_value_name:
  "length s < 2147483643 \<Longrightarrow> bind_res (key_value (KName s)) as_string = Inr s"
  by (simp add: mk_string_small)

lemma options_loop_name:
  "length k < 2147483643 \<Longrightarrow> options_loop api ((KName k, v) # r) opts = Inr opts' \<Longrightarrow>
   \<exists>o1. apply_option api k v opts = Inr o1 \<and> options_loop api r o1 = Inr opts'"
  using key_value_name [of k] by (simp add: bind_res_Inr_iff del: key_value.simps)

definition short_keys :: "(string, json) omap \<Rightarrow> bool" where
  \<comment> \<open>every key fits a \<^verbatim>\<open>Json::Value\<close> string\<close>
  "short_keys m \<longleftrightarrow> (\<forall>(k, v) \<in> set m. length k < 2147483643)"

lemma options_loop_other:
  assumes "only_written_by key get api"
    "options_loop api (map (\<lambda>(k, c). (KName k, c)) m) opts = Inr opts'" "short_keys m"
    "key \<notin> fst ` set m"
  shows "get opts' = get opts"
  using assms(2-4)
proof (induction m arbitrary: opts)
  case (Cons p m)
  obtain k v where p: "p = (k, v)" by (cases p)
  obtain o1 where o1: "apply_option api k v opts = Inr o1"
      "options_loop api (map (\<lambda>(k, c). (KName k, c)) m) o1 = Inr opts'"
    using Cons.prems options_loop_name [of k api v "map (\<lambda>(k, c). (KName k, c)) m" opts opts']
    by (auto simp: p short_keys_def simp del: options_loop.simps)
  then have "get o1 = get opts"
    using apply_option_other [OF assms(1) _ o1(1)] Cons.prems p by auto
  then show ?case using Cons o1 by (simp add: short_keys_def p)
qed simp

lemma options_loop_field:
  assumes w: "only_written_by key get api"
    and own: "\<And>v o1 o2. apply_option api key v o1 = Inr o2 \<Longrightarrow> conv v = Inr (get o2)"
    and "options_loop api (map (\<lambda>(k, c). (KName k, c)) m) opts = Inr opts'"
    and "short_keys m" "om_sorted m"
  shows "case om_find key m of None \<Rightarrow> get opts' = get opts | Some v \<Rightarrow> conv v = Inr (get opts')"
  using assms(3-5)
proof (induction m arbitrary: opts)
  case (Cons p m)
  obtain k v where p: "p = (k, v)" by (cases p)
  obtain o1 where o1: "apply_option api k v opts = Inr o1"
      "options_loop api (map (\<lambda>(k, c). (KName k, c)) m) o1 = Inr opts'"
    using Cons.prems options_loop_name [of k api v "map (\<lambda>(k, c). (KName k, c)) m" opts opts']
    by (auto simp: p short_keys_def simp del: options_loop.simps)
  have sm: "short_keys m" "om_sorted m" using Cons.prems by (auto simp: short_keys_def p)
  show ?case
  proof (cases "k = key")
    case True
    then have "key \<notin> fst ` set m" using Cons.prems(3) by (auto simp: p)
    then have "get opts' = get o1" using options_loop_other [OF w o1(2) sm(1)] by simp
    then show ?thesis using own [of v opts o1] o1 True by (simp add: p)
  next
    case False
    then have "om_find key (p # m) = om_find key m"
      using Cons.prems(3) by (simp add: om_find_map_of p del: om_find.simps)
    then show ?thesis
      using Cons.IH [OF o1(2) sm] apply_option_other [OF w False o1(1)]
      by (simp split: option.splits)
  qed
qed simp

lemma options_field:
  assumes "only_written_by key get api"
    and "\<And>v o1 o2. apply_option api key v o1 = Inr o2 \<Longrightarrow> conv v = Inr (get o2)"
    and "options_from_json api (JObj mt m) = Inr opts" "short_keys m" "wf_json (JObj mt m)"
  shows "case om_find key m of None \<Rightarrow> get opts = get (default_options api) | Some v \<Rightarrow> conv v = Inr (get opts)"
  using options_loop_field [OF assms(1, 2)] assms(3-5)
  by (simp add: options_from_json_def value_entries_def wf_map_def)

lemma options_from_json_default:
  "\<not> is_array v \<Longrightarrow> \<not> is_object v \<Longrightarrow> options_from_json api v = Inr (default_options api)"
  by (cases v) (simp_all add: options_from_json_def value_entries_def is_array_def is_object_def)

text \<open>Two fields, one of each kind of table.\<close>

lemma create_if_missing_written:
  "methods_keep create_if_missing api \<Longrightarrow> only_written_by ''create_if_missing'' create_if_missing api"
  by (simp add: methods_keep_def only_written_by_def int_options_def bool_options_def uint64_options_def)

lemma create_if_missing_own:
  "apply_option api ''create_if_missing'' v o1 = Inr o2 \<Longrightarrow> as_bool v = Inr (create_if_missing o2)"
  by (auto simp: apply_option_def int_options_def bool_options_def bind_res_Inr_iff)

lemma max_open_files_written:
  "methods_keep max_open_files api \<Longrightarrow> only_written_by ''max_open_files'' max_open_files api"
  by (simp add: methods_keep_def only_written_by_def int_options_def bool_options_def uint64_options_def)

lemma max_open_files_own:
  "apply_option api ''max_open_files'' v o1 = Inr o2 \<Longrightarrow> as_int v = Inr (max_open_files o2)"
  by (auto simp: apply_option_def int_options_def bind_res_Inr_iff)


lemma wf_short_keys: "wf_json (JObj mt m) \<Longrightarrow> short_keys m"
  by (fastforce simp: short_keys_def keys_ok_def)

end
