(* ===== verification/Rocks.thy ===== *)
theory Rocks
  imports Options
begin

text \<open>
  The part of RocksDB and of the file system that src/server.cc calls. It is code outside
  the repository, so it is a parameter: \<open>rocks\<close> holds one function per call, over a state
  \<open>'w\<close> of everything outside the process, with database handles \<open>'db\<close> and column family
  handles \<open>'cf\<close>. \<open>rocks_contract\<close> states the documented behaviour that the theorems use;
  \<open>mem_rocks\<close> is a store in memory that meets it.
\<close>

datatype 'a ptr = Uninit | Nullptr | Ptr 'a

record ('w, 'z, 'db, 'cf) rocks =
  rk_options :: "'z options_scheme options_api"
  rk_exists :: "string \<Rightarrow> 'w \<Rightarrow> bool"
    \<comment> \<open>\<^verbatim>\<open>std::filesystem::exists\<close>\<close>
  rk_open :: "'z options_scheme \<Rightarrow> string \<Rightarrow> 'w \<Rightarrow> bool \<times> 'db ptr \<times> 'w"
    \<comment> \<open>\<^verbatim>\<open>DB::Open(options, path, &db)\<close>: \<^verbatim>\<open>status.ok()\<close> and \<^verbatim>\<open>db\<close>\<close>
  rk_open_cfs :: "string \<Rightarrow> string list \<Rightarrow> 'w \<Rightarrow> bool \<times> 'cf list \<times> 'db ptr \<times> 'w"
    \<comment> \<open>\<^verbatim>\<open>DB::Open(DBOptions(), path, column_families, &handles, &db)\<close>\<close>
  rk_create_cf :: "'db \<Rightarrow> string \<Rightarrow> 'w \<Rightarrow> bool \<times> 'cf ptr \<times> 'w"
    \<comment> \<open>\<^verbatim>\<open>CreateColumnFamily(ColumnFamilyOptions(), name, &cf)\<close>: the status and \<^verbatim>\<open>cf\<close>\<close>
  rk_alive :: "'db \<Rightarrow> 'w \<Rightarrow> bool"
    \<comment> \<open>the database was opened and is not deleted yet; the code cannot ask, it must know\<close>
  rk_handles :: "'db \<Rightarrow> 'w \<Rightarrow> 'cf list"
    \<comment> \<open>its column family handles that were handed out and are not destroyed; likewise\<close>
  rk_close :: "'db \<Rightarrow> 'w \<Rightarrow> 'w"
    \<comment> \<open>\<^verbatim>\<open>delete db\<close> of a database that is alive and has no such handles\<close>
  rk_get :: "'db \<Rightarrow> string \<Rightarrow> 'w \<Rightarrow> bool \<times> string"
  rk_get_cf :: "'db \<Rightarrow> 'cf \<Rightarrow> string \<Rightarrow> 'w \<Rightarrow> bool \<times> string"
  rk_put :: "'db \<Rightarrow> string \<Rightarrow> string \<Rightarrow> 'w \<Rightarrow> bool \<times> 'w"
  rk_put_cf :: "'db \<Rightarrow> 'cf \<Rightarrow> string \<Rightarrow> string \<Rightarrow> 'w \<Rightarrow> bool \<times> 'w"
  rk_write :: "'db \<Rightarrow> (string \<times> string) list \<Rightarrow> 'w \<Rightarrow> bool \<times> 'w"
    \<comment> \<open>\<^verbatim>\<open>Write(WriteOptions(), &batch)\<close> of a batch of puts\<close>

definition kDefaultColumnFamilyName :: string where
  "kDefaultColumnFamilyName = ''default''"

text \<open>
  The documented preconditions: a database is used, and deleted, only while it is alive; a
  column family handle is used only before it is destroyed, which its database must outlive;
  and every handle must be destroyed (\<^verbatim>\<open>DestroyColumnFamilyHandle\<close>) before the database is
  deleted. A call that breaks one of them is undefined behaviour. The code calls
  \<^verbatim>\<open>DestroyColumnFamilyHandle\<close> nowhere.
\<close>

definition delete_db :: "('w, 'z, 'db, 'cf) rocks \<Rightarrow> 'db \<Rightarrow> 'w \<Rightarrow> 'w res" where
  \<comment> \<open>\<^verbatim>\<open>delete db\<close>\<close>
  "delete_db R d w =
     (if \<not> rk_alive R d w then Inl (Undef ''delete of a deleted database'')
      else if rk_handles R d w \<noteq> [] then Inl (Undef ''delete of a database with column family handles'')
      else Inr (rk_close R d w))"

definition with_handle :: "('w, 'z, 'db, 'cf) rocks \<Rightarrow> 'db \<Rightarrow> 'cf \<Rightarrow> 'w \<Rightarrow> 'a res \<Rightarrow> 'a res" where
  \<comment> \<open>a call that passes the handle \<open>h\<close> to the database \<open>d\<close>\<close>
  "with_handle R d h w k =
     (if h \<in> set (rk_handles R d w) then k else Inl (Undef ''use of a dead column family handle''))"

section \<open>The contract\<close>

text \<open>
  What is stored: for a state, a live database handle and a column family, the value of
  every key.
\<close>

type_synonym ('w, 'db) store_view = "'w \<Rightarrow> 'db \<Rightarrow> string \<Rightarrow> string \<Rightarrow> string option"

definition keeps_handles :: "('w, 'z, 'db, 'cf) rocks \<Rightarrow> ('w \<Rightarrow> 'db set) \<Rightarrow> 'w \<Rightarrow> 'w \<Rightarrow> bool" where
  "keeps_handles R live w w' \<longleftrightarrow>
     live w \<subseteq> live w' \<and> (\<forall>d \<in> live w. rk_handles R d w' = rk_handles R d w)"

definition keeps_others ::
    "('w, 'z, 'db, 'cf) rocks \<Rightarrow> ('w, 'db) store_view \<Rightarrow> ('w \<Rightarrow> 'db set) \<Rightarrow> 'w \<Rightarrow> 'w \<Rightarrow> bool" where
  "keeps_others R view live w w' \<longleftrightarrow>
     keeps_handles R live w w' \<and> (\<forall>d \<in> live w. view w' d = view w d)"

definition live_contract :: "('w, 'z, 'db, 'cf) rocks \<Rightarrow> ('w \<Rightarrow> 'db set) \<Rightarrow> bool" where
  "live_contract R live \<longleftrightarrow> (\<forall>d w. rk_alive R d w \<longleftrightarrow> d \<in> live w)"

definition updates ::
    "('w, 'db) store_view \<Rightarrow> 'db \<Rightarrow> string \<Rightarrow> (string \<times> string) list \<Rightarrow> 'w \<Rightarrow> 'w \<Rightarrow> bool" where
  \<comment> \<open>the puts \<open>kvs\<close> are stored in family \<open>cf\<close> of \<open>d\<close>, in that order, and nothing else of \<open>d\<close> changes\<close>
  "updates view d cf kvs w w' \<longleftrightarrow>
     view w' d = (view w d)(cf := view w d cf ++ map_of (rev kvs))"

definition opened_db ::
    "('w, 'z, 'db, 'cf) rocks \<Rightarrow> ('w \<Rightarrow> 'db set) \<Rightarrow> 'cf list \<Rightarrow> 'db ptr \<Rightarrow> 'w \<Rightarrow> 'w \<Rightarrow> bool" where
  \<comment> \<open>a fresh database with the column family handles \<open>hs\<close>\<close>
  "opened_db R live hs p w w' \<longleftrightarrow>
     (\<exists>d. p = Ptr d \<and> d \<in> live w' \<and> d \<notin> live w \<and> rk_handles R d w' = hs)"

definition created_cf ::
    "('w, 'z, 'db, 'cf) rocks \<Rightarrow> ('w, 'db) store_view \<Rightarrow> ('w \<Rightarrow> 'db set) \<Rightarrow> 'db \<Rightarrow> bool \<Rightarrow> 'cf ptr \<Rightarrow>
     'w \<Rightarrow> 'w \<Rightarrow> bool" where
  \<comment> \<open>on success \<open>d\<close> has one more handle, which is now the caller's; nothing is lost\<close>
  "created_cf R view live d ok p w w' \<longleftrightarrow>
     live w \<subseteq> live w' \<and> (\<forall>d' \<in> live w. view w' d' = view w d') \<and>
     (\<forall>d' \<in> live w. d' \<noteq> d \<longrightarrow> rk_handles R d' w' = rk_handles R d' w) \<and>
     (ok \<longrightarrow> (\<exists>h. p = Ptr h \<and> rk_handles R d w' = h # rk_handles R d w))"

definition open_contract ::
    "('w, 'z, 'db, 'cf) rocks \<Rightarrow> ('w, 'db) store_view \<Rightarrow> ('w \<Rightarrow> 'db set) \<Rightarrow> ('cf \<Rightarrow> string) \<Rightarrow> bool" where
  \<comment> \<open>\<^verbatim>\<open>DB::Open\<close>: a fresh database on success, the null pointer on failure; one column family
     handle per descriptor, in their order\<close>
  "open_contract R view live cfn \<longleftrightarrow>
     (\<forall>opts path w ok p w'. rk_open R opts path w = (ok, p, w') \<longrightarrow>
        keeps_others R view live w w' \<and> (if ok then opened_db R live [] p w w' else p = Nullptr)) \<and>
     (\<forall>path names w ok hs p w'. rk_open_cfs R path names w = (ok, hs, p, w') \<longrightarrow>
        keeps_others R view live w w' \<and>
        (if ok then map cfn hs = names \<and> opened_db R live hs p w w' else p = Nullptr)) \<and>
     (\<forall>d name w ok p w'. d \<in> live w \<longrightarrow> rk_create_cf R d name w = (ok, p, w') \<longrightarrow>
        created_cf R view live d ok p w w') \<and>
     (\<forall>d w. d \<in> live w \<longrightarrow> rk_handles R d w = [] \<longrightarrow>
        live (rk_close R d w) = live w - {d} \<and>
        (\<forall>d' \<in> live w - {d}. view (rk_close R d w) d' = view w d' \<and>
           rk_handles R d' (rk_close R d w) = rk_handles R d' w))"

definition touches_only ::
    "('w, 'z, 'db, 'cf) rocks \<Rightarrow> ('w, 'db) store_view \<Rightarrow> ('w \<Rightarrow> 'db set) \<Rightarrow> 'db \<Rightarrow> 'w \<Rightarrow> 'w \<Rightarrow> bool" where
  \<comment> \<open>the other open databases stay as they are, and so do all handles\<close>
  "touches_only R view live d w w' \<longleftrightarrow>
     live w' = live w \<and> (\<forall>d' \<in> live w. rk_handles R d' w' = rk_handles R d' w) \<and>
     (\<forall>d' \<in> live w. d' \<noteq> d \<longrightarrow> view w' d' = view w d')"

definition data_contract ::
    "('w, 'z, 'db, 'cf) rocks \<Rightarrow> ('w, 'db) store_view \<Rightarrow> ('w \<Rightarrow> 'db set) \<Rightarrow> ('cf \<Rightarrow> string) \<Rightarrow> bool" where
  \<comment> \<open>an OK status of a read gives the stored value, an OK status of a write stores; reads and
     writes may fail, and nothing is assumed of the database whose write failed\<close>
  "data_contract R view live cfn \<longleftrightarrow>
     (\<forall>d k w v. d \<in> live w \<longrightarrow> rk_get R d k w = (True, v) \<longrightarrow>
        view w d kDefaultColumnFamilyName k = Some v) \<and>
     (\<forall>d h k w v. d \<in> live w \<longrightarrow> h \<in> set (rk_handles R d w) \<longrightarrow> rk_get_cf R d h k w = (True, v) \<longrightarrow>
        view w d (cfn h) k = Some v) \<and>
     (\<forall>d k v w ok w'. d \<in> live w \<longrightarrow> rk_put R d k v w = (ok, w') \<longrightarrow>
        touches_only R view live d w w' \<and>
        (ok \<longrightarrow> updates view d kDefaultColumnFamilyName [(k, v)] w w')) \<and>
     (\<forall>d h k v w ok w'. d \<in> live w \<longrightarrow> h \<in> set (rk_handles R d w) \<longrightarrow> rk_put_cf R d h k v w = (ok, w') \<longrightarrow>
        touches_only R view live d w w' \<and> (ok \<longrightarrow> updates view d (cfn h) [(k, v)] w w')) \<and>
     (\<forall>d kvs w ok w'. d \<in> live w \<longrightarrow> rk_write R d kvs w = (ok, w') \<longrightarrow>
        touches_only R view live d w w' \<and>
        (ok \<longrightarrow> updates view d kDefaultColumnFamilyName kvs w w'))"

definition rocks_contract ::
    "('w, 'z, 'db, 'cf) rocks \<Rightarrow> ('w, 'db) store_view \<Rightarrow> ('w \<Rightarrow> 'db set) \<Rightarrow> ('cf \<Rightarrow> string) \<Rightarrow> bool" where
  "rocks_contract R view live cfn \<longleftrightarrow>
     live_contract R live \<and> open_contract R view live cfn \<and> data_contract R view live cfn"

section \<open>A store in memory\<close>

text \<open>
  A database handle is its number; the state holds what closed databases have on disk, by
  path, for every open handle its path and its column families, and for every handle the
  column family handles that are out, the latest entry first. A column family handle is its name.
  Opening a path twice is refused, as the lock file of RocksDB does.
\<close>

type_synonym families = "(string \<times> (string \<times> string) list) list"

record mem_state =
  disk :: "(string \<times> families) list"
  opened :: "(nat \<times> string \<times> families) list"
  handed :: "(nat \<times> string list) list"

definition mem_api :: "unit options_scheme options_api" where
  "mem_api =
     \<lparr>default_options =
        \<lparr>info_log_level = INFO_LEVEL, max_open_files = -1, num_levels = 7,
         level0_file_num_compaction_trigger = 4, level0_slowdown_writes_trigger = 20,
         level0_stop_writes_trigger = 36, target_file_size_multiplier = 1,
         max_write_buffer_number = 2, min_write_buffer_number_to_merge = 1,
         max_write_buffer_number_to_maintain = 0, max_background_compactions = -1,
         max_background_flushes = -1, table_cache_numshardbits = 6, use_fsync = False,
         access_hint_on_compaction_start = HINT_NORMAL, disable_auto_compactions = False,
         report_bg_io_stats = False, compression = kSnappyCompression, create_if_missing = False,
         create_missing_column_families = False, error_if_exists = False, paranoid_checks = True,
         allow_mmap_reads = False, allow_mmap_writes = False, is_fd_close_on_exec = True,
         advise_random_on_open = True, use_adaptive_mutex = False, inplace_update_support = False,
         max_total_wal_size = 0, target_file_size_base = 0x4000000,
         max_bytes_for_level_base = 0x10000000, WAL_ttl_seconds = 0, WAL_size_limit_MB = 0,
         bytes_per_sync = 0, max_sequential_skip_in_iterations = 8,
         delete_obsolete_files_period_micros = 21600000000\<rparr>,
      increase_parallelism = (\<lambda>_ opts. opts), optimize_for_point_lookup = (\<lambda>_ opts. opts),
      optimize_level_style_compaction = (\<lambda>_ opts. opts),
      optimize_universal_style_compaction = (\<lambda>_ opts. opts),
      increase_parallelism_default = (\<lambda>opts. opts),
      optimize_level_style_compaction_default = (\<lambda>opts. opts)\<rparr>"

definition family_get :: "families \<Rightarrow> string \<Rightarrow> (string \<times> string) list" where
  "family_get fs cf = (case map_of fs cf of None \<Rightarrow> [] | Some kvs \<Rightarrow> kvs)"

definition mem_families :: "mem_state \<Rightarrow> nat \<Rightarrow> families" where
  "mem_families w d = (case map_of (opened w) d of None \<Rightarrow> [] | Some (_, fs) \<Rightarrow> fs)"

definition mem_view :: "(mem_state, nat) store_view" where
  "mem_view w d cf k = map_of (family_get (mem_families w d) cf) k"

definition mem_live :: "mem_state \<Rightarrow> nat set" where
  "mem_live w = fst ` set (opened w)"

definition mem_handles :: "nat \<Rightarrow> mem_state \<Rightarrow> string list" where
  "mem_handles d w = (case map_of (handed w) d of None \<Rightarrow> [] | Some hs \<Rightarrow> hs)"

definition mem_hand :: "nat \<Rightarrow> string list \<Rightarrow> mem_state \<Rightarrow> mem_state" where
  "mem_hand d hs w = w\<lparr>handed := (d, hs) # handed w\<rparr>"

definition mem_lookup :: "nat \<Rightarrow> string \<Rightarrow> string \<Rightarrow> mem_state \<Rightarrow> bool \<times> string" where
  "mem_lookup d cf k w = (case mem_view w d cf k of None \<Rightarrow> (False, []) | Some v \<Rightarrow> (True, v))"

definition mem_store :: "nat \<Rightarrow> string \<Rightarrow> (string \<times> string) list \<Rightarrow> mem_state \<Rightarrow> bool \<times> mem_state" where
  "mem_store d cf kvs w =
     (case map_of (opened w) d of None \<Rightarrow> (False, w)
      | Some (path, fs) \<Rightarrow>
          (True, w\<lparr>opened := (d, path, (cf, rev kvs @ family_get fs cf) # fs) # opened w\<rparr>))"

definition mem_fresh :: "mem_state \<Rightarrow> nat" where
  "mem_fresh w = Suc (sum_list (map fst (opened w)))"

definition mem_open :: "bool \<Rightarrow> string \<Rightarrow> string list \<Rightarrow> mem_state \<Rightarrow> bool \<times> nat ptr \<times> mem_state" where
  "mem_open create path hs w =
     (let d = mem_fresh w
      in if path \<in> (fst \<circ> snd) ` set (opened w) then (False, Nullptr, w)
         else (case map_of (disk w) path of
                 Some fs \<Rightarrow> (True, Ptr d, mem_hand d hs (w\<lparr>opened := (d, path, fs) # opened w\<rparr>))
               | None \<Rightarrow>
                   if create
                   then (True, Ptr d,
                         mem_hand d hs (w\<lparr>disk := (path, []) # disk w, opened := (d, path, []) # opened w\<rparr>))
                   else (False, Nullptr, w)))"

definition mem_close :: "nat \<Rightarrow> mem_state \<Rightarrow> mem_state" where
  "mem_close d w =
     w\<lparr>disk := (case map_of (opened w) d of None \<Rightarrow> disk w | Some (path, fs) \<Rightarrow> (path, fs) # disk w),
       opened := filter (\<lambda>e. fst e \<noteq> d) (opened w)\<rparr>"

definition mem_rocks :: "(mem_state, unit, nat, string) rocks" where
  "mem_rocks =
     \<lparr>rk_options = mem_api,
      rk_exists = (\<lambda>path w. map_of (disk w) path \<noteq> None),
      rk_open = (\<lambda>opts path w. mem_open (create_if_missing opts) path [] w),
      rk_open_cfs = (\<lambda>path names w.
        case mem_open False path names w of (ok, p, w') \<Rightarrow> (ok, if ok then names else [], p, w')),
      rk_create_cf = (\<lambda>d name w. (True, Ptr name, mem_hand d (name # mem_handles d w) w)),
      rk_alive = (\<lambda>d w. d \<in> fst ` set (opened w)),
      rk_handles = mem_handles,
      rk_close = mem_close,
      rk_get = (\<lambda>d k w. mem_lookup d kDefaultColumnFamilyName k w),
      rk_get_cf = (\<lambda>d h k w. mem_lookup d h k w),
      rk_put = (\<lambda>d k v w. mem_store d kDefaultColumnFamilyName [(k, v)] w),
      rk_put_cf = (\<lambda>d h k v w. mem_store d h [(k, v)] w),
      rk_write = (\<lambda>d kvs w. mem_store d kDefaultColumnFamilyName kvs w)\<rparr>"

section \<open>The store in memory meets the contract\<close>

lemma mem_fresh_not_live: "mem_fresh w \<notin> mem_live w"
proof
  assume "mem_fresh w \<in> mem_live w"
  then have "mem_fresh w \<le> sum_list (map fst (opened w))"
    unfolding mem_live_def by (intro member_le_sum_list) simp_all
  then show False by (simp add: mem_fresh_def)
qed

lemma mem_view_push:
  assumes "d' \<noteq> d"
  shows "mem_view (w\<lparr>opened := (d, e) # opened w\<rparr>) d' = mem_view w d'"
    "mem_view (w\<lparr>disk := x, opened := (d, e) # opened w\<rparr>) d' = mem_view w d'"
  using assms by (auto simp: mem_view_def mem_families_def fun_eq_iff)

lemma mem_live_push [simp]:
  "mem_live (w\<lparr>opened := (d, e) # opened w\<rparr>) = insert d (mem_live w)"
  "mem_live (w\<lparr>disk := x, opened := (d, e) # opened w\<rparr>) = insert d (mem_live w)"
  by (simp_all add: mem_live_def)

lemma mem_hand [simp]:
  "mem_live (mem_hand d hs w) = mem_live w" "mem_view (mem_hand d hs w) = mem_view w"
  "mem_handles d' (mem_hand d hs w) = (if d' = d then hs else mem_handles d' w)"
  by (auto simp: mem_hand_def mem_live_def mem_view_def mem_families_def mem_handles_def fun_eq_iff)

lemma mem_handles_push [simp]:
  "mem_handles d' (w\<lparr>opened := o1\<rparr>) = mem_handles d' w"
  "mem_handles d' (w\<lparr>disk := x\<rparr>) = mem_handles d' w"
  "mem_handles d' (mem_close d w) = mem_handles d' w"
  by (simp_all add: mem_handles_def mem_close_def)

lemma mem_rocks_handles [simp]: "rk_handles mem_rocks = mem_handles"
  by (simp add: mem_rocks_def)

lemma mem_open_contract:
  assumes "mem_open create path hs w = (ok, p, w')"
  shows "keeps_others mem_rocks mem_view mem_live w w'"
    "if ok then opened_db mem_rocks mem_live hs p w w' else p = Nullptr"
proof -
  have f: "mem_fresh w \<notin> mem_live w" by (rule mem_fresh_not_live)
  show "keeps_others mem_rocks mem_view mem_live w w'"
    using assms f
    by (auto simp: mem_open_def Let_def keeps_others_def keeps_handles_def split: if_splits option.splits
        intro!: mem_view_push)
  show "if ok then opened_db mem_rocks mem_live hs p w w' else p = Nullptr"
    using assms f
    by (auto simp: mem_open_def Let_def opened_db_def split: if_splits option.splits)
qed

lemma mem_families_close: "d' \<noteq> d \<Longrightarrow> mem_families (mem_close d w) d' = mem_families w d'"
proof -
  assume "d' \<noteq> d"
  then have "map_of (filter (\<lambda>e. fst e \<noteq> d) l) d' = map_of l d'" for l :: "(nat \<times> string \<times> families) list"
    by (induction l) auto
  then show ?thesis by (simp add: mem_families_def mem_close_def)
qed

lemma mem_store_contract:
  assumes "mem_store d cf kvs w = (ok, w')"
  shows "touches_only mem_rocks mem_view mem_live d w w'" "ok \<Longrightarrow> updates mem_view d cf kvs w w'"
proof -
  consider "ok = False" "w' = w" | path fs where "map_of (opened w) d = Some (path, fs)" "ok"
    using assms by (auto simp: mem_store_def split: option.splits)
  then have "touches_only mem_rocks mem_view mem_live d w w' \<and> (ok \<longrightarrow> updates mem_view d cf kvs w w')"
  proof cases
    case 1
    then show ?thesis by (simp add: touches_only_def)
  next
    case (2 path fs)
    note Some = 2(1)
    have w': "w' = w\<lparr>opened := (d, path, (cf, rev kvs @ family_get fs cf) # fs) # opened w\<rparr>"
      using assms Some by (simp add: mem_store_def)
    have l: "mem_live w' = mem_live w"
      using map_of_SomeD [OF Some] by (force simp: w' mem_live_def)
    have "mem_families w d = fs" using Some by (simp add: mem_families_def)
    then have v: "mem_view w' d = (mem_view w d)(cf := mem_view w d cf ++ map_of (rev kvs))"
      by (auto simp: w' mem_view_def mem_families_def family_get_def map_add_def fun_eq_iff split: option.splits)
    show ?thesis
      using l v by (simp add: updates_def touches_only_def) (simp add: w' mem_view_push)
  qed
  then show "touches_only mem_rocks mem_view mem_live d w w'" "ok \<Longrightarrow> updates mem_view d cf kvs w w'"
    by simp_all
qed

lemma mem_rocks_contract: "rocks_contract mem_rocks mem_view mem_live id"
  unfolding rocks_contract_def
proof (intro conjI)
  have close: "mem_live (mem_close d w) = mem_live w - {d}" for d w
    by (auto simp: mem_live_def mem_close_def)
  have view: "mem_view (mem_close d w) d' = mem_view w d'" if "d' \<noteq> d" for d d' w
    using that by (simp add: mem_view_def mem_families_close fun_eq_iff)
  show "live_contract mem_rocks mem_live"
    by (simp add: live_contract_def mem_rocks_def mem_live_def)
  show "open_contract mem_rocks mem_view mem_live id"
    unfolding open_contract_def
  proof (intro conjI allI impI)
    fix opts path w ok p w'
    assume "rk_open mem_rocks opts path w = (ok, p, w')"
    then have "mem_open (create_if_missing opts) path [] w = (ok, p, w')" by (simp add: mem_rocks_def)
    from mem_open_contract [OF this]
    show "keeps_others mem_rocks mem_view mem_live w w'"
      "if ok then opened_db mem_rocks mem_live [] p w w' else p = Nullptr" .
  next
    fix path names w ok hs p w'
    assume "rk_open_cfs mem_rocks path names w = (ok, hs, p, w')"
    then have o: "mem_open False path names w = (ok, p, w')" and hs: "ok \<Longrightarrow> hs = names"
      by (auto simp: mem_rocks_def split: prod.splits)
    show "keeps_others mem_rocks mem_view mem_live w w'" by (rule mem_open_contract(1) [OF o])
    show "if ok then map id hs = names \<and> opened_db mem_rocks mem_live hs p w w' else p = Nullptr"
      using mem_open_contract(2) [OF o] hs by simp
  next
    fix d name w ok p w'
    assume "rk_create_cf mem_rocks d name w = (ok, p, w')"
    then show "created_cf mem_rocks mem_view mem_live d ok p w w'"
      by (auto simp: created_cf_def) (auto simp: mem_rocks_def)
  next
    fix d w
    show "mem_live (rk_close mem_rocks d w) = mem_live w - {d}"
      by (simp add: mem_rocks_def close)
    show "\<forall>d' \<in> mem_live w - {d}. mem_view (rk_close mem_rocks d w) d' = mem_view w d' \<and>
        rk_handles mem_rocks d' (rk_close mem_rocks d w) = rk_handles mem_rocks d' w"
      by (auto simp: view) (simp_all add: mem_rocks_def view)
  qed
  show "data_contract mem_rocks mem_view mem_live id"
    using mem_store_contract
    by (auto simp: data_contract_def mem_lookup_def split: option.splits) (auto simp: mem_rocks_def mem_lookup_def split: option.splits)
qed

end
