(* ===== verification/Json_Token.thy ===== *)
theory Json_Token
  imports Prelude
begin

text \<open>
  The scanner of \<^verbatim>\<open>Json::OurReader\<close> in src/json_reader.cc: features, tokens and everything
  \<^verbatim>\<open>readToken\<close> calls. A scanner takes the pointer \<^verbatim>\<open>current_\<close>, as the rest of the document,
  and returns it moved. The reader modelled does not collect comments: both callers in the
  service set \<^verbatim>\<open>collectComments\<close> to false, so a comment is only recognised and skipped.
  The lemmas: every scanner returns a suffix of its input, and a token that is not the end
  of the document consumes at least one character.
\<close>

section \<open>Features and tokens\<close>

record features =
  allowComments :: bool
  allowTrailingCommas :: bool
  strictRoot :: bool
  allowDroppedNullPlaceholders :: bool
  allowNumericKeys :: bool
  allowSingleQuotes :: bool
  failIfExtra :: bool
  rejectDupKeys :: bool
  allowSpecialFloats :: bool
  skipBom :: bool
  stackLimit :: nat

datatype token_type =
    tokenEndOfStream | tokenObjectBegin | tokenObjectEnd | tokenArrayBegin | tokenArrayEnd
  | tokenString | tokenNumber | tokenTrue | tokenFalse | tokenNull | tokenNaN
  | tokenPosInf | tokenNegInf | tokenArraySeparator | tokenMemberSeparator
  | tokenComment | tokenError

record token =
  tok_type :: token_type
  tok_start :: loc
  tok_end :: loc

section \<open>The scanners\<close>

definition get_next_char :: "loc \<Rightarrow> char \<times> loc" where
  "get_next_char cur = (case cur of [] \<Rightarrow> (NUL, []) | c # r \<Rightarrow> (c, r))"

fun skip_spaces :: "loc \<Rightarrow> loc" where
  "skip_spaces [] = []"
| "skip_spaces (c # r) =
     (if c = CHR '' '' \<or> c = TAB \<or> c = CR \<or> c = LF then skip_spaces r else c # r)"

definition skip_bom :: "bool \<Rightarrow> loc \<Rightarrow> loc" where
  \<comment> \<open>the new \<^verbatim>\<open>begin_\<close>, which is \<^verbatim>\<open>current_\<close>, too\<close>
  "skip_bom skip doc =
     (if skip \<and> 3 \<le> length doc \<and> take 3 doc = [CHR 0xEF, CHR 0xBB, CHR 0xBF]
      then drop 3 doc else doc)"

definition match_pattern :: "string \<Rightarrow> loc \<Rightarrow> bool \<times> loc" where
  "match_pattern pattern cur =
     (if length cur < length pattern then (False, cur)
      else if take (length pattern) cur \<noteq> pattern then (False, cur)
      else (True, drop (length pattern) cur))"

fun read_c_style_loop :: "loc \<Rightarrow> bool \<Rightarrow> loc \<times> bool" where
  "read_c_style_loop (c # d # r) nl =
     (if c = CHR ''*'' \<and> d = CHR ''/'' then (d # r, nl)
      else read_c_style_loop (d # r) (nl \<or> c = LF))"
| "read_c_style_loop cur nl = (cur, nl)"

definition read_c_style_comment :: "loc \<Rightarrow> bool \<times> bool \<times> loc" where
  \<comment> \<open>whether the comment ends, whether it contains a newline, and \<^verbatim>\<open>current_\<close>\<close>
  "read_c_style_comment cur =
     (let (cur1, nl) = read_c_style_loop cur False; (c, cur2) = get_next_char cur1
      in (c = CHR ''/'', nl, cur2))"

fun read_cpp_style_comment :: "loc \<Rightarrow> loc" where
  \<comment> \<open>always successful\<close>
  "read_cpp_style_comment [] = []"
| "read_cpp_style_comment (c # r) =
     (if c = LF then r
      else if c = CR then (if r \<noteq> [] \<and> hd r = LF then tl r else r)
      else read_cpp_style_comment r)"

definition read_comment :: "loc \<Rightarrow> bool \<times> loc" where
  "read_comment cur =
     (let (c, cur1) = get_next_char cur
      in if c = CHR ''*'' then (case read_c_style_comment cur1 of (ok, _, cur2) \<Rightarrow> (ok, cur2))
         else if c = CHR ''/'' then (True, read_cpp_style_comment cur1)
         else (False, cur1))"

text \<open>
  \<^verbatim>\<open>readNumber\<close> keeps the character \<open>c\<close>, the pointer \<^verbatim>\<open>current_\<close> to it and the pointer \<open>p\<close>
  behind it.
\<close>

definition next_c :: "loc \<Rightarrow> char \<times> loc \<times> loc" where
  \<comment> \<open>\<^verbatim>\<open>c = (current_ = p) < end_ ? *p++ : '\0'\<close>\<close>
  "next_c p = (case p of [] \<Rightarrow> (NUL, [], []) | c # r \<Rightarrow> (c, p, r))"

fun skip_digits :: "loc \<Rightarrow> char \<times> loc \<times> loc" where
  \<comment> \<open>\<^verbatim>\<open>do c = next; while (c >= '0' && c <= '9')\<close>\<close>
  "skip_digits [] = (NUL, [], [])"
| "skip_digits (c # r) = (if is_digit c then skip_digits r else (c, c # r, r))"

definition while_digits :: "char \<times> loc \<times> loc \<Rightarrow> char \<times> loc \<times> loc" where
  "while_digits s = (case s of (c, cur, p) \<Rightarrow> if is_digit c then skip_digits p else s)"

definition read_number :: "bool \<Rightarrow> loc \<Rightarrow> bool \<times> loc" where
  "read_number checkInf cur =
     (if checkInf \<and> cur \<noteq> [] \<and> hd cur = CHR ''I'' then (False, tl cur)
      else
        let s1 = skip_digits cur;
            s2 = (case s1 of (c, _, p) \<Rightarrow> if c = CHR ''.'' then while_digits (next_c p) else s1);
            s3 = (case s2 of (c, _, p) \<Rightarrow>
                    if c = CHR ''e'' \<or> c = CHR ''E'' then
                      (let t = next_c p;
                           u = (case t of (d, _, q) \<Rightarrow>
                                  if d = CHR ''+'' \<or> d = CHR ''-'' then next_c q else t)
                       in while_digits u)
                    else s2)
        in (True, fst (snd s3)))"

fun read_string_loop :: "char \<Rightarrow> char \<Rightarrow> loc \<Rightarrow> char \<times> loc" where
  "read_string_loop q c [] = (c, [])"
| "read_string_loop q c (d # r) =
     (if d = BSL then read_string_loop q d (tl r)
      else if d = q then (d, r)
      else read_string_loop q d r)"

definition read_string :: "loc \<Rightarrow> bool \<times> loc" where
  "read_string cur = (case read_string_loop DQ NUL cur of (c, cur') \<Rightarrow> (c = DQ, cur'))"

definition read_string_single_quote :: "loc \<Rightarrow> bool \<times> loc" where
  "read_string_single_quote cur =
     (case read_string_loop SQ NUL cur of (c, cur') \<Rightarrow> (c = SQ, cur'))"

text \<open>
  The switch of \<^verbatim>\<open>readToken\<close> on the character \<open>c\<close>: the type the code assigns, \<open>ok\<close>, and
  \<^verbatim>\<open>current_\<close>. Where the code assigns no type \<open>ok\<close> is false, and the type becomes
  \<open>tokenError\<close>.
\<close>

definition token_switch :: "features \<Rightarrow> char \<Rightarrow> loc \<Rightarrow> token_type \<times> bool \<times> loc" where
  "token_switch f c cur =
     (if c = CHR ''{'' then (tokenObjectBegin, True, cur)
      else if c = CHR ''}'' then (tokenObjectEnd, True, cur)
      else if c = CHR ''['' then (tokenArrayBegin, True, cur)
      else if c = CHR '']'' then (tokenArrayEnd, True, cur)
      else if c = DQ then (tokenString, read_string cur)
      else if c = SQ then
        (if allowSingleQuotes f then (tokenString, read_string_single_quote cur)
         else (tokenError, False, cur))
      else if c = CHR ''/'' then (tokenComment, read_comment cur)
      else if is_digit c then (tokenNumber, True, snd (read_number False cur))
      else if c = CHR ''-'' then
        (case read_number True cur of (True, cur1) \<Rightarrow> (tokenNumber, True, cur1)
         | (False, cur1) \<Rightarrow>
             (tokenNegInf, if allowSpecialFloats f then match_pattern ''nfinity'' cur1 else (False, cur1)))
      else if c = CHR ''+'' then
        (case read_number True cur of (True, cur1) \<Rightarrow> (tokenNumber, True, cur1)
         | (False, cur1) \<Rightarrow>
             (tokenPosInf, if allowSpecialFloats f then match_pattern ''nfinity'' cur1 else (False, cur1)))
      else if c = CHR ''t'' then (tokenTrue, match_pattern ''rue'' cur)
      else if c = CHR ''f'' then (tokenFalse, match_pattern ''alse'' cur)
      else if c = CHR ''n'' then (tokenNull, match_pattern ''ull'' cur)
      else if c = CHR ''N'' then
        (if allowSpecialFloats f then (tokenNaN, match_pattern ''aN'' cur) else (tokenError, False, cur))
      else if c = CHR ''I'' then
        (if allowSpecialFloats f then (tokenPosInf, match_pattern ''nfinity'' cur)
         else (tokenError, False, cur))
      else if c = CHR '','' then (tokenArraySeparator, True, cur)
      else if c = CHR '':'' then (tokenMemberSeparator, True, cur)
      else if c = NUL then (tokenEndOfStream, True, cur)
      else (tokenError, False, cur))"

definition read_token :: "features \<Rightarrow> loc \<Rightarrow> bool \<times> token \<times> loc" where
  "read_token f cur =
     (let start = skip_spaces cur; (c, cur1) = get_next_char start;
          (ty, ok, cur2) = token_switch f c cur1
      in (ok, \<lparr>tok_type = (if ok then ty else tokenError), tok_start = start, tok_end = cur2\<rparr>, cur2))"

section \<open>Scanners return a suffix of their input\<close>

lemma skip_spaces_suffix [scan_suffix]: "suffix (skip_spaces cur) cur"
  by (induction cur rule: skip_spaces.induct) (auto simp: suffix_ConsI)

lemma get_next_char_suffix [scan_suffix]: "suffix (snd (get_next_char cur)) cur"
  by (simp add: get_next_char_def suffix_ConsI split: list.splits)

lemma skip_bom_suffix [scan_suffix]: "suffix (skip_bom b cur) cur"
  by (simp add: skip_bom_def suffix_drop)

lemma match_pattern_suffix [scan_suffix]: "suffix (snd (match_pattern p cur)) cur"
  by (simp add: match_pattern_def suffix_drop)

lemma read_c_style_loop_suffix: "suffix (fst (read_c_style_loop cur nl)) cur"
  by (induction cur nl rule: read_c_style_loop.induct) (auto simp: suffix_ConsI)

lemma read_c_style_comment_suffix [scan_suffix]: "suffix (snd (snd (read_c_style_comment cur))) cur"
  using read_c_style_loop_suffix [of cur False]
    get_next_char_suffix [of "fst (read_c_style_loop cur False)"]
  by (auto simp: read_c_style_comment_def Let_def split_beta intro: suffix_order.trans)

lemma read_cpp_style_comment_suffix [scan_suffix]: "suffix (read_cpp_style_comment cur) cur"
  by (induction cur rule: read_cpp_style_comment.induct) (auto intro: suffix_ConsI simp: suffix_tl suffix_ConsI)

lemma read_comment_suffix [scan_suffix]: "suffix (snd (read_comment cur)) cur"
  using get_next_char_suffix [of cur] read_c_style_comment_suffix [of "snd (get_next_char cur)"]
    read_cpp_style_comment_suffix [of "snd (get_next_char cur)"]
  by (auto simp: read_comment_def Let_def split_beta intro: suffix_order.trans)

lemma skip_digits_suffix:
  "suffix (fst (snd (skip_digits p))) p" "suffix (snd (snd (skip_digits p))) (fst (snd (skip_digits p)))"
  by (induction p) (auto intro: suffix_ConsI)

lemma next_c_suffix:
  "suffix (fst (snd (next_c p))) p" "suffix (snd (snd (next_c p))) (fst (snd (next_c p)))"
  by (simp_all add: next_c_def suffix_ConsI split: list.splits)

text \<open>A state of \<^verbatim>\<open>readNumber\<close> reached from the pointer \<open>p\<close>.\<close>

definition num_state :: "loc \<Rightarrow> char \<times> loc \<times> loc \<Rightarrow> bool" where
  "num_state p s \<longleftrightarrow> suffix (fst (snd s)) p \<and> suffix (snd (snd s)) (fst (snd s))"

lemma num_state_intros:
  "num_state p (skip_digits p)" "num_state p (next_c p)"
  "num_state p (c, cur, q) \<Longrightarrow> num_state q s \<Longrightarrow> num_state p s"
  by (auto simp: num_state_def skip_digits_suffix next_c_suffix intro: suffix_order.trans)

lemma num_state_while: "num_state p s \<Longrightarrow> num_state p (while_digits s)"
  by (auto simp: while_digits_def split: prod.splits intro: num_state_intros)

lemma read_number_suffix [scan_suffix]: "suffix (snd (read_number b cur)) cur"
proof (cases "b \<and> cur \<noteq> [] \<and> hd cur = CHR ''I''")
  case True
  then show ?thesis by (simp add: read_number_def suffix_tl)
next
  case False
  obtain c1 k1 p1 where s1: "skip_digits cur = (c1, k1, p1)" by (cases "skip_digits cur") auto
  have n1: "num_state cur (c1, k1, p1)" using num_state_intros(1) [of cur] s1 by simp
  define s2 where "s2 = (if c1 = CHR ''.'' then while_digits (next_c p1) else (c1, k1, p1))"
  have n2: "num_state cur s2"
    unfolding s2_def using n1 by (auto intro: num_state_intros num_state_while)
  obtain c2 k2 p2 where s2': "s2 = (c2, k2, p2)" by (cases s2) auto
  define u where "u = (case next_c p2 of (d, _, q) \<Rightarrow>
                         if d = CHR ''+'' \<or> d = CHR ''-'' then next_c q else next_c p2)"
  have "num_state p2 u"
    using num_state_intros(2) [of p2]
    by (auto simp: u_def split: prod.splits intro: num_state_intros)
  then have n3: "num_state cur (while_digits u)"
    using n2 unfolding s2' by (blast intro: num_state_intros num_state_while)
  have e: "snd (read_number b cur) =
      fst (snd (if c2 = CHR ''e'' \<or> c2 = CHR ''E'' then while_digits u else s2))"
    using False s2' by (auto simp: read_number_def s1 Let_def simp flip: s2_def u_def)
  show ?thesis
    unfolding e using n2 n3 by (simp add: num_state_def)
qed

lemma read_string_loop_suffix: "suffix (snd (read_string_loop q c cur)) cur"
proof (induction q c cur rule: read_string_loop.induct)
  case (2 q c d r)
  have "suffix (tl r) (d # r)" by (simp add: suffix_ConsI suffix_tl)
  with 2 show ?case by (auto intro: suffix_ConsI suffix_order.trans)
qed simp

lemma read_string_suffix [scan_suffix]:
  "suffix (snd (read_string cur)) cur" "suffix (snd (read_string_single_quote cur)) cur"
  using read_string_loop_suffix [of DQ NUL cur] read_string_loop_suffix [of SQ NUL cur]
  by (auto simp: read_string_def read_string_single_quote_def split_beta)

lemma token_switch_suffix: "suffix (snd (snd (token_switch f c cur))) cur"
proof -
  obtain b cur1 where n: "read_number True cur = (b, cur1)" by (cases "read_number True cur") auto
  then have s: "suffix cur1 cur" using read_number_suffix [of True cur] by simp
  then have m: "suffix (snd (match_pattern p cur1)) cur" for p
    using match_pattern_suffix [of p cur1] suffix_order.trans by blast
  show ?thesis
    by (cases b) (simp_all add: token_switch_def n s m scan_suffix)
qed

lemma token_switch_eos: "fst (token_switch f c cur) = tokenEndOfStream \<Longrightarrow> c = NUL"
  by (auto simp: token_switch_def split: if_splits prod.splits bool.splits)

lemma token_switch_ok:
  "fst (token_switch f c cur) = tokenError \<Longrightarrow> \<not> fst (snd (token_switch f c cur))"
  by (auto simp: token_switch_def split: if_splits prod.splits bool.splits)

lemma token_switch_NUL: "token_switch f NUL cur = (tokenEndOfStream, True, cur)"
  by (simp add: token_switch_def is_digit_def byte_def)

text \<open>What every token satisfies, for the callers.\<close>

lemma read_token_ends:
  assumes "read_token f cur = (ok, tok, cur')"
  shows "tok_end tok = cur'" "tok_start tok = skip_spaces cur" "suffix cur' (tl (skip_spaces cur))"
    "suffix cur' cur" "ok \<longleftrightarrow> tok_type tok \<noteq> tokenError"
proof -
  obtain c r where g: "get_next_char (skip_spaces cur) = (c, r)"
    by (cases "get_next_char (skip_spaces cur)") auto
  then have r: "r = tl (skip_spaces cur)"
    by (auto simp: get_next_char_def split: list.splits)
  obtain ty b r2 where t: "token_switch f c r = (ty, b, r2)"
    by (cases "token_switch f c r") auto
  have e: "ok = b" "cur' = r2" "tok = \<lparr>tok_type = (if b then ty else tokenError),
      tok_start = skip_spaces cur, tok_end = r2\<rparr>"
    using assms g t by (auto simp: read_token_def Let_def)
  show "tok_end tok = cur'" "tok_start tok = skip_spaces cur" "suffix cur' (tl (skip_spaces cur))"
    using e t r token_switch_suffix [of f c r] by simp_all
  then show "suffix cur' cur"
    using skip_spaces_suffix suffix_order.trans suffix_tl by blast
  show "ok \<longleftrightarrow> tok_type tok \<noteq> tokenError"
    using e t token_switch_ok [of f c r] by auto
qed

lemma read_token_progress:
  assumes "read_token f cur = (ok, tok, cur')" "tok_type tok \<noteq> tokenEndOfStream"
  shows "length cur' < length cur"
proof (cases "skip_spaces cur")
  case Nil
  then show ?thesis
    using assms by (auto simp: read_token_def Let_def get_next_char_def token_switch_NUL)
next
  case (Cons c r)
  then show ?thesis
    using read_token_ends(3) [OF assms(1)] skip_spaces_suffix [of cur]
    by (auto dest!: suffix_length_le)
qed

end
