(* ===== verification/Json_Quote.thy ===== *)
theory Json_Quote
  imports Json_Text
begin

unbundle bit_operations_syntax

text \<open>
  Strings as JSON literals: \<^verbatim>\<open>doesAnyCharRequireEscaping\<close>, \<^verbatim>\<open>utf8ToCodepoint\<close>,
  \<^verbatim>\<open>toHex16Bit\<close> and \<^verbatim>\<open>valueToQuotedStringN\<close> of src/json_writer.cc. The theorems: without
  \<^verbatim>\<open>emitUTF8\<close> the literal has only bytes from 0x20 to 0x7F, whatever the bytes of the string.
\<close>

definition char_requires_escaping :: "char \<Rightarrow> bool" where
  "char_requires_escaping c \<longleftrightarrow> c = BSL \<or> c = DQ \<or> byte c < 0x20 \<or> byte c > 0x7F"

definition does_any_char_require_escaping :: "string \<Rightarrow> bool" where
  "does_any_char_require_escaping s \<longleftrightarrow> list_ex char_requires_escaping s"

section \<open>UTF-8 to code points\<close>

definition u8 :: "char \<Rightarrow> uint32" where
  \<comment> \<open>\<^verbatim>\<open>static_cast<unsigned int>(c)\<close>, wherever it is masked to six bits or read as unsigned\<close>
  "u8 c = of_nat (byte c)"

definition replacement_character :: uint32 where "replacement_character = 0xFFFD"

text \<open>\<open>utf8_to_codepoint s\<close> for the pointer \<open>s\<close>: the code point and \<open>s\<close> after the call, which
  is the last byte it used.\<close>

definition utf8_to_codepoint :: "string \<Rightarrow> uint32 \<times> string" where
  "utf8_to_codepoint s =
     (case s of [] \<Rightarrow> (replacement_character, [])
      | c0 # r \<Rightarrow>
        (let firstByte = u8 c0
         in if firstByte < 0x80 then (firstByte, s)
            else if firstByte < 0xE0 then
              (case r of
                 c1 # _ \<Rightarrow>
                   (let calculated = push_bit 6 (firstByte AND 0x1F) OR (u8 c1 AND 0x3F)
                    in (if calculated < 0x80 then replacement_character else calculated, r))
               | _ \<Rightarrow> (replacement_character, s))
            else if firstByte < 0xF0 then
              (case r of
                 c1 # c2 # r2 \<Rightarrow>
                   (let calculated = push_bit 12 (firstByte AND 0x0F) OR
                          push_bit 6 (u8 c1 AND 0x3F) OR (u8 c2 AND 0x3F)
                    in (if 0xD800 \<le> calculated \<and> calculated \<le> 0xDFFF then replacement_character
                        else if calculated < 0x800 then replacement_character else calculated,
                        c2 # r2))
               | _ \<Rightarrow> (replacement_character, s))
            else if firstByte < 0xF8 then
              (case r of
                 c1 # c2 # c3 # r3 \<Rightarrow>
                   (let calculated = push_bit 18 (firstByte AND 0x07) OR
                          push_bit 12 (u8 c1 AND 0x3F) OR push_bit 6 (u8 c2 AND 0x3F) OR (u8 c3 AND 0x3F)
                    in (if calculated < 0x10000 then replacement_character else calculated, c3 # r3))
               | _ \<Rightarrow> (replacement_character, s))
            else (replacement_character, s)))"

lemma utf8_to_codepoint_rest:
  assumes "utf8_to_codepoint (c # r) = (cp, s')"
  shows "s' \<noteq> []" "suffix s' (c # r)"
  using assms
  by (auto simp: utf8_to_codepoint_def Let_def suffix_Cons split: if_splits list.splits)

section \<open>Escapes\<close>

definition hex2 :: string where
  "hex2 = ''000102030405060708090a0b0c0d0e0f'' @ ''101112131415161718191a1b1c1d1e1f'' @
          ''202122232425262728292a2b2c2d2e2f'' @ ''303132333435363738393a3b3c3d3e3f'' @
          ''404142434445464748494a4b4c4d4e4f'' @ ''505152535455565758595a5b5c5d5e5f'' @
          ''606162636465666768696a6b6c6d6e6f'' @ ''707172737475767778797a7b7c7d7e7f'' @
          ''808182838485868788898a8b8c8d8e8f'' @ ''909192939495969798999a9b9c9d9e9f'' @
          ''a0a1a2a3a4a5a6a7a8a9aaabacadaeaf'' @ ''b0b1b2b3b4b5b6b7b8b9babbbcbdbebf'' @
          ''c0c1c2c3c4c5c6c7c8c9cacbcccdcecf'' @ ''d0d1d2d3d4d5d6d7d8d9dadbdcdddedf'' @
          ''e0e1e2e3e4e5e6e7e8e9eaebecedeeef'' @ ''f0f1f2f3f4f5f6f7f8f9fafbfcfdfeff''"

definition to_hex_16bit :: "uint32 \<Rightarrow> string" where
  "to_hex_16bit x =
     (let hi = unat (drop_bit 8 x AND 0xff); lo = unat (x AND 0xff)
      in [hex2 ! (2 * hi), hex2 ! (2 * hi + 1), hex2 ! (2 * lo), hex2 ! (2 * lo + 1)])"

definition append_raw :: "uint32 \<Rightarrow> string" where
  "append_raw ch = [wchr ch]"

definition append_hex :: "uint32 \<Rightarrow> string" where
  "append_hex ch = [BSL, CHR ''u''] @ to_hex_16bit ch"

definition escape_codepoint :: "uint32 \<Rightarrow> string" where
  "escape_codepoint codepoint =
     (if codepoint < 0x20 then append_hex codepoint
      else if codepoint < 0x80 then append_raw codepoint
      else if codepoint < 0x10000 then append_hex codepoint
      else (let c = codepoint - 0x10000
            in append_hex (0xd800 + (drop_bit 10 c AND 0x3ff)) @ append_hex (0xdc00 + (c AND 0x3ff))))"

function quote_loop :: "bool \<Rightarrow> string \<Rightarrow> string" where
  "quote_loop emitUTF8 [] = []"
| "quote_loop emitUTF8 (c # r) =
     (if c = DQ then [BSL, DQ] @ quote_loop emitUTF8 r
      else if c = BSL then [BSL, BSL] @ quote_loop emitUTF8 r
      else if c = BSP then [BSL, CHR ''b''] @ quote_loop emitUTF8 r
      else if c = FF then [BSL, CHR ''f''] @ quote_loop emitUTF8 r
      else if c = LF then [BSL, CHR ''n''] @ quote_loop emitUTF8 r
      else if c = CR then [BSL, CHR ''r''] @ quote_loop emitUTF8 r
      else if c = TAB then [BSL, CHR ''t''] @ quote_loop emitUTF8 r
      else if emitUTF8 then
        (let codepoint = u8 c
         in (if codepoint < 0x20 then append_hex codepoint else append_raw codepoint) @
            quote_loop emitUTF8 r)
      else (let cs = utf8_to_codepoint (c # r)
            in escape_codepoint (fst cs) @ quote_loop emitUTF8 (tl (snd cs))))"
  by pat_completeness auto
termination
proof (relation "measure (\<lambda>(_, s). length s)")
  fix emitUTF8 :: bool and c r x
  assume "x = utf8_to_codepoint (c # r)"
  then have "utf8_to_codepoint (c # r) = (fst x, snd x)" by simp
  from utf8_to_codepoint_rest [OF this] have "length (tl (snd x)) < length (c # r)"
    by (cases "snd x") (auto dest: suffix_length_le)
  then show "((emitUTF8, tl (snd x)), (emitUTF8, c # r)) \<in> measure (\<lambda>(_, s). length s)"
    by simp
qed simp_all

declare quote_loop.simps(2) [simp del]

definition value_to_quoted_string :: "string \<Rightarrow> bool \<Rightarrow> string" where
  \<comment> \<open>\<^verbatim>\<open>valueToQuotedStringN(value, length, emitUTF8)\<close>; without a special character the
     literal is built from the C string\<close>
  "value_to_quoted_string s emitUTF8 =
     (if \<not> does_any_char_require_escaping s then [DQ] @ takeWhile (\<lambda>c. c \<noteq> NUL) s @ [DQ]
      else [DQ] @ quote_loop emitUTF8 s @ [DQ])"

definition value_to_quoted_cstring :: "string \<Rightarrow> string" where
  \<comment> \<open>\<^verbatim>\<open>valueToQuotedString(const char*)\<close>\<close>
  "value_to_quoted_cstring s = value_to_quoted_string (takeWhile (\<lambda>c. c \<noteq> NUL) s) False"

section \<open>The hexadecimal digits\<close>

definition hex_chr :: "nat \<Rightarrow> char" where
  "hex_chr d = (if d < 10 then chr (48 + d) else chr (87 + d))"

definition hex_digits :: string where
  "hex_digits = ''0123456789abcdef''"

definition hex_row :: "char \<Rightarrow> string" where
  "hex_row a = [a, CHR ''0'', a, CHR ''1'', a, CHR ''2'', a, CHR ''3'',
     a, CHR ''4'', a, CHR ''5'', a, CHR ''6'', a, CHR ''7'',
     a, CHR ''8'', a, CHR ''9'', a, CHR ''a'', a, CHR ''b'',
     a, CHR ''c'', a, CHR ''d'', a, CHR ''e'', a, CHR ''f'']"

lemma hex2_rows: "hex2 = concat (map hex_row hex_digits)"
  by (simp add: hex2_def hex_row_def hex_digits_def)

lemma nth_concat_rows:
  "\<forall>xs \<in> set xss. length xs = k \<Longrightarrow> h < length xss \<Longrightarrow> j < k \<Longrightarrow>
   concat xss ! (k * h + j) = xss ! h ! j"
proof (induction xss arbitrary: h)
  case (Cons xs xss)
  then show ?case
    by (cases h) (simp_all add: nth_append algebra_simps)
qed simp

lemma less_16_cases:
  "(n :: nat) < 16 \<Longrightarrow> n \<in> {0, 1, 2, 3, 4, 5, 6, 7, 8, 9, 10, 11, 12, 13, 14, 15}"
  by (simp only: insert_iff empty_iff) presburger

lemma hex_digits_nth: "n < 16 \<Longrightarrow> hex_digits ! n = hex_chr n"
  using less_16_cases [of n] by (auto simp: hex_digits_def hex_chr_def eq_chr_iff byte_def)

lemma hex_row_nth:
  "l < 16 \<Longrightarrow> hex_row a ! (2 * l) = a"
  "l < 16 \<Longrightarrow> hex_row a ! (2 * l + 1) = hex_digits ! l"
  using less_16_cases [of l] by (auto simp: hex_row_def hex_digits_def)

lemma hex2_nth:
  assumes "b < 256"
  shows "hex2 ! (2 * b) = hex_chr (b div 16)" "hex2 ! (2 * b + 1) = hex_chr (b mod 16)"
proof -
  let ?h = "b div 16" and ?l = "b mod 16"
  have h: "?h < length hex_digits" using assms by (simp add: hex_digits_def)
  have len: "\<forall>xs \<in> set (map hex_row hex_digits). length xs = 32"
    by (simp add: hex_row_def)
  have i: "2 * b = 32 * ?h + 2 * ?l" "2 * b + 1 = 32 * ?h + (2 * ?l + 1)"
    using mult_div_mod_eq [of 16 b] by linarith+
  have r: "hex2 ! (32 * ?h + j) = hex_row (hex_digits ! ?h) ! j" if "j < 32" for j
    using nth_concat_rows [OF len, of ?h j] h that by (simp add: hex2_rows)
  have "2 * ?l < 32" "2 * ?l + 1 < 32" by simp_all
  then have "hex2 ! (32 * ?h + 2 * ?l) = hex_digits ! ?h"
    "hex2 ! (32 * ?h + (2 * ?l + 1)) = hex_digits ! ?l"
    by (simp_all only: r hex_row_nth mod_less_divisor zero_less_numeral)
  then have d: "hex2 ! (2 * b) = hex_digits ! ?h" "hex2 ! (2 * b + 1) = hex_digits ! ?l"
    using i by (metis, metis)
  show "hex2 ! (2 * b) = hex_chr (b div 16)" "hex2 ! (2 * b + 1) = hex_chr (b mod 16)"
    using assms by (simp_all only: d) (simp_all add: hex_digits_nth)
qed

lemma is_hex_ascii: "d < 16 \<Longrightarrow> 0x20 \<le> byte (hex_chr d) \<and> byte (hex_chr d) < 0x7F"
  by (auto simp: hex_chr_def)

lemma unat_and_ff: "unat (w AND 0xff :: uint32) = unat w mod 256"
proof -
  have "w AND 0xff = take_bit 8 w"
    by (simp add: take_bit_eq_mask mask_eq_exp_minus_1)
  then have "unat (w AND 0xff) = take_bit 8 (unat w)"
    by (simp only: unsigned_take_bit_eq)
  then show ?thesis by (simp add: take_bit_eq_mod)
qed

lemma to_hex_16bit_chars:
  "to_hex_16bit x =
     [hex_chr (unat x div 4096 mod 16), hex_chr (unat x div 256 mod 16),
      hex_chr (unat x div 16 mod 16), hex_chr (unat x mod 16)]"
proof -
  have m: "n mod 256 div 16 = n div 16 mod 16" "n mod 256 mod 16 = n mod 16" for n :: nat
  proof -
    have "n mod 256 = 16 * (n div 16 mod 16) + n mod 16"
      using mod_mult2_eq [of n 16 16] by simp
    then show "n mod 256 div 16 = n div 16 mod 16" by simp
    show "n mod 256 mod 16 = n mod 16" by (simp add: mod_mod_cancel)
  qed
  have d: "n div 256 div 16 = n div 4096" for n :: nat
    by (simp flip: div_mult2_eq)
  show ?thesis
    by (simp only: to_hex_16bit_def Let_def unat_and_ff unat_drop_bit hex2_nth mod_less_divisor
        zero_less_numeral)
      (simp add: m d)
qed

section \<open>Literals are ASCII\<close>

definition plain :: "char \<Rightarrow> bool" where
  \<comment> \<open>an ASCII character from the space on; \<^verbatim>\<open>0x7f\<close> is written raw by the code\<close>
  "plain c \<longleftrightarrow> 0x20 \<le> byte c \<and> byte c < 0x80"

lemma plain_consts [simp]:
  "plain DQ" "plain BSL" "plain (CHR ''b'')" "plain (CHR ''f'')" "plain (CHR ''n'')"
  "plain (CHR ''r'')" "plain (CHR ''t'')" "plain (CHR ''u'')"
  by (simp_all add: plain_def byte_def)

lemma plain_neq [simp]: "\<not> plain NUL" "\<not> plain LF" "\<not> plain CR" "\<not> plain TAB"
  by (simp_all add: plain_def byte_def)

lemma to_hex_16bit_plain: "c \<in> set (to_hex_16bit x) \<Longrightarrow> plain c"
  using is_hex_ascii [of "unat x div 4096 mod 16"] is_hex_ascii [of "unat x div 256 mod 16"]
    is_hex_ascii [of "unat x div 16 mod 16"] is_hex_ascii [of "unat x mod 16"]
  by (auto simp: to_hex_16bit_chars plain_def)

lemma append_hex_plain: "c \<in> set (append_hex x) \<Longrightarrow> plain c"
  by (auto simp: append_hex_def to_hex_16bit_plain)

lemma wchr_plain: "\<not> x < 0x20 \<Longrightarrow> x < 0x80 \<Longrightarrow> plain (wchr x)"
  by (simp add: plain_def wchr_def word_less_nat_alt)

lemma escape_codepoint_plain: "c \<in> set (escape_codepoint x) \<Longrightarrow> plain c"
  by (auto simp: escape_codepoint_def append_raw_def Let_def append_hex_plain wchr_plain
      split: if_splits)

text \<open>One round of the loop without \<^verbatim>\<open>emitUTF8\<close>: the text it appends and the input it leaves.\<close>

definition quote_step :: "char \<Rightarrow> string \<Rightarrow> string \<times> string" where
  "quote_step c r =
     (if c = DQ then ([BSL, DQ], r)
      else if c = BSL then ([BSL, BSL], r)
      else if c = BSP then ([BSL, CHR ''b''], r)
      else if c = FF then ([BSL, CHR ''f''], r)
      else if c = LF then ([BSL, CHR ''n''], r)
      else if c = CR then ([BSL, CHR ''r''], r)
      else if c = TAB then ([BSL, CHR ''t''], r)
      else (escape_codepoint (fst (utf8_to_codepoint (c # r))), tl (snd (utf8_to_codepoint (c # r)))))"

lemma quote_loop_step:
  "quote_loop False (c # r) = fst (quote_step c r) @ quote_loop False (snd (quote_step c r))"
  by (simp add: quote_loop.simps(2) quote_step_def Let_def)

lemma quote_step_less: "length (snd (quote_step c r)) \<le> length r"
proof -
  have "length (tl (snd (utf8_to_codepoint (c # r)))) \<le> length r"
    using utf8_to_codepoint_rest(2) [of c r "fst (utf8_to_codepoint (c # r))"
        "snd (utf8_to_codepoint (c # r))"]
    by (auto dest: suffix_length_le)
  then show ?thesis by (simp add: quote_step_def)
qed

lemma quote_step_plain: "\<forall>d \<in> set (fst (quote_step c r)). plain d"
proof -
  let ?e = "escape_codepoint (fst (utf8_to_codepoint (c # r)))"
  have "\<forall>d \<in> set ?e. plain d" by (blast intro: escape_codepoint_plain)
  then show ?thesis by (simp add: quote_step_def)
qed

lemma quote_loop_induct [case_names Nil step]:
  assumes "P []" "\<And>c r. P (snd (quote_step c r)) \<Longrightarrow> P (c # r)"
  shows "P s"
proof (induction s rule: length_induct)
  case (1 s)
  show ?case
  proof (cases s)
    case (Cons c r)
    then show ?thesis using 1 assms(2) quote_step_less [of c r] by (simp add: less_Suc_eq_le)
  qed (simp add: assms(1))
qed

lemma quote_loop_plain: "c \<in> set (quote_loop False s) \<Longrightarrow> plain c"
proof (induction s rule: quote_loop_induct)
  case (step d r)
  then show ?case using quote_step_plain [of d r] by (auto simp: quote_loop_step)
qed simp

lemma plain_no_escape: "\<not> char_requires_escaping d \<Longrightarrow> plain d"
  by (simp add: char_requires_escaping_def plain_def)

lemma value_to_quoted_string_plain:
  assumes "c \<in> set (value_to_quoted_string s False)"
  shows "plain c"
proof (cases "does_any_char_require_escaping s")
  case True
  then show ?thesis
    using assms by (auto simp: value_to_quoted_string_def dest: quote_loop_plain)
next
  case False
  then have "plain d" if "d \<in> set s" for d
    using that by (simp add: does_any_char_require_escaping_def list_ex_iff plain_no_escape)
  then show ?thesis
    using assms False by (auto simp: value_to_quoted_string_def dest: set_takeWhileD)
qed

end
