(* ===== verification/Json_Decode.thy ===== *)
theory Json_Decode
  imports Json_Token Json_Container Json_Quote
begin

unbundle bit_operations_syntax

text \<open>
  The decoders of \<^verbatim>\<open>Json::OurReader\<close> (src/json_reader.cc): from a number or string token to
  its value. A decoder either adds one error to \<^verbatim>\<open>errors_\<close> and returns false, which is the
  left value with that error, or returns true with the value decoded. The lemmas: a number
  of digits becomes an integer exactly if its value is in the range of the sign, without
  wrap-around on the way, and every decoder is total.
\<close>

record err_info =
  e_token :: token
  e_message :: string
  e_extra :: "loc option"

type_synonym 'a dec = "err_info + 'a"

definition add_error :: "string \<Rightarrow> token \<Rightarrow> loc option \<Rightarrow> 'a dec" where
  "add_error message tok extra = Inl \<lparr>e_token = tok, e_message = message, e_extra = extra\<rparr>"

definition range_text :: "loc \<Rightarrow> loc \<Rightarrow> string" where
  \<comment> \<open>\<^verbatim>\<open>String(p, q)\<close>, the characters in \<open>[p, q)\<close>\<close>
  "range_text p q = take (length p - length q) p"

definition token_text :: "token \<Rightarrow> string" where
  "token_text tok = range_text (tok_start tok) (tok_end tok)"

section \<open>Numbers\<close>

definition decode_double :: "token \<Rightarrow> json dec" where
  "decode_double tok =
     (let buffer = token_text tok; (ok, v) = istream_double buffer
      in if ok then Inr (mk_real v)
         else if dbl_eq v (DFin False (2 ^ 53 - 1) 971) then Inr (mk_real (DInf False))
         else if dbl_eq v (DFin True (2 ^ 53 - 1) 971) then Inr (mk_real (DInf True))
         else if \<not> is_inf v then add_error ([SQ] @ buffer @ [SQ] @ '' is not a number.'') tok None
         else Inr (mk_real v))"

definition max_largest_uint :: uint64 where "max_largest_uint = 0xFFFFFFFFFFFFFFFF"

definition threshold :: "bool \<Rightarrow> uint64" where
  \<comment> \<open>\<^verbatim>\<open>negative_threshold\<close> is \<open>-(minLargestInt / 10)\<close>, \<^verbatim>\<open>positive_threshold\<close> is \<open>maxLargestUInt / 10\<close>\<close>
  "threshold isNegative = (if isNegative then 922337203685477580 else max_largest_uint div 10)"

definition max_last_digit :: "bool \<Rightarrow> uint32" where
  "max_last_digit isNegative = (if isNegative then 8 else ucast (max_largest_uint mod 10))"

fun decode_number_loop :: "uint64 \<Rightarrow> uint32 \<Rightarrow> string \<Rightarrow> uint64 \<Rightarrow> uint64 option" where
  \<comment> \<open>the text is \<open>[current, token.end_)\<close>; None is \<^verbatim>\<open>return decodeDouble(token, decoded)\<close>\<close>
  "decode_number_loop thr last_max [] v = Some v"
| "decode_number_loop thr last_max (c # r) v =
     (if \<not> is_digit c then None
      else let digit = of_nat (digit_val c) :: uint32
           in if thr \<le> v \<and> (thr < v \<or> r \<noteq> [] \<or> last_max < digit) then None
              else decode_number_loop thr last_max r (v * 10 + ucast digit))"

definition decode_number :: "token \<Rightarrow> json dec" where
  "decode_number tok =
     (let tx = token_text tok;
          isNegative = (tok_start tok \<noteq> [] \<and> hd (tok_start tok) = CHR ''-'');
          current = (if isNegative then tl tx else tx)
      in case decode_number_loop (threshold isNegative) (max_last_digit isNegative) current 0 of
           None \<Rightarrow> decode_double tok
         | Some v \<Rightarrow>
             if isNegative then
               (let last_digit = ucast (v mod 10) :: uint32
                in Inr (mk_int64 (- (v div 10) * 10 - ucast last_digit)))
             else if v \<le> max_largest_int then Inr (mk_int64 v)
             else Inr (mk_uint64 v))"

section \<open>Strings\<close>

definition hex_digit_val :: "char \<Rightarrow> nat option" where
  "hex_digit_val c =
     (if is_digit c then Some (byte c - 48)
      else if 97 \<le> byte c \<and> byte c \<le> 102 then Some (byte c - 97 + 10)
      else if 65 \<le> byte c \<and> byte c \<le> 70 then Some (byte c - 65 + 10)
      else None)"

fun hex_loop :: "nat \<Rightarrow> string \<Rightarrow> uint32 \<Rightarrow> string + (uint32 \<times> string)" where
  \<comment> \<open>\<open>n\<close> rounds of the loop of \<^verbatim>\<open>decodeUnicodeEscapeSequence\<close>; on the left \<^verbatim>\<open>current\<close> at the error\<close>
  "hex_loop 0 cur u = Inr (u, cur)"
| "hex_loop (Suc n) cur u =
     (case cur of [] \<Rightarrow> Inl []
      | c # r \<Rightarrow> (case hex_digit_val c of None \<Rightarrow> Inl r | Some d \<Rightarrow> hex_loop n r (u * 16 + of_nat d)))"

text \<open>
  A pointer \<^verbatim>\<open>current\<close> into the string is kept as the text from there to \<^verbatim>\<open>end\<close>, and \<open>fin\<close>
  is the pointer \<^verbatim>\<open>end\<close> itself, so the pointer \<^verbatim>\<open>current\<close> is \<open>cur @ fin\<close>.
\<close>

definition decode_unicode_escape_sequence ::
    "token \<Rightarrow> loc \<Rightarrow> string \<Rightarrow> (uint32 \<times> string) dec" where
  "decode_unicode_escape_sequence tok fin cur =
     (if length cur < 4
      then add_error ''Bad unicode escape sequence in string: four digits expected.'' tok (Some (cur @ fin))
      else case hex_loop 4 cur 0 of
             Inl r \<Rightarrow> add_error ''Bad unicode escape sequence in string: hexadecimal digit expected.''
                        tok (Some (r @ fin))
           | Inr res \<Rightarrow> Inr res)"

definition bind_dec :: "'a dec \<Rightarrow> ('a \<Rightarrow> 'b dec) \<Rightarrow> 'b dec" where
  \<comment> \<open>\<^verbatim>\<open>if (!decode...) return false;\<close>\<close>
  "bind_dec m k = (case m of Inl e \<Rightarrow> Inl e | Inr a \<Rightarrow> k a)"

definition decode_unicode_code_point ::
    "token \<Rightarrow> loc \<Rightarrow> string \<Rightarrow> (uint32 \<times> string) dec" where
  "decode_unicode_code_point tok fin cur =
     bind_dec (decode_unicode_escape_sequence tok fin cur) (\<lambda>(unicode, cur1).
       if 0xD800 \<le> unicode \<and> unicode \<le> 0xDBFF then
         if length cur1 < 6
         then add_error ''additional six characters expected to parse unicode surrogate pair.''
                tok (Some (cur1 @ fin))
         else if hd cur1 = BSL \<and> hd (tl cur1) = CHR ''u'' then
           bind_dec (decode_unicode_escape_sequence tok fin (tl (tl cur1))) (\<lambda>(surrogatePair, cur2).
             Inr (0x10000 + push_bit 10 (unicode AND 0x3FF) + (surrogatePair AND 0x3FF), cur2))
         else add_error (''expecting another '' @ [BSL] @ ''u token to begin the second half of '' @
                ''a unicode surrogate pair'')
                tok (Some ((if hd cur1 = BSL then tl (tl cur1) else tl cur1) @ fin))
       else Inr (unicode, cur1))"

lemma hex_loop_less: "hex_loop n cur u = Inr (v, cur') \<Longrightarrow> length cur' + n = length cur"
  by (induction n cur u rule: hex_loop.induct) (auto split: option.splits list.splits)

lemma decode_unicode_escape_sequence_length:
  "decode_unicode_escape_sequence tok fin cur = Inr (u, cur') \<Longrightarrow> length cur' + 4 = length cur"
  by (auto simp: decode_unicode_escape_sequence_def add_error_def dest!: hex_loop_less
      split: if_splits sum.splits)

lemma decode_unicode_code_point_length:
  "decode_unicode_code_point tok fin cur = Inr (u, cur') \<Longrightarrow> length cur' < length cur"
  by (auto simp: decode_unicode_code_point_def bind_dec_def add_error_def
      dest!: decode_unicode_escape_sequence_length split: if_splits sum.splits prod.splits)

definition simple_escape :: "char \<Rightarrow> char option" where
  \<comment> \<open>the cases of the switch that append one character\<close>
  "simple_escape e =
     (if e = DQ then Some DQ
      else if e = CHR ''/'' then Some (CHR ''/'')
      else if e = BSL then Some BSL
      else if e = CHR ''b'' then Some BSP
      else if e = CHR ''f'' then Some FF
      else if e = CHR ''n'' then Some LF
      else if e = CHR ''r'' then Some CR
      else if e = CHR ''t'' then Some TAB
      else None)"

function decode_string_loop :: "token \<Rightarrow> loc \<Rightarrow> string \<Rightarrow> string \<Rightarrow> string dec" where
  "decode_string_loop tok fin [] decoded = Inr decoded"
| "decode_string_loop tok fin (c # r) decoded =
     (if c = DQ then Inr decoded
      else if c = BSL then
        (case r of
           [] \<Rightarrow> add_error ''Empty escape sequence in string'' tok (Some (r @ fin))
         | e # r1 \<Rightarrow>
             (case simple_escape e of
                Some d \<Rightarrow> decode_string_loop tok fin r1 (decoded @ [d])
              | None \<Rightarrow>
                  if e = CHR ''u'' then
                    (case decode_unicode_code_point tok fin r1 of
                       Inl err \<Rightarrow> Inl err
                     | Inr (unicode, r2) \<Rightarrow>
                         decode_string_loop tok fin r2 (decoded @ code_point_to_utf8 unicode))
                  else add_error ''Bad escape sequence in string'' tok (Some (r1 @ fin))))
      else decode_string_loop tok fin r (decoded @ [c]))"
  by pat_completeness auto
termination
  by (relation "measure (\<lambda>(_, _, cur, _). length cur)")
    (auto dest!: sym [THEN decode_unicode_code_point_length] decode_unicode_code_point_length)

declare decode_string_loop.simps(2) [simp del]

definition decode_string_text :: "token \<Rightarrow> string \<Rightarrow> string dec" where
  \<comment> \<open>\<^verbatim>\<open>decodeString(token, decoded)\<close>, appending to the text \<open>decoded\<close>\<close>
  "decode_string_text tok decoded =
     (let tx = token_text tok
      in decode_string_loop tok (drop (length tx - 1) (tok_start tok)) (butlast (tl tx)) decoded)"

section \<open>The integer loop neither wraps nor rejects too early\<close>

lemma nat_of_dec_ge: "a * 10 ^ length ds \<le> nat_of_dec a ds"
proof (induction ds arbitrary: a)
  case (Cons c ds)
  have "a * 10 ^ length (c # ds) \<le> (a * 10 + digit_val c) * 10 ^ length ds"
    by (simp add: algebra_simps)
  also have "\<dots> \<le> nat_of_dec (a * 10 + digit_val c) ds" by (rule Cons.IH)
  finally show ?case by simp
qed simp

lemma nat_of_dec_mono: "a \<le> nat_of_dec a ds"
proof -
  have "a * 1 \<le> a * 10 ^ length ds" by (intro mult_le_mono2) simp
  then show ?thesis using nat_of_dec_ge [of a ds] by linarith
qed

lemma decode_number_loop_digits:
  "decode_number_loop thr m ds v = Some w \<Longrightarrow> c \<in> set ds \<Longrightarrow> is_digit c"
  by (induction thr m ds v rule: decode_number_loop.induct) (auto simp: Let_def split: if_splits)

lemma decode_number_step:
  fixes v :: uint64 and d :: nat
  assumes "unat v * 10 + d < 2 ^ 64" "d < 10"
  shows "unat (v * 10 + ucast (of_nat d :: uint32)) = unat v * 10 + d"
proof -
  have d: "unat (of_nat d :: uint32) = d"
    using assms by (simp add: unat_of_nat)
  have e: "unat (ucast (of_nat d :: uint32) :: uint64) = d"
    using assms by (simp add: unsigned_ucast_eq d take_bit_nat_eq_self)
  have m: "unat (v * 10) = unat v * 10"
    using assms by (subst unat_mult_lem [THEN iffD1]) simp_all
  show ?thesis
    using assms by (subst unat_add_lem [THEN iffD1]) (simp_all add: e m)
qed

lemma decode_number_loop_exact:
  assumes "\<forall>c \<in> set ds. is_digit c" "unat v \<le> unat thr * 10 + unat m"
    and lim: "unat m < 10" "1 \<le> unat thr" "unat thr * 10 + unat m < 2 ^ 64"
  shows "decode_number_loop thr m ds v =
     (if nat_of_dec (unat v) ds \<le> unat thr * 10 + unat m
      then Some (of_nat (nat_of_dec (unat v) ds)) else None)"
  using assms(1, 2)
proof (induction ds arbitrary: v)
  case (Cons c r)
  let ?d = "digit_val c" and ?L = "unat thr * 10 + unat m"
  have d: "?d < 10" using Cons.prems by (simp add: digit_val_less)
  have du: "unat (of_nat ?d :: uint32) = ?d" using d by (simp add: unat_of_nat)
  show ?case
  proof (cases "thr \<le> v \<and> (thr < v \<or> r \<noteq> [] \<or> m < of_nat ?d)")
    case True
    have "?L < nat_of_dec (unat v * 10 + ?d) r"
    proof (cases "r = []")
      case False
      have "unat thr * 10 * 10 \<le> (unat v * 10 + ?d) * 10 ^ length r"
      proof (intro mult_le_mono)
        show "unat thr * 10 \<le> unat v * 10 + ?d" using True by (simp add: word_le_nat_alt)
        show "10 \<le> (10 :: nat) ^ length r" using False by (cases r) simp_all
      qed
      then show ?thesis using nat_of_dec_ge [of "unat v * 10 + ?d" r] lim by linarith
    next
      case r: True
      then have "unat thr < unat v \<or> unat thr \<le> unat v \<and> unat m < ?d"
        using True du by (simp add: word_le_nat_alt word_less_nat_alt) 
      then show ?thesis using lim r by auto
    qed
    with True Cons.prems show ?thesis by (auto simp: Let_def)
  next
    case False
    have le: "unat v * 10 + ?d \<le> ?L"
    proof (cases "thr \<le> v")
      case True
      then have "unat v \<le> unat thr" "?d \<le> unat m"
        using False du by (simp_all add: word_le_nat_alt word_less_nat_alt)
      then show ?thesis by linarith
    next
      case False
      then show ?thesis using d by (simp add: word_le_nat_alt)
    qed
    then have s: "unat (v * 10 + ucast (of_nat ?d :: uint32)) = unat v * 10 + ?d"
      using d lim by (intro decode_number_step) linarith+
    show ?thesis
      using Cons.IH [of "v * 10 + ucast (of_nat ?d :: uint32)"] Cons.prems le False
      by (auto simp: Let_def s)
  qed
qed (simp add: lim)

lemma nat_of_dec_limits:
  "unat (threshold True) * 10 + unat (max_last_digit True) = 2 ^ 63"
  "unat (threshold False) * 10 + unat (max_last_digit False) = 2 ^ 64 - 1"
  "unat (max_last_digit b) < 10" "1 \<le> unat (threshold b)"
  by (simp_all add: threshold_def max_last_digit_def max_largest_uint_def)

lemma decode_number_loop_limit:
  assumes "\<forall>c \<in> set ds. is_digit c"
  shows "decode_number_loop (threshold neg) (max_last_digit neg) ds 0 =
     (if nat_of_dec 0 ds \<le> (if neg then 2 ^ 63 else 2 ^ 64 - 1)
      then Some (of_nat (nat_of_dec 0 ds)) else None)"
proof (cases neg)
  case True
  show ?thesis
    using decode_number_loop_exact [OF assms, of 0 "threshold True" "max_last_digit True"]
    by (simp only: True nat_of_dec_limits if_True) simp
next
  case False
  show ?thesis
    using decode_number_loop_exact [OF assms, of 0 "threshold False" "max_last_digit False"]
    by (simp only: False nat_of_dec_limits if_False) simp
qed

definition number_token :: "bool \<Rightarrow> string \<Rightarrow> token \<Rightarrow> bool" where
  \<comment> \<open>a token whose text is an optional sign and the digits \<open>ds\<close>\<close>
  "number_token neg ds tok \<longleftrightarrow> ds \<noteq> [] \<and> (\<forall>c \<in> set ds. is_digit c) \<and>
     token_text tok = (if neg then CHR ''-'' # ds else ds)"

lemma token_text_hd: "token_text tok \<noteq> [] \<Longrightarrow> tok_start tok \<noteq> [] \<and> hd (tok_start tok) = hd (token_text tok)"
  by (auto simp: token_text_def range_text_def)

lemma not_digit_minus [simp]: "\<not> is_digit (CHR ''-'')"
  by (simp add: is_digit_def byte_def)

lemma ucast_mod_10: "(ucast (ucast (v mod 10 :: uint64) :: uint32) :: uint64) = v mod 10"
proof -
  have "unat (v mod 10) < 2 ^ 32"
    by (simp add: unat_mod)
  then have "unat (ucast (ucast (v mod 10) :: uint32) :: uint64) = unat (v mod 10)"
    by (simp add: unsigned_ucast_eq unsigned_take_bit_eq take_bit_nat_eq_self)
  then show ?thesis by (simp only: word_unat_eq_iff)
qed

lemma decode_number_integer:
  assumes "number_token neg ds tok"
  defines "n \<equiv> nat_of_dec 0 ds"
  shows "decode_number tok =
     (if neg then (if n \<le> 2 ^ 63 then Inr (mk_int64 (- of_nat n)) else decode_double tok)
      else if n < 2 ^ 63 then Inr (mk_int64 (of_nat n))
      else if n < 2 ^ 64 then Inr (mk_uint64 (of_nat n)) else decode_double tok)"
proof -
  have ds: "\<forall>c \<in> set ds. is_digit c" "ds \<noteq> []"
    and tx: "token_text tok = (if neg then CHR ''-'' # ds else ds)"
    using assms by (simp_all add: number_token_def)
  have "hd ds \<noteq> CHR ''-''" using ds by (metis list.set_sel(1) not_digit_minus)
  then have neg: "(tok_start tok \<noteq> [] \<and> hd (tok_start tok) = CHR ''-'') = neg"
    using token_text_hd [of tok] tx ds by (auto split: if_splits)
  have cur: "(if neg then tl (token_text tok) else token_text tok) = ds"
    using tx by simp
  have v: "- (v div 10 * 10) - ucast (ucast (v mod 10) :: uint32) = - v" for v :: uint64
    using div_mult_mod_eq [of v 10] by (simp add: ucast_mod_10 algebra_simps)
  have u: "(of_nat n :: uint64) \<le> max_largest_int \<longleftrightarrow> n < 2 ^ 63" if "n < 2 ^ 64"
    using that by (simp add: word_le_nat_alt max_largest_int_def unat_of_nat) linarith
  show ?thesis
    using decode_number_loop_limit [OF ds(1), of neg]
    unfolding decode_number_def Let_def neg cur
    by (cases neg) (simp_all add: u v flip: n_def)
qed

end
