(* ===== verification/Json_Reader.thy ===== *)
theory Json_Reader
  imports Json_Decode
begin

text \<open>
  \<^verbatim>\<open>Json::OurReader\<close> of src/json_reader.cc: \<^verbatim>\<open>readValue\<close>, \<^verbatim>\<open>readObject\<close>, \<^verbatim>\<open>readArray\<close>, error
  recovery, \<^verbatim>\<open>parse\<close> and the formatted error messages.

  The stack \<^verbatim>\<open>nodes_\<close> holds pointers to the values under construction; the model passes
  the value on top of it and its size, and a function that reads into \<^verbatim>\<open>currentValue()\<close>
  returns it with its result. The other state is \<^verbatim>\<open>current_\<close> and \<^verbatim>\<open>errors_\<close>. The mutual
  recursion runs on fuel; \<^verbatim>\<open>parse\<close> supplies twice the length of the document, and the
  lemmas show that it never runs out. Further lemmas: the reader only moves forward, it
  keeps the errors it has, it reports at least one whenever it fails, and its values are
  well formed.
\<close>

record rstate =
  r_current :: loc
  r_errors :: "err_info list"

definition offset :: "loc \<Rightarrow> loc \<Rightarrow> int" where
  \<comment> \<open>\<^verbatim>\<open>p - begin_\<close>\<close>
  "offset b p = int (length b) - int (length p)"

section \<open>Comments and recovery\<close>

function skip_comment_tokens :: "features \<Rightarrow> loc \<Rightarrow> token \<times> loc" where
  "skip_comment_tokens f cur =
     (case read_token f cur of (_, tok, cur') \<Rightarrow>
        if allowComments f \<and> tok_type tok = tokenComment then skip_comment_tokens f cur'
        else (tok, cur'))"
  by pat_completeness auto
termination
  by (relation "measure (\<lambda>(_, cur). length cur)") (auto dest!: sym [THEN read_token_progress])

declare skip_comment_tokens.simps [simp del]

definition comment_measure :: "token \<Rightarrow> loc \<Rightarrow> nat" where
  "comment_measure tok cur = 2 * length cur + (if tok_type tok = tokenComment then 1 else 0)"

lemma comment_measure_less:
  assumes t: "(ok', tok', cur') = read_token f cur" and "tok_type tok = tokenComment"
  shows "comment_measure tok' cur' < comment_measure tok cur"
  using assms(2) read_token_progress [OF t [symmetric]] 
    suffix_length_le [OF read_token_ends(4) [OF t [symmetric]]]
  by (auto simp: comment_measure_def)

function skip_comments :: "features \<Rightarrow> bool \<Rightarrow> token \<Rightarrow> loc \<Rightarrow> bool \<times> token \<times> loc" where
  \<comment> \<open>\<^verbatim>\<open>while (token.type_ == tokenComment && ok) ok = readToken(token);\<close>\<close>
  "skip_comments f ok tok cur =
     (if tok_type tok = tokenComment \<and> ok
      then (case read_token f cur of (ok', tok', cur') \<Rightarrow> skip_comments f ok' tok' cur')
      else (ok, tok, cur))"
  by pat_completeness auto
termination
  by (relation "measure (\<lambda>(_, _, tok, cur). comment_measure tok cur)")
    (auto split: prod.splits intro: comment_measure_less [OF sym])

declare skip_comments.simps [simp del]

function recover_from_error :: "features \<Rightarrow> token_type \<Rightarrow> loc \<Rightarrow> loc" where
  \<comment> \<open>\<^verbatim>\<open>recoverFromError(skipUntilToken)\<close> always returns false and leaves \<^verbatim>\<open>errors_\<close> as it was\<close>
  "recover_from_error f skipUntil cur =
     (case read_token f cur of (_, skip, cur') \<Rightarrow>
        if tok_type skip = skipUntil \<or> tok_type skip = tokenEndOfStream then cur'
        else recover_from_error f skipUntil cur')"
  by pat_completeness auto
termination
  by (relation "measure (\<lambda>(_, _, cur). length cur)") (auto dest!: sym [THEN read_token_progress])

declare recover_from_error.simps [simp del]

definition recover :: "features \<Rightarrow> token_type \<Rightarrow> rstate \<Rightarrow> rstate" where
  "recover f skipUntil st = st\<lparr>r_current := recover_from_error f skipUntil (r_current st)\<rparr>"

definition push_error :: "err_info \<Rightarrow> rstate \<Rightarrow> rstate" where
  "push_error e st = st\<lparr>r_errors := r_errors st @ [e]\<rparr>"

definition error_info :: "string \<Rightarrow> token \<Rightarrow> err_info" where
  "error_info message tok = \<lparr>e_token = tok, e_message = message, e_extra = None\<rparr>"

definition add_error_and_recover ::
    "features \<Rightarrow> string \<Rightarrow> token \<Rightarrow> token_type \<Rightarrow> rstate \<Rightarrow> rstate" where
  "add_error_and_recover f message tok skipUntil st =
     recover f skipUntil (push_error (error_info message tok) st)"

section \<open>Values\<close>

definition put_value :: "loc \<Rightarrow> token \<Rightarrow> json \<Rightarrow> json \<Rightarrow> json" where
  \<comment> \<open>\<^verbatim>\<open>currentValue().swapPayload(v)\<close> and the two offsets of the token\<close>
  "put_value b tok v cur =
     set_offset_limit (offset b (tok_end tok))
       (set_offset_start (offset b (tok_start tok)) (fst (swap_payload cur v)))"

definition init_container :: "loc \<Rightarrow> token \<Rightarrow> value_type \<Rightarrow> json \<Rightarrow> json" where
  \<comment> \<open>\<^verbatim>\<open>currentValue().swapPayload(init)\<close> and the start offset, first lines of \<^verbatim>\<open>readObject\<close>, \<^verbatim>\<open>readArray\<close>\<close>
  "init_container b tok ty cur =
     set_offset_start (offset b (tok_start tok)) (fst (swap_payload cur (mk_type ty)))"

definition decode_into :: "loc \<Rightarrow> token \<Rightarrow> json dec \<Rightarrow> json \<Rightarrow> rstate \<Rightarrow> bool \<times> json \<times> rstate" where
  \<comment> \<open>\<^verbatim>\<open>decodeNumber(token)\<close>, \<^verbatim>\<open>decodeDouble(token)\<close>: the value decoded goes into \<^verbatim>\<open>currentValue()\<close>\<close>
  "decode_into b tok d cur st =
     (case d of Inl e \<Rightarrow> (False, cur, push_error e st)
      | Inr v \<Rightarrow> (True, put_value b tok v cur, st))"

definition decode_string :: "loc \<Rightarrow> token \<Rightarrow> json \<Rightarrow> rstate \<Rightarrow> (bool \<times> json \<times> rstate) res" where
  "decode_string b tok cur st =
     (case decode_string_text tok [] of
        Inl e \<Rightarrow> Inr (False, cur, push_error e st)
      | Inr s \<Rightarrow> bind_res (mk_string s) (\<lambda>v. Inr (True, put_value b tok v cur, st)))"

definition leaf_value :: "token_type \<Rightarrow> json option" where
  \<comment> \<open>the cases of \<^verbatim>\<open>readValue\<close> that only make a value\<close>
  "leaf_value ty =
     (case ty of
        tokenTrue \<Rightarrow> Some (mk_bool True)
      | tokenFalse \<Rightarrow> Some (mk_bool False)
      | tokenNull \<Rightarrow> Some (mk_type nullValue)
      | tokenNaN \<Rightarrow> Some (mk_real DNaN)
      | tokenPosInf \<Rightarrow> Some (mk_real (DInf False))
      | tokenNegInf \<Rightarrow> Some (mk_real (DInf True))
      | _ \<Rightarrow> None)"

definition drop_null :: "loc \<Rightarrow> token \<Rightarrow> json \<Rightarrow> rstate \<Rightarrow> bool \<times> json \<times> rstate" where
  \<comment> \<open>a dropped null: \<^verbatim>\<open>current_--\<close> goes back over the token, one character long\<close>
  "drop_null b tok cur st =
     (let st' = st\<lparr>r_current := tok_start tok\<rparr>
      in (True, set_offset_limit (offset b (r_current st'))
                  (set_offset_start (offset b (r_current st') - 1)
                     (fst (swap_payload cur (mk_type nullValue)))), st'))"

definition value_error :: "loc \<Rightarrow> token \<Rightarrow> json \<Rightarrow> rstate \<Rightarrow> bool \<times> json \<times> rstate" where
  \<comment> \<open>the default case of \<^verbatim>\<open>readValue\<close>\<close>
  "value_error b tok cur st =
     (False,
      set_offset_limit (offset b (tok_end tok)) (set_offset_start (offset b (tok_start tok)) cur),
      push_error (error_info ''Syntax error: value, object or array expected.'' tok) st)"

definition read_leaf ::
    "features \<Rightarrow> loc \<Rightarrow> token \<Rightarrow> json \<Rightarrow> rstate \<Rightarrow> (bool \<times> json \<times> rstate) res" where
  \<comment> \<open>the switch of \<^verbatim>\<open>readValue\<close> apart from objects and arrays\<close>
  "read_leaf f b tok cur st =
     (let ty = tok_type tok
      in if ty = tokenNumber then Inr (decode_into b tok (decode_number tok) cur st)
         else if ty = tokenString then decode_string b tok cur st
         else (case leaf_value ty of
                 Some v \<Rightarrow> Inr (True, put_value b tok v cur, st)
               | None \<Rightarrow>
                   if (ty = tokenArraySeparator \<or> ty = tokenObjectEnd \<or> ty = tokenArrayEnd) \<and>
                      allowDroppedNullPlaceholders f
                   then Inr (drop_null b tok cur st)
                   else Inr (value_error b tok cur st)))"

definition member_name :: "features \<Rightarrow> token \<Rightarrow> string dec option res" where
  \<comment> \<open>the name of a member; None is the \<^verbatim>\<open>break\<close> on any other token\<close>
  "member_name f tok =
     (if tok_type tok = tokenString then Inr (Some (decode_string_text tok []))
      else if tok_type tok = tokenNumber \<and> allowNumericKeys f then
        (case decode_number tok of
           Inl e \<Rightarrow> Inr (Some (Inl e))
         | Inr numberName \<Rightarrow> bind_res (as_string numberName) (\<lambda>s. Inr (Some (Inr s))))
      else Inr None)"

text \<open>\<open>object_key\<close> reads a member up to its colon: \<open>KeyEnd\<close> returns from \<^verbatim>\<open>readObject\<close> with
  that result, \<open>KeyMember\<close> goes on with the value of the member.\<close>

datatype key_step = KeyEnd bool rstate | KeyMember string rstate

definition read_colon :: "features \<Rightarrow> json \<Rightarrow> token \<Rightarrow> string \<Rightarrow> rstate \<Rightarrow> key_step res" where
  "read_colon f v tokenName name st =
     (if 2 ^ 30 \<le> length name then Inl (RuntimeError ''keylength >= 2^30'')
      else
        bind_res (if rejectDupKeys f then is_member v name else Inr False) (\<lambda>dup.
          if dup
          then Inr (KeyEnd False (add_error_and_recover f (''Duplicate key: '' @ [SQ] @ name @ [SQ])
                                    tokenName tokenObjectEnd st))
          else
            (case read_token f (r_current st) of (ok, colon, c) \<Rightarrow>
               let st' = st\<lparr>r_current := c\<rparr>
               in if \<not> ok \<or> tok_type colon \<noteq> tokenMemberSeparator
                  then Inr (KeyEnd False (add_error_and_recover f
                              (''Missing '' @ [SQ] @ '':'' @ [SQ] @ '' after object member name'')
                              colon tokenObjectEnd st'))
                  else Inr (KeyMember name st'))))"

definition missing_brace :: "features \<Rightarrow> token \<Rightarrow> rstate \<Rightarrow> rstate" where
  "missing_brace f tok st =
     add_error_and_recover f (''Missing '' @ [SQ] @ ''}'' @ [SQ] @ '' or object member name'')
       tok tokenObjectEnd st"

definition object_key :: "features \<Rightarrow> json \<Rightarrow> string \<Rightarrow> rstate \<Rightarrow> key_step res" where
  "object_key f v name st =
     (case read_token f (r_current st) of (ok0, tok0, c0) \<Rightarrow>
        if \<not> ok0 then Inr (KeyEnd False (missing_brace f tok0 (st\<lparr>r_current := c0\<rparr>)))
        else
          (case skip_comments f True tok0 c0 of (initialTokenOk, tokenName, c) \<Rightarrow>
             let st1 = st\<lparr>r_current := c\<rparr>
             in if \<not> initialTokenOk then Inr (KeyEnd False (missing_brace f tokenName st1))
                else if tok_type tokenName = tokenObjectEnd \<and> (name = [] \<or> allowTrailingCommas f)
                then Inr (KeyEnd True st1)
                else bind_res (member_name f tokenName) (\<lambda>r.
                  case r of
                    None \<Rightarrow> Inr (KeyEnd False (missing_brace f tokenName st1))
                  | Some (Inl e) \<Rightarrow> Inr (KeyEnd False (recover f tokenObjectEnd (push_error e st1)))
                  | Some (Inr name') \<Rightarrow> read_colon f v tokenName name' st1)))"

text \<open>After a member or element: None goes on with the loop, Some is the result.\<close>

definition after_member :: "features \<Rightarrow> rstate \<Rightarrow> bool option \<times> rstate" where
  "after_member f st =
     (case read_token f (r_current st) of (ok, comma, c) \<Rightarrow>
        if \<not> ok \<or> (tok_type comma \<noteq> tokenObjectEnd \<and> tok_type comma \<noteq> tokenArraySeparator \<and>
                    tok_type comma \<noteq> tokenComment)
        then (Some False, add_error_and_recover f
                (''Missing '' @ [SQ] @ '','' @ [SQ] @ '' or '' @ [SQ] @ ''}'' @ [SQ] @
                 '' in object declaration'') comma tokenObjectEnd (st\<lparr>r_current := c\<rparr>))
        else
          (case skip_comments f True comma c of (_, comma', c') \<Rightarrow>
             (if tok_type comma' = tokenObjectEnd then Some True else None, st\<lparr>r_current := c'\<rparr>)))"

definition after_element :: "features \<Rightarrow> rstate \<Rightarrow> bool option \<times> rstate" where
  "after_element f st =
     (case read_token f (r_current st) of (ok0, tok0, c0) \<Rightarrow>
        case skip_comments f ok0 tok0 c0 of (ok, tok, c) \<Rightarrow>
          let st' = st\<lparr>r_current := c\<rparr>
          in if \<not> ok \<or> (tok_type tok \<noteq> tokenArraySeparator \<and> tok_type tok \<noteq> tokenArrayEnd)
             then (Some False, add_error_and_recover f
                    (''Missing '' @ [SQ] @ '','' @ [SQ] @ '' or '' @ [SQ] @ '']'' @ [SQ] @
                     '' in array declaration'') tok tokenArrayEnd st')
             else (if tok_type tok = tokenArrayEnd then Some True else None, st'))"

definition array_ends :: "features \<Rightarrow> int32 \<Rightarrow> loc \<Rightarrow> bool" where
  "array_ends f index c \<longleftrightarrow> c \<noteq> [] \<and> hd c = CHR '']'' \<and>
     (index = 0 \<or> (allowTrailingCommas f \<and> \<not> allowDroppedNullPlaceholders f))"

function (sequential) read_value ::
      "features \<Rightarrow> loc \<Rightarrow> nat \<Rightarrow> nat \<Rightarrow> json \<Rightarrow> rstate \<Rightarrow> (bool \<times> json \<times> rstate) res"
  and read_object ::
      "features \<Rightarrow> loc \<Rightarrow> nat \<Rightarrow> nat \<Rightarrow> json \<Rightarrow> string \<Rightarrow> rstate \<Rightarrow> (bool \<times> json \<times> rstate) res"
  and read_array ::
      "features \<Rightarrow> loc \<Rightarrow> nat \<Rightarrow> nat \<Rightarrow> json \<Rightarrow> int32 \<Rightarrow> rstate \<Rightarrow> (bool \<times> json \<times> rstate) res"
where
  "read_value f b 0 nodes cur st = Inl OutOfFuel"
| "read_value f b (Suc n) nodes cur st =
     (if stackLimit f < nodes then Inl (RuntimeError ''Exceeded stackLimit in readValue().'')
      else
        (case skip_comment_tokens f (r_current st) of (tok, c) \<Rightarrow>
           let st1 = st\<lparr>r_current := c\<rparr>
           in if tok_type tok = tokenObjectBegin then
                bind_res (read_object f b n nodes (init_container b tok objectValue cur) [] st1)
                  (\<lambda>(ok, v, st2). Inr (ok, set_offset_limit (offset b (r_current st2)) v, st2))
              else if tok_type tok = tokenArrayBegin then
                bind_res (read_array f b n nodes (init_container b tok arrayValue cur) 0 st1)
                  (\<lambda>(ok, v, st2). Inr (ok, set_offset_limit (offset b (r_current st2)) v, st2))
              else read_leaf f b tok cur st1))"
| "read_object f b 0 nodes v name st = Inl OutOfFuel"
| "read_object f b (Suc n) nodes v name st =
     bind_res (object_key f v name st) (\<lambda>k.
       case k of
         KeyEnd ok st1 \<Rightarrow> Inr (ok, v, st1)
       | KeyMember name' st1 \<Rightarrow>
           bind_res (resolve_reference v name') (\<lambda>v1.
           bind_res (read_value f b n (Suc nodes) (member_get v1 name') st1) (\<lambda>(ok, c, st2).
             let v2 = member_put v1 name' c
             in if \<not> ok then Inr (False, v2, recover f tokenObjectEnd st2)
                else (case after_member f st2 of
                        (Some r, st3) \<Rightarrow> Inr (r, v2, st3)
                      | (None, st3) \<Rightarrow> read_object f b n nodes v2 name' st3))))"
| "read_array f b 0 nodes v index st = Inl OutOfFuel"
| "read_array f b (Suc n) nodes v index st =
     (let c0 = skip_spaces (r_current st)
      in if array_ends f index c0
         then Inr (True, v, st\<lparr>r_current := snd (snd (read_token f c0))\<rparr>)
         else
           bind_res (index_ref_int v index) (\<lambda>v1.
           bind_res (read_value f b n (Suc nodes) (index_get v1 index) (st\<lparr>r_current := c0\<rparr>))
             (\<lambda>(ok, c, st2).
             let v2 = index_put v1 index c
             in if \<not> ok then Inr (False, v2, recover f tokenArrayEnd st2)
                else (case after_element f st2 of
                        (Some r, st3) \<Rightarrow> Inr (r, v2, st3)
                      | (None, st3) \<Rightarrow> read_array f b n nodes v2 (index + 1) st3))))"

  by pat_completeness auto
termination
  by (relation "measure (case_sum (\<lambda>(_, _, n, _). n)
        (case_sum (\<lambda>(_, _, n, _). n) (\<lambda>(_, _, n, _). n)))") simp_all

declare read_value.simps [simp del] read_object.simps [simp del] read_array.simps [simp del]

section \<open>Documents\<close>

definition parse_fuel :: "loc \<Rightarrow> nat" where
  "parse_fuel b = 2 * length b + 2"

definition parse :: "features \<Rightarrow> string \<Rightarrow> json \<Rightarrow> (bool \<times> json \<times> err_info list) res" where
  \<comment> \<open>the result, \<^verbatim>\<open>root\<close> and \<^verbatim>\<open>errors_\<close> after \<^verbatim>\<open>parse(beginDoc, endDoc, root, false)\<close>\<close>
  "parse f doc rt =
     (let b = skip_bom (skipBom f) doc
      in bind_res (read_value f b (parse_fuel b) 1 rt \<lparr>r_current = b, r_errors = []\<rparr>)
           (\<lambda>(successful, v, st).
             case skip_comment_tokens f (r_current st) of (tok, c) \<Rightarrow>
               if failIfExtra f \<and> tok_type tok \<noteq> tokenEndOfStream
               then Inr (False, v, r_errors st @
                           [error_info ''Extra non-whitespace after JSON value.'' tok])
               else if strictRoot f \<and> \<not> is_array v \<and> \<not> is_object v
               then Inr (False, v, r_errors st @
                           [error_info
                             ''A valid JSON document must be either an array or an object value.''
                             \<lparr>tok_type = tokenError, tok_start = doc, tok_end = []\<rparr>])
               else Inr (successful, v, r_errors st)))"

section \<open>Error messages\<close>

fun line_loop :: "loc \<Rightarrow> loc \<Rightarrow> loc \<Rightarrow> nat \<Rightarrow> loc \<times> nat" where
  \<comment> \<open>\<open>cur\<close>, \<^verbatim>\<open>lastLineStart\<close> and \<^verbatim>\<open>line\<close> of \<^verbatim>\<open>getLocationLineAndColumn\<close>; \<^verbatim>\<open>*end_\<close> is the
     terminating NUL of the string\<close>
  "line_loop location [] lastLine line = (lastLine, line)"
| "line_loop location (c # r) lastLine line =
     (if \<not> length location < length (c # r) then (lastLine, line)
      else if c = CR then
        (let r' = (if r \<noteq> [] \<and> hd r = LF then tl r else r) in line_loop location r' r' (Suc line))
      else if c = LF then line_loop location r r (Suc line)
      else line_loop location r lastLine line)"

definition line_and_column :: "loc \<Rightarrow> loc \<Rightarrow> nat \<times> int" where
  "line_and_column b location =
     (case line_loop location b b 0 of (lastLine, line) \<Rightarrow>
        (Suc line, int (length lastLine) - int (length location) + 1))"

definition show_int :: "int \<Rightarrow> string" where
  "show_int i = (if i < 0 then CHR ''-'' # show_nat (nat (- i)) else show_nat (nat i))"

definition location_text :: "loc \<Rightarrow> loc \<Rightarrow> string" where
  "location_text b location =
     (case line_and_column b location of (line, column) \<Rightarrow>
        ''Line '' @ show_nat line @ '', Column '' @ show_int column)"

definition formatted_error :: "loc \<Rightarrow> err_info \<Rightarrow> string" where
  "formatted_error b e =
     ''* '' @ location_text b (tok_start (e_token e)) @ [LF] @ ''  '' @ e_message e @ [LF] @
     (case e_extra e of None \<Rightarrow> []
      | Some x \<Rightarrow> ''See '' @ location_text b x @ '' for detail.'' @ [LF])"

definition formatted_error_messages :: "loc \<Rightarrow> err_info list \<Rightarrow> string" where
  "formatted_error_messages b errors = concat (map (formatted_error b) errors)"

record structured_error =
  offset_start :: int
  offset_limit :: int
  se_message :: string

definition structured_errors :: "loc \<Rightarrow> err_info list \<Rightarrow> structured_error list" where
  "structured_errors b errors =
     map (\<lambda>e. \<lparr>offset_start = offset b (tok_start (e_token e)),
               offset_limit = offset b (tok_end (e_token e)), se_message = e_message e\<rparr>) errors"

definition char_reader_parse :: "features \<Rightarrow> string \<Rightarrow> json \<Rightarrow> (bool \<times> json \<times> string) res" where
  \<comment> \<open>\<^verbatim>\<open>OurCharReader::parse\<close> with a string for the errors\<close>
  "char_reader_parse f doc rt =
     bind_res (parse f doc rt) (\<lambda>(ok, v, errors).
       Inr (ok, v, formatted_error_messages (skip_bom (skipBom f) doc) errors))"

end
