(* ===== verification/Json_Compare.thy ===== *)
theory Json_Compare
  imports Json_Wf
begin

text \<open>
  The comparison operators of \<^verbatim>\<open>Json::Value\<close> and the accessors of its comments
  (src/json_value.cc). Two containers are compared by size and then as \<^verbatim>\<open>std::map\<close>s: member
  by member, each as a \<^verbatim>\<open>std::pair\<close> of key and value. The theorems: on values without a NaN
  the order is strict and linear up to \<^verbatim>\<open>operator==\<close>, which is equality of the payloads
  with numbers compared by value.
\<close>

section \<open>Comparison of maps\<close>

fun lex_less :: "('k::linorder \<Rightarrow> 'k \<Rightarrow> bool) \<Rightarrow> ('v \<Rightarrow> 'v \<Rightarrow> bool) \<Rightarrow> ('k \<times> 'v) list \<Rightarrow> ('k \<times> 'v) list \<Rightarrow> bool"
where
  \<comment> \<open>\<^verbatim>\<open>operator<\<close> of \<^verbatim>\<open>std::map\<close>: lexicographical comparison of the pairs\<close>
  "lex_less kless vless [] [] = False"
| "lex_less kless vless [] (_ # _) = True"
| "lex_less kless vless (_ # _) [] = False"
| "lex_less kless vless ((k, v) # m) ((k', v') # m') =
     (if kless k k' \<or> \<not> kless k' k \<and> vless v v' then True
      else if kless k' k \<or> \<not> kless k k' \<and> vless v' v then False
      else lex_less kless vless m m')"

fun lex_eq :: "('k \<Rightarrow> 'k \<Rightarrow> bool) \<Rightarrow> ('v \<Rightarrow> 'v \<Rightarrow> bool) \<Rightarrow> ('k \<times> 'v) list \<Rightarrow> ('k \<times> 'v) list \<Rightarrow> bool" where
  \<comment> \<open>\<^verbatim>\<open>operator==\<close> of \<^verbatim>\<open>std::map\<close>\<close>
  "lex_eq keq veq [] [] = True"
| "lex_eq keq veq ((k, v) # m) ((k', v') # m') = (keq k k' \<and> veq v v' \<and> lex_eq keq veq m m')"
| "lex_eq keq veq _ _ = False"

lemma lex_less_cong [fundef_cong]:
  assumes "m = n" "m' = n'"
    and "\<And>k v k' v'. (k, v) \<in> set n \<Longrightarrow> (k', v') \<in> set n' \<Longrightarrow> f v v' = g v v'"
    and "\<And>k v k' v'. (k, v) \<in> set n \<Longrightarrow> (k', v') \<in> set n' \<Longrightarrow> f v' v = g v' v"
  shows "lex_less h f m m' = lex_less h g n n'"
  unfolding assms(1,2) using assms(3,4)
proof (induction h f n n' rule: lex_less.induct)
  case (4 kless vless k v m k' v' m')
  have e: "vless v v' = g v v'" "vless v' v = g v' v"
    using "4.prems"(1) [of k v k' v'] "4.prems"(2) [of k v k' v'] by simp_all
  show ?case
  proof (cases "kless k k' \<or> \<not> kless k' k \<and> vless v v' \<or> kless k' k \<or> \<not> kless k k' \<and> vless v' v")
    case False
    then have "\<not> (kless k k' \<or> \<not> kless k' k \<and> vless v v')" "\<not> (kless k' k \<or> \<not> kless k k' \<and> vless v' v)"
      by blast+
    note IH = "4.IH" [OF this]
    have "lex_less kless vless m m' = lex_less kless g m m'"
    proof (rule IH)
      fix a b c d assume "(a, b) \<in> set m" "(c, d) \<in> set m'"
      then show "vless b d = g b d" "vless d b = g d b"
        using "4.prems"(1) [of a b c d] "4.prems"(2) [of a b c d] by simp_all
    qed
    with False show ?thesis by (simp only: lex_less.simps e)
  next
    case True
    then show ?thesis by (simp only: lex_less.simps e split: if_split) blast
  qed
qed simp_all

lemma lex_eq_cong [fundef_cong]:
  assumes "m = n" "m' = n'"
    and "\<And>k v k' v'. (k, v) \<in> set n \<Longrightarrow> (k', v') \<in> set n' \<Longrightarrow> f v v' = g v v'"
  shows "lex_eq h f m m' = lex_eq h g n n'"
  unfolding assms(1,2) using assms(3)
proof (induction h f n n' rule: lex_eq.induct)
  case (2 keq veq k v m k' v' m')
  have "veq v v' = g v v'" using "2.prems" [of k v k' v'] by simp
  moreover have "lex_eq keq veq m m' = lex_eq keq g m m'"
    using "2.IH" "2.prems" by (meson list.set_intros(2))
  ultimately show ?case by auto
qed simp_all

section \<open>Comparison of values\<close>

definition index_less :: "uint32 \<Rightarrow> uint32 \<Rightarrow> bool" where
  \<comment> \<open>\<^verbatim>\<open>CZString::operator<\<close> of two indices\<close>
  "index_less i j \<longleftrightarrow> uint i < uint j"

function (sequential) json_less :: "json \<Rightarrow> json \<Rightarrow> bool" where
  "json_less (JNull _) (JNull _) = False"
| "json_less (JInt _ i) (JInt _ j) = (sint i < sint j)"
| "json_less (JUInt _ i) (JUInt _ j) = (uint i < uint j)"
| "json_less (JReal _ x) (JReal _ y) = dbl_less x y"
| "json_less (JBool _ a) (JBool _ b) = (\<not> a \<and> b)"
| "json_less (JStr _ s) (JStr _ t) =
     (let comp = memcmp (min (length s) (length t)) s t
      in if comp < 0 then True else if comp > 0 then False else length s < length t)"
| "json_less (JArr _ m) (JArr _ n) =
     (if length m \<noteq> length n then length m < length n else lex_less index_less json_less m n)"
| "json_less (JObj _ m) (JObj _ n) =
     (if length m \<noteq> length n then length m < length n else lex_less czstring_less json_less m n)"
| "json_less v w = (value_type_index (type_of v) < value_type_index (type_of w))"
  by pat_completeness auto
termination
  by (relation "measure (\<lambda>(v, w). size v + size w)")
    (auto dest!: size_pair_list simp: less_Suc_eq_le intro: add_less_mono)

definition json_le :: "json \<Rightarrow> json \<Rightarrow> bool" where "json_le v w \<longleftrightarrow> \<not> json_less w v"
definition json_ge :: "json \<Rightarrow> json \<Rightarrow> bool" where "json_ge v w \<longleftrightarrow> \<not> json_less v w"
definition json_gt :: "json \<Rightarrow> json \<Rightarrow> bool" where "json_gt v w \<longleftrightarrow> json_less w v"

fun json_eq :: "json \<Rightarrow> json \<Rightarrow> bool" where
  "json_eq (JNull _) (JNull _) = True"
| "json_eq (JInt _ i) (JInt _ j) = (i = j)"
| "json_eq (JUInt _ i) (JUInt _ j) = (i = j)"
| "json_eq (JReal _ x) (JReal _ y) = dbl_eq x y"
| "json_eq (JBool _ a) (JBool _ b) = (a = b)"
| "json_eq (JStr _ s) (JStr _ t) =
     (if length s \<noteq> length t then False else memcmp (length s) s t = 0)"
| "json_eq (JArr _ m) (JArr _ n) = (length m = length n \<and> lex_eq (=) json_eq m n)"
| "json_eq (JObj _ m) (JObj _ n) = (length m = length n \<and> lex_eq czstring_eq json_eq m n)"
| "json_eq _ _ = False"

definition json_neq :: "json \<Rightarrow> json \<Rightarrow> bool" where "json_neq v w \<longleftrightarrow> \<not> json_eq v w"

definition json_compare :: "json \<Rightarrow> json \<Rightarrow> int" where
  "json_compare v w = (if json_less v w then -1 else if json_gt v w then 1 else 0)"

section \<open>Comments\<close>

fun comment_slot :: "comments \<Rightarrow> comment_placement \<Rightarrow> string" where
  "comment_slot c commentBefore = c_before c"
| "comment_slot c commentAfterOnSameLine = c_same_line c"
| "comment_slot c commentAfter = c_after c"

definition comments_has :: "comments option \<Rightarrow> comment_placement \<Rightarrow> bool" where
  "comments_has p slot = (case p of None \<Rightarrow> False | Some c \<Rightarrow> comment_slot c slot \<noteq> [])"

definition comments_get :: "comments option \<Rightarrow> comment_placement \<Rightarrow> string" where
  "comments_get p slot = (case p of None \<Rightarrow> [] | Some c \<Rightarrow> comment_slot c slot)"

definition no_comments :: comments where
  \<comment> \<open>\<^verbatim>\<open>new Array()\<close>\<close>
  "no_comments = \<lparr>c_before = [], c_same_line = [], c_after = []\<rparr>"

definition comments_set :: "comments option \<Rightarrow> comment_placement \<Rightarrow> string \<Rightarrow> comments option" where
  "comments_set p slot comment =
     (let c = (case p of None \<Rightarrow> no_comments | Some c \<Rightarrow> c)
      in Some (case slot of
           commentBefore \<Rightarrow> c\<lparr>c_before := comment\<rparr>
         | commentAfterOnSameLine \<Rightarrow> c\<lparr>c_same_line := comment\<rparr>
         | commentAfter \<Rightarrow> c\<lparr>c_after := comment\<rparr>))"

definition set_comment :: "json \<Rightarrow> string \<Rightarrow> comment_placement \<Rightarrow> json res" where
  "set_comment v comment placement =
     (let c = (if comment \<noteq> [] \<and> last comment = LF then butlast comment else comment)
      in json_assert (c \<noteq> []) ''assert json failed''
         (json_assert (hd c = NUL \<or> hd c = CHR ''/'')
            ''in Json::Value::setComment(): Comments must start with /''
            (Inr (set_meta ((meta v)\<lparr>v_comments := comments_set (v_comments (meta v)) placement c\<rparr>) v))))"

definition has_comment :: "json \<Rightarrow> comment_placement \<Rightarrow> bool" where
  "has_comment v placement = comments_has (v_comments (meta v)) placement"

definition get_comment :: "json \<Rightarrow> comment_placement \<Rightarrow> string" where
  "get_comment v placement = comments_get (v_comments (meta v)) placement"

lemma get_comment_set:
  "set_comment v c p = Inr v' \<Longrightarrow>
   get_comment v' q = (if q = p then if last c = LF then butlast c else c else get_comment v q)"
  by (cases p; cases q)
    (auto simp: set_comment_def json_assert_Inr_iff get_comment_def comments_get_def comments_set_def
      no_comments_def Let_def split: option.splits if_splits)

lemma set_comment_payload: "set_comment v c p = Inr v' \<Longrightarrow> v' = set_meta (meta v') v"
  by (auto simp: set_comment_def json_assert_Inr_iff Let_def)

definition slash_text :: "string \<Rightarrow> bool" where
  \<comment> \<open>begins like a comment\<close>
  "slash_text s \<longleftrightarrow> (\<exists>c t. s = CHR ''/'' # c # t)"

lemma set_comment_slash:
  "slash_text s \<Longrightarrow> \<exists>c. set_comment v s pl = Inr (set_meta ((meta v)\<lparr>v_comments := c\<rparr>) v)"
  by (auto simp: slash_text_def set_comment_def Let_def)

lemma slash_text_append: "slash_text s \<Longrightarrow> slash_text (s @ t)"
  by (auto simp: slash_text_def)

section \<open>The order is strict and linear up to equality\<close>

fun nan_free :: "json \<Rightarrow> bool" where
  "nan_free (JReal _ d) = (\<not> is_nan d)"
| "nan_free (JArr _ m) = (\<forall>v \<in> snd ` set m. nan_free v)"
| "nan_free (JObj _ m) = (\<forall>v \<in> snd ` set m. nan_free v)"
| "nan_free _ = True"

lemma czstring_less_eq [simp]: "czstring_less = (<)"
  by (simp add: fun_eq_iff czstring_less_lex)

lemma czstring_eq_eq [simp]: "czstring_eq = (=)"
  by (simp add: fun_eq_iff czstring_eq_iff)

lemma index_less_eq [simp]: "index_less = (<)"
  by (simp add: fun_eq_iff index_less_def word_less_def)

lemma json_less_str: "json_less (JStr a s) (JStr b t) \<longleftrightarrow> s < t"
proof -
  have "json_less (JStr a s) (JStr b t) \<longleftrightarrow> czstring_less s t"
    by (simp only: json_less.simps czstring_less_def)
  then show ?thesis by simp
qed

lemma json_eq_str: "json_eq (JStr a s) (JStr b t) \<longleftrightarrow> s = t"
proof -
  have "json_eq (JStr a s) (JStr b t) \<longleftrightarrow> czstring_eq s t"
    by (simp only: json_eq.simps czstring_eq_def)
  then show ?thesis by simp
qed

declare json_less.simps(6) [simp del] json_eq.simps(6) [simp del]
declare json_less_str [simp] json_eq_str [simp]

lemma dbl_less_asym: "dbl_less x y \<Longrightarrow> \<not> dbl_less y x"
  by (cases x; cases y) (auto simp: min.commute)

lemma dbl_eq_iff: "\<not> is_nan x \<Longrightarrow> \<not> is_nan y \<Longrightarrow> dbl_eq x y \<longleftrightarrow> \<not> dbl_less x y \<and> \<not> dbl_less y x"
  by (cases x; cases y) (auto simp: min.commute)

lemma dbl_less_cotrans: "\<not> is_nan y \<Longrightarrow> dbl_less x z \<Longrightarrow> dbl_less x y \<or> dbl_less y z"
proof (cases "is_finite x \<and> is_finite y \<and> is_finite z")
  case True
  assume "dbl_less x z"
  with True show ?thesis by (simp add: dbl_less_dval) linarith
next
  case False
  assume "\<not> is_nan y" "dbl_less x z"
  with False show ?thesis by (cases x; cases y; cases z) simp_all
qed

definition cotrans3 :: "('v \<Rightarrow> 'v \<Rightarrow> bool) \<Rightarrow> 'v \<Rightarrow> 'v \<Rightarrow> 'v \<Rightarrow> bool" where
  \<comment> \<open>whatever two of the three are in order, the third lies above the one or below the other\<close>
  "cotrans3 lt u v w \<longleftrightarrow>
     (lt u w \<longrightarrow> lt u v \<or> lt v w) \<and> (lt w u \<longrightarrow> lt w v \<or> lt v u) \<and>
     (lt u v \<longrightarrow> lt u w \<or> lt w v) \<and> (lt v u \<longrightarrow> lt v w \<or> lt w u) \<and>
     (lt v w \<longrightarrow> lt v u \<or> lt u w) \<and> (lt w v \<longrightarrow> lt w u \<or> lt u v)"

lemma lex_less_asym:
  assumes "lex_less (<) vless m m'"
    and "\<And>v v'. v \<in> snd ` set m \<Longrightarrow> v' \<in> snd ` set m' \<Longrightarrow> vless v v' \<Longrightarrow> \<not> vless v' v"
  shows "\<not> lex_less (<) vless m' m"
  using assms
proof (induction "(<) :: 'a::linorder \<Rightarrow> _" vless m m' rule: lex_less.induct)
  case (4 vless k v m k' v' m')
  have "vless v v' \<Longrightarrow> \<not> vless v' v" by (rule "4.prems"(2)) simp_all
  moreover have "\<not> lex_less (<) vless m' m" if "lex_less (<) vless m m'"
      "\<not> (k < k' \<or> \<not> k' < k \<and> vless v v')" "\<not> (k' < k \<or> \<not> k < k' \<and> vless v' v)"
    using "4.hyps" [OF that(2,3,1)] "4.prems"(2) by simp
  ultimately show ?case using "4.prems"(1) by (auto split: if_splits)
qed simp_all

lemma lex_less_cotrans:
  assumes "lex_less (<) vless l n" "length l = length m" "length m = length n"
    and "\<And>u v w. u \<in> snd ` set l \<Longrightarrow> v \<in> snd ` set m \<Longrightarrow> w \<in> snd ` set n \<Longrightarrow>
           cotrans3 vless u v w"
  shows "lex_less (<) vless l m \<or> lex_less (<) vless m n"
  using assms(2,3,1,4)
proof (induction l m n rule: list_induct3)
  case (Cons p l q m r n)
  obtain k u k' v k'' w where pqr: "p = (k, u)" "q = (k', v)" "r = (k'', w)"
    by (cases p; cases q; cases r)
  have c: "cotrans3 vless u v w" by (rule Cons.prems(2)) (simp_all add: pqr)
  have IH: "lex_less (<) vless l m \<or> lex_less (<) vless m n" if "lex_less (<) vless l n"
    using that by (rule Cons.IH) (use Cons.prems(2) in \<open>simp_all\<close>)
  have "\<not> k'' < k" using Cons.prems(1) by (auto simp: pqr split: if_splits)
  then consider "k < k''" | "k = k''" by fastforce
  then show ?case
  proof cases
    case 1
    consider "k < k'" | "k' < k''" using 1 by fastforce
    then show ?thesis by cases (simp_all add: pqr)
  next
    case 2
    consider "k < k'" | "k' < k" | "k' = k" using linorder_less_linear by blast
    then show ?thesis
    proof cases
      case 3
      then show ?thesis
        using Cons.prems(1) c IH 2 unfolding pqr cotrans3_def lex_less.simps
        by (simp split: if_splits) argo+
    qed (use 2 in \<open>simp_all add: pqr\<close>)
  qed
qed simp

text \<open>Values of different types are ordered by their types.\<close>

lemma json_less_types:
  "type_of v \<noteq> type_of w \<Longrightarrow>
   json_less v w \<longleftrightarrow> value_type_index (type_of v) < value_type_index (type_of w)"
  by (cases v; cases w) simp_all

lemma json_eq_types: "json_eq v w \<Longrightarrow> type_of v = type_of w"
  by (cases v; cases w) simp_all

lemma json_less_index:
  "json_less v w \<Longrightarrow> value_type_index (type_of v) \<le> value_type_index (type_of w)"
  using json_less_types [of v w] by fastforce

lemma json_less_asym: "json_less v w \<Longrightarrow> \<not> json_less w v"
proof (induction v arbitrary: w)
  case (JArr mt m)
  show ?case
  proof (cases w)
    case w: (JArr mt' n)
    from JArr.prems have "length m < length n \<or> length m = length n \<and> lex_less (<) json_less m n"
      by (simp add: w split: if_splits)
    moreover have "lex_less (<) json_less m n \<Longrightarrow> \<not> lex_less (<) json_less n m"
      by (rule lex_less_asym) (use JArr.IH in \<open>auto\<close>)
    ultimately show ?thesis by (auto simp: w)
  qed (use JArr.prems in simp_all)
next
  case (JObj mt m)
  show ?case
  proof (cases w)
    case w: (JObj mt' n)
    from JObj.prems have "length m < length n \<or> length m = length n \<and> lex_less (<) json_less m n"
      by (simp add: w split: if_splits)
    moreover have "lex_less (<) json_less m n \<Longrightarrow> \<not> lex_less (<) json_less n m"
      by (rule lex_less_asym) (use JObj.IH in \<open>auto\<close>)
    ultimately show ?thesis by (auto simp: w)
  qed (use JObj.prems in simp_all)
next
  case (JReal mt d)
  then show ?case by (cases w) (simp_all add: dbl_less_asym)
next
  case (JStr mt t)
  then show ?case by (cases w) (simp_all add: less_not_sym)
next
  case (JNull mt)
  then show ?case by (cases w) simp_all
next
  case (JInt mt i)
  then show ?case by (cases w) simp_all
next
  case (JUInt mt i)
  then show ?case by (cases w) simp_all
next
  case (JBool mt b)
  then show ?case by (cases w) simp_all
qed

lemma json_less_cotrans:
  "nan_free u \<Longrightarrow> nan_free v \<Longrightarrow> nan_free w \<Longrightarrow> json_less u w \<Longrightarrow> json_less u v \<or> json_less v w"
proof (induction "size u + size v + size w" arbitrary: u v w rule: less_induct)
  case less
  note prems = less.prems
  have IH: "cotrans3 json_less x y z"
    if "size x < size u" "size y < size v" "size z < size w" "nan_free x" "nan_free y" "nan_free z" for x y z
    unfolding cotrans3_def using that by (intro conjI impI) (rule less.hyps; simp)+
  show ?case
  proof (cases "type_of u = type_of v \<and> type_of v = type_of w")
    case False
    then show ?thesis
      using prems(4) json_less_index [of u w] json_less_types [of u v] json_less_types [of v w]
      by (metis value_type_index_inject le_less_linear less_le_trans nat_less_le not_less)
  next
    case True
    show ?thesis
    proof (cases u)
      case u: (JArr a l)
      obtain b m c n where vw: "v = JArr b m" "w = JArr c n"
        using True u by (cases v; cases w) simp_all
      have "lex_less (<) json_less l m \<or> lex_less (<) json_less m n"
        if "lex_less (<) json_less l n" "length l = length m" "length m = length n"
        using that by (rule lex_less_cotrans)
          (rule IH, use prems in \<open>auto simp: u vw intro: size_pair_list\<close>)
      then show ?thesis using prems(4) by (auto simp: u vw split: if_splits)
    next
      case u: (JObj a l)
      obtain b m c n where vw: "v = JObj b m" "w = JObj c n"
        using True u by (cases v; cases w) simp_all
      have "lex_less (<) json_less l m \<or> lex_less (<) json_less m n"
        if "lex_less (<) json_less l n" "length l = length m" "length m = length n"
        using that by (rule lex_less_cotrans)
          (rule IH, use prems in \<open>auto simp: u vw intro: size_pair_list\<close>)
      then show ?thesis using prems(4) by (auto simp: u vw split: if_splits)
    next
      case u: (JReal a d)
      then show ?thesis using True prems by (cases v; cases w) (simp_all add: dbl_less_cotrans)
    qed (use True prems in \<open>cases v; cases w; fastforce\<close>)+
  qed
qed

lemma lex_eq_iff:
  assumes "length m = length n"
    and "\<And>v w. v \<in> snd ` set m \<Longrightarrow> w \<in> snd ` set n \<Longrightarrow> veq v w \<longleftrightarrow> \<not> vless v w \<and> \<not> vless w v"
  shows "lex_eq (=) veq m n \<longleftrightarrow> \<not> lex_less (<) vless m n \<and> \<not> lex_less (<) vless n m"
  using assms
proof (induction m n rule: list_induct2)
  case (Cons p m q n)
  obtain k v k' w where pq: "p = (k, v)" "q = (k', w)" by (cases p; cases q)
  have e: "veq v w \<longleftrightarrow> \<not> vless v w \<and> \<not> vless w v" by (rule Cons.prems) (simp_all add: pq)
  have IH: "lex_eq (=) veq m n \<longleftrightarrow> \<not> lex_less (<) vless m n \<and> \<not> lex_less (<) vless n m"
    by (rule Cons.IH) (simp add: Cons.prems)
  show ?case
    by (cases k k' rule: linorder_cases) (auto simp: pq e IH)
qed simp

lemma json_eq_iff:
  "nan_free v \<Longrightarrow> nan_free w \<Longrightarrow> json_eq v w \<longleftrightarrow> \<not> json_less v w \<and> \<not> json_less w v"
proof (induction v arbitrary: w)
  case (JArr mt m)
  show ?case
  proof (cases w)
    case w: (JArr mt' n)
    have "length m = length n \<Longrightarrow>
        lex_eq (=) json_eq m n \<longleftrightarrow> \<not> lex_less (<) json_less m n \<and> \<not> lex_less (<) json_less n m"
    proof (rule lex_eq_iff)
      fix v u assume "v \<in> snd ` set m" "u \<in> snd ` set n"
      moreover from this obtain k where "(k, v) \<in> set m" by auto
      ultimately show "json_eq v u \<longleftrightarrow> \<not> json_less v u \<and> \<not> json_less u v"
        using JArr.IH [of "(k, v)" v u] JArr.prems w by auto
    qed
    then show ?thesis by (auto simp: w)
  qed simp_all
next
  case (JObj mt m)
  show ?case
  proof (cases w)
    case w: (JObj mt' n)
    have "length m = length n \<Longrightarrow>
        lex_eq (=) json_eq m n \<longleftrightarrow> \<not> lex_less (<) json_less m n \<and> \<not> lex_less (<) json_less n m"
    proof (rule lex_eq_iff)
      fix v u assume "v \<in> snd ` set m" "u \<in> snd ` set n"
      moreover from this obtain k where "(k, v) \<in> set m" by auto
      ultimately show "json_eq v u \<longleftrightarrow> \<not> json_less v u \<and> \<not> json_less u v"
        using JObj.IH [of "(k, v)" v u] JObj.prems w by auto
    qed
    then show ?thesis by (auto simp: w)
  qed simp_all
next
  case (JReal mt d)
  then show ?case by (cases w) (simp_all add: dbl_eq_iff)
next
  case (JStr mt t)
  then show ?case by (cases w) auto
next
  case (JNull mt)
  then show ?case by (cases w) simp_all
next
  case (JInt mt i)
  then show ?case by (cases w) (auto simp: linorder_neq_iff intro: signed_word_eqI)
next
  case (JUInt mt i)
  then show ?case by (cases w) (auto simp: linorder_neq_iff intro: unsigned_word_eqI)
next
  case (JBool mt b)
  then show ?case by (cases w) auto
qed

text \<open>Consequences: the order is transitive, and its equivalence is \<^verbatim>\<open>operator==\<close>.\<close>

lemma json_less_trans:
  "nan_free u \<Longrightarrow> nan_free v \<Longrightarrow> nan_free w \<Longrightarrow> json_less u v \<Longrightarrow> json_less v w \<Longrightarrow> json_less u w"
  using json_less_cotrans [of u w v] json_less_asym [of v w] by blast

lemma json_eq_trans:
  "nan_free u \<Longrightarrow> nan_free v \<Longrightarrow> nan_free w \<Longrightarrow> json_eq u v \<Longrightarrow> json_eq v w \<Longrightarrow> json_eq u w"
  using json_less_cotrans [of u v w] json_less_cotrans [of w v u] by (auto simp: json_eq_iff)

end
