(* ===== verification/Json_Pointer.thy ===== *)
theory Json_Pointer
  imports Json_Reader Json_Compare Json_Wf
begin

text \<open>
  Pointers into a value. The readers keep pointers to values of the document they build
  (\<^verbatim>\<open>nodes_\<close>, \<^verbatim>\<open>lastValue_\<close>). A value in a container never moves, so a pointer is the path of
  keys from the root to it. The laws of reading and writing through a path, and which paths
  stay valid; the locale \<open>natural\<close> is for functions that change only leaves and meta data: they
  commute with everything done through a pointer. The locale \<open>forgetful\<close> extends it for
  functions that forget all meta data.
\<close>

section \<open>Reading and writing\<close>

type_synonym path = "vkey list"

fun child :: "vkey \<Rightarrow> json \<Rightarrow> json" where
  \<comment> \<open>the value a map holds for a key\<close>
  "child (KIndex i) v = index_get v i"
| "child (KName k) v = (case om_find k (object_map v) of None \<Rightarrow> null_singleton | Some c \<Rightarrow> c)"

fun put_child :: "vkey \<Rightarrow> json \<Rightarrow> json \<Rightarrow> json" where
  "put_child (KIndex i) c v = index_put v i c"
| "put_child (KName k) c v = JObj (meta v) (om_put k c (object_map v))"

fun at_path :: "path \<Rightarrow> json \<Rightarrow> json" where
  \<comment> \<open>the value a pointer points to\<close>
  "at_path [] v = v"
| "at_path (k # p) v = at_path p (child k v)"

fun put_at :: "path \<Rightarrow> json \<Rightarrow> json \<Rightarrow> json" where
  \<comment> \<open>the root after a write through the pointer\<close>
  "put_at [] c v = c"
| "put_at (k # p) c v = put_child k (put_at p c (child k v)) v"

fun has_child :: "vkey \<Rightarrow> json \<Rightarrow> bool" where
  "has_child (KIndex i) v \<longleftrightarrow> is_array v \<and> om_find i (array_map v) \<noteq> None"
| "has_child (KName k) v \<longleftrightarrow> is_object v \<and> om_find k (object_map v) \<noteq> None"

fun valid_path :: "path \<Rightarrow> json \<Rightarrow> bool" where
  "valid_path [] v = True"
| "valid_path (k # p) v \<longleftrightarrow> has_child k v \<and> valid_path p (child k v)"

section \<open>Maps\<close>

lemma om_find_put_same [simp]: "om_find k (om_put k c m) = Some c"
  by (induction k c m rule: om_put.induct) auto

lemma om_put_put_same [simp]: "om_put k c (om_put k d m) = om_put k c m"
  by (induction k d m rule: om_put.induct) auto

lemma om_put_find: "om_find k m = Some c \<Longrightarrow> om_put k c m = m"
  by (induction k m rule: om_find.induct) (auto split: if_splits)

lemma om_find_put_other: "om_find k' m = Some d \<Longrightarrow> k' \<noteq> k \<Longrightarrow> om_find k' (om_put k c m) = Some d"
  by (induction k c m rule: om_put.induct) (auto split: if_splits)

lemma om_find_emplace_old: "om_find k' m = Some d \<Longrightarrow> om_find k' (om_emplace k c m) = Some d"
  by (induction k c m rule: om_emplace.induct) (auto split: if_splits)

lemma om_find_emplace_same: "om_find k (om_emplace k c m) \<noteq> None"
  by (induction k c m rule: om_emplace.induct) auto

lemma om_emplace_map_snd: "map_snd f (om_emplace k c m) = om_emplace k (f c) (map_snd f m)"
  by (induction k c m rule: om_emplace.induct) auto

lemma om_put_map_snd: "map_snd f (om_put k v m) = om_put k (f v) (map_snd f m)"
  by (induction k v m rule: om_put.induct) auto

section \<open>Laws of paths\<close>

lemma put_child_simps [simp]:
  "child k (put_child k c v) = c" "put_child k c (put_child k d v) = put_child k c v"
  "has_child k (put_child k c v)" "meta (put_child k c v) = meta v"
  by (cases k; simp add: index_get_def index_put_def object_map_def array_map_def is_array_def is_object_def)+

lemma put_child_same: "has_child k v \<Longrightarrow> put_child k (child k v) v = v"
  by (cases k; cases v)
    (auto simp: index_get_def index_put_def object_map_def array_map_def is_array_def is_object_def om_put_find)

lemma child_put_other:
  "has_child k' v \<Longrightarrow> has_child k v \<Longrightarrow> k' \<noteq> k \<Longrightarrow>
   has_child k' (put_child k c v) \<and> child k' (put_child k c v) = child k' v"
  by (cases k; cases k'; cases v)
    (auto simp: index_get_def index_put_def object_map_def array_map_def is_array_def is_object_def
      om_find_put_other)

lemma at_put [simp]: "at_path p (put_at p c v) = c"
  by (induction p arbitrary: v) auto

lemma put_put [simp]: "put_at p c (put_at p d v) = put_at p c v"
  by (induction p arbitrary: v) auto

lemma put_at_same: "valid_path p v \<Longrightarrow> put_at p (at_path p v) v = v"
  by (induction p arbitrary: v) (auto simp: put_child_same)

lemma valid_at_put [simp]: "valid_path p (put_at p c v)"
  by (induction p arbitrary: v) auto

lemma path_append:
  "at_path (p @ q) v = at_path q (at_path p v)"
  "put_at (p @ q) c v = put_at p (put_at q c (at_path p v)) v"
  "valid_path (p @ q) v \<longleftrightarrow> valid_path p v \<and> valid_path q (at_path p v)"
  by (induction p arbitrary: v) auto

lemma valid_put:
  "valid_path p v \<Longrightarrow> valid_path q v \<Longrightarrow> \<not> strict_prefix p q \<Longrightarrow> valid_path q (put_at p c v)"
proof (induction p arbitrary: q v)
  case Nil
  then show ?case by (cases q) auto
next
  case (Cons k p)
  show ?case
  proof (cases q)
    case (Cons k' q')
    then show ?thesis
      using Cons.prems Cons.IH [of "child k v" q'] child_put_other [of k' v k]
      by (cases "k' = k") auto
  qed simp
qed

definition extends :: "json \<Rightarrow> json \<Rightarrow> bool" where
  \<comment> \<open>every child stays where it was\<close>
  "extends v w \<longleftrightarrow> (\<forall>k. has_child k v \<longrightarrow> has_child k w \<and> child k w = child k v)"

lemma valid_extends: "valid_path q v \<Longrightarrow> extends v w \<Longrightarrow> valid_path q w"
  by (cases q) (auto simp: extends_def)

lemma valid_put_extends:
  "valid_path p v \<Longrightarrow> valid_path q v \<Longrightarrow> extends (at_path p v) w \<Longrightarrow> valid_path q (put_at p w v)"
proof (induction p arbitrary: q v)
  case Nil
  then show ?case by (simp add: valid_extends)
next
  case (Cons k p)
  show ?case
  proof (cases q)
    case (Cons k' q')
    then show ?thesis
      using Cons.prems Cons.IH [of "child k v" q'] child_put_other [of k' v k]
      by (cases "k' = k") auto
  qed simp
qed

lemma object_children:
  "has_child k (JObj mt m) \<longleftrightarrow> (\<exists>n. k = KName n \<and> om_find n m \<noteq> None)"
  "child (KName n) (JObj mt m) = (case om_find n m of None \<Rightarrow> null_singleton | Some c \<Rightarrow> c)"
  by (cases k; simp add: is_object_def is_array_def object_map_def)+

lemma array_children:
  "has_child k (JArr mt m) \<longleftrightarrow> (\<exists>i. k = KIndex i \<and> om_find i m \<noteq> None)"
  "child (KIndex i) (JArr mt m) = (case om_find i m of None \<Rightarrow> null_singleton | Some c \<Rightarrow> c)"
  by (cases k; simp add: is_object_def is_array_def array_map_def index_get_def)+

lemma extends_set_meta: "extends v (set_meta m v)"
proof -
  have "has_child k (set_meta m v) = has_child k v" "child k (set_meta m v) = child k v" for k
    by (cases k; cases v; simp add: index_get_def object_map_def array_map_def is_array_def is_object_def)+
  then show ?thesis by (simp add: extends_def)
qed

lemma resolve_reference_entry:
  assumes "resolve_reference v name = Inr w" "is_object v"
  shows "extends v w" "has_child (KName (czstring name)) w" "is_object w"
proof -
  obtain mt m where v: "v = JObj mt m" using assms(2) by (cases v) (auto simp: is_object_def)
  have w: "w = JObj mt (om_emplace (czstring name) null_singleton m)"
    using assms(1) unfolding v
    by (simp add: resolve_reference_def as_object_def ensure_key_emplace object_map_def)
  show "extends v w"
    unfolding v w extends_def
    by (auto simp: object_children om_find_emplace_old simp del: child.simps)
  show "has_child (KName (czstring name)) w"
    using om_find_emplace_same [of "czstring name" null_singleton m] by (simp add: w object_children)
  show "is_object w" by (simp add: w is_object_def)
qed

lemma index_ref_int_entry:
  assumes "index_ref_int v i = Inr w" "is_array v"
  shows "extends v w" "has_child (KIndex i) w" "is_array w" "0 \<le> sint i"
proof -
  obtain mt m where v: "v = JArr mt m" using assms(2) by (cases v) (auto simp: is_array_def)
  have w: "w = JArr mt (om_emplace i null_singleton m)" and i: "0 \<le> sint i"
    using assms(1) unfolding v
    by (simp_all add: index_ref_int_def index_ref_def as_array_def ensure_key_emplace array_map_def
        json_assert_Inr_iff)
  show "extends v w"
    unfolding v w extends_def
    by (auto simp: array_children om_find_emplace_old simp del: child.simps)
  show "has_child (KIndex i) w"
    using om_find_emplace_same [of i null_singleton m] by (simp add: w array_children)
  show "is_array w" "0 \<le> sint i" by (simp_all add: w i is_array_def)
qed

section \<open>Natural functions\<close>

text \<open>Functions that change only leaves and meta data.\<close>

locale natural =
  fixes h :: "json \<Rightarrow> json" and g :: "vmeta \<Rightarrow> vmeta"
  assumes of_array: "h (JArr a xs) = JArr (g a) (map_snd h xs)"
    and of_object: "h (JObj a ys) = JObj (g a) (map_snd h ys)"
    and of_null: "h (JNull a) = JNull (g a)"
    and of_meta0: "g meta0 = meta0"
    and of_leaf: "type_of v \<noteq> arrayValue \<Longrightarrow> type_of v \<noteq> objectValue \<Longrightarrow>
      type_of (h v) \<noteq> arrayValue \<and> type_of (h v) \<noteq> objectValue \<and> meta (h v) = g (meta v)"
begin

lemma meta [simp]: "meta (h v) = g (meta v)"
  using of_leaf [of v] by (cases v) (simp_all add: of_array of_object)

lemma containers [simp]:
  "is_array (h v) = is_array v" "is_object (h v) = is_object v"
  using of_leaf [of v] by (cases v; simp add: is_array_def is_object_def of_array of_object)+

lemma maps:
  "array_map (h v) = map_snd h (array_map v)" "object_map (h v) = map_snd h (object_map v)"
proof -
  have "array_map (h v) = map_snd h (array_map v) \<and> object_map (h v) = map_snd h (object_map v)"
  proof (cases "type_of v = arrayValue \<or> type_of v = objectValue")
    case True
    then show ?thesis by (cases v) (simp_all add: array_map_def object_map_def of_array of_object)
  next
    case False
    then have "type_of (h v) \<noteq> arrayValue \<and> type_of (h v) \<noteq> objectValue" using of_leaf by blast
    then show ?thesis
      using False by (cases v; cases "h v") (simp_all add: array_map_def object_map_def)
  qed
  then show "array_map (h v) = map_snd h (array_map v)" "object_map (h v) = map_snd h (object_map v)"
    by blast+
qed

lemma singleton [simp]: "h null_singleton = null_singleton"
  by (simp add: null_singleton_def of_null of_meta0)

lemma child [simp]:
  "h (child k v) = child k (h v)" "h (put_child k c v) = put_child k (h c) (h v)"
  "has_child k (h v) = has_child k v"
  by (cases k; simp add: index_get_def index_put_def maps om_find_map_snd om_put_map_snd of_array of_object
      split: option.splits)+

lemma path [simp]:
  "h (at_path p v) = at_path p (h v)" "h (put_at p c v) = put_at p (h c) (h v)"
  by (induction p arbitrary: v) auto

lemma valid: "valid_path p (h v) = valid_path p v"
  by (induction p arbitrary: v) (simp_all flip: child(1))

lemma extends: "extends v w \<Longrightarrow> extends (h v) (h w)"
  by (auto simp: extends_def simp flip: child(1))

lemma resolve_reference_extends:
  assumes "resolve_reference v name = Inr w" "is_object v"
  shows "extends (h v) (h w)" "has_child (KName (czstring name)) (h w)" "is_object w"
  using resolve_reference_entry [OF assms] by (simp_all add: extends)

lemma index_ref_int_extends:
  assumes "index_ref_int v i = Inr w" "is_array v"
  shows "extends (h v) (h w)" "has_child (KIndex i) (h w)" "is_array w" "0 \<le> sint i"
  using index_ref_int_entry [OF assms] by (simp_all add: extends)

lemma resolve_reference_same:
  assumes "resolve_reference u nm = Inr w" "is_object u" "is_object v" "h v = h u"
  shows "\<exists>w'. resolve_reference v nm = Inr w' \<and> h w' = h w"
proof -
  obtain a m b n where "u = JObj a m" "v = JObj b n"
    using assms(2,3) by (cases u; cases v) (auto simp: is_object_def)
  then show ?thesis
    using assms(1,4) by (auto simp: resolve_reference_def as_object_def ensure_key_emplace object_map_def
        om_emplace_map_snd of_object)
qed

lemma index_ref_int_same:
  assumes "index_ref_int u i = Inr w" "is_array u" "is_array v" "h v = h u"
  shows "\<exists>w'. index_ref_int v i = Inr w' \<and> h w' = h w"
proof -
  obtain a m b n where "u = JArr a m" "v = JArr b n"
    using assms(2,3) by (cases u; cases v) (auto simp: is_array_def)
  then show ?thesis
    using assms(1,4) by (auto simp: index_ref_int_def index_ref_def as_array_def ensure_key_emplace array_map_def
        om_emplace_map_snd json_assert_Inr_iff of_array)
qed

end

text \<open>Functions that forget all meta data.\<close>

locale forgetful = natural h "\<lambda>_. meta0" for h +
  assumes of_meta: "h (set_meta m v) = h v"
begin

lemma set_meta [simp]: "h (set_meta m v) = h v"
  by (rule of_meta)

lemma offsets [simp]:
  "h (set_offset_start n v) = h v" "h (set_offset_limit n v) = h v"
  "h (put_value b tok v cur) = h v" "h (fst (swap_payload cur v)) = h v"
  by (simp_all add: put_value_def swap_payload_def set_offset_start_def set_offset_limit_def)

lemma init_container [simp]:
  "h (init_container b tok objectValue cur) = JObj meta0 []"
  "h (init_container b tok arrayValue cur) = JArr meta0 []"
  by (simp_all add: init_container_def swap_payload_def set_offset_start_def of_array of_object)

end

end
