(* ===== verification/Json_Comments.thy ===== *)
theory Json_Comments
  imports Json_Pointer
begin

text \<open>
  \<^verbatim>\<open>Json::OurReader\<close> with comments collected (src/json_reader.cc). \<open>Json_Reader\<close> models the
  runs of the service, which collects none; here the same functions run on the whole state,
  with \<^verbatim>\<open>lastValueEnd_\<close>, \<^verbatim>\<open>lastValue_\<close>, \<^verbatim>\<open>lastValueHasAComment_\<close> and \<^verbatim>\<open>commentsBefore_\<close>, and
  with pointers to values as paths from the root. What has nothing to do with comments is
  taken from there: the tokens other than comments, the decoders and the leaves.
\<close>

section \<open>State\<close>

record mstate =
  m_root :: json
  m_current :: loc
  m_errors :: "err_info list"
  m_last_end :: "loc option"
  m_last :: "path option"
  m_has_comment :: bool
  m_before :: string

definition m_value :: "path \<Rightarrow> mstate \<Rightarrow> json" where
  \<comment> \<open>\<^verbatim>\<open>currentValue()\<close>\<close>
  "m_value p st = at_path p (m_root st)"

definition m_set :: "path \<Rightarrow> json \<Rightarrow> mstate \<Rightarrow> mstate" where
  "m_set p v st = st\<lparr>m_root := put_at p v (m_root st)\<rparr>"

definition m_error :: "err_info \<Rightarrow> mstate \<Rightarrow> mstate" where
  \<comment> \<open>\<^verbatim>\<open>addError\<close>\<close>
  "m_error e st = st\<lparr>m_errors := m_errors st @ [e]\<rparr>"

section \<open>Comments\<close>

definition has_new_line :: "loc \<Rightarrow> loc \<Rightarrow> bool" where
  \<comment> \<open>\<^verbatim>\<open>containsNewLine(begin, end)\<close>\<close>
  "has_new_line begin end' = list_ex (\<lambda>b. b = LF \<or> b = CR) (range_text begin end')"

fun unix_lines :: "string \<Rightarrow> string" where
  \<comment> \<open>\<^verbatim>\<open>normalizeEOL\<close> of the characters in \<^verbatim>\<open>[begin, end)\<close>\<close>
  "unix_lines [] = []"
| "unix_lines (c # r) =
     (if c = CR then LF # unix_lines (if r \<noteq> [] \<and> hd r = LF then tl r else r)
      else c # unix_lines r)"

definition m_add_comment :: "loc \<Rightarrow> loc \<Rightarrow> comment_placement \<Rightarrow> mstate \<Rightarrow> mstate res" where
  "m_add_comment begin end' placement st =
     (let normalized = unix_lines (range_text begin end')
      in if placement = commentAfterOnSameLine then
           (case m_last st of
              None \<Rightarrow> Inl (AssertFail ''lastValue_ != nullptr'')
            | Some p \<Rightarrow>
                bind_res (set_comment (m_value p st) normalized placement) (\<lambda>v. Inr (m_set p v st)))
         else Inr (st\<lparr>m_before := m_before st @ normalized\<rparr>))"

definition m_read_comment :: "bool \<Rightarrow> loc \<Rightarrow> mstate \<Rightarrow> (bool \<times> mstate) res" where
  \<comment> \<open>\<open>commentBegin\<close> is \<^verbatim>\<open>current_ - 1\<close>\<close>
  "m_read_comment cc commentBegin st =
     (let (c, cur1) = get_next_char (m_current st);
          (successful, embedded, cur) =
            (if c = CHR ''*'' then read_c_style_comment cur1
             else if c = CHR ''/'' then (True, False, read_cpp_style_comment cur1)
             else (False, False, cur1));
          st1 = st\<lparr>m_current := cur\<rparr>
      in if \<not> successful then Inr (False, st1)
         else if cc then
           (if \<not> m_has_comment st1 \<and>
               (case m_last_end st1 of None \<Rightarrow> False | Some e \<Rightarrow> \<not> has_new_line e commentBegin) \<and>
               (c = CHR ''/'' \<or> \<not> embedded)
            then bind_res (m_add_comment commentBegin cur commentAfterOnSameLine (st1\<lparr>m_has_comment := True\<rparr>))
                   (\<lambda>st2. Inr (True, st2))
            else bind_res (m_add_comment commentBegin cur commentBefore st1) (\<lambda>st2. Inr (True, st2)))
         else Inr (True, st1))"

definition m_read_token :: "features \<Rightarrow> bool \<Rightarrow> mstate \<Rightarrow> (bool \<times> token \<times> mstate) res" where
  "m_read_token f cc st =
     (let start = skip_spaces (m_current st); (c, cur1) = get_next_char start
      in if c = CHR ''/'' then
           bind_res (m_read_comment cc start (st\<lparr>m_current := cur1\<rparr>)) (\<lambda>(ok, st').
             Inr (ok, \<lparr>tok_type = (if ok then tokenComment else tokenError), tok_start = start,
                       tok_end = m_current st'\<rparr>, st'))
         else
           (case token_switch f c cur1 of (ty, ok, cur2) \<Rightarrow>
              Inr (ok, \<lparr>tok_type = (if ok then ty else tokenError), tok_start = start, tok_end = cur2\<rparr>,
                   st\<lparr>m_current := cur2\<rparr>)))"

text \<open>Comments are recognised as without collecting them, so the reader moves as there.\<close>

lemma m_read_comment_current:
  "m_read_comment cc b st = Inr (ok, st') \<Longrightarrow> read_comment (m_current st) = (ok, m_current st')"
  by (auto simp: m_read_comment_def read_comment_def m_add_comment_def m_set_def Let_def bind_res_Inr_iff
      split: prod.splits if_splits option.splits)

lemma m_read_token_same:
  assumes "m_read_token f cc st = Inr (ok, tok, st')"
  shows "read_token f (m_current st) = (ok, tok, m_current st')"
proof -
  obtain c r where g: "get_next_char (skip_spaces (m_current st)) = (c, r)"
    by (cases "get_next_char (skip_spaces (m_current st))")
  show ?thesis
  proof (cases "c = CHR ''/''")
    case True
    then have "m_read_comment cc (skip_spaces (m_current st)) (st\<lparr>m_current := r\<rparr>) = Inr (ok, st')"
      and t: "tok = \<lparr>tok_type = (if ok then tokenComment else tokenError), tok_start = skip_spaces (m_current st),
        tok_end = m_current st'\<rparr>"
      using assms g by (auto simp: m_read_token_def bind_res_Inr_iff Let_def)
    then have "read_comment r = (ok, m_current st')" by (auto dest: m_read_comment_current)
    then have "token_switch f c r = (tokenComment, ok, m_current st')"
      using True by (simp add: token_switch_def)
    then show ?thesis using g t by (simp add: read_token_def Let_def)
  next
    case False
    then show ?thesis
      using assms g by (auto simp: m_read_token_def read_token_def Let_def split: prod.splits)
  qed
qed

lemma m_read_token_less:
  "m_read_token f cc st = Inr (ok, tok, st') \<Longrightarrow> tok_type tok \<noteq> tokenEndOfStream \<Longrightarrow>
   length (m_current st') < length (m_current st)"
  using read_token_progress [OF m_read_token_same] by blast

function m_skip_comment_tokens :: "features \<Rightarrow> bool \<Rightarrow> mstate \<Rightarrow> (token \<times> mstate) res" where
  "m_skip_comment_tokens f cc st =
     (case m_read_token f cc st of
        Inl e \<Rightarrow> Inl e
      | Inr (_, tok, st') \<Rightarrow>
          if allowComments f \<and> tok_type tok = tokenComment then m_skip_comment_tokens f cc st'
          else Inr (tok, st'))"
  by pat_completeness auto
termination
  by (relation "measure (\<lambda>(_, _, st). length (m_current st))") (auto dest!: m_read_token_less)

declare m_skip_comment_tokens.simps [simp del]

function m_skip_comments :: "features \<Rightarrow> bool \<Rightarrow> bool \<Rightarrow> token \<Rightarrow> mstate \<Rightarrow> (bool \<times> token \<times> mstate) res" where
  \<comment> \<open>\<^verbatim>\<open>while (token.type_ == tokenComment && ok) ok = readToken(token);\<close>\<close>
  "m_skip_comments f cc ok tok st =
     (if tok_type tok = tokenComment \<and> ok
      then (case m_read_token f cc st of
              Inl e \<Rightarrow> Inl e
            | Inr (ok', tok', st') \<Rightarrow> m_skip_comments f cc ok' tok' st')
      else Inr (ok, tok, st))"
  by pat_completeness auto
termination
proof (relation "measure (\<lambda>(_, _, _, tok, st). comment_measure tok (m_current st))", goal_cases)
  case (2 f cc ok tok st r ok' p tok' st')
  then show ?case
    using comment_measure_less [of ok' tok' "m_current st'" f "m_current st" tok]
      m_read_token_same [of f cc st ok' tok' st'] by auto
qed simp

declare m_skip_comments.simps [simp del]

section \<open>Errors\<close>

function m_recover_from_error :: "features \<Rightarrow> bool \<Rightarrow> token_type \<Rightarrow> mstate \<Rightarrow> mstate res" where
  \<comment> \<open>always returns false; \<^verbatim>\<open>errors_\<close> stays as it was, no token adds an error\<close>
  "m_recover_from_error f cc skipUntil st =
     (case m_read_token f cc st of
        Inl e \<Rightarrow> Inl e
      | Inr (_, skip, st') \<Rightarrow>
          if tok_type skip = skipUntil \<or> tok_type skip = tokenEndOfStream then Inr st'
          else m_recover_from_error f cc skipUntil st')"
  by pat_completeness auto
termination
  by (relation "measure (\<lambda>(_, _, _, st). length (m_current st))") (auto dest!: m_read_token_less)

declare m_recover_from_error.simps [simp del]

definition m_add_error_and_recover ::
    "features \<Rightarrow> bool \<Rightarrow> string \<Rightarrow> token \<Rightarrow> token_type \<Rightarrow> mstate \<Rightarrow> mstate res" where
  "m_add_error_and_recover f cc message tok skipUntil st =
     m_recover_from_error f cc skipUntil (m_error (error_info message tok) st)"

section \<open>Values\<close>

definition m_comment_before :: "bool \<Rightarrow> path \<Rightarrow> mstate \<Rightarrow> mstate res" where
  \<comment> \<open>\<^verbatim>\<open>readValue\<close> gives the comments collected so far to the value\<close>
  "m_comment_before cc p st =
     (if cc \<and> m_before st \<noteq> []
      then bind_res (set_comment (m_value p st) (m_before st) commentBefore) (\<lambda>v.
             Inr ((m_set p v st)\<lparr>m_before := []\<rparr>))
      else Inr st)"

definition m_value_read :: "bool \<Rightarrow> path \<Rightarrow> mstate \<Rightarrow> mstate" where
  \<comment> \<open>the end of \<^verbatim>\<open>readValue\<close>\<close>
  "m_value_read cc p st =
     (if cc then st\<lparr>m_last_end := Some (m_current st), m_has_comment := False, m_last := Some p\<rparr> else st)"

definition default_case :: "features \<Rightarrow> token_type \<Rightarrow> bool" where
  \<comment> \<open>the switch of \<^verbatim>\<open>readValue\<close> falls into its default case, which returns at once\<close>
  "default_case f ty \<longleftrightarrow> ty \<noteq> tokenNumber \<and> ty \<noteq> tokenString \<and> leaf_value ty = None \<and>
     \<not> ((ty = tokenArraySeparator \<or> ty = tokenObjectEnd \<or> ty = tokenArrayEnd) \<and>
        allowDroppedNullPlaceholders f)"

definition m_read_leaf ::
    "features \<Rightarrow> bool \<Rightarrow> loc \<Rightarrow> token \<Rightarrow> path \<Rightarrow> mstate \<Rightarrow> (bool \<times> mstate) res" where
  "m_read_leaf f cc b tok p st =
     bind_res (read_leaf f b tok (m_value p st) \<lparr>r_current = m_current st, r_errors = m_errors st\<rparr>)
       (\<lambda>(ok, v, r).
          let st' = (m_set p v st)\<lparr>m_current := r_current r, m_errors := r_errors r\<rparr>
          in Inr (ok, if default_case f (tok_type tok) then st' else m_value_read cc p st'))"

section \<open>Objects and arrays\<close>

datatype m_key_step = MKeyEnd bool mstate | MKeyMember string mstate

definition m_failed :: "mstate res \<Rightarrow> m_key_step res" where
  \<comment> \<open>\<^verbatim>\<open>return recoverFromError(...)\<close>\<close>
  "m_failed r = bind_res r (\<lambda>st. Inr (MKeyEnd False st))"

definition m_read_colon :: "features \<Rightarrow> bool \<Rightarrow> path \<Rightarrow> token \<Rightarrow> string \<Rightarrow> mstate \<Rightarrow> m_key_step res" where
  "m_read_colon f cc p tokenName name st =
     (if 2 ^ 30 \<le> length name then Inl (RuntimeError ''keylength >= 2^30'')
      else
        bind_res (if rejectDupKeys f then is_member (m_value p st) name else Inr False) (\<lambda>dup.
          if dup
          then m_failed (m_add_error_and_recover f cc (''Duplicate key: '' @ [SQ] @ name @ [SQ])
                 tokenName tokenObjectEnd st)
          else
            bind_res (m_read_token f cc st) (\<lambda>(ok, colon, st').
              if \<not> ok \<or> tok_type colon \<noteq> tokenMemberSeparator
              then m_failed (m_add_error_and_recover f cc
                     (''Missing '' @ [SQ] @ '':'' @ [SQ] @ '' after object member name'') colon tokenObjectEnd st')
              else Inr (MKeyMember name st'))))"

definition m_missing_brace :: "features \<Rightarrow> bool \<Rightarrow> token \<Rightarrow> mstate \<Rightarrow> m_key_step res" where
  "m_missing_brace f cc tok st =
     m_failed (m_add_error_and_recover f cc
       (''Missing '' @ [SQ] @ ''}'' @ [SQ] @ '' or object member name'') tok tokenObjectEnd st)"

definition m_object_key :: "features \<Rightarrow> bool \<Rightarrow> path \<Rightarrow> string \<Rightarrow> mstate \<Rightarrow> m_key_step res" where
  "m_object_key f cc p name st =
     bind_res (m_read_token f cc st) (\<lambda>(ok0, tok0, st0).
       if \<not> ok0 then m_missing_brace f cc tok0 st0
       else bind_res (m_skip_comments f cc True tok0 st0) (\<lambda>(initialTokenOk, tokenName, st1).
         if \<not> initialTokenOk then m_missing_brace f cc tokenName st1
         else if tok_type tokenName = tokenObjectEnd \<and> (name = [] \<or> allowTrailingCommas f)
         then Inr (MKeyEnd True st1)
         else bind_res (member_name f tokenName) (\<lambda>r.
           case r of
             None \<Rightarrow> m_missing_brace f cc tokenName st1
           | Some (Inl e) \<Rightarrow> m_failed (m_recover_from_error f cc tokenObjectEnd (m_error e st1))
           | Some (Inr name') \<Rightarrow> m_read_colon f cc p tokenName name' st1)))"

definition m_after_member :: "features \<Rightarrow> bool \<Rightarrow> mstate \<Rightarrow> (bool option \<times> mstate) res" where
  \<comment> \<open>None goes on with the loop, Some is the result\<close>
  "m_after_member f cc st =
     bind_res (m_read_token f cc st) (\<lambda>(ok, comma, st1).
       if \<not> ok \<or> (tok_type comma \<noteq> tokenObjectEnd \<and> tok_type comma \<noteq> tokenArraySeparator \<and>
                   tok_type comma \<noteq> tokenComment)
       then bind_res (m_add_error_and_recover f cc
              (''Missing '' @ [SQ] @ '','' @ [SQ] @ '' or '' @ [SQ] @ ''}'' @ [SQ] @
               '' in object declaration'') comma tokenObjectEnd st1) (\<lambda>st2. Inr (Some False, st2))
       else bind_res (m_skip_comments f cc True comma st1) (\<lambda>(_, comma', st2).
              Inr (if tok_type comma' = tokenObjectEnd then Some True else None, st2)))"

definition m_after_element :: "features \<Rightarrow> bool \<Rightarrow> mstate \<Rightarrow> (bool option \<times> mstate) res" where
  "m_after_element f cc st =
     bind_res (m_read_token f cc st) (\<lambda>(ok0, tok0, st0).
       bind_res (m_skip_comments f cc ok0 tok0 st0) (\<lambda>(ok, tok, st1).
         if \<not> ok \<or> (tok_type tok \<noteq> tokenArraySeparator \<and> tok_type tok \<noteq> tokenArrayEnd)
         then bind_res (m_add_error_and_recover f cc
                (''Missing '' @ [SQ] @ '','' @ [SQ] @ '' or '' @ [SQ] @ '']'' @ [SQ] @
                 '' in array declaration'') tok tokenArrayEnd st1) (\<lambda>st2. Inr (Some False, st2))
         else Inr (if tok_type tok = tokenArrayEnd then Some True else None, st1)))"

definition m_container :: "loc \<Rightarrow> token \<Rightarrow> value_type \<Rightarrow> path \<Rightarrow> mstate \<Rightarrow> mstate" where
  \<comment> \<open>the first lines of \<^verbatim>\<open>readObject\<close> and \<^verbatim>\<open>readArray\<close>\<close>
  "m_container b tok ty p st = m_set p (init_container b tok ty (m_value p st)) st"

definition m_container_end :: "loc \<Rightarrow> bool \<Rightarrow> path \<Rightarrow> bool \<times> mstate \<Rightarrow> (bool \<times> mstate) res" where
  \<comment> \<open>\<^verbatim>\<open>readValue\<close> behind \<^verbatim>\<open>readObject\<close> and \<^verbatim>\<open>readArray\<close>\<close>
  "m_container_end b cc p r =
     (case r of (ok, st) \<Rightarrow>
        Inr (ok, m_value_read cc p
               (m_set p (set_offset_limit (offset b (m_current st)) (m_value p st)) st)))"

definition m_recover :: "features \<Rightarrow> bool \<Rightarrow> token_type \<Rightarrow> mstate \<Rightarrow> (bool \<times> mstate) res" where
  \<comment> \<open>\<^verbatim>\<open>return recoverFromError(skipUntilToken)\<close>\<close>
  "m_recover f cc skipUntil st =
     bind_res (m_recover_from_error f cc skipUntil st) (\<lambda>st'. Inr (False, st'))"

text \<open>The first list holds the stack \<^verbatim>\<open>nodes_\<close>, its top first.\<close>

function (sequential) m_read_value ::
      "features \<Rightarrow> bool \<Rightarrow> loc \<Rightarrow> nat \<Rightarrow> path list \<Rightarrow> mstate \<Rightarrow> (bool \<times> mstate) res"
  and m_object_loop ::
      "features \<Rightarrow> bool \<Rightarrow> loc \<Rightarrow> nat \<Rightarrow> path list \<Rightarrow> string \<Rightarrow> mstate \<Rightarrow> (bool \<times> mstate) res"
  and m_array_loop ::
      "features \<Rightarrow> bool \<Rightarrow> loc \<Rightarrow> nat \<Rightarrow> path list \<Rightarrow> int32 \<Rightarrow> mstate \<Rightarrow> (bool \<times> mstate) res"
where
  "m_read_value f cc b 0 nodes st = Inl OutOfFuel"
| "m_read_value f cc b (Suc n) nodes st =
     (if stackLimit f < length nodes then Inl (RuntimeError ''Exceeded stackLimit in readValue().'')
      else
        bind_res (m_skip_comment_tokens f cc st) (\<lambda>(tok, st0).
        bind_res (m_comment_before cc (hd nodes) st0) (\<lambda>st1.
          if tok_type tok = tokenObjectBegin then
            bind_res (m_object_loop f cc b n nodes [] (m_container b tok objectValue (hd nodes) st1))
              (m_container_end b cc (hd nodes))
          else if tok_type tok = tokenArrayBegin then
            bind_res (m_array_loop f cc b n nodes 0 (m_container b tok arrayValue (hd nodes) st1))
              (m_container_end b cc (hd nodes))
          else m_read_leaf f cc b tok (hd nodes) st1)))"
| "m_object_loop f cc b 0 nodes name st = Inl OutOfFuel"
| "m_object_loop f cc b (Suc n) nodes name st =
     bind_res (m_object_key f cc (hd nodes) name st) (\<lambda>k.
       case k of
         MKeyEnd ok st1 \<Rightarrow> Inr (ok, st1)
       | MKeyMember name' st1 \<Rightarrow>
           bind_res (resolve_reference (m_value (hd nodes) st1) name') (\<lambda>v1.
           bind_res (m_read_value f cc b n ((hd nodes @ [KName (czstring name')]) # nodes)
                       (m_set (hd nodes) v1 st1)) (\<lambda>(ok, st2).
             if \<not> ok then m_recover f cc tokenObjectEnd st2
             else bind_res (m_after_member f cc st2) (\<lambda>r.
                    case r of (Some ok', st3) \<Rightarrow> Inr (ok', st3)
                    | (None, st3) \<Rightarrow> m_object_loop f cc b n nodes name' st3))))"
| "m_array_loop f cc b 0 nodes index st = Inl OutOfFuel"
| "m_array_loop f cc b (Suc n) nodes index st =
     (let st0 = st\<lparr>m_current := skip_spaces (m_current st)\<rparr>
      in if array_ends f index (m_current st0)
         then bind_res (m_read_token f cc st0) (\<lambda>(_, _, st1). Inr (True, st1))
         else
           bind_res (index_ref_int (m_value (hd nodes) st0) index) (\<lambda>v1.
           bind_res (m_read_value f cc b n ((hd nodes @ [KIndex index]) # nodes) (m_set (hd nodes) v1 st0))
             (\<lambda>(ok, st2).
             if \<not> ok then m_recover f cc tokenArrayEnd st2
             else bind_res (m_after_element f cc st2) (\<lambda>r.
                    case r of (Some ok', st3) \<Rightarrow> Inr (ok', st3)
                    | (None, st3) \<Rightarrow> m_array_loop f cc b n nodes (index + 1) st3))))"
  by pat_completeness auto
termination
  by (relation "measure (case_sum (\<lambda>(_, _, _, n, _). n)
        (case_sum (\<lambda>(_, _, _, n, _). n) (\<lambda>(_, _, _, n, _). n)))") simp_all

declare m_read_value.simps [simp del] m_object_loop.simps [simp del] m_array_loop.simps [simp del]

section \<open>Documents\<close>

definition m_parse :: "features \<Rightarrow> bool \<Rightarrow> string \<Rightarrow> json \<Rightarrow> (bool \<times> json \<times> err_info list) res" where
  \<comment> \<open>the result, \<^verbatim>\<open>root\<close> and \<^verbatim>\<open>errors_\<close> after \<^verbatim>\<open>parse(beginDoc, endDoc, root, collectComments)\<close>\<close>
  "m_parse f collectComments doc rt =
     (let cc = (collectComments \<and> allowComments f); b = skip_bom (skipBom f) doc
      in bind_res (m_read_value f cc b (parse_fuel b) [[]]
                     \<lparr>m_root = rt, m_current = b, m_errors = [], m_last_end = None, m_last = None,
                      m_has_comment = False, m_before = []\<rparr>) (\<lambda>(successful, st).
         bind_res (m_skip_comment_tokens f cc st) (\<lambda>(tok, st1).
           if failIfExtra f \<and> tok_type tok \<noteq> tokenEndOfStream
           then Inr (False, m_root st1, m_errors st1 @
                       [error_info ''Extra non-whitespace after JSON value.'' tok])
           else
             bind_res (if cc \<and> m_before st1 \<noteq> [] then set_comment (m_root st1) (m_before st1) commentAfter
                       else Inr (m_root st1)) (\<lambda>v.
               if strictRoot f \<and> \<not> is_array v \<and> \<not> is_object v
               then Inr (False, v, m_errors st1 @
                           [error_info ''A valid JSON document must be either an array or an object value.''
                              \<lparr>tok_type = tokenError, tok_start = doc, tok_end = []\<rparr>])
               else Inr (successful, v, m_errors st1)))))"

definition m_char_reader_parse :: "features \<Rightarrow> bool \<Rightarrow> string \<Rightarrow> json \<Rightarrow> (bool \<times> json \<times> string) res" where
  \<comment> \<open>\<^verbatim>\<open>OurCharReader::parse\<close> with a string for the errors\<close>
  "m_char_reader_parse f collectComments doc rt =
     bind_res (m_parse f collectComments doc rt) (\<lambda>(ok, v, errors).
       Inr (ok, v, formatted_error_messages (skip_bom (skipBom f) doc) errors))"

end
