(* ===== verification/Json_Reader_Facts.thy ===== *)
theory Json_Reader_Facts
  imports Json_Reader Json_Wf
begin

text \<open>
  What every run of the reader satisfies: \<^verbatim>\<open>current_\<close> only moves forward, a successful call
  adds no error and a failing one at least one, well-formedness is kept, the fuel of
  \<^verbatim>\<open>parse\<close> suffices, and on documents below one gigabyte the only exception is the stack limit.
\<close>

section \<open>Helpers of the reader\<close>

lemma skip_comment_tokens_all:
  "skip_comment_tokens f cur = (tok, cur') \<Longrightarrow>
     suffix cur' cur \<and> tok_end tok = cur' \<and> suffix (tok_start tok) cur \<and>
     (tok_type tok \<noteq> tokenEndOfStream \<longrightarrow> length cur' < length cur)"
proof (induction f cur rule: skip_comment_tokens.induct)
  case (1 f cur)
  obtain ok t c where r: "read_token f cur = (ok, t, c)" by (cases "read_token f cur") auto
  note e = read_token_ends [OF r] and p = read_token_progress [OF r]
  show ?case
  proof (cases "allowComments f \<and> tok_type t = tokenComment")
    case True
    then have "skip_comment_tokens f c = (tok, cur')"
      using "1.prems" by (simp add: skip_comment_tokens.simps [of f cur] r)
    from "1.IH" [OF r [symmetric] refl True this] show ?thesis
      using e(4) suffix_length_le [OF e(4)] by (auto intro: suffix_order.trans)
  next
    case False
    then have "tok = t" "cur' = c"
      using "1.prems" by (auto simp: skip_comment_tokens.simps [of f cur] r)
    then show ?thesis using e p skip_spaces_suffix by simp
  qed
qed

lemmas skip_comment_tokens_facts =
  skip_comment_tokens_all [THEN conjunct1]
  skip_comment_tokens_all [THEN conjunct2, THEN conjunct1]
  skip_comment_tokens_all [THEN conjunct2, THEN conjunct2, THEN conjunct1]
  skip_comment_tokens_all [THEN conjunct2, THEN conjunct2, THEN conjunct2, rule_format]

lemma skip_comments_suffix: "suffix (snd (snd (skip_comments f ok tok cur))) cur"
proof (induction f ok tok cur rule: skip_comments.induct)
  case (1 f ok tok cur)
  obtain ok' t c where r: "read_token f cur = (ok', t, c)" by (cases "read_token f cur") auto
  show ?case
    using 1 [OF _ r [symmetric] refl] read_token_ends(4) [OF r]
    by (auto simp: skip_comments.simps [of f ok tok cur] r intro: suffix_order.trans)
qed

lemma recover_from_error_suffix: "suffix (recover_from_error f t cur) cur"
proof (induction f t cur rule: recover_from_error.induct)
  case (1 f t cur)
  obtain ok' tok c where r: "read_token f cur = (ok', tok, c)" by (cases "read_token f cur") auto
  show ?case
    using 1 [OF r [symmetric] refl] read_token_ends(4) [OF r]
    by (auto simp: recover_from_error.simps [of f t cur] r intro: suffix_order.trans)
qed

section \<open>Runs\<close>

text \<open>A call from state \<open>st\<close> to \<open>st'\<close> with result \<open>ok\<close>.\<close>

definition ran :: "bool \<Rightarrow> rstate \<Rightarrow> rstate \<Rightarrow> bool" where
  "ran ok st st' \<longleftrightarrow> suffix (r_current st') (r_current st) \<and>
     (if ok then r_errors st' = r_errors st
      else \<exists>e es. r_errors st' = r_errors st @ e # es)"

lemma ran_trans: "ran True st st1 \<Longrightarrow> ran ok st1 st2 \<Longrightarrow> ran ok st st2"
  by (auto simp: ran_def intro: suffix_order.trans split: if_splits)

lemma ran_current: "suffix c (r_current st) \<Longrightarrow> ran True st (st\<lparr>r_current := c\<rparr>)"
  by (simp add: ran_def)

lemma ran_recover: "ran ok st st' \<Longrightarrow> ran ok st (recover f t st')"
  using recover_from_error_suffix [of f t "r_current st'"]
  by (auto simp: ran_def recover_def intro: suffix_order.trans split: if_splits)

lemma ran_push: "ran True st st' \<Longrightarrow> ran False st (push_error e st')"
  by (simp add: ran_def push_error_def)

lemma ran_add_error:
  "ran True st st' \<Longrightarrow> ran False st (add_error_and_recover f msg tok t st')"
  by (simp add: add_error_and_recover_def ran_recover ran_push)

lemma ran_missing_brace: "ran True st st' \<Longrightarrow> ran False st (missing_brace f tok st')"
  by (simp add: missing_brace_def ran_add_error)

lemmas ran_intros = ran_current ran_recover ran_push ran_add_error ran_missing_brace

lemma ran_length: "ran ok st st' \<Longrightarrow> length (r_current st') \<le> length (r_current st)"
  by (auto simp: ran_def dest: suffix_length_le)

definition key_ran :: "rstate \<Rightarrow> key_step \<Rightarrow> bool" where
  "key_ran st k = (case k of KeyEnd ok st' \<Rightarrow> ran ok st st' | KeyMember _ st' \<Rightarrow> ran True st st')"

lemma key_ran_simps [simp]:
  "key_ran st (KeyEnd ok st') = ran ok st st'" "key_ran st (KeyMember name st') = ran True st st'"
  by (simp_all add: key_ran_def)

lemma read_colon_ran:
  assumes "read_colon f v tok name st = Inr k" "ran True st0 st"
  shows "key_ran st0 k"
proof -
  obtain ok0 colon c where r: "read_token f (r_current st) = (ok0, colon, c)"
    by (cases "read_token f (r_current st)") auto
  have s: "ran True st0 (st\<lparr>r_current := c\<rparr>)"
    using read_token_ends(4) [OF r] assms(2) ran_current ran_trans by blast
  show ?thesis
    using assms s
    by (auto simp: read_colon_def r bind_res_Inr_iff Let_def ran_add_error split: if_splits)
qed

lemma object_key_ran:
  assumes "object_key f v name st = Inr k"
  shows "key_ran st k"
proof -
  obtain ok0 t0 c0 where r: "read_token f (r_current st) = (ok0, t0, c0)"
    by (cases "read_token f (r_current st)") auto
  obtain ok1 t c where s: "skip_comments f True t0 c0 = (ok1, t, c)"
    by (cases "skip_comments f True t0 c0") auto
  have c0: "suffix c0 (r_current st)" using read_token_ends(4) [OF r] .
  then have c: "suffix c (r_current st)"
    using skip_comments_suffix [of f True t0 c0] s suffix_order.trans by auto
  note rc = ran_current [OF c0] ran_current [OF c]
  have key: "key_ran st k" if "bind_res (member_name f t) (\<lambda>r.
                  case r of
                    None \<Rightarrow> Inr (KeyEnd False (missing_brace f t (st\<lparr>r_current := c\<rparr>)))
                  | Some (Inl e) \<Rightarrow>
                      Inr (KeyEnd False (recover f tokenObjectEnd (push_error e (st\<lparr>r_current := c\<rparr>))))
                  | Some (Inr name') \<Rightarrow> read_colon f v t name' (st\<lparr>r_current := c\<rparr>)) = Inr k"
  proof -
    obtain d where d: "(case d of
                    None \<Rightarrow> Inr (KeyEnd False (missing_brace f t (st\<lparr>r_current := c\<rparr>)))
                  | Some (Inl e) \<Rightarrow>
                      Inr (KeyEnd False (recover f tokenObjectEnd (push_error e (st\<lparr>r_current := c\<rparr>))))
                  | Some (Inr name') \<Rightarrow> read_colon f v t name' (st\<lparr>r_current := c\<rparr>)) = Inr k"
      using \<open>bind_res _ _ = _\<close> by (auto simp: bind_res_Inr_iff)
    consider "d = None" | e where "d = Some (Inl e)" | nm where "d = Some (Inr nm)"
      by (metis option.exhaust sum.exhaust)
    then show ?thesis
    proof cases
      case 3
      then show ?thesis using d read_colon_ran rc(2) by simp
    qed (use d rc in \<open>auto simp: ran_missing_brace ran_recover ran_push\<close>)
  qed
  show ?thesis
    using assms rc key
    by (simp only: object_key_def r s prod.case Let_def split: if_splits)
      (auto simp: ran_missing_brace)
qed

lemma after_member_ran:
  assumes "after_member f st = (r, st')"
  shows "r = Some ok \<Longrightarrow> ran ok st st'"
    "r = None \<Longrightarrow> ran True st st' \<and> length (r_current st') < length (r_current st)"
proof -
  obtain ok0 t0 c0 where t: "read_token f (r_current st) = (ok0, t0, c0)"
    by (cases "read_token f (r_current st)") auto
  obtain ok1 t1 c where s: "skip_comments f True t0 c0 = (ok1, t1, c)"
    by (cases "skip_comments f True t0 c0") auto
  have c0: "suffix c0 (r_current st)" using read_token_ends(4) [OF t] .
  have c1: "suffix c c0" using skip_comments_suffix [of f True t0 c0] s by simp
  then have c: "suffix c (r_current st)" using c0 suffix_order.trans by blast
  show "r = Some ok \<Longrightarrow> ran ok st st'"
    using assms c0 c by (auto simp: after_member_def t s split: if_splits intro!: ran_intros)
  show "r = None \<Longrightarrow> ran True st st' \<and> length (r_current st') < length (r_current st)"
    using assms c read_token_progress [OF t] suffix_length_le [OF c1]
    by (auto simp: after_member_def t s split: if_splits intro!: ran_intros)
qed

lemma after_element_ran:
  assumes "after_element f st = (r, st')"
  shows "r = Some ok \<Longrightarrow> ran ok st st'"
    "r = None \<Longrightarrow> ran True st st' \<and> length (r_current st') < length (r_current st)"
proof -
  obtain ok0 t0 c0 where t: "read_token f (r_current st) = (ok0, t0, c0)"
    by (cases "read_token f (r_current st)") auto
  obtain ok1 t1 c where s: "skip_comments f ok0 t0 c0 = (ok1, t1, c)"
    by (cases "skip_comments f ok0 t0 c0") auto
  have c0: "suffix c0 (r_current st)" using read_token_ends(4) [OF t] .
  have c1: "suffix c c0" using skip_comments_suffix [of f ok0 t0 c0] s by simp
  then have c: "suffix c (r_current st)" using c0 suffix_order.trans by blast
  show "r = Some ok \<Longrightarrow> ran ok st st'"
    using assms c by (auto simp: after_element_def t s Let_def split: if_splits intro!: ran_intros)
  have eos: "t1 = t0" if "tok_type t0 = tokenEndOfStream"
    using s that by (subst (asm) skip_comments.simps) simp
  show "r = None \<Longrightarrow> ran True st st' \<and> length (r_current st') < length (r_current st)"
    using assms c read_token_progress [OF t] suffix_length_le [OF c1] eos
    by (cases "tok_type t0 = tokenEndOfStream")
      (auto simp: after_element_def t s Let_def split: if_splits intro!: ran_intros)
qed

lemma read_leaf_ran:
  assumes "read_leaf f b tok cur st = Inr (ok, v, st')" "suffix (tok_start tok) c0"
    "ran True st0 st" "r_current st0 = c0"
  shows "ran ok st0 st'"
  using assms
  by (auto simp: read_leaf_def Let_def decode_into_def decode_string_def drop_null_def value_error_def
      bind_res_Inr_iff ran_push split: if_splits sum.splits option.splits)
    (auto simp: ran_def split: if_splits)

section \<open>Well-formedness\<close>

lemma wf_swap_payload [simp]: "wf_json v \<Longrightarrow> wf_json (fst (swap_payload cur v))"
  by (simp add: swap_payload_def)

lemma wf_put_value [simp]: "wf_json v \<Longrightarrow> wf_json (put_value b tok v cur)"
  by (simp add: put_value_def)

lemma wf_init_container [simp]: "wf_json (init_container b tok ty cur)"
  by (simp add: init_container_def)

lemma decode_double_leaf: "decode_double tok = Inr v \<Longrightarrow> \<exists>d. v = JReal meta0 d"
  by (auto simp: decode_double_def Let_def add_error_def mk_real_def split: if_splits prod.splits)

lemma decode_number_leaf:
  "decode_number tok = Inr v \<Longrightarrow> (\<exists>i. v = JInt meta0 i) \<or> (\<exists>u. v = JUInt meta0 u) \<or> (\<exists>d. v = JReal meta0 d)"
  by (auto simp: decode_number_def Let_def mk_int64_def mk_uint64_def
      dest!: decode_double_leaf split: option.splits if_splits)

lemma wf_decode_number: "decode_number tok = Inr v \<Longrightarrow> wf_json v"
  by (auto dest!: decode_number_leaf)

lemma wf_mk_string: "mk_string s = Inr v \<Longrightarrow> wf_json v"
  by (auto simp: mk_string_def bind_res_Inr_iff)

lemma wf_leaf_value: "leaf_value ty = Some v \<Longrightarrow> wf_json v"
  by (auto simp: leaf_value_def mk_bool_def mk_real_def split: token_type.splits)

lemma wf_decode_into:
  "decode_into b tok (decode_number tok) cur st = (ok, v, st') \<Longrightarrow> wf_json cur \<Longrightarrow> wf_json v"
  by (auto simp: decode_into_def wf_decode_number split: sum.splits)

lemma wf_decode_string:
  "decode_string b tok cur st = Inr (ok, v, st') \<Longrightarrow> wf_json cur \<Longrightarrow> wf_json v"
  by (auto simp: decode_string_def bind_res_Inr_iff wf_mk_string split: sum.splits)

lemma wf_read_leaf:
  "read_leaf f b tok cur st = Inr (ok, v, st') \<Longrightarrow> wf_json cur \<Longrightarrow> wf_json v"
  by (auto simp: read_leaf_def Let_def drop_null_def value_error_def wf_leaf_value
      simp del: mk_type.simps split: if_splits option.splits
      intro: wf_decode_into wf_decode_string)

section \<open>Every run moves forward and keeps the value well formed\<close>

definition run_ok :: "json \<Rightarrow> rstate \<Rightarrow> bool \<times> json \<times> rstate \<Rightarrow> bool" where
  "run_ok cur st r = (case r of (ok, v, st') \<Rightarrow> ran ok st st' \<and> (wf_json cur \<longrightarrow> wf_json v))"

lemma run_ok_offset:
  "ran True st st1 \<Longrightarrow> run_ok v0 st1 (ok, v, st2) \<Longrightarrow> wf_json v0 \<Longrightarrow>
   run_ok cur st (ok, set_offset_limit n v, st2)"
  by (auto simp: run_ok_def intro: ran_trans)

theorem reader_run_ok:
  "read_value f b n nodes cur st = Inr r \<Longrightarrow> run_ok cur st r"
  "read_object f b n nodes v name st = Inr r \<Longrightarrow> run_ok v st r"
  "read_array f b n nodes v index st = Inr r \<Longrightarrow> run_ok v st r"
proof (induction f b n nodes cur st and f b n nodes v name st and f b n nodes v index st
    arbitrary: r and r and r rule: read_value_read_object_read_array.induct)
  case (2 f b n nodes cur st)
  obtain tok c where t: "skip_comment_tokens f (r_current st) = (tok, c)"
    by (cases "skip_comment_tokens f (r_current st)") auto
  have st1: "ran True st (st\<lparr>r_current := c\<rparr>)"
    using skip_comment_tokens_facts(1) [OF t] by (rule ran_current)
  show ?case
  proof (cases "tok_type tok = tokenObjectBegin \<or> tok_type tok = tokenArrayBegin")
    case True
    then show ?thesis
      using "2.prems" "2.IH" [OF _ t [symmetric]] st1
      by (fastforce simp: read_value.simps t Let_def bind_res_Inr_iff split: if_splits
          intro: run_ok_offset)
  next
    case False
    then have "read_leaf f b tok cur (st\<lparr>r_current := c\<rparr>) = Inr r"
      using "2.prems" by (auto simp: read_value.simps t Let_def split: if_splits)
    then show ?thesis
      using read_leaf_ran [OF _ skip_comment_tokens_facts(3) [OF t] st1 refl] wf_read_leaf
      by (cases r) (auto simp: run_ok_def)
  qed
next
  case (4 f b n nodes v name st)
  obtain k where k: "object_key f v name st = Inr k"
    using "4.prems" by (auto simp: read_object.simps bind_res_Inr_iff)
  note kr = object_key_ran [OF k]
  show ?case
  proof (cases k)
    case (KeyEnd ok st1)
    then show ?thesis
      using "4.prems" k kr by (auto simp: read_object.simps run_ok_def)
  next
    case (KeyMember name' st1)
    then obtain v1 ok c st2
      where v1: "resolve_reference v name' = Inr v1"
        and rv: "read_value f b n (Suc nodes) (member_get v1 name') st1 = Inr (ok, c, st2)"
        and rest: "(if \<not> ok then Inr (False, member_put v1 name' c, recover f tokenObjectEnd st2)
                else (case after_member f st2 of
                        (Some r, st3) \<Rightarrow> Inr (r, member_put v1 name' c, st3)
                      | (None, st3) \<Rightarrow> read_object f b n nodes (member_put v1 name' c) name' st3)) = Inr r"
      using "4.prems" k by (auto simp: read_object.simps bind_res_Inr_iff Let_def)
    have IH: "run_ok (member_get v1 name') st1 (ok, c, st2)"
      using "4.IH"(1) [OF k KeyMember v1 rv] .
    have r2: "ran ok st st2"
      using IH kr KeyMember by (auto simp: run_ok_def intro: ran_trans)
    have w: "wf_json (member_put v1 name' c)" if "wf_json v"
      using IH that wf_resolve_reference [OF v1] by (simp add: run_ok_def)
    show ?thesis
    proof (cases ok)
      case False
      then show ?thesis using rest r2 w by (auto simp: run_ok_def ran_recover)
    next
      case True
      obtain q st3 where am: "after_member f st2 = (q, st3)" by (cases "after_member f st2") auto
      show ?thesis
      proof (cases q)
        case None
        then have "run_ok (member_put v1 name' c) st3 r"
          using "4.IH"(2) k KeyMember v1 rv rest am True by auto
        then show ?thesis
          using after_member_ran(2) [OF am None] r2 True w
          by (cases r) (auto simp: run_ok_def intro: ran_trans)
      next
        case (Some ok')
        then show ?thesis
          using after_member_ran(1) [OF am Some] rest r2 True w am
          by (auto simp: run_ok_def intro: ran_trans)
      qed
    qed
  qed
next
  case (6 f b n nodes v index st)
  let ?c0 = "skip_spaces (r_current st)"
  have c0: "ran True st (st\<lparr>r_current := ?c0\<rparr>)"
    using skip_spaces_suffix by (rule ran_current)
  show ?case
  proof (cases "array_ends f index ?c0")
    case True
    obtain ok t c where t: "read_token f ?c0 = (ok, t, c)" by (cases "read_token f ?c0") auto
    have "suffix c (r_current st)"
      using read_token_ends(4) [OF t] skip_spaces_suffix suffix_order.trans by blast
    then show ?thesis
      using "6.prems" True t by (auto simp: read_array.simps Let_def run_ok_def intro: ran_current)
  next
    case False
    then obtain v1 ok c st2
      where v1: "index_ref_int v index = Inr v1"
        and rv: "read_value f b n (Suc nodes) (index_get v1 index) (st\<lparr>r_current := ?c0\<rparr>) =
                   Inr (ok, c, st2)"
        and rest: "(if \<not> ok then Inr (False, index_put v1 index c, recover f tokenArrayEnd st2)
                else (case after_element f st2 of
                        (Some r, st3) \<Rightarrow> Inr (r, index_put v1 index c, st3)
                      | (None, st3) \<Rightarrow> read_array f b n nodes (index_put v1 index c) (index + 1) st3))
                  = Inr r"
      using "6.prems" by (auto simp: read_array.simps bind_res_Inr_iff Let_def)
    have IH: "run_ok (index_get v1 index) (st\<lparr>r_current := ?c0\<rparr>) (ok, c, st2)"
      using "6.IH"(1) [OF refl False v1 rv] .
    have r2: "ran ok st st2"
      using IH c0 by (auto simp: run_ok_def intro: ran_trans)
    have w: "wf_json (index_put v1 index c)" if "wf_json v"
      using IH that wf_index_ref_int [OF v1] by (simp add: run_ok_def)
    show ?thesis
    proof (cases ok)
      case False
      then show ?thesis using rest r2 w by (auto simp: run_ok_def ran_recover)
    next
      case True
      obtain q st3 where am: "after_element f st2 = (q, st3)" by (cases "after_element f st2") auto
      show ?thesis
      proof (cases q)
        case None
        then have "run_ok (index_put v1 index c) st3 r"
          using "6.IH"(2) [OF refl False v1 rv refl refl refl] rest am True by auto
        then show ?thesis
          using after_element_ran(2) [OF am None] r2 True w
          by (cases r) (auto simp: run_ok_def intro: ran_trans)
      next
        case (Some ok')
        then show ?thesis
          using after_element_ran(1) [OF am Some] rest r2 True w am
          by (auto simp: run_ok_def intro: ran_trans)
      qed
    qed
  qed
qed (simp_all add: read_value.simps read_object.simps read_array.simps)

section \<open>Exceptions and fuel\<close>

text \<open>
  What a call needs to raise nothing but the stack limit: fuel by the length of the text
  left, a document below one gigabyte, and the container it fills.
\<close>

definition only_stack :: "'a res \<Rightarrow> bool" where
  "only_stack r \<longleftrightarrow> (\<forall>e. r = Inl e \<longrightarrow> e = RuntimeError ''Exceeded stackLimit in readValue().'')"

lemma only_stack_simps [simp]:
  "only_stack (Inr x)" "only_stack (Inl (RuntimeError ''Exceeded stackLimit in readValue().''))"
  by (simp_all add: only_stack_def)

lemma only_stack_bind:
  "only_stack m \<Longrightarrow> (\<And>x. m = Inr x \<Longrightarrow> only_stack (k x)) \<Longrightarrow> only_stack (bind_res m k)"
  by (cases m) (auto simp: only_stack_def)

lemma hex_loop_length: "hex_loop n cur u = Inr (w, cur') \<Longrightarrow> length cur = length cur' + n"
  by (simp add: hex_loop_less)

lemma unicode_code_point_text:
  assumes "decode_unicode_code_point tok fin cur = Inr (u, cur')"
  shows "length (code_point_to_utf8 u) + length cur' \<le> length cur"
proof -
  obtain u1 c1 where 1: "decode_unicode_escape_sequence tok fin cur = Inr (u1, c1)"
    using assms by (auto simp: decode_unicode_code_point_def bind_dec_def split: sum.splits)
  have "length cur' + 4 \<le> length cur"
    using assms decode_unicode_escape_sequence_length [OF 1] 1
    by (auto simp: decode_unicode_code_point_def bind_dec_def add_error_def
        dest!: decode_unicode_escape_sequence_length split: if_splits sum.splits prod.splits)
  then show ?thesis using length_code_point_to_utf8 [of u] by linarith
qed

lemma decode_string_loop_length:
  "decode_string_loop tok fin cur decoded = Inr s \<Longrightarrow> length s \<le> length decoded + length cur"
proof (induction tok fin cur decoded rule: decode_string_loop.induct)
  case (2 tok fin c r decoded)
  show ?case
  proof (cases "c = DQ \<or> c \<noteq> BSL")
    case True
    then show ?thesis using 2 by (auto simp: decode_string_loop.simps(2) split: if_splits)
  next
    case False
    then obtain e r1 where r: "r = e # r1"
      using "2.prems" by (cases r) (auto simp: decode_string_loop.simps(2) add_error_def)
    show ?thesis
    proof (cases "simple_escape e")
      case (Some d)
      then show ?thesis
        using False r "2.prems" "2.IH"(2) [of e r1 d] by (simp add: decode_string_loop.simps(2))
    next
      case None
      then obtain u r2 where u: "e = CHR ''u''" "decode_unicode_code_point tok fin r1 = Inr (u, r2)"
        using False r "2.prems"
        by (auto simp: decode_string_loop.simps(2) add_error_def split: if_splits sum.splits)
      then show ?thesis
        using False r None "2.prems" "2.IH"(1) [of e r1 "(u, r2)" u r2]
          unicode_code_point_text [OF u(2)]
        by (simp add: decode_string_loop.simps(2))
    qed
  qed
qed simp

lemma decode_string_text_length:
  assumes "decode_string_text tok [] = Inr s"
  shows "length s \<le> length (tok_start tok)"
proof -
  have "length s \<le> length (butlast (tl (token_text tok)))"
    using decode_string_loop_length assms by (fastforce simp: decode_string_text_def Let_def)
  also have "\<dots> \<le> length (tok_start tok)" by (simp add: token_text_def range_text_def)
  finally show ?thesis .
qed

lemma only_stack_leaf:
  assumes "length (tok_start tok) < 2 ^ 30"
  shows "only_stack (read_leaf f b tok cur st)"
proof -
  have "only_stack (decode_string b tok cur st)"
    using assms decode_string_text_length [of tok]
    by (auto simp: decode_string_def mk_string_small split: sum.splits)
  then show ?thesis by (simp add: read_leaf_def Let_def split: option.splits)
qed

lemma type_set_meta [simp]: "type_of (set_meta m v) = type_of v"
  by (cases v) simp_all

lemma type_mk_type [simp]: "type_of (mk_type ty) = ty"
  by (cases ty) simp_all

lemma type_init_container [simp]: "type_of (init_container b tok ty cur) = ty"
  by (simp add: init_container_def swap_payload_def set_offset_start_def)

lemma type_put [simp]:
  "type_of (member_put v k c) = objectValue" "type_of (index_put v i c) = arrayValue"
  by (simp_all add: member_put_def index_put_def)

lemma object_ops_no_exn:
  assumes "type_of v = objectValue"
  shows "\<exists>v'. resolve_reference v k = Inr v'" "\<exists>x. is_member v k = Inr x"
  using assms by (simp_all add: resolve_reference_def is_member_def find_member_def Let_def)

lemma index_ref_int_no_exn:
  "type_of v = arrayValue \<Longrightarrow> 0 \<le> sint i \<Longrightarrow> \<exists>v'. index_ref_int v i = Inr v'"
  by (simp add: index_ref_int_def index_ref_def Let_def)

lemma only_stack_colon:
  assumes "type_of v = objectValue" "length name < 2 ^ 30"
  shows "only_stack (read_colon f v tok name st)"
proof -
  obtain x where "is_member v name = Inr x" using object_ops_no_exn(2) [OF assms(1)] by blast
  then show ?thesis
    using assms by (cases "rejectDupKeys f") (auto simp: read_colon_def Let_def split: prod.splits)
qed

lemma read_token_start_length:
  "read_token f cur = (ok, tok, c) \<Longrightarrow> length (tok_start tok) \<le> length cur"
  by (simp add: read_token_ends(2) suffix_length_le skip_spaces_suffix)

lemma skip_comments_start_length:
  "skip_comments f ok tok cur = (ok', tok', cur') \<Longrightarrow> length (tok_start tok) \<le> n \<Longrightarrow> length cur \<le> n \<Longrightarrow>
   length (tok_start tok') \<le> n"
proof (induction f ok tok cur rule: skip_comments.induct)
  case (1 f ok tok cur)
  show ?case
  proof (cases "tok_type tok = tokenComment \<and> ok")
    case True
    obtain ok1 t c where r: "read_token f cur = (ok1, t, c)" by (cases "read_token f cur") auto
    then have "skip_comments f ok1 t c = (ok', tok', cur')"
      using "1.prems"(1) True by (simp add: skip_comments.simps [of f True tok cur])
    from "1.IH" [OF True r [symmetric] refl this] show ?thesis
      using read_token_start_length [OF r] suffix_length_le [OF read_token_ends(4) [OF r]]
        "1.prems"(3) by simp
  next
    case False
    then show ?thesis using "1.prems" by (auto simp: skip_comments.simps [of f ok tok cur])
  qed
qed

lemma only_stack_key:
  assumes v: "type_of v = objectValue" and n: "length (r_current st) < 2 ^ 30"
    and f: "\<not> allowNumericKeys f"
  shows "only_stack (object_key f v name st)"
proof -
  obtain ok0 t0 c0 where r: "read_token f (r_current st) = (ok0, t0, c0)"
    by (cases "read_token f (r_current st)") auto
  obtain ok1 t c where s: "skip_comments f True t0 c0 = (ok1, t, c)"
    by (cases "skip_comments f True t0 c0") auto
  have "length (tok_start t) \<le> length (r_current st)"
    using skip_comments_start_length [OF s] read_token_start_length [OF r]
      suffix_length_le [OF read_token_ends(4) [OF r]] by simp
  then have "only_stack (read_colon f v t nm st')" if "decode_string_text t [] = Inr nm" for nm st'
    using decode_string_text_length [OF that] n by (intro only_stack_colon [OF v]) linarith
  then show ?thesis
    using f by (simp add: object_key_def r s Let_def member_name_def split: sum.splits)
qed

lemma sint_word_succ:
  "0 \<le> sint i \<Longrightarrow> sint i + 1 < 2 ^ 31 \<Longrightarrow> sint (i + 1 :: int32) = sint i + 1"
  by (simp add: sint_word_ariths signed_take_bit_int_eq_self)

theorem reader_only_stack:
  "length (r_current st) < 2 ^ 30 \<Longrightarrow> \<not> allowNumericKeys f \<Longrightarrow> 2 * length (r_current st) + 1 \<le> n \<Longrightarrow>
     only_stack (read_value f b n nodes cur st)"
  "length (r_current st) < 2 ^ 30 \<Longrightarrow> \<not> allowNumericKeys f \<Longrightarrow> 2 * length (r_current st) + 2 \<le> n \<Longrightarrow>
     type_of v = objectValue \<Longrightarrow> only_stack (read_object f b n nodes v name st)"
  "length (r_current st) < 2 ^ 30 \<Longrightarrow> \<not> allowNumericKeys f \<Longrightarrow> 2 * length (r_current st) + 2 \<le> n \<Longrightarrow>
     type_of v = arrayValue \<Longrightarrow> 0 \<le> sint index \<Longrightarrow> sint index + int (length (r_current st)) < 2 ^ 31 \<Longrightarrow>
     only_stack (read_array f b n nodes v index st)"
proof (induction f b n nodes cur st and f b n nodes v name st and f b n nodes v index st
    rule: read_value_read_object_read_array.induct)
  case (2 f b n nodes cur st)
  obtain tok c where t: "skip_comment_tokens f (r_current st) = (tok, c)"
    by (cases "skip_comment_tokens f (r_current st)") auto
  note tf = skip_comment_tokens_facts [OF t]
  have tl: "length (tok_start tok) < 2 ^ 30"
    using suffix_length_le [OF tf(3)] "2.prems"(1) by linarith
  have lt: "length c < length (r_current st)"
    if "tok_type tok = tokenObjectBegin \<or> tok_type tok = tokenArrayBegin"
    using that tf(4) by auto
  show ?case
  proof (cases "stackLimit f < nodes")
    case False
    consider (obj) "tok_type tok = tokenObjectBegin" | (arr) "tok_type tok = tokenArrayBegin"
      | (leaf) "tok_type tok \<noteq> tokenObjectBegin" "tok_type tok \<noteq> tokenArrayBegin" by blast
    then show ?thesis
    proof cases
      case obj
      then have "only_stack (read_object f b n nodes (init_container b tok objectValue cur) []
          (st\<lparr>r_current := c\<rparr>))"
        using "2.IH"(1) [OF False t [symmetric] refl obj] "2.prems" lt by simp
      then show ?thesis
        using False t obj by (auto simp: read_value.simps Let_def intro!: only_stack_bind)
    next
      case arr
      then have "only_stack (read_array f b n nodes (init_container b tok arrayValue cur) 0
          (st\<lparr>r_current := c\<rparr>))"
        using "2.IH"(2) [OF False t [symmetric] refl _ arr] "2.prems" lt by simp
      then show ?thesis
        using False t arr by (auto simp: read_value.simps Let_def intro!: only_stack_bind)
    next
      case leaf
      then show ?thesis
        using False t by (simp add: read_value.simps Let_def only_stack_leaf [OF tl])
    qed
  qed (simp add: read_value.simps)
next
  case (4 f b n nodes v name st)
  have "only_stack (case k of
         KeyEnd ok st1 \<Rightarrow> Inr (ok, v, st1)
       | KeyMember name' st1 \<Rightarrow>
           bind_res (resolve_reference v name') (\<lambda>v1.
           bind_res (read_value f b n (Suc nodes) (member_get v1 name') st1) (\<lambda>(ok, c, st2).
             let v2 = member_put v1 name' c
             in if \<not> ok then Inr (False, v2, recover f tokenObjectEnd st2)
                else (case after_member f st2 of
                        (Some r, st3) \<Rightarrow> Inr (r, v2, st3)
                      | (None, st3) \<Rightarrow> read_object f b n nodes v2 name' st3))))"
    if k: "object_key f v name st = Inr k" for k
  proof (cases k)
    case (KeyMember name' st1)
    then have l1: "length (r_current st1) \<le> length (r_current st)"
      using object_key_ran [OF k] by (auto dest: ran_length)
    obtain v1 where v1: "resolve_reference v name' = Inr v1"
      using object_ops_no_exn(1) [OF "4.prems"(4)] by blast
    have rv: "only_stack (read_value f b n (Suc nodes) (member_get v1 name') st1)"
      using "4.IH"(1) [OF k KeyMember v1] "4.prems" l1 by simp
    have "only_stack (read_object f b n nodes (member_put v1 name' c) name' st3)"
      if r: "read_value f b n (Suc nodes) (member_get v1 name') st1 = Inr (True, c, st2)"
        and am: "after_member f st2 = (None, st3)" for c st2 st3
    proof -
      have "length (r_current st3) < length (r_current st)"
        using after_member_ran(2) [OF am refl] reader_run_ok(1) [OF r] l1
        by (auto simp: run_ok_def dest!: ran_length)
      then show ?thesis
        using "4.IH"(2) [OF k KeyMember v1 r refl refl refl _ am [symmetric]] "4.prems" by simp
    qed
    then show ?thesis
      using KeyMember v1 rv
      by (auto simp: Let_def split: prod.splits option.splits intro!: only_stack_bind)
  qed simp
  then show ?case
    using only_stack_key [OF "4.prems"(4, 1, 2)] by (simp add: read_object.simps only_stack_bind)
next
  case (6 f b n nodes v index st)
  let ?c0 = "skip_spaces (r_current st)"
  have l0: "length ?c0 \<le> length (r_current st)"
    using skip_spaces_suffix by (rule suffix_length_le)
  show ?case
  proof (cases "array_ends f index ?c0")
    case False
    obtain v1 where v1: "index_ref_int v index = Inr v1"
      using index_ref_int_no_exn "6.prems" by blast
    have rv: "only_stack (read_value f b n (Suc nodes) (index_get v1 index) (st\<lparr>r_current := ?c0\<rparr>))"
      using "6.IH"(1) [OF refl False v1] "6.prems" l0 by simp
    have "only_stack (read_array f b n nodes (index_put v1 index c) (index + 1) st3)"
      if r: "read_value f b n (Suc nodes) (index_get v1 index) (st\<lparr>r_current := ?c0\<rparr>) = Inr (True, c, st2)"
        and am: "after_element f st2 = (None, st3)" for c st2 st3
    proof -
      have l3: "length (r_current st3) < length (r_current st)"
        using after_element_ran(2) [OF am refl] reader_run_ok(1) [OF r] l0
        by (auto simp: run_ok_def dest!: ran_length)
      then have "sint (index + 1) = sint index + 1"
        using "6.prems" by (intro sint_word_succ) linarith+
      then show ?thesis
        using "6.IH"(2) [OF refl False v1 r refl refl refl _ am [symmetric]] "6.prems" l3 by simp
    qed
    then show ?thesis
      using False v1 rv
      by (auto simp: read_array.simps Let_def split: prod.splits option.splits intro!: only_stack_bind)
  qed (simp add: read_array.simps Let_def)
qed simp_all

section \<open>Whole documents\<close>

lemma parse_result:
  assumes "parse f doc rt = Inr (ok, v, errs)"
  shows "ok \<longleftrightarrow> errs = []" "wf_json rt \<Longrightarrow> wf_json v"
proof -
  let ?b = "skip_bom (skipBom f) doc"
  obtain ok1 v1 st where r: "read_value f ?b (parse_fuel ?b) 1 rt \<lparr>r_current = ?b, r_errors = []\<rparr> =
      Inr (ok1, v1, st)"
    and rest: "(case skip_comment_tokens f (r_current st) of (tok, c) \<Rightarrow>
               if failIfExtra f \<and> tok_type tok \<noteq> tokenEndOfStream
               then Inr (False, v1, r_errors st @
                           [error_info ''Extra non-whitespace after JSON value.'' tok])
               else if strictRoot f \<and> \<not> is_array v1 \<and> \<not> is_object v1
               then Inr (False, v1, r_errors st @
                           [error_info
                             ''A valid JSON document must be either an array or an object value.''
                             \<lparr>tok_type = tokenError, tok_start = doc, tok_end = []\<rparr>])
               else Inr (ok1, v1, r_errors st)) = (Inr (ok, v, errs) :: _ res)"
    using assms by (auto simp: parse_def Let_def bind_res_Inr_iff)
  have "run_ok rt \<lparr>r_current = ?b, r_errors = []\<rparr> (ok1, v1, st)"
    using reader_run_ok(1) [OF r] .
  then have "ok1 \<longleftrightarrow> r_errors st = []" "wf_json rt \<Longrightarrow> wf_json v1"
    by (auto simp: run_ok_def ran_def split: if_splits)
  then show "ok \<longleftrightarrow> errs = []" "wf_json rt \<Longrightarrow> wf_json v"
    using rest by (auto split: prod.splits if_splits)
qed

lemma parse_only_stack:
  assumes "length doc < 2 ^ 30" "\<not> allowNumericKeys f"
  shows "only_stack (parse f doc rt)"
proof -
  let ?b = "skip_bom (skipBom f) doc"
  have "length ?b \<le> length doc" using skip_bom_suffix by (rule suffix_length_le)
  then have "only_stack (read_value f ?b (parse_fuel ?b) 1 rt \<lparr>r_current = ?b, r_errors = []\<rparr>)"
    using assms by (intro reader_only_stack(1)) (simp_all add: parse_fuel_def)
  then show ?thesis
    by (auto simp: parse_def Let_def split: prod.splits intro!: only_stack_bind)
qed

text \<open>Opening one bracket more than the limit throws, whatever follows.\<close>

lemma skip_comment_tokens_bracket:
  "skip_comment_tokens f (CHR ''['' # r) =
     (\<lparr>tok_type = tokenArrayBegin, tok_start = CHR ''['' # r, tok_end = r\<rparr>, r)"
  by (simp add: skip_comment_tokens.simps [of f "CHR ''['' # r"] read_token_def get_next_char_def
      token_switch_def)

lemma deep_brackets:
  "stackLimit f < nodes + d \<Longrightarrow> d < k \<Longrightarrow> 2 * d < n \<Longrightarrow>
   read_value f b n nodes cur \<lparr>r_current = replicate k (CHR ''['') @ r, r_errors = es\<rparr> =
     Inl (RuntimeError ''Exceeded stackLimit in readValue().'')"
proof (induction d arbitrary: nodes n cur k)
  case 0
  then show ?case by (cases n) (simp_all add: read_value.simps)
next
  case (Suc d)
  obtain m where n: "n = Suc (Suc m)" using Suc.prems(3) by (cases n; cases "n - 1") auto
  obtain j where k: "k = Suc (Suc j)" using Suc.prems(2) by (cases k; cases "k - 1") auto
  define t where "t = \<lparr>tok_type = tokenArrayBegin, tok_start = replicate k (CHR ''['') @ r,
    tok_end = replicate (Suc j) (CHR ''['') @ r\<rparr>"
  obtain v1 where v1: "index_ref_int (init_container b t arrayValue cur) 0 = Inr v1"
    using index_ref_int_no_exn [of "init_container b t arrayValue cur" 0] by auto
  have "read_value f b m (Suc nodes) (index_get v1 0)
      \<lparr>r_current = replicate (Suc j) (CHR ''['') @ r, r_errors = es\<rparr> =
     Inl (RuntimeError ''Exceeded stackLimit in readValue().'')"
    using Suc.IH [of "Suc nodes" "Suc j" m] Suc.prems n k by simp
  moreover have "tok_type t = tokenArrayBegin" by (simp add: t_def)
  ultimately show ?case
    using v1 n k by (simp add: read_value.simps read_array.simps skip_comment_tokens_bracket
        array_ends_def Let_def flip: t_def [unfolded k, simplified])
qed

lemma parse_too_deep:
  assumes "stackLimit f < k"
  shows "parse f (replicate k (CHR ''['') @ r) rt =
    Inl (RuntimeError ''Exceeded stackLimit in readValue().'')"
proof -
  let ?d = "replicate k (CHR ''['') @ r"
  have "skip_bom (skipBom f) ?d = ?d"
    using assms by (cases k) (auto simp: skip_bom_def)
  moreover have "read_value f ?d (parse_fuel ?d) 1 rt \<lparr>r_current = ?d, r_errors = []\<rparr> =
      Inl (RuntimeError ''Exceeded stackLimit in readValue().'')"
    using deep_brackets [of f 1 "stackLimit f" k "parse_fuel ?d" ?d rt r "[]"] assms
    by (simp add: parse_fuel_def)
  ultimately show ?thesis by (simp add: parse_def Let_def)
qed

end
