(* ===== verification/Json_Comments_Facts.thy ===== *)
theory Json_Comments_Facts
  imports Json_Comments Json_Reader_Facts
begin

text \<open>
  Collecting comments changes nothing but comments. The reader that may collect comments
  (\<open>m_parse\<close>) is compared with the reader that does not (\<open>parse\<close>): both take the same steps,
  and their values agree up to a function \<open>h\<close>. The locale \<open>mirror\<close> holds what \<open>h\<close> has to
  satisfy and the comparison; without comments \<open>h\<close> is the identity, with comments it takes the
  comments away and nothing else.
\<close>

section \<open>Related results\<close>

abbreviation same_res :: "('a \<Rightarrow> 'b \<Rightarrow> bool) \<Rightarrow> 'a res \<Rightarrow> 'b res \<Rightarrow> bool" where
  \<comment> \<open>the same exception, or related results\<close>
  "same_res R \<equiv> rel_sum (=) R"

lemma same_res_bind:
  "same_res R r m \<Longrightarrow> (\<And>x y. R x y \<Longrightarrow> same_res S (k x) (l y)) \<Longrightarrow> same_res S (bind_res r k) (bind_res m l)"
  by (cases r; cases m) auto

lemma same_res_bind_eq:
  "(\<And>x. same_res S (k x) (l x)) \<Longrightarrow> same_res S (bind_res r k) (bind_res r l)"
  by (cases r) auto

section \<open>What every step keeps\<close>

definition text_state :: "mstate \<Rightarrow> rstate" where
  "text_state st = \<lparr>r_current = m_current st, r_errors = m_errors st\<rparr>"

lemma text_state_simps [simp]:
  "r_current (text_state st) = m_current st" "r_errors (text_state st) = m_errors st"
  "text_state (m_set p v st) = text_state st"
  "text_state (m_error e st) = push_error e (text_state st)"
  "text_state (st\<lparr>m_current := c\<rparr>) = (text_state st)\<lparr>r_current := c\<rparr>"
  "text_state (st\<lparr>m_before := s\<rparr>) = text_state st"
  "text_state (m_value_read cc p st) = text_state st"
  by (simp_all add: text_state_def m_set_def m_error_def push_error_def m_value_read_def)

lemma text_state_back [simp]: "(text_state st)\<lparr>r_current := m_current st\<rparr> = text_state st"
  by (simp add: text_state_def)

definition m_alive :: "bool \<Rightarrow> mstate \<Rightarrow> bool" where
  \<comment> \<open>a comment has a value to go to\<close>
  "m_alive cc st \<longleftrightarrow> (m_before st = [] \<or> slash_text (m_before st)) \<and>
     (m_last_end st \<noteq> None \<longrightarrow> m_last st \<noteq> None) \<and> (m_last st \<noteq> None \<longrightarrow> cc) \<and>
     (\<forall>q. m_last st = Some q \<longrightarrow> valid_path q (m_root st))"

lemma m_alive_simps [simp]:
  "m_alive cc (m_error e st) = m_alive cc st" "m_alive cc (st\<lparr>m_current := c\<rparr>) = m_alive cc st"
  by (simp_all add: m_alive_def m_error_def)

lemma m_alive_before: "m_alive cc st \<Longrightarrow> m_alive cc (st\<lparr>m_before := []\<rparr>)"
  by (simp add: m_alive_def)

definition m_free :: "path \<Rightarrow> mstate \<Rightarrow> bool" where
  \<comment> \<open>\<^verbatim>\<open>lastValue_\<close> is not below the value\<close>
  "m_free p st \<longleftrightarrow> (\<forall>q. m_last st = Some q \<longrightarrow> \<not> strict_prefix p q)"

definition m_near :: "path \<Rightarrow> mstate \<Rightarrow> bool" where
  \<comment> \<open>\<^verbatim>\<open>lastValue_\<close> is not below a child of the value\<close>
  "m_near p st \<longleftrightarrow> (\<forall>k. m_free (p @ [k]) st)"

lemma m_free_near: "m_free p st \<Longrightarrow> m_near p st"
  by (auto simp: m_free_def m_near_def strict_prefix_def prefix_def)

lemma m_set_free [simp]: "m_free p (m_set q v st) = m_free p st" "m_near p (m_set q v st) = m_near p st"
  by (simp_all add: m_set_def m_free_def m_near_def)

lemma m_set_value [simp]: "m_value p (m_set p v st) = v" "m_root (m_set p v st) = put_at p v (m_root st)"
  by (simp_all add: m_set_def m_value_def)

lemma m_set_alive:
  "m_alive cc st \<Longrightarrow> valid_path p (m_root st) \<Longrightarrow> m_free p st \<Longrightarrow> m_alive cc (m_set p v st)"
  using valid_put [of p "m_root st"] by (simp add: m_alive_def m_set_def m_free_def)

lemma m_set_extends_alive:
  "m_alive cc st \<Longrightarrow> valid_path p (m_root st) \<Longrightarrow> extends (m_value p st) v \<Longrightarrow> m_alive cc (m_set p v st)"
  using valid_put_extends [of p "m_root st"] by (simp add: m_alive_def m_set_def m_value_def)

lemma unix_lines_slash: "c \<noteq> CR \<Longrightarrow> slash_text (unix_lines (CHR ''/'' # c # t))"
  by (simp add: slash_text_def)

lemma read_comment_text:
  assumes "read_comment cur = (True, e)"
  shows "\<exists>c r. cur = c # r \<and> c \<noteq> CR \<and> suffix e r"
proof -
  obtain c r where "cur = c # r"
    using assms by (cases cur) (simp_all add: read_comment_def get_next_char_def)
  then show ?thesis
    using assms read_c_style_comment_suffix [of r] read_cpp_style_comment_suffix [of r]
    by (auto simp: read_comment_def get_next_char_def split: if_splits prod.splits)
qed

lemma comment_slash:
  assumes "read_comment cur = (True, e)"
  shows "slash_text (unix_lines (range_text (CHR ''/'' # cur) e))"
proof -
  obtain c r where r: "cur = c # r" "c \<noteq> CR" "suffix e r" using read_comment_text [OF assms] by blast
  then have "range_text (CHR ''/'' # cur) e = CHR ''/'' # c # range_text r e"
    using suffix_length_le [OF r(3)] by (simp add: range_text_def Suc_diff_le)
  then show ?thesis using unix_lines_slash [OF r(2)] by simp
qed

section \<open>The comparison\<close>

locale mirror = natural h g for h g +
  fixes cc :: bool
  assumes comment_lost: "cc \<Longrightarrow> h (set_meta ((meta v)\<lparr>v_comments := c\<rparr>) v) = h v"
    and payload: "h v = h w \<Longrightarrow> h (fst (swap_payload v x)) = h (fst (swap_payload w x))"
    and start: "h v = h w \<Longrightarrow> h (set_offset_start n v) = h (set_offset_start n w)"
    and limit: "h v = h w \<Longrightarrow> h (set_offset_limit n v) = h (set_offset_limit n w)"
begin

definition calm :: "mstate \<Rightarrow> mstate \<Rightarrow> bool" where
  \<comment> \<open>nothing but comments and the position in the text has changed\<close>
  "calm st st' \<longleftrightarrow> h (m_root st') = h (m_root st) \<and> m_last st' = m_last st \<and> m_alive cc st'"

lemma calm_trans: "calm st st1 \<Longrightarrow> calm st1 st2 \<Longrightarrow> calm st st2"
  by (simp add: calm_def)

lemma calm_alive: "calm st st' \<Longrightarrow> m_alive cc st'"
  by (simp add: calm_def)

lemma calm_refl: "m_alive cc st \<Longrightarrow> calm st st"
  by (simp add: calm_def)

lemma calm_current: "m_alive cc st \<Longrightarrow> calm st (st\<lparr>m_current := c\<rparr>)"
  by (simp add: calm_def)

lemma calm_error [simp]: "calm st (m_error e st') = calm st st'" "calm (m_error e st) st' = calm st st'"
  by (simp_all add: calm_def) (simp_all add: m_error_def)

lemma calm_before: "calm st st' \<Longrightarrow> calm st (st'\<lparr>m_before := []\<rparr>)"
  by (simp add: calm_def m_alive_before)

lemma calm_last: "calm st st' \<Longrightarrow> m_free p st' = m_free p st" "calm st st' \<Longrightarrow> m_near p st' = m_near p st"
  by (simp_all add: calm_def m_free_def m_near_def)

lemma calm_valid: "calm st st' \<Longrightarrow> valid_path p (m_root st') = valid_path p (m_root st)"
  by (metis calm_def valid)

lemma calm_value: "calm st st' \<Longrightarrow> h (m_value p st') = h (m_value p st)"
  by (simp add: calm_def m_value_def)

lemma comment_calm:
  assumes "m_alive cc st" "valid_path p (m_root st)" cc
  shows "calm st (m_set p (set_meta ((meta (m_value p st))\<lparr>v_comments := c\<rparr>) (m_value p st)) st)"
proof -
  have "h (put_at p (set_meta ((meta (m_value p st))\<lparr>v_comments := c\<rparr>) (m_value p st)) (m_root st)) = h (m_root st)"
    using assms(2,3) put_at_same [of p "h (m_root st)"] by (simp add: comment_lost valid) (simp add: m_value_def)
  moreover from this have "valid_path q (put_at p (set_meta ((meta (m_value p st))\<lparr>v_comments := c\<rparr>)
      (m_value p st)) (m_root st)) = valid_path q (m_root st)" for q
    by (metis valid)
  ultimately show ?thesis using assms(1) by (simp add: calm_def m_alive_def m_set_def)
qed


section \<open>Tokens\<close>

lemma m_add_comment_calm:
  assumes "m_alive cc st" cc "slash_text (unix_lines (range_text b e))"
    and "pl = commentAfterOnSameLine \<Longrightarrow> m_last_end st \<noteq> None"
  shows "\<exists>st'. m_add_comment b e pl st = Inr st' \<and> calm st st' \<and> text_state st' = text_state st"
proof (cases "pl = commentAfterOnSameLine")
  case True
  then obtain q where q: "m_last st = Some q" using assms(1,4) by (auto simp: m_alive_def)
  obtain c where c: "set_comment (m_value q st) (unix_lines (range_text b e)) commentAfterOnSameLine =
      Inr (set_meta ((meta (m_value q st))\<lparr>v_comments := c\<rparr>) (m_value q st))"
    using set_comment_slash [OF assms(3)] by blast
  have "valid_path q (m_root st)" using assms(1) q by (simp add: m_alive_def)
  from comment_calm [OF assms(1) this assms(2)] show ?thesis
    using True q c by (simp add: m_add_comment_def)
next
  case False
  then show ?thesis
    using assms(1,3) by (auto simp: m_add_comment_def calm_def m_alive_def slash_text_append)
qed

lemma m_read_comment_calm:
  assumes "m_alive cc st" "start = CHR ''/'' # m_current st"
  shows "\<exists>st'. m_read_comment cc start st = Inr (fst (read_comment (m_current st)), st') \<and> calm st st' \<and>
    text_state st' = (text_state st)\<lparr>r_current := snd (read_comment (m_current st))\<rparr>"
proof -
  obtain c cur1 where g: "get_next_char (m_current st) = (c, cur1)"
    by (cases "get_next_char (m_current st)")
  obtain ok em cur where s: "(if c = CHR ''*'' then read_c_style_comment cur1
             else if c = CHR ''/'' then (True, False, read_cpp_style_comment cur1)
             else (False, False, cur1)) = (ok, em, cur)"
    by (cases "if c = CHR ''*'' then read_c_style_comment cur1
             else if c = CHR ''/'' then (True, False, read_cpp_style_comment cur1)
             else (False, False, cur1)")
  have r: "read_comment (m_current st) = (ok, cur)"
    using g s by (auto simp: read_comment_def split: if_splits prod.splits)
  let ?st = "st\<lparr>m_current := cur\<rparr>"
  have a: "m_alive cc (?st\<lparr>m_has_comment := x\<rparr>)" for x using assms(1) by (simp add: m_alive_def)
  have x: "calm st (?st\<lparr>m_has_comment := x\<rparr>)" "text_state (?st\<lparr>m_has_comment := x\<rparr>) = text_state ?st" for x
    using a by (simp_all add: calm_def text_state_def)
  show ?thesis
  proof (cases "ok \<and> cc")
    case True
    then have sl: "slash_text (unix_lines (range_text start cur))"
      using comment_slash [of "m_current st" cur] r assms(2) by simp
    have "\<exists>st'. m_add_comment start cur commentBefore ?st = Inr st' \<and> calm st st' \<and> text_state st' = text_state ?st"
      using m_add_comment_calm [of ?st start cur commentBefore] assms(1) True sl calm_trans [OF calm_current]
      by fastforce
    moreover have "\<exists>st'. m_add_comment start cur commentAfterOnSameLine (?st\<lparr>m_has_comment := True\<rparr>) = Inr st' \<and>
        calm st st' \<and> text_state st' = text_state ?st" if "m_last_end st \<noteq> None"
      using m_add_comment_calm [OF a _ sl, of commentAfterOnSameLine True] that True x [of True] calm_trans
      by fastforce
    ultimately show ?thesis
      using True g s r by (auto simp: m_read_comment_def Let_def split: option.splits)
  next
    case False
    then show ?thesis
      using g s r calm_current [OF assms(1)] by (auto simp: m_read_comment_def Let_def)
  qed
qed

lemma m_read_token_mirror:
  assumes "m_alive cc st"
  obtains ok tok st' where "read_token f (m_current st) = (ok, tok, m_current st')"
    "m_read_token f cc st = Inr (ok, tok, st')" "calm st st'"
    "text_state st' = (text_state st)\<lparr>r_current := m_current st'\<rparr>"
proof -
  let ?s = "skip_spaces (m_current st)"
  obtain c r where g: "get_next_char ?s = (c, r)" by (cases "get_next_char ?s")
  show thesis
  proof (cases "c = CHR ''/''")
    case True
    then have "?s = CHR ''/'' # m_current (st\<lparr>m_current := r\<rparr>)"
      using g by (auto simp: get_next_char_def split: list.splits)
    from m_read_comment_calm [OF _ this] obtain ok st' where
      c: "m_read_comment cc ?s (st\<lparr>m_current := r\<rparr>) = Inr (ok, st')" "calm (st\<lparr>m_current := r\<rparr>) st'"
        "text_state st' = (text_state st)\<lparr>r_current := snd (read_comment r)\<rparr>"
      using assms by fastforce
    have "m_current st' = snd (read_comment r)" using arg_cong [OF c(3), of r_current] by simp
    then have "m_read_token f cc st = Inr (ok, \<lparr>tok_type = (if ok then tokenComment else tokenError),
          tok_start = ?s, tok_end = m_current st'\<rparr>, st')"
      using True g c(1) by (simp add: m_read_token_def Let_def)
    from that [OF m_read_token_same [OF this] this] show thesis
      using c \<open>m_current st' = _\<close> calm_trans [OF calm_current [OF assms] c(2)] by simp
  next
    case False
    obtain ty ok e where t: "token_switch f c r = (ty, ok, e)" by (cases "token_switch f c r") auto
    have "m_read_token f cc st = Inr (ok, \<lparr>tok_type = (if ok then ty else tokenError),
          tok_start = ?s, tok_end = e\<rparr>, st\<lparr>m_current := e\<rparr>)"
      using False g t by (simp add: m_read_token_def)
    from that [OF m_read_token_same [OF this] this] show thesis
      using calm_current [OF assms] by simp
  qed
qed

lemma m_skip_comment_tokens_mirror:
  assumes "m_alive cc st"
  shows "\<exists>tok st'. skip_comment_tokens f (m_current st) = (tok, m_current st') \<and>
    m_skip_comment_tokens f cc st = Inr (tok, st') \<and> calm st st' \<and>
    text_state st' = (text_state st)\<lparr>r_current := m_current st'\<rparr>"
  using assms
proof (induction f "m_current st" arbitrary: st rule: skip_comment_tokens.induct)
  case (1 f)
  obtain ok tok st1 where t: "read_token f (m_current st) = (ok, tok, m_current st1)"
    "m_read_token f cc st = Inr (ok, tok, st1)" "calm st st1"
    "text_state st1 = (text_state st)\<lparr>r_current := m_current st1\<rparr>"
    using m_read_token_mirror [OF "1.prems"] by blast
  show ?case
  proof (cases "allowComments f \<and> tok_type tok = tokenComment")
    case True
    obtain tok' st' where "skip_comment_tokens f (m_current st1) = (tok', m_current st')"
      "m_skip_comment_tokens f cc st1 = Inr (tok', st')" "calm st1 st'"
      "text_state st' = (text_state st1)\<lparr>r_current := m_current st'\<rparr>"
      using "1.hyps" [OF t(1) [symmetric] refl True calm_alive [OF t(3)]] by blast
    then show ?thesis
      using True t calm_trans [OF t(3)]
      by (simp add: skip_comment_tokens.simps [of f "m_current st"] m_skip_comment_tokens.simps [of f cc st])
  next
    case False
    then show ?thesis
      using t by (auto simp: skip_comment_tokens.simps [of f "m_current st"] m_skip_comment_tokens.simps [of f cc st])
  qed
qed

lemma m_skip_comments_mirror:
  assumes "m_alive cc st"
  shows "\<exists>ok' tok' st'. skip_comments f ok tok (m_current st) = (ok', tok', m_current st') \<and>
    m_skip_comments f cc ok tok st = Inr (ok', tok', st') \<and> calm st st' \<and>
    text_state st' = (text_state st)\<lparr>r_current := m_current st'\<rparr>"
  using assms
proof (induction f ok tok "m_current st" arbitrary: st rule: skip_comments.induct)
  case (1 f ok tok)
  obtain ok1 tok1 st1 where t: "read_token f (m_current st) = (ok1, tok1, m_current st1)"
    "m_read_token f cc st = Inr (ok1, tok1, st1)" "calm st st1"
    "text_state st1 = (text_state st)\<lparr>r_current := m_current st1\<rparr>"
    using m_read_token_mirror [OF "1.prems"] by blast
  show ?case
  proof (cases "tok_type tok = tokenComment \<and> ok")
    case True
    obtain ok' tok' st' where "skip_comments f ok1 tok1 (m_current st1) = (ok', tok', m_current st')"
      "m_skip_comments f cc ok1 tok1 st1 = Inr (ok', tok', st')" "calm st1 st'"
      "text_state st' = (text_state st1)\<lparr>r_current := m_current st'\<rparr>"
      using "1.hyps" [OF True t(1) [symmetric] refl calm_alive [OF t(3)]] by blast
    then show ?thesis
      using True t calm_trans [OF t(3)]
      by (simp add: skip_comments.simps [of f True tok "m_current st"] m_skip_comments.simps [of f cc True tok st])
  next
    case False
    then show ?thesis
      using calm_refl [OF "1.prems"]
      by (auto simp: skip_comments.simps [of f ok tok "m_current st"] m_skip_comments.simps [of f cc ok tok st])
  qed
qed

lemma m_recover_from_error_mirror:
  assumes "m_alive cc st"
  shows "\<exists>st'. m_recover_from_error f cc ty st = Inr st' \<and> calm st st' \<and>
    text_state st' = recover f ty (text_state st)"
  using assms
proof (induction f ty "m_current st" arbitrary: st rule: recover_from_error.induct)
  case (1 f ty)
  obtain ok1 tok1 st1 where t: "read_token f (m_current st) = (ok1, tok1, m_current st1)"
    "m_read_token f cc st = Inr (ok1, tok1, st1)" "calm st st1"
    "text_state st1 = (text_state st)\<lparr>r_current := m_current st1\<rparr>"
    using m_read_token_mirror [OF "1.prems"] by blast
  show ?case
  proof (cases "tok_type tok1 = ty \<or> tok_type tok1 = tokenEndOfStream")
    case True
    then show ?thesis
      using t by (auto simp: recover_def recover_from_error.simps [of f ty "m_current st"]
          m_recover_from_error.simps [of f cc ty st])
  next
    case False
    obtain st' where "m_recover_from_error f cc ty st1 = Inr st'" "calm st1 st'"
      "text_state st' = recover f ty (text_state st1)"
      using "1.hyps" [OF t(1) [symmetric] refl False calm_alive [OF t(3)]] by blast
    then show ?thesis
      using False t calm_trans [OF t(3)]
      by (auto simp: recover_def recover_from_error.simps [of f ty "m_current st"]
          m_recover_from_error.simps [of f cc ty st])
  qed
qed

section \<open>Members and elements\<close>

definition went :: "mstate \<Rightarrow> rstate \<Rightarrow> mstate \<Rightarrow> bool" where
  "went st s st' \<longleftrightarrow> text_state st' = s \<and> calm st st'"

lemma went_trans: "calm st st1 \<Longrightarrow> went st1 s st2 \<Longrightarrow> went st s st2"
  by (auto simp: went_def intro: calm_trans)

lemma m_recover_went:
  assumes "calm st st1"
  shows "\<exists>st'. m_recover_from_error f cc ty (m_error e st1) = Inr st' \<and>
      went st (recover f ty (push_error e (text_state st1))) st'"
    "\<exists>st'. m_add_error_and_recover f cc msg tok ty st1 = Inr st' \<and>
      went st (add_error_and_recover f msg tok ty (text_state st1)) st'"
proof -
  have *: "\<exists>st'. m_recover_from_error f cc ty (m_error e st1) = Inr st' \<and>
      went st (recover f ty (push_error e (text_state st1))) st'" for e
    using m_recover_from_error_mirror [of "m_error e st1" f ty] calm_alive [OF assms] calm_trans [OF assms]
    by (auto simp: went_def)
  then show "\<exists>st'. m_recover_from_error f cc ty (m_error e st1) = Inr st' \<and>
      went st (recover f ty (push_error e (text_state st1))) st'"
    "\<exists>st'. m_add_error_and_recover f cc msg tok ty st1 = Inr st' \<and>
      went st (add_error_and_recover f msg tok ty (text_state st1)) st'"
    by (simp_all add: m_add_error_and_recover_def add_error_and_recover_def)
qed

definition key_went :: "mstate \<Rightarrow> key_step \<Rightarrow> m_key_step \<Rightarrow> bool" where
  "key_went st k mk \<longleftrightarrow>
     (case k of
        KeyEnd ok s \<Rightarrow> \<exists>st'. mk = MKeyEnd ok st' \<and> went st s st'
      | KeyMember nm s \<Rightarrow> \<exists>st'. mk = MKeyMember nm st' \<and> went st s st')"

lemma key_went_simps [simp]:
  "key_went st (KeyEnd ok s) (MKeyEnd ok' st') \<longleftrightarrow> ok' = ok \<and> went st s st'"
  "key_went st (KeyMember nm s) (MKeyMember nm' st') \<longleftrightarrow> nm' = nm \<and> went st s st'"
  "\<not> key_went st (KeyEnd ok s) (MKeyMember nm' st')" "\<not> key_went st (KeyMember nm s) (MKeyEnd ok' st')"
  by (auto simp: key_went_def)

lemma m_failed_went:
  assumes "calm st st1"
  shows "same_res (key_went st) (Inr (KeyEnd False (add_error_and_recover f msg tok ty (text_state st1))))
      (m_failed (m_add_error_and_recover f cc msg tok ty st1))"
    "same_res (key_went st) (Inr (KeyEnd False (recover f ty (push_error e (text_state st1)))))
      (m_failed (m_recover_from_error f cc ty (m_error e st1)))"
  using m_recover_went(1) [OF assms, of f ty e] m_recover_went(2) [OF assms, of f msg tok ty]
  by (auto simp: m_failed_def)

lemma m_missing_brace_went:
  "calm st st1 \<Longrightarrow> same_res (key_went st) (Inr (KeyEnd False (missing_brace f tok (text_state st1))))
     (m_missing_brace f cc tok st1)"
  unfolding missing_brace_def m_missing_brace_def by (rule m_failed_went)

lemma is_member_same: "h v = h w \<Longrightarrow> is_object w \<Longrightarrow> is_member v nm = is_member w nm"
proof -
  assume e: "h v = h w" and w: "is_object w"
  have v: "is_object v" using w containers(2) [of v] containers(2) [of w] by (simp add: e del: containers)
  have "map_option h (om_find k (object_map v)) = map_option h (om_find k (object_map w))" for k
    using maps(2) [of v] maps(2) [of w] e by (simp flip: om_find_map_snd)
  from this [of "czstring nm"] show "is_member v nm = is_member w nm"
    using v w by (cases "om_find (czstring nm) (object_map v)"; cases "om_find (czstring nm) (object_map w)")
        (simp_all add: is_member_def find_member_def is_object_def)
qed

lemma m_read_colon_went:
  assumes "calm st st1" "h (m_value p st1) = h v" "is_object v"
  shows "same_res (key_went st) (read_colon f v tok nm (text_state st1)) (m_read_colon f cc p tok nm st1)"
proof -
  have m: "is_member (m_value p st1) nm = is_member v nm" using is_member_same assms(2,3) .
  obtain ok colon st2 where t: "read_token f (m_current st1) = (ok, colon, m_current st2)"
    "m_read_token f cc st1 = Inr (ok, colon, st2)" "calm st1 st2"
    "text_state st2 = (text_state st1)\<lparr>r_current := m_current st2\<rparr>"
    using m_read_token_mirror [OF calm_alive [OF assms(1)]] by blast
  have c: "calm st st2" using calm_trans [OF assms(1) t(3)] .
  show ?thesis
    unfolding read_colon_def m_read_colon_def m
    using t m_failed_went(1) [OF assms(1)] m_failed_went(1) [OF c] c
    by (auto simp: went_def simp flip: t(4) intro!: same_res_bind_eq)
qed

lemma m_object_key_went:
  assumes "m_alive cc st" "h (m_value p st) = h v" "is_object v"
  shows "same_res (key_went st) (object_key f v nm (text_state st)) (m_object_key f cc p nm st)"
proof -
  obtain ok0 tok0 st0 where t: "read_token f (m_current st) = (ok0, tok0, m_current st0)"
    "m_read_token f cc st = Inr (ok0, tok0, st0)" "calm st st0"
    "text_state st0 = (text_state st)\<lparr>r_current := m_current st0\<rparr>"
    using m_read_token_mirror [OF assms(1)] by blast
  obtain ok tok st1 where s: "skip_comments f True tok0 (m_current st0) = (ok, tok, m_current st1)"
    "m_skip_comments f cc True tok0 st0 = Inr (ok, tok, st1)" "calm st0 st1"
    "text_state st1 = (text_state st0)\<lparr>r_current := m_current st1\<rparr>"
    using m_skip_comments_mirror [OF calm_alive [OF t(3)]] by blast
  have c: "calm st st1" using calm_trans [OF t(3) s(3)] .
  have e: "(text_state st)\<lparr>r_current := m_current st1\<rparr> = text_state st1" using s(4) t(4) by simp
  have v: "h (m_value p st1) = h v" using calm_value [OF c] assms(2) by simp
  show ?thesis
    unfolding object_key_def m_object_key_def
    using t(1,2) s(1,2) m_missing_brace_went [OF t(3), of f] m_missing_brace_went [OF c, of f] m_failed_went(2) [OF c, of f]
      m_read_colon_went [OF c v assms(3), of f] c
    by (auto simp: e went_def Let_def simp flip: t(4) intro!: same_res_bind_eq split: option.splits sum.splits)
qed

definition step_went :: "mstate \<Rightarrow> bool option \<times> rstate \<Rightarrow> bool option \<times> mstate \<Rightarrow> bool" where
  "step_went st r m \<longleftrightarrow> fst m = fst r \<and> went st (snd r) (snd m)"

lemma step_failed:
  "\<exists>st'. m = Inr st' \<and> went st s st' \<Longrightarrow>
   same_res (step_went st) (Inr (Some False, s)) (bind_res m (\<lambda>st2. Inr (Some False, st2)))"
  by (auto simp: step_went_def)

lemma m_after_member_went:
  assumes "m_alive cc st"
  shows "same_res (step_went st) (Inr (after_member f (text_state st))) (m_after_member f cc st)"
proof -
  obtain ok0 tok0 st0 where t: "read_token f (m_current st) = (ok0, tok0, m_current st0)"
    "m_read_token f cc st = Inr (ok0, tok0, st0)" "calm st st0"
    "text_state st0 = (text_state st)\<lparr>r_current := m_current st0\<rparr>"
    using m_read_token_mirror [OF assms(1)] by blast
  obtain ok tok st1 where s: "skip_comments f True tok0 (m_current st0) = (ok, tok, m_current st1)"
    "m_skip_comments f cc True tok0 st0 = Inr (ok, tok, st1)" "calm st0 st1"
    "text_state st1 = (text_state st0)\<lparr>r_current := m_current st1\<rparr>"
    using m_skip_comments_mirror [OF calm_alive [OF t(3)]] by blast
  have c: "calm st st1" using calm_trans [OF t(3) s(3)] .
  have e: "(text_state st)\<lparr>r_current := m_current st1\<rparr> = text_state st1" using s(4) t(4) by simp
  show ?thesis
    unfolding after_member_def m_after_member_def
    using t(1,2) s(1,2) step_failed [OF m_recover_went(2) [OF t(3)]] c
    by (auto simp: e went_def step_went_def simp flip: t(4) split: prod.splits)
qed

lemma m_after_element_went:
  assumes "m_alive cc st"
  shows "same_res (step_went st) (Inr (after_element f (text_state st))) (m_after_element f cc st)"
proof -
  obtain ok0 tok0 st0 where t: "read_token f (m_current st) = (ok0, tok0, m_current st0)"
    "m_read_token f cc st = Inr (ok0, tok0, st0)" "calm st st0"
    "text_state st0 = (text_state st)\<lparr>r_current := m_current st0\<rparr>"
    using m_read_token_mirror [OF assms(1)] by blast
  obtain ok tok st1 where s: "skip_comments f ok0 tok0 (m_current st0) = (ok, tok, m_current st1)"
    "m_skip_comments f cc ok0 tok0 st0 = Inr (ok, tok, st1)" "calm st0 st1"
    "text_state st1 = (text_state st0)\<lparr>r_current := m_current st1\<rparr>"
    using m_skip_comments_mirror [OF calm_alive [OF t(3)]] by blast
  have c: "calm st st1" using calm_trans [OF t(3) s(3)] .
  have e: "(text_state st)\<lparr>r_current := m_current st1\<rparr> = text_state st1" using s(4) t(4) by simp
  show ?thesis
    unfolding after_element_def m_after_element_def
    using t(1,2) s(1,2) step_failed [OF m_recover_went(2) [OF c]] c
    by (auto simp: e went_def step_went_def split: prod.splits)
qed

section \<open>Values\<close>

lemma put_value_same: "h v = h w \<Longrightarrow> h (put_value b tok x v) = h (put_value b tok x w)"
  unfolding put_value_def by (intro limit start payload)

lemma read_leaf_same:
  assumes "h v = h w"
  shows "same_res (\<lambda>(ok, v', s) (ok', w', s'). ok' = ok \<and> s' = s \<and> h w' = h v')
    (read_leaf f b tok v s) (read_leaf f b tok w s)"
  using assms put_value_same [OF assms, of b tok]
  by (auto simp: read_leaf_def decode_into_def decode_string_def drop_null_def value_error_def Let_def
      intro!: same_res_bind_eq limit start payload split: sum.splits option.splits)

definition wrote :: "path \<Rightarrow> mstate \<Rightarrow> bool \<times> json \<times> rstate \<Rightarrow> bool \<times> mstate \<Rightarrow> bool" where
  "wrote p st r m \<longleftrightarrow>
     (case r of (ok, v, s) \<Rightarrow> case m of (ok', st') \<Rightarrow>
        ok' = ok \<and> text_state st' = s \<and> m_alive cc st' \<and> h (m_root st') = put_at p (h v) (h (m_root st)))"

lemma wrote_simps [simp]:
  "wrote p st (ok, v, s) (ok', st') \<longleftrightarrow>
     ok' = ok \<and> text_state st' = s \<and> m_alive cc st' \<and> h (m_root st') = put_at p (h v) (h (m_root st))"
  by (simp add: wrote_def)

lemma wrote_calm: "calm st st1 \<Longrightarrow> wrote p st1 r m \<Longrightarrow> wrote p st r m"
  by (auto simp: wrote_def calm_def)

lemma wrote_calm_res: "calm st st1 \<Longrightarrow> same_res (wrote p st1) r m \<Longrightarrow> same_res (wrote p st) r m"
  by (erule sum.rel_mono_strong) (auto intro: wrote_calm)

lemma wrote_set: "wrote p (m_set p w st) r m \<Longrightarrow> wrote p st r m"
  by (auto simp: wrote_def)

lemma wrote_then: "h (m_root st1) = put_at p x (h (m_root st)) \<Longrightarrow> wrote p st1 r m \<Longrightarrow> wrote p st r m"
  by (auto simp: wrote_def)

lemma put_valid: "h (m_root st1) = put_at p x r \<Longrightarrow> valid_path p (m_root st1)"
  by (metis valid valid_at_put)

definition value_went :: "path \<Rightarrow> mstate \<Rightarrow> bool \<times> json \<times> rstate \<Rightarrow> bool \<times> mstate \<Rightarrow> bool" where
  "value_went p st r m \<longleftrightarrow> wrote p st r m \<and> (fst r \<longrightarrow> m_last (snd m) = (if cc then Some p else None))"

lemma m_value_read_went:
  "wrote p st (ok, v, s) (ok', st') \<Longrightarrow> value_went p st (ok, v, s) (ok', m_value_read cc p st')"
  using put_valid [of st' p "h v" "h (m_root st)"]
  unfolding value_went_def wrote_simps m_value_read_def m_alive_def by (auto simp: text_state_def)

lemma m_read_leaf_went:
  assumes "m_alive cc st" "valid_path p (m_root st)" "m_free p st" "h (m_value p st) = h cur"
  shows "same_res (value_went p st) (read_leaf f b tok cur (text_state st)) (m_read_leaf f cc b tok p st)"
proof -
  have s: "\<lparr>r_current = m_current st, r_errors = m_errors st\<rparr> = text_state st" by (simp add: text_state_def)
  have wr: "wrote p st (ok, v, r) (ok, (m_set p w st)\<lparr>m_current := r_current r, m_errors := r_errors r\<rparr>)"
    if "h w = h v" for ok v w r
    using that m_set_alive [OF assms(1-3), of w] by (simp add: text_state_def m_alive_def)
  have d: "ok = False" if "default_case f (tok_type tok)" "read_leaf f b tok cur (text_state st) = Inr (ok, v, r)" for ok v r
    using that by (auto simp: default_case_def read_leaf_def value_error_def Let_def split: if_splits)
  show ?thesis
  proof (cases "read_leaf f b tok cur (text_state st)")
    case (Inl e)
    then show ?thesis
      using read_leaf_same [OF assms(4), of f b tok "text_state st"]
      by (cases "read_leaf f b tok (m_value p st) (text_state st)") (simp_all add: m_read_leaf_def s)
  next
    case (Inr x)
    obtain ok v r where x: "x = (ok, v, r)" by (cases x)
    obtain w where l: "read_leaf f b tok (m_value p st) (text_state st) = Inr (ok, w, r)" "h w = h v"
      using read_leaf_same [OF assms(4), of f b tok "text_state st"] Inr x
      by (cases "read_leaf f b tok (m_value p st) (text_state st)") auto
    show ?thesis
    proof (cases "default_case f (tok_type tok)")
      case True
      then have "value_went p st (ok, v, r) (ok, (m_set p w st)\<lparr>m_current := r_current r, m_errors := r_errors r\<rparr>)"
        using d [OF True, of ok v r] Inr x wr [OF l(2)] by (simp add: value_went_def)
      then show ?thesis using True Inr x l by (simp add: m_read_leaf_def s Let_def)
    next
      case False
      then show ?thesis
        using m_value_read_went [OF wr [OF l(2), of ok r]] Inr x l by (simp add: m_read_leaf_def s Let_def)
    qed
  qed
qed

lemma m_comment_before_calm:
  assumes "m_alive cc st" "valid_path p (m_root st)"
  shows "\<exists>st'. m_comment_before cc p st = Inr st' \<and> calm st st' \<and> text_state st' = text_state st"
proof (cases "cc \<and> m_before st \<noteq> []")
  case True
  then have "slash_text (m_before st)" using assms(1) by (simp add: m_alive_def)
  then obtain c where "set_comment (m_value p st) (m_before st) commentBefore =
      Inr (set_meta ((meta (m_value p st))\<lparr>v_comments := c\<rparr>) (m_value p st))"
    using set_comment_slash by blast
  then show ?thesis
    using True calm_before [OF comment_calm [OF assms, of c]] by (simp add: m_comment_before_def)
next
  case False
  then show ?thesis using calm_refl [OF assms(1)] by (auto simp: m_comment_before_def)
qed

section \<open>Children\<close>

definition loop_ready :: "path \<Rightarrow> mstate \<Rightarrow> json \<Rightarrow> bool" where
  "loop_ready p st v \<longleftrightarrow> m_alive cc st \<and> valid_path p (m_root st) \<and> m_near p st \<and> h (m_value p st) = h v"

definition value_mirror :: "features \<Rightarrow> loc \<Rightarrow> nat \<Rightarrow> bool" where
  "value_mirror f b n \<longleftrightarrow>
     (\<forall>nodes st cur. m_alive cc st \<longrightarrow> valid_path (hd nodes) (m_root st) \<longrightarrow> m_free (hd nodes) st \<longrightarrow>
        h (m_value (hd nodes) st) = h cur \<longrightarrow>
        same_res (value_went (hd nodes) st) (read_value f b n (length nodes) cur (text_state st))
          (m_read_value f cc b n nodes st))"

definition object_mirror :: "features \<Rightarrow> loc \<Rightarrow> nat \<Rightarrow> bool" where
  "object_mirror f b n \<longleftrightarrow>
     (\<forall>nodes st v nm. loop_ready (hd nodes) st v \<longrightarrow> is_object v \<longrightarrow>
        same_res (wrote (hd nodes) st) (read_object f b n (length nodes) v nm (text_state st))
          (m_object_loop f cc b n nodes nm st))"

definition array_mirror :: "features \<Rightarrow> loc \<Rightarrow> nat \<Rightarrow> bool" where
  "array_mirror f b n \<longleftrightarrow>
     (\<forall>nodes st v i. loop_ready (hd nodes) st v \<longrightarrow> is_array v \<longrightarrow>
        same_res (wrote (hd nodes) st) (read_array f b n (length nodes) v i (text_state st))
          (m_array_loop f cc b n nodes i st))"

definition child_went :: "path \<Rightarrow> mstate \<Rightarrow> vkey \<Rightarrow> json \<Rightarrow> bool \<times> json \<times> rstate \<Rightarrow> bool \<times> mstate \<Rightarrow> bool" where
  "child_went p st k v r m \<longleftrightarrow>
     (case r of (ok, c, s) \<Rightarrow> wrote p st (ok, put_child k c v, s) m \<and> (ok \<longrightarrow> m_near p (snd m)))"

lemma child_mirror:
  assumes v: "value_mirror f b n" and r: "m_alive cc st" "valid_path p (m_root st)" "m_near p st"
    and w: "h w = h v1" "extends (m_value p st) w" "has_child k w"
  shows "same_res (child_went p st k v1) (read_value f b n (Suc (length nodes)) (child k v1) (text_state st))
    (m_read_value f cc b n ((p @ [k]) # nodes) (m_set p w st))"
proof -
  let ?p = "p @ [k]" and ?st = "m_set p w st"
  have "m_alive cc ?st" using m_set_extends_alive [OF r(1,2) w(2)] .
  moreover have "valid_path ?p (m_root ?st)" "m_free ?p ?st"
    using r(3) w(3) by (simp_all add: path_append m_near_def)
  moreover have "h (m_value ?p ?st) = h (child k v1)"
    using w(1) by (simp add: m_value_def path_append)
  ultimately have "same_res (value_went ?p ?st) (read_value f b n (Suc (length nodes)) (child k v1) (text_state st))
    (m_read_value f cc b n (?p # nodes) ?st)"
    using v [unfolded value_mirror_def, rule_format, of ?st "?p # nodes" "child k v1"] by simp
  then show ?thesis
  proof (rule sum.rel_mono_strong)
    fix x :: "bool \<times> json \<times> rstate" and y :: "bool \<times> mstate"
    obtain ok c s st' where x: "x = (ok, c, s)" "y = (fst y, st')" by (metis prod.collapse)
    assume "value_went ?p ?st x y"
    then show "child_went p st k v1 x y"
      using w(1) x by (auto simp: value_went_def child_went_def wrote_def path_append m_near_def m_free_def
          strict_prefix_def split: if_splits prod.splits)
  qed simp
qed

text \<open>The rest of a round of both loops, behind the value.\<close>

lemma round_mirror:
  assumes r: "same_res (child_went p st k v1) r m"
    and after: "\<And>st1. m_alive cc st1 \<Longrightarrow> same_res (step_went st1) (Inr (after (text_state st1))) (m_after st1)"
    and loop: "\<And>c st1. loop_ready p st1 (put_child k c v1) \<Longrightarrow>
      same_res (wrote p st1) (loop (put_child k c v1) (text_state st1)) (m_loop st1)"
  shows "same_res (wrote p st)
    (bind_res r (\<lambda>(ok, c, s2).
       let v2 = put_child k c v1
       in if \<not> ok then Inr (False, v2, recover f ty s2)
          else (case after s2 of (Some ok', s3) \<Rightarrow> Inr (ok', v2, s3) | (None, s3) \<Rightarrow> loop v2 s3)))
    (bind_res m (\<lambda>(ok, st2).
       if \<not> ok then m_recover f cc ty st2
       else bind_res (m_after st2) (\<lambda>r. case r of (Some ok', st3) \<Rightarrow> Inr (ok', st3) | (None, st3) \<Rightarrow> m_loop st3)))"
  using r
proof (rule same_res_bind)
  fix x :: "bool \<times> json \<times> rstate" and y :: "bool \<times> mstate"
  assume "child_went p st k v1 x y"
  then obtain ok c st2 where x: "x = (ok, c, text_state st2)" "y = (ok, st2)" and a: "m_alive cc st2"
    and e: "h (m_root st2) = put_at p (h (put_child k c v1)) (h (m_root st))" and near: "ok \<Longrightarrow> m_near p st2"
    by (cases x; cases y) (auto simp: child_went_def)
  show "same_res (wrote p st)
    (case x of (ok, c, s2) \<Rightarrow>
       let v2 = put_child k c v1
       in if \<not> ok then Inr (False, v2, recover f ty s2)
          else (case after s2 of (Some ok', s3) \<Rightarrow> Inr (ok', v2, s3) | (None, s3) \<Rightarrow> loop v2 s3))
    (case y of (ok, st2) \<Rightarrow>
       if \<not> ok then m_recover f cc ty st2
       else bind_res (m_after st2) (\<lambda>r. case r of (Some ok', st3) \<Rightarrow> Inr (ok', st3) | (None, st3) \<Rightarrow> m_loop st3))"
  proof (cases ok)
    case False
    then show ?thesis
      using x e m_recover_from_error_mirror [OF a, of f ty] by (auto simp: m_recover_def calm_def)
  next
    case True
    obtain o3 st3 where o3: "m_after st2 = Inr (o3, st3)" "after (text_state st2) = (o3, text_state st3)" "calm st2 st3"
      using after [OF a] by (cases "m_after st2") (auto simp: step_went_def went_def prod_eq_iff)
    show ?thesis
    proof (cases o3)
      case None
      have e3: "h (m_root st3) = put_at p (h (put_child k c v1)) (h (m_root st))" using e o3(3) by (simp add: calm_def)
      have "loop_ready p st3 (put_child k c v1)"
        using calm_alive [OF o3(3)] calm_last(2) [OF o3(3)] near [OF True] put_valid [OF e3] e3
        by (simp add: loop_ready_def m_value_def)
      from loop [OF this] have "same_res (wrote p st) (loop (put_child k c v1) (text_state st3)) (m_loop st3)"
        by (rule sum.rel_mono_strong) (auto intro: wrote_then [OF e3])
      then show ?thesis using x o3 True None by simp
    next
      case (Some q)
      then show ?thesis using x o3 True e by (simp add: calm_def)
    qed
  qed
qed

section \<open>All runs\<close>

lemma object_entry:
  assumes e: "h (m_value p st) = h v" and v: "is_object v"
  shows "\<exists>w w'. resolve_reference v nm = Inr w \<and> resolve_reference (m_value p st) nm = Inr w' \<and> h w' = h w \<and>
    extends (m_value p st) w' \<and> has_child (KName (czstring nm)) w'"
proof -
  have m: "is_object (m_value p st)"
    using v containers(2) [of v] containers(2) [of "m_value p st"] by (simp add: e del: containers)
  obtain w where w: "resolve_reference v nm = Inr w"
    using object_ops_no_exn(1) v by (auto simp: is_object_def)
  from resolve_reference_same [OF w v m e] show ?thesis using w resolve_reference_entry(1,2) [OF _ m] by blast
qed

lemma array_entry:
  assumes e: "h (m_value p st) = h v" and v: "is_array v" and i: "0 \<le> sint i"
  shows "\<exists>w w'. index_ref_int v i = Inr w \<and> index_ref_int (m_value p st) i = Inr w' \<and> h w' = h w \<and>
    extends (m_value p st) w' \<and> has_child (KIndex i) w'"
proof -
  have m: "is_array (m_value p st)"
    using v containers(1) [of v] containers(1) [of "m_value p st"] by (simp add: e del: containers)
  obtain w where w: "index_ref_int v i = Inr w"
    using index_ref_int_no_exn [OF _ i] v by (auto simp: is_array_def)
  from index_ref_int_same [OF w v m e] show ?thesis using w index_ref_int_entry(1,2) [OF _ m] by blast
qed

lemma member_child:
  "member_get v nm = child (KName (czstring nm)) v" "member_put v nm c = put_child (KName (czstring nm)) c v"
  "index_get v i = child (KIndex i) v" "index_put v i c = put_child (KIndex i) c v"
  by (simp_all add: member_get_def member_put_def)

lemma put_child_container:
  "is_object (put_child (KName k) c v)" "is_array (put_child (KIndex i) c v)"
  by (simp_all add: is_object_def is_array_def index_put_def)

lemma object_mirrorD:
  "object_mirror f b n \<Longrightarrow> loop_ready (hd nodes) st v \<Longrightarrow> is_object v \<Longrightarrow>
   same_res (wrote (hd nodes) st) (read_object f b n (length nodes) v nm (text_state st))
     (m_object_loop f cc b n nodes nm st)"
  by (simp add: object_mirror_def)

lemma array_mirrorD:
  "array_mirror f b n \<Longrightarrow> loop_ready (hd nodes) st v \<Longrightarrow> is_array v \<Longrightarrow>
   same_res (wrote (hd nodes) st) (read_array f b n (length nodes) v i (text_state st))
     (m_array_loop f cc b n nodes i st)"
  by (simp add: array_mirror_def)

lemma loop_ready_calm: "loop_ready p st v \<Longrightarrow> calm st st1 \<Longrightarrow> loop_ready p st1 v"
  using calm_alive [of st st1] calm_valid [of st st1] calm_last(2) [of st st1] calm_value [of st st1]
  by (simp add: loop_ready_def)

lemma object_mirror_Suc:
  assumes v: "value_mirror f b n" and o: "object_mirror f b n"
  shows "object_mirror f b (Suc n)"
  unfolding object_mirror_def
proof (intro allI impI)
  fix nodes :: "path list" and st v nm
  let ?p = "hd nodes"
  assume r: "loop_ready ?p st v" and obj: "is_object v"
  have k: "same_res (key_went st) (object_key f v nm (text_state st)) (m_object_key f cc ?p nm st)"
    using m_object_key_went r obj by (simp add: loop_ready_def)
  show "same_res (wrote ?p st) (read_object f b (Suc n) (length nodes) v nm (text_state st))
      (m_object_loop f cc b (Suc n) nodes nm st)"
  proof (cases "object_key f v nm (text_state st)")
    case (Inl e)
    then show ?thesis
      using k by (cases "m_object_key f cc ?p nm st") (simp_all add: read_object.simps m_object_loop.simps)
  next
    case (Inr ks)
    then obtain mk where mk: "m_object_key f cc ?p nm st = Inr mk" "key_went st ks mk"
      using k by (cases "m_object_key f cc ?p nm st") simp_all
    show ?thesis
    proof (cases ks)
      case (KeyEnd ok s)
      then obtain st1 where "mk = MKeyEnd ok st1" "went st s st1" using mk by (auto simp: key_went_def)
      then show ?thesis
        using Inr KeyEnd mk(1) r put_at_same [of ?p "h (m_root st)"]
        by (simp add: read_object.simps m_object_loop.simps) (simp add: went_def calm_def loop_ready_def m_value_def valid)
    next
      case (KeyMember nm' s)
      then obtain st1 where st1: "mk = MKeyMember nm' st1" "text_state st1 = s" and c: "calm st st1"
        using mk by (auto simp: key_went_def went_def)
      have l: "m_alive cc st1" "valid_path ?p (m_root st1)" "m_near ?p st1" "h (m_value ?p st1) = h v"
        using loop_ready_calm [OF r c] by (simp_all add: loop_ready_def)
      obtain w w' where w: "resolve_reference v nm' = Inr w" "resolve_reference (m_value ?p st1) nm' = Inr w'" "h w' = h w"
        "extends (m_value ?p st1) w'" "has_child (KName (czstring nm')) w'"
        using object_entry [OF l(4) obj] by blast
      note rd = round_mirror [where ty = tokenObjectEnd and f = f and after = "after_member f" and m_after = "m_after_member f cc"
          and loop = "\<lambda>v s. read_object f b n (length nodes) v nm' s" and m_loop = "m_object_loop f cc b n nodes nm'",
          OF child_mirror [OF v l(1-3) w(3-5)] m_after_member_went object_mirrorD [OF o _ put_child_container(1)]]
      show ?thesis
        using wrote_calm_res [OF c rd] Inr KeyMember mk(1) st1 w(1,2)
        by (simp add: member_child read_object.simps m_object_loop.simps
            del: Json_Pointer.child.simps put_child.simps)
    qed
  qed
qed

lemma array_mirror_Suc:
  assumes v: "value_mirror f b n" and a: "array_mirror f b n"
  shows "array_mirror f b (Suc n)"
  unfolding array_mirror_def
proof (intro allI impI)
  fix nodes :: "path list" and st :: mstate and v i
  let ?p = "hd nodes" and ?st = "st\<lparr>m_current := skip_spaces (m_current st)\<rparr>"
  assume r: "loop_ready ?p st v" and arr: "is_array v"
  have c: "calm st ?st" using r by (simp add: loop_ready_def calm_current)
  have l: "m_alive cc ?st" "valid_path ?p (m_root ?st)" "m_near ?p ?st" "h (m_value ?p ?st) = h v"
    using loop_ready_calm [OF r c] unfolding loop_ready_def by blast+
  have s: "(text_state st)\<lparr>r_current := skip_spaces (m_current st)\<rparr> = text_state ?st" by simp
  show "same_res (wrote ?p st) (read_array f b (Suc n) (length nodes) v i (text_state st))
      (m_array_loop f cc b (Suc n) nodes i st)"
  proof (cases "array_ends f i (m_current ?st)")
    case True
    obtain ok tok st1 where t: "read_token f (m_current ?st) = (ok, tok, m_current st1)"
      "m_read_token f cc ?st = Inr (ok, tok, st1)" "calm ?st st1"
      "text_state st1 = (text_state ?st)\<lparr>r_current := m_current st1\<rparr>"
      using m_read_token_mirror [OF l(1)] by blast
    then show ?thesis
      using True calm_trans [OF c t(3)] r put_at_same [of ?p "h (m_root st)"]
      by (simp add: read_array.simps m_array_loop.simps Let_def) (simp add: calm_def loop_ready_def m_value_def valid)
  next
    case False
    show ?thesis
    proof (cases "0 \<le> sint i")
      case True
      obtain w w' where w: "index_ref_int v i = Inr w" "index_ref_int (m_value ?p ?st) i = Inr w'" "h w' = h w"
        "extends (m_value ?p ?st) w'" "has_child (KIndex i) w'"
        using array_entry [OF l(4) arr True] by blast
      note rd = round_mirror [where ty = tokenArrayEnd and f = f and after = "after_element f" and m_after = "m_after_element f cc"
          and loop = "\<lambda>v s. read_array f b n (length nodes) v (i + 1) s" and m_loop = "m_array_loop f cc b n nodes (i + 1)",
          OF child_mirror [OF v l(1-3) w(3-5)] m_after_element_went array_mirrorD [OF a _ put_child_container(2)]]
      show ?thesis
        using wrote_calm_res [OF c rd] False w(1,2)
        by (simp add: member_child read_array.simps m_array_loop.simps Let_def
            del: Json_Pointer.child.simps put_child.simps)
    next
      case neg: False
      then show ?thesis
        using False by (simp add: read_array.simps m_array_loop.simps index_ref_int_def json_assert_def Let_def)
    qed
  qed
qed

lemma container_went:
  assumes "m_alive cc st" "valid_path p (m_root st)" "m_free p st" "h (m_value p st) = h cur"
  shows "loop_ready p (m_container b tok ty p st) (init_container b tok ty cur)"
    "text_state (m_container b tok ty p st) = text_state st"
    "wrote p (m_container b tok ty p st) r m \<Longrightarrow> wrote p st r m"
  using m_set_alive [OF assms(1-3)] m_free_near [OF assms(3)] start [OF payload [OF assms(4)]]
  by (auto simp: m_container_def init_container_def loop_ready_def intro: wrote_set)

lemma container_end_went:
  assumes "wrote p st (ok, v, s) m"
  shows "same_res (value_went p st) (Inr (ok, set_offset_limit (offset b (r_current s)) v, s))
    (m_container_end b cc p m)"
proof -
  obtain st1 where m: "m = (ok, st1)" and w: "text_state st1 = s" "m_alive cc st1"
    "h (m_root st1) = put_at p (h v) (h (m_root st))"
    using assms by (cases m) auto
  let ?n = "offset b (m_current st1)"
  have "h (m_value p st1) = h v" using w(3) by (simp add: m_value_def)
  then have "h (set_offset_limit ?n (m_value p st1)) = h (set_offset_limit ?n v)" by (rule limit)
  moreover have "m_alive cc (m_set p (set_offset_limit ?n (m_value p st1)) st1)"
    using m_set_extends_alive [OF w(2) put_valid [OF w(3)]] extends_set_meta by (simp add: set_offset_limit_def)
  ultimately have "wrote p st (ok, set_offset_limit ?n v, s) (ok, m_set p (set_offset_limit ?n (m_value p st1)) st1)"
    using w by simp
  from m_value_read_went [OF this] show ?thesis
    using m by (simp add: m_container_end_def flip: w(1))
qed

lemma value_mirror_Suc:
  assumes o: "object_mirror f b n" and a: "array_mirror f b n"
  shows "value_mirror f b (Suc n)"
  unfolding value_mirror_def
proof (intro allI impI)
  fix nodes :: "path list" and st :: mstate and cur
  let ?p = "hd nodes"
  assume al: "m_alive cc st" and vp: "valid_path ?p (m_root st)" and fr: "m_free ?p st" and hv: "h (m_value ?p st) = h cur"
  obtain tok st0 where t: "skip_comment_tokens f (m_current st) = (tok, m_current st0)"
    "m_skip_comment_tokens f cc st = Inr (tok, st0)" "calm st st0"
    "text_state st0 = (text_state st)\<lparr>r_current := m_current st0\<rparr>"
    using m_skip_comment_tokens_mirror [OF al] by blast
  obtain st1 where c1: "m_comment_before cc ?p st0 = Inr st1" "calm st0 st1" "text_state st1 = text_state st0"
    using m_comment_before_calm [OF calm_alive [OF t(3)]] calm_valid [OF t(3)] vp by blast
  have c: "calm st st1" using calm_trans [OF t(3) c1(2)] .
  have s: "(text_state st)\<lparr>r_current := m_current st0\<rparr> = text_state st1" using t(4) c1(3) by simp
  have l: "m_alive cc st1" "valid_path ?p (m_root st1)" "m_free ?p st1" "h (m_value ?p st1) = h cur"
    using calm_alive [OF c] calm_valid [OF c] calm_last(1) [OF c] calm_value [OF c] vp fr hv by simp_all
  note k = container_went [OF l]
  have fin: "same_res (value_went ?p st)
      (bind_res r (\<lambda>(ok, v, st2). Inr (ok, set_offset_limit (offset b (r_current st2)) v, st2)))
      (bind_res m (m_container_end b cc ?p))"
    if "same_res (wrote ?p (m_container b tok ty ?p st1)) r m" for r m ty
    using that
  proof (rule same_res_bind)
    fix x y
    assume "wrote ?p (m_container b tok ty ?p st1) x y"
    then have "wrote ?p st x y" using k(3) wrote_calm [OF c] by blast
    then show "same_res (value_went ?p st) (case x of (ok, v, st2) \<Rightarrow>
        Inr (ok, set_offset_limit (offset b (r_current st2)) v, st2)) (m_container_end b cc ?p y)"
      by (cases x) (simp add: container_end_went)
  qed
  have leaf: "same_res (value_went ?p st) (read_leaf f b tok cur (text_state st1)) (m_read_leaf f cc b tok ?p st1)"
    using m_read_leaf_went [OF l] by (rule sum.rel_mono_strong) (auto simp: value_went_def intro: wrote_calm [OF c])
  have obj: "is_object (init_container b tok objectValue cur)" "is_array (init_container b tok arrayValue cur)"
    by (simp_all add: is_object_def is_array_def init_container_def swap_payload_def set_offset_start_def)
  show "same_res (value_went ?p st) (read_value f b (Suc n) (length nodes) cur (text_state st))
      (m_read_value f cc b (Suc n) nodes st)"
    using t(1,2) c1(1) leaf fin [OF object_mirrorD [OF o k(1) obj(1)]] fin [OF array_mirrorD [OF a k(1) obj(2)]]
    by (simp add: read_value.simps m_read_value.simps s k(2))
qed

lemma all_mirror: "value_mirror f b n \<and> object_mirror f b n \<and> array_mirror f b n"
proof (induction n)
  case 0
  show ?case
    by (simp add: value_mirror_def object_mirror_def array_mirror_def read_value.simps read_object.simps
        read_array.simps m_read_value.simps m_object_loop.simps m_array_loop.simps)
next
  case (Suc n)
  then show ?case by (simp add: value_mirror_Suc object_mirror_Suc array_mirror_Suc)
qed

section \<open>Whole documents\<close>

lemma m_parse_mirror:
  assumes "(collect \<and> allowComments f) = cc"
  shows "same_res (\<lambda>(ok, v, errs) (ok', v', errs'). ok' = ok \<and> errs' = errs \<and> h v' = h v)
    (parse f doc rt) (m_parse f collect doc rt)"
proof -
  let ?b = "skip_bom (skipBom f) doc"
  let ?st = "\<lparr>m_root = rt, m_current = ?b, m_errors = [], m_last_end = None, m_last = None,
      m_has_comment = False, m_before = []\<rparr>"
  have t: "text_state ?st = \<lparr>r_current = ?b, r_errors = []\<rparr>" by (simp add: text_state_def)
  have "same_res (value_went [] ?st) (read_value f ?b (parse_fuel ?b) 1 rt (text_state ?st))
      (m_read_value f cc ?b (parse_fuel ?b) [[]] ?st)"
    using all_mirror [of f ?b "parse_fuel ?b", THEN conjunct1, unfolded value_mirror_def, rule_format, of ?st "[[]]" rt]
    by (simp add: m_alive_def m_free_def m_value_def)
  then show ?thesis
    unfolding parse_def m_parse_def assms Let_def t
  proof (rule same_res_bind)
    fix x :: "bool \<times> json \<times> rstate" and y :: "bool \<times> mstate"
    assume "value_went [] ?st x y"
    then obtain ok v st1 where x: "x = (ok, v, text_state st1)" "y = (ok, st1)" and a: "m_alive cc st1" "h (m_root st1) = h v"
      by (cases x; cases y) (auto simp: value_went_def)
    obtain tok st2 where k: "skip_comment_tokens f (m_current st1) = (tok, m_current st2)"
      "m_skip_comment_tokens f cc st1 = Inr (tok, st2)" "calm st1 st2"
      "text_state st2 = (text_state st1)\<lparr>r_current := m_current st2\<rparr>"
      using m_skip_comment_tokens_mirror [OF a(1)] by blast
    have e: "m_errors st2 = m_errors st1" using arg_cong [OF k(4), of r_errors] by simp
    have h2: "h (m_root st2) = h v" using k(3) a(2) by (simp add: calm_def)
    obtain w where w: "(if cc \<and> m_before st2 \<noteq> [] then set_comment (m_root st2) (m_before st2) commentAfter
        else Inr (m_root st2)) = Inr w" "h w = h v"
    proof (cases "cc \<and> m_before st2 \<noteq> []")
      case True
      then have "slash_text (m_before st2)" using calm_alive [OF k(3)] by (simp add: m_alive_def)
      then show thesis using that True set_comment_slash [of "m_before st2" "m_root st2" commentAfter] comment_lost h2 by force
    qed (use that h2 in auto)
    have c: "is_array w = is_array v" "is_object w = is_object v" using w(2) containers by metis+
    show "same_res (\<lambda>(ok, v, errs) (ok', v', errs'). ok' = ok \<and> errs' = errs \<and> h v' = h v)
      (case x of (successful, v, st) \<Rightarrow>
             case skip_comment_tokens f (r_current st) of (tok, c) \<Rightarrow>
               if failIfExtra f \<and> tok_type tok \<noteq> tokenEndOfStream
               then Inr (False, v, r_errors st @
                           [error_info ''Extra non-whitespace after JSON value.'' tok])
               else if strictRoot f \<and> \<not> is_array v \<and> \<not> is_object v
               then Inr (False, v, r_errors st @
                           [error_info
                             ''A valid JSON document must be either an array or an object value.''
                             \<lparr>tok_type = tokenError, tok_start = doc, tok_end = []\<rparr>])
               else Inr (successful, v, r_errors st))
      (case y of (successful, st) \<Rightarrow>
         bind_res (m_skip_comment_tokens f cc st) (\<lambda>(tok, st1).
           if failIfExtra f \<and> tok_type tok \<noteq> tokenEndOfStream
           then Inr (False, m_root st1, m_errors st1 @
                       [error_info ''Extra non-whitespace after JSON value.'' tok])
           else
             bind_res (if cc \<and> m_before st1 \<noteq> [] then set_comment (m_root st1) (m_before st1) commentAfter
                       else Inr (m_root st1)) (\<lambda>v.
               if strictRoot f \<and> \<not> is_array v \<and> \<not> is_object v
               then Inr (False, v, m_errors st1 @
                           [error_info ''A valid JSON document must be either an array or an object value.''
                              \<lparr>tok_type = tokenError, tok_start = doc, tok_end = []\<rparr>])
               else Inr (successful, v, m_errors st1))))"
      using x k(1,2) e h2 w c by simp
  qed
qed

end

section \<open>What the comments are\<close>

fun uncommented :: "json \<Rightarrow> json" where
  \<comment> \<open>the value without its comments\<close>
  "uncommented (JArr a m) = JArr (a\<lparr>v_comments := None\<rparr>) (map_snd uncommented m)"
| "uncommented (JObj a m) = JObj (a\<lparr>v_comments := None\<rparr>) (map_snd uncommented m)"
| "uncommented v = set_meta ((meta v)\<lparr>v_comments := None\<rparr>) v"

lemma uncommented_set_meta: "uncommented (set_meta m v) = set_meta (m\<lparr>v_comments := None\<rparr>) (uncommented v)"
  by (cases v) simp_all

lemma meta_uncommented [simp]: "meta (uncommented v) = (meta v)\<lparr>v_comments := None\<rparr>"
  by (cases v) simp_all

lemma uncommented_same:
  "uncommented v = uncommented w \<Longrightarrow> (meta v)\<lparr>v_comments := None\<rparr> = (meta w)\<lparr>v_comments := None\<rparr>"
  by (metis meta_uncommented)

interpretation comments: mirror uncommented "\<lambda>m. m\<lparr>v_comments := None\<rparr>" cc for cc
proof
  fix v w :: json and x m c
  show "type_of v \<noteq> arrayValue \<Longrightarrow> type_of v \<noteq> objectValue \<Longrightarrow> type_of (uncommented v) \<noteq> arrayValue \<and>
      type_of (uncommented v) \<noteq> objectValue \<and> meta (uncommented v) = (meta v)\<lparr>v_comments := None\<rparr>"
    by (cases v) auto
  show "uncommented (set_meta ((meta v)\<lparr>v_comments := c\<rparr>) v) = uncommented v"
    by (simp add: uncommented_set_meta flip: meta_uncommented)
  assume e: "uncommented v = uncommented w"
  note uncommented_same [OF e]
  then show "uncommented (fst (swap_payload v x)) = uncommented (fst (swap_payload w x))"
    by (simp add: swap_payload_def uncommented_set_meta)
  have "uncommented (set_meta ((meta u)\<lparr>v_start := n\<rparr>) u) =
      set_meta ((meta (uncommented u))\<lparr>v_start := n\<rparr>) (uncommented u)"
    "uncommented (set_meta ((meta u)\<lparr>v_limit := n\<rparr>) u) =
      set_meta ((meta (uncommented u))\<lparr>v_limit := n\<rparr>) (uncommented u)" for u n
    by (cases "meta u"; simp add: uncommented_set_meta)+
  then show "uncommented (set_offset_start n v) = uncommented (set_offset_start n w)" 
    "uncommented (set_offset_limit n v) = uncommented (set_offset_limit n w)" for n
    unfolding set_offset_start_def set_offset_limit_def by (simp_all del: meta_uncommented add: e)
qed (simp_all add: meta0_def)

lemma plain_mirror: "mirror (\<lambda>v. v) (\<lambda>m. m) False"
  \<comment> \<open>no interpretation: its simplification rules would be trivial\<close>
  by unfold_locales (simp_all add: map_snd_def)

lemma m_parse_uncommented:
  "case parse f doc rt of
     Inl e \<Rightarrow> m_parse f collect doc rt = Inl e
   | Inr (ok, v, errs) \<Rightarrow> \<exists>v'. m_parse f collect doc rt = Inr (ok, v', errs) \<and> uncommented v' = uncommented v"
  using comments.m_parse_mirror [OF refl, of f doc rt collect]
  by (cases "parse f doc rt"; cases "m_parse f collect doc rt") (auto split: prod.splits)

lemma m_parse_plain: "m_parse f False doc rt = parse f doc rt"
  using mirror.m_parse_mirror [OF plain_mirror, of False f doc rt]
  by (cases "parse f doc rt"; cases "m_parse f False doc rt") auto

lemma m_char_reader_parse_plain: "m_char_reader_parse f False doc rt = char_reader_parse f doc rt"
  by (simp add: m_char_reader_parse_def char_reader_parse_def m_parse_plain)

end
