(* ===== verification/Json_Builder.thy ===== *)
theory Json_Builder
  imports Json_Comments_Facts
begin

text \<open>
  \<^verbatim>\<open>Json::CharReaderBuilder\<close> and \<^verbatim>\<open>parseFromStream\<close> (src/json_reader.cc): the settings, kept as
  a JSON object, become the features of the reader. The settings of the service are the
  defaults with \<^verbatim>\<open>collectComments\<close> off; the lemmas compute the reader they give.
\<close>

section \<open>Settings\<close>

definition put_settings :: "(string \<times> json) list \<Rightarrow> json \<Rightarrow> json res" where
  \<comment> \<open>assignments \<^verbatim>\<open>(*settings)["..."] = ...;\<close> one after the other\<close>
  "put_settings kvs settings =
     fold (\<lambda>(k, v) s. bind_res s (\<lambda>s'. set_member s' k v)) kvs (Inr settings)"

definition strict_mode :: "json \<Rightarrow> json res" where
  "strict_mode settings =
     put_settings
       [(''allowComments'', mk_bool False),
        (''allowTrailingCommas'', mk_bool False),
        (''strictRoot'', mk_bool True),
        (''allowDroppedNullPlaceholders'', mk_bool False),
        (''allowNumericKeys'', mk_bool False),
        (''allowSingleQuotes'', mk_bool False),
        (''stackLimit'', mk_int 1000),
        (''failIfExtra'', mk_bool True),
        (''rejectDupKeys'', mk_bool True),
        (''allowSpecialFloats'', mk_bool False),
        (''skipBom'', mk_bool True)] settings"

definition set_defaults :: "json \<Rightarrow> json res" where
  "set_defaults settings =
     put_settings
       [(''collectComments'', mk_bool True),
        (''allowComments'', mk_bool True),
        (''allowTrailingCommas'', mk_bool True),
        (''strictRoot'', mk_bool False),
        (''allowDroppedNullPlaceholders'', mk_bool False),
        (''allowNumericKeys'', mk_bool False),
        (''allowSingleQuotes'', mk_bool False),
        (''stackLimit'', mk_int 1000),
        (''failIfExtra'', mk_bool False),
        (''rejectDupKeys'', mk_bool False),
        (''allowSpecialFloats'', mk_bool False),
        (''skipBom'', mk_bool True)] settings"

definition char_reader_builder :: "json res" where
  \<comment> \<open>\<^verbatim>\<open>CharReaderBuilder::CharReaderBuilder()\<close>\<close>
  "char_reader_builder = set_defaults null_singleton"

definition setting_bool :: "json \<Rightarrow> string \<Rightarrow> bool res" where
  "setting_bool settings key = bind_res (member_const_cstr settings key) as_bool"

definition new_char_reader :: "json \<Rightarrow> (bool \<times> features) res" where
  \<comment> \<open>\<^verbatim>\<open>newCharReader()\<close>: \<^verbatim>\<open>collectComments_\<close> and the features of the reader\<close>
  "new_char_reader s =
     bind_res (setting_bool s ''collectComments'') (\<lambda>collectComments.
     bind_res (setting_bool s ''allowComments'') (\<lambda>comments.
     bind_res (setting_bool s ''allowTrailingCommas'') (\<lambda>trailing.
     bind_res (setting_bool s ''strictRoot'') (\<lambda>strict.
     bind_res (setting_bool s ''allowDroppedNullPlaceholders'') (\<lambda>dropped.
     bind_res (setting_bool s ''allowNumericKeys'') (\<lambda>numeric.
     bind_res (setting_bool s ''allowSingleQuotes'') (\<lambda>single.
     bind_res (bind_res (member_const_cstr s ''stackLimit'') as_uint) (\<lambda>limit.
     bind_res (setting_bool s ''failIfExtra'') (\<lambda>extra.
     bind_res (setting_bool s ''rejectDupKeys'') (\<lambda>dup.
     bind_res (setting_bool s ''allowSpecialFloats'') (\<lambda>floats.
     bind_res (setting_bool s ''skipBom'') (\<lambda>bom.
       Inr (collectComments,
         \<lparr>allowComments = comments, allowTrailingCommas = trailing, strictRoot = strict,
          allowDroppedNullPlaceholders = dropped, allowNumericKeys = numeric,
          allowSingleQuotes = single, failIfExtra = extra, rejectDupKeys = dup,
          allowSpecialFloats = floats, skipBom = bom, stackLimit = unat limit\<rparr>)))))))))))))"

definition valid_keys :: "string list" where
  "valid_keys =
     [''collectComments'', ''allowComments'', ''allowTrailingCommas'', ''strictRoot'',
      ''allowDroppedNullPlaceholders'', ''allowNumericKeys'', ''allowSingleQuotes'',
      ''stackLimit'', ''failIfExtra'', ''rejectDupKeys'', ''allowSpecialFloats'', ''skipBom'']"

fun validate_loop :: "(vkey \<times> json) list \<Rightarrow> json option \<Rightarrow> (bool \<times> json option) res" where
  \<comment> \<open>the loop over the settings; \<open>Inr (False, _)\<close> is the \<^verbatim>\<open>return false\<close> in it\<close>
  "validate_loop [] invalid = Inr (True, invalid)"
| "validate_loop ((k, v) # r) invalid =
     (let key = key_name k
      in if key \<in> set valid_keys then validate_loop r invalid
         else (case invalid of
                 None \<Rightarrow> Inr (False, None)
               | Some bad \<Rightarrow>
                   bind_res (member_ref bad key) (\<lambda>bad'.
                     validate_loop r (Some (member_put bad' key v)))))"

definition validate :: "json \<Rightarrow> json option \<Rightarrow> (bool \<times> json option) res" where
  \<comment> \<open>\<^verbatim>\<open>validate(invalid)\<close>: the result and \<^verbatim>\<open>*invalid\<close>, None the null pointer\<close>
  "validate settings invalid =
     bind_res (validate_loop (value_entries settings) invalid) (\<lambda>(go_on, bad).
       Inr (go_on \<and> (case bad of None \<Rightarrow> True | Some i \<Rightarrow> is_empty_value i), bad))"

definition builder_put :: "json \<Rightarrow> string \<Rightarrow> json \<Rightarrow> json res" where
  \<comment> \<open>\<^verbatim>\<open>builder[key] = v\<close>\<close>
  "builder_put settings key v =
     bind_res (member_ref settings key) (\<lambda>s. Inr (member_put s key v))"

section \<open>Parsing a stream\<close>

definition parse_from_stream :: "json \<Rightarrow> string \<Rightarrow> json \<Rightarrow> (bool \<times> json \<times> string) res" where
  \<comment> \<open>the stream is what is left to read of it\<close>
  "parse_from_stream settings stream rt =
     bind_res (new_char_reader settings) (\<lambda>(collect, f). m_char_reader_parse f collect stream rt)"

definition read_json :: "string \<Rightarrow> (json \<times> string) res" where
  \<comment> \<open>\<^verbatim>\<open>operator>>(IStream&, Value&)\<close> into a null value\<close>
  "read_json stream =
     bind_res char_reader_builder (\<lambda>b.
     bind_res (parse_from_stream b stream null_singleton) (\<lambda>(ok, v, errs).
       if ok then Inr (v, errs) else Inl (RuntimeError errs)))"

definition service_settings :: "json res" where
  \<comment> \<open>the builder of \<^verbatim>\<open>exec_json\<close> and \<^verbatim>\<open>main\<close>\<close>
  "service_settings =
     bind_res char_reader_builder (\<lambda>b. builder_put b ''collectComments'' (mk_bool False))"

section \<open>The reader of the service\<close>

definition service_features :: features where
  "service_features =
     \<lparr>allowComments = True, allowTrailingCommas = True, strictRoot = False,
      allowDroppedNullPlaceholders = False, allowNumericKeys = False, allowSingleQuotes = False,
      failIfExtra = False, rejectDupKeys = False, allowSpecialFloats = False, skipBom = True,
      stackLimit = 1000\<rparr>"

lemma service_reader:
  "bind_res service_settings new_char_reader = Inr (False, service_features)"
  by code_simp

lemma service_parse:
  "bind_res service_settings (\<lambda>s. parse_from_stream s doc rt) = char_reader_parse service_features doc rt"
proof -
  obtain s where s: "service_settings = Inr s" and f: "new_char_reader s = Inr (False, service_features)"
    using service_reader unfolding bind_res_Inr_iff by (elim exE conjE)
  show ?thesis unfolding s parse_from_stream_def bind_res_simps f
    by (simp add: m_char_reader_parse_plain)
qed

lemma service_parse_result:
  "char_reader_parse service_features doc rt = Inr (ok, v, errs) \<Longrightarrow> wf_json rt \<Longrightarrow> wf_json v"
  using parse_result(2) by (fastforce simp: char_reader_parse_def bind_res_Inr_iff)

lemma service_parse_only_stack:
  "length doc < 2 ^ 30 \<Longrightarrow> only_stack (char_reader_parse service_features doc rt)"
  using parse_only_stack [of doc service_features rt]
  by (auto simp: char_reader_parse_def service_features_def intro!: only_stack_bind)

lemma validate_loop_valid:
  "validate_loop kvs None = Inr (\<forall>(k, v) \<in> set kvs. key_name k \<in> set valid_keys, None)"
proof (induction kvs)
  case (Cons kv kvs)
  then show ?case by (cases kv) (simp add: Let_def)
qed simp

end
