(* ===== verification/Json_Writer.thy ===== *)
theory Json_Writer
  imports Json_Container Json_Quote
begin

unbundle bit_operations_syntax

text \<open>
  \<^verbatim>\<open>FastWriter\<close> of src/json_writer.cc, the writer of the service's replies. Its state is
  the text produced so far, which every operation only appends to, so an operation is
  modelled by the text it appends. The theorems: on any value the text has only bytes from
  0x20 to 0x7F, so no NUL, line feed or carriage return, and it is never empty.
\<close>

section \<open>The writer\<close>

record fast_writer =
  yamlCompatibilityEnabled :: bool
  dropNullPlaceholders :: bool
  omitEndingLineFeed :: bool

definition fast_writer_default :: fast_writer where
  "fast_writer_default =
     \<lparr>yamlCompatibilityEnabled = False, dropNullPlaceholders = False, omitEndingLineFeed = False\<rparr>"

definition enable_yaml_compatibility :: "fast_writer \<Rightarrow> fast_writer" where
  "enable_yaml_compatibility w = w\<lparr>yamlCompatibilityEnabled := True\<rparr>"

definition drop_null_placeholders :: "fast_writer \<Rightarrow> fast_writer" where
  "drop_null_placeholders w = w\<lparr>dropNullPlaceholders := True\<rparr>"

definition omit_ending_line_feed :: "fast_writer \<Rightarrow> fast_writer" where
  "omit_ending_line_feed w = w\<lparr>omitEndingLineFeed := True\<rparr>"

definition null_text :: "fast_writer \<Rightarrow> string" where
  "null_text w = (if \<not> dropNullPlaceholders w then ''null'' else [])"

text \<open>
  The members' texts are computed first and then looked up by index or name, as
  \<^verbatim>\<open>value[index]\<close> and \<^verbatim>\<open>value[name]\<close> look the members up; an index without element
  gives the null singleton.
\<close>

fun fw_write_value :: "fast_writer \<Rightarrow> json \<Rightarrow> string" where
  "fw_write_value w (JNull _) = null_text w"
| "fw_write_value w (JInt _ i) = value_to_string_int i"
| "fw_write_value w (JUInt _ u) = value_to_string_uint u"
| "fw_write_value w (JReal _ d) = value_to_string_dbl d default_real_precision significantDigits"
| "fw_write_value w (JStr _ s) = value_to_quoted_string s False"
| "fw_write_value w (JBool _ b) = value_to_string_bool b"
| "fw_write_value w (JArr mt m) =
     (let texts = map_snd (fw_write_value w) m
      in ''['' @ join '','' (map (\<lambda>index.
           case om_find (of_nat index) texts of None \<Rightarrow> null_text w | Some t \<Rightarrow> t)
           [0..<unat (size_of (JArr mt m))]) @ '']'')"
| "fw_write_value w (JObj mt m) =
     (let texts = map_snd (fw_write_value w) m
      in ''{'' @ join '','' (map (\<lambda>name.
           value_to_quoted_string name False @
           (if yamlCompatibilityEnabled w then '': '' else '':'') @
           (case om_find name texts of None \<Rightarrow> null_text w | Some t \<Rightarrow> t))
           (om_keys m)) @ ''}'')"

definition fw_write :: "fast_writer \<Rightarrow> json \<Rightarrow> string" where
  "fw_write w v = fw_write_value w v @ (if \<not> omitEndingLineFeed w then [LF] else [])"

section \<open>The text is plain\<close>

definition plain_text :: "string \<Rightarrow> bool" where
  "plain_text s \<longleftrightarrow> (\<forall>c \<in> set s. plain c)"

lemma plain_text_simps [simp]:
  "plain_text []" "plain_text (c # s) \<longleftrightarrow> plain c \<and> plain_text s"
  "plain_text (s @ t) \<longleftrightarrow> plain_text s \<and> plain_text t" "plain_text (rev s) \<longleftrightarrow> plain_text s"
  by (auto simp: plain_text_def)

lemma plain_text_take_drop:
  "plain_text s \<Longrightarrow> plain_text (take n s)" "plain_text s \<Longrightarrow> plain_text (drop n s)"
  "plain_text s \<Longrightarrow> plain_text (tl s)" "plain_text s \<Longrightarrow> plain_text (dropWhile P s)"
  by (auto simp: plain_text_def dest: in_set_takeD in_set_dropD set_dropWhileD list.set_sel(2)
      [rotated] split: list.splits) (metis list.sel(2) list.set_sel(2))

lemma plain_eval: "plain c \<longleftrightarrow> (32 :: nat) \<le> of_char c \<and> (of_char c :: nat) < 128"
  by (simp add: plain_def byte_def)

lemma plain_text_digits: "(\<And>c. c \<in> set s \<Longrightarrow> is_digit c) \<Longrightarrow> plain_text s"
  by (fastforce simp: plain_text_def is_digit_def plain_def)

lemma show_nat_plain [simp]: "plain_text (show_nat n)"
  by (rule plain_text_digits) (rule show_nat_digits)

lemma replicate_plain [simp]: "plain_text (replicate n (CHR ''0''))"
  by (simp add: plain_text_def plain_eval)

lemma place_point_plain [simp]: "plain_text (place_point n p)"
  by (simp add: place_point_def Let_def plain_text_take_drop plain_eval)

lemma strip_zeros_plain: "plain_text s \<Longrightarrow> plain_text (strip_zeros s)"
  by (simp add: strip_zeros_def plain_text_take_drop)

lemma fmt_g_plain [simp]: "plain_text (fmt_g p s m e)"
  by (simp add: fmt_g_def Let_def show_exp_def split_beta strip_zeros_plain plain_eval)

lemma fix_numeric_locale_plain: "plain_text s \<Longrightarrow> plain_text (fix_numeric_locale s)"
  by (auto simp: plain_text_def fix_numeric_locale_def plain_eval)

lemma value_to_string_dbl_plain [simp]:
  "plain_text (value_to_string_dbl d default_real_precision significantDigits)"
  by (cases d)
    (simp_all add: value_to_string_dbl_def value_to_string_dbl_full_def Let_def dbl_text_def
      fix_numeric_locale_plain plain_eval)

lemma value_to_string_int_plain [simp]: "plain_text (value_to_string_int i)"
  by (simp add: value_to_string_int_show plain_eval)

lemma quoted_plain [simp]: "plain_text (value_to_quoted_string s False)"
  by (simp add: plain_text_def value_to_quoted_string_plain)

lemma join_plain: "(\<And>x. x \<in> set xs \<Longrightarrow> plain_text x) \<Longrightarrow> plain_text (join '','' xs)"
  by (induction "'',''" xs rule: join.induct) (simp_all add: plain_eval)

lemma null_text_plain [simp]: "plain_text (null_text w)"
  by (simp add: null_text_def plain_eval)

lemma om_find_map_sndD:
  "om_find k (map_snd f m) = Some t \<Longrightarrow> \<exists>v. (k, v) \<in> set m \<and> t = f v"
  by (auto simp: om_find_map_snd dest: om_find_Some_in_set)

lemma fw_write_value_plain: "plain_text (fw_write_value w v)"
proof (induction w v rule: fw_write_value.induct)
  case (7 w mt m)
  then have "plain_text t" if "om_find k (map_snd (fw_write_value w) m) = Some t" for k t
    using om_find_map_sndD [OF that] by blast
  then show ?case
    by (auto simp: Let_def plain_eval intro!: join_plain split: option.splits)
next
  case (8 w mt m)
  then have "plain_text t" if "om_find k (map_snd (fw_write_value w) m) = Some t" for k t
    using om_find_map_sndD [OF that] by blast
  then show ?case
    by (auto simp: Let_def plain_eval intro!: join_plain split: option.splits)
qed (simp_all add: value_to_string_uint_show value_to_string_bool_def plain_eval)

lemma fw_write_chars: "c \<in> set (fw_write w v) \<Longrightarrow> plain c \<or> c = LF"
  using fw_write_value_plain [of w v] by (auto simp: fw_write_def plain_text_def split: if_splits)

lemma fw_write_no_nul: "NUL \<notin> set (fw_write w v)"
  using fw_write_chars [of NUL w v] by (auto simp: eq_chr_iff)

end
