(* ===== verification/Server.thy ===== *)
theory Server
  imports Rocks Json_Builder Json_Writer
begin

text \<open>
  src/server.cc: the databases of the configuration (\<^verbatim>\<open>config\<close>, \<^verbatim>\<open>read_config\<close>, \<^verbatim>\<open>main\<close>), the
  operations on them, and \<^verbatim>\<open>exec_json\<close>, which executes the text of one request and returns
  the text of its reply. Output to \<^verbatim>\<open>std::cout\<close> and \<^verbatim>\<open>std::cerr\<close> is left out. An exception
  that leaves \<^verbatim>\<open>exec_json\<close> or \<^verbatim>\<open>main\<close> ends the process, so a left value carries no state.
\<close>

section \<open>The state\<close>

record ('z, 'db, 'cf) config =
  c_name :: string
  c_path :: string
  c_options :: "'z options_scheme"
  c_is_open :: bool
  c_cf_names :: "string list"
  c_is_cf :: bool
  c_handles :: "'cf list"
  c_db :: "'db ptr"

definition new_config ::
    "string \<Rightarrow> string \<Rightarrow> 'z options_scheme \<Rightarrow> string list \<Rightarrow> ('z, 'db, 'cf) config" where
  \<comment> \<open>the constructor; \<^verbatim>\<open>db\<close> has no initialiser\<close>
  "new_config name path opts cf_names =
     \<lparr>c_name = name, c_path = path, c_options = opts, c_is_open = False, c_cf_names = cf_names,
      c_is_cf = (cf_names \<noteq> []), c_handles = [], c_db = Uninit\<rparr>"

section \<open>Opening a database\<close>

definition set_error :: "json \<Rightarrow> int \<Rightarrow> json res" where
  \<comment> \<open>\<^verbatim>\<open>err["error"] = code;\<close>\<close>
  "set_error err code = set_member err ''error'' (mk_int (of_int code))"

fun create_families ::
    "('w, 'z, 'db, 'cf) rocks \<Rightarrow> 'db \<Rightarrow> string list \<Rightarrow> 'w \<Rightarrow> 'w res" where
  \<comment> \<open>the handle \<^verbatim>\<open>cf\<close> goes out of scope at the end of each round and is never destroyed\<close>
  "create_families R d [] w = Inr w"
| "create_families R d (cf_name # r) w =
     (if cf_name \<noteq> kDefaultColumnFamilyName
      then (case rk_create_cf R d cf_name w of (ok, _, w') \<Rightarrow>
              if ok then create_families R d r w' else Inl (AssertFail ''status.ok()''))
      else create_families R d r w)"

definition create_database ::
    "('w, 'z, 'db, 'cf) rocks \<Rightarrow> string \<Rightarrow> string list \<Rightarrow> 'w \<Rightarrow> 'w res" where
  \<comment> \<open>the block of \<^verbatim>\<open>open\<close> for a path that does not exist\<close>
  "create_database R path cf_names w =
     (case rk_open R ((default_options (rk_options R))\<lparr>create_if_missing := True\<rparr>) path w of
        (ok, db, w1) \<Rightarrow>
          if \<not> ok then Inl (AssertFail ''status.ok()'')
          else (case db of
                  Ptr d \<Rightarrow> bind_res (create_families R d cf_names w1) (delete_db R d)
                | _ \<Rightarrow> Inl (Undef ''use of a database pointer that was not set'')))"

definition column_families :: "string list \<Rightarrow> string list" where
  "column_families cf_names =
     kDefaultColumnFamilyName # filter (\<lambda>n. n \<noteq> kDefaultColumnFamilyName) cf_names"

definition open_config ::
    "('w, 'z, 'db, 'cf) rocks \<Rightarrow> ('z, 'db, 'cf) config \<Rightarrow> 'w \<Rightarrow>
     (json \<times> ('z, 'db, 'cf) config \<times> 'w) res" where
  "open_config R c w =
     bind_res (set_error null_singleton 0) (\<lambda>err.
       if c_is_open c then Inr (err, c, w)
       else
         bind_res
           (if \<not> c_is_cf c
            then (case rk_open R (c_options c) (c_path c) w of (ok, db, w') \<Rightarrow>
                    Inr (ok, c\<lparr>c_db := db\<rparr>, w'))
            else
              bind_res (if \<not> rk_exists R (c_path c) w
                        then create_database R (c_path c) (c_cf_names c) w else Inr w) (\<lambda>w1.
                case rk_open_cfs R (c_path c) (column_families (c_cf_names c)) w1 of
                  (ok, handles, db, w2) \<Rightarrow> Inr (ok, c\<lparr>c_handles := handles, c_db := db\<rparr>, w2)))
           (\<lambda>(ok, c', w').
             if \<not> ok then bind_res (set_error err 4) (\<lambda>err'. Inr (err', c', w'))
             else Inr (err, c'\<lparr>c_is_open := True\<rparr>, w')))"

section \<open>Operations on an open database\<close>

definition with_db ::
    "('w, 'z, 'db, 'cf) rocks \<Rightarrow> ('z, 'db, 'cf) config \<Rightarrow> 'w \<Rightarrow> ('db \<Rightarrow> (json \<times> 'w) res) \<Rightarrow> (json \<times> 'w) res" where
  \<comment> \<open>\<^verbatim>\<open>if (db == nullptr) { err["error"] = -1; return err; }\<close> before the rest\<close>
  "with_db R c w k =
     (case c_db c of
        Uninit \<Rightarrow> Inl (Undef ''read of the uninitialised db'')
      | Nullptr \<Rightarrow> bind_res (set_error null_singleton (-1)) (\<lambda>err. Inr (err, w))
      | Ptr d \<Rightarrow> if rk_alive R d w then k d else Inl (Undef ''use of a deleted database''))"

definition read_reply :: "bool \<times> string \<Rightarrow> 'w \<Rightarrow> (json \<times> 'w) res" where
  \<comment> \<open>the end of \<^verbatim>\<open>get\<close> and \<^verbatim>\<open>get_cf\<close>\<close>
  "read_reply r w =
     (if \<not> fst r then bind_res (set_error null_singleton (-2)) (\<lambda>err. Inr (err, w))
      else bind_res (set_error null_singleton 0) (\<lambda>err.
           bind_res (mk_string (snd r)) (\<lambda>v.
           bind_res (set_member err ''value'' v) (\<lambda>err'. Inr (err', w)))))"

definition write_reply :: "bool \<times> 'w \<Rightarrow> (json \<times> 'w) res" where
  \<comment> \<open>the end of \<^verbatim>\<open>put\<close>, \<^verbatim>\<open>put_cf\<close> and \<^verbatim>\<open>write_batch\<close>\<close>
  "write_reply r =
     bind_res (set_error null_singleton (if fst r then 0 else -2)) (\<lambda>err. Inr (err, snd r))"

definition get_op ::
    "('w, 'z, 'db, 'cf) rocks \<Rightarrow> ('z, 'db, 'cf) config \<Rightarrow> string \<Rightarrow> 'w \<Rightarrow> (json \<times> 'w) res" where
  "get_op R c key w = with_db R c w (\<lambda>d. read_reply (rk_get R d key w) w)"

fun find_index :: "string \<Rightarrow> string list \<Rightarrow> nat option" where
  \<comment> \<open>\<^verbatim>\<open>std::find\<close>, as an index\<close>
  "find_index x [] = None"
| "find_index x (y # ys) = (if x = y then Some 0 else map_option Suc (find_index x ys))"

definition get_handle :: "('z, 'db, 'cf) config \<Rightarrow> string \<Rightarrow> 'cf option res" where
  \<comment> \<open>None is the null handle\<close>
  "get_handle c str =
     (case find_index str (c_cf_names c) of
        None \<Rightarrow> Inr None
      | Some i \<Rightarrow> if i < length (c_handles c) then Inr (Some (c_handles c ! i))
                 else Inl (Undef ''column family handle out of range''))"

definition put_cf_op ::
    "('w, 'z, 'db, 'cf) rocks \<Rightarrow> ('z, 'db, 'cf) config \<Rightarrow> string \<Rightarrow> string \<Rightarrow> string \<Rightarrow> 'w \<Rightarrow>
     (json \<times> 'w) res" where
  "put_cf_op R c cf_name key v w =
     with_db R c w (\<lambda>d. bind_res (get_handle c cf_name) (\<lambda>handle.
       case handle of
         Some h \<Rightarrow> with_handle R d h w (write_reply (rk_put_cf R d h key v w))
       | None \<Rightarrow> bind_res (set_error null_singleton 7) (\<lambda>err. Inr (err, w))))"

definition get_cf_op ::
    "('w, 'z, 'db, 'cf) rocks \<Rightarrow> ('z, 'db, 'cf) config \<Rightarrow> string \<Rightarrow> string \<Rightarrow> 'w \<Rightarrow> (json \<times> 'w) res" where
  "get_cf_op R c cf_name key w =
     with_db R c w (\<lambda>d. bind_res (get_handle c cf_name) (\<lambda>handle.
       case handle of
         Some h \<Rightarrow> with_handle R d h w (read_reply (rk_get_cf R d h key w) w)
       | None \<Rightarrow> bind_res (set_error null_singleton 7) (\<lambda>err. Inr (err, w))))"

definition put_op ::
    "('w, 'z, 'db, 'cf) rocks \<Rightarrow> ('z, 'db, 'cf) config \<Rightarrow> string \<Rightarrow> string \<Rightarrow> 'w \<Rightarrow> (json \<times> 'w) res" where
  "put_op R c key v w = with_db R c w (\<lambda>d. write_reply (rk_put R d key v w))"

fun batch_loop :: "json \<Rightarrow> string list \<Rightarrow> (string \<times> string) list res" where
  \<comment> \<open>\<^verbatim>\<open>batch.Put(key, items[key].asString())\<close> for every name\<close>
  "batch_loop items [] = Inr []"
| "batch_loop items (key # r) =
     bind_res (bind_res (member_const items key) as_string) (\<lambda>v.
     bind_res (batch_loop items r) (\<lambda>kvs. Inr ((key, v) # kvs)))"

definition write_batch_op ::
    "('w, 'z, 'db, 'cf) rocks \<Rightarrow> ('z, 'db, 'cf) config \<Rightarrow> json \<Rightarrow> 'w \<Rightarrow> (json \<times> 'w) res" where
  "write_batch_op R c items w =
     with_db R c w (\<lambda>d.
       bind_res (get_member_names items) (\<lambda>names.
       bind_res (batch_loop items names) (\<lambda>kvs.
         write_reply (rk_write R d kvs w))))"

section \<open>Requests\<close>

record ('w, 'z, 'db, 'cf) server_state =
  configs :: "('z, 'db, 'cf) config list"
  world :: 'w

definition fetch :: "json \<Rightarrow> string \<Rightarrow> (json \<times> json) res" where
  \<comment> \<open>\<^verbatim>\<open>root[key]\<close> on the request, which creates the member: its value and the request after\<close>
  "fetch rt key =
     bind_res (member_ref_cstr rt key) (\<lambda>rt'. Inr (member_get rt' (c_str key), rt'))"

definition fetch_string :: "json \<Rightarrow> string \<Rightarrow> (string \<times> json) res" where
  "fetch_string rt key =
     bind_res (fetch rt key) (\<lambda>(v, rt'). bind_res (as_string v) (\<lambda>s. Inr (s, rt')))"

definition exec_op ::
    "('w, 'z, 'db, 'cf) rocks \<Rightarrow> ('z, 'db, 'cf) config \<Rightarrow> json \<Rightarrow> json \<Rightarrow> 'w \<Rightarrow> (json \<times> 'w) res" where
  \<comment> \<open>the part of \<^verbatim>\<open>exec_json\<close> after the database is open, \<open>reply\<close> being what \<^verbatim>\<open>open\<close> returned\<close>
  "exec_op R c rt reply w =
     bind_res (fetch_string rt ''op'') (\<lambda>(op, rt1).
       if op = ''put_cf'' then
         bind_res (fetch_string rt1 ''column'') (\<lambda>(column, rt2).
         bind_res (fetch_string rt2 ''key'') (\<lambda>(key, rt3).
         bind_res (fetch_string rt3 ''value'') (\<lambda>(v, _). put_cf_op R c column key v w)))
       else if op = ''put'' then
         bind_res (fetch_string rt1 ''key'') (\<lambda>(key, rt2).
         bind_res (fetch_string rt2 ''value'') (\<lambda>(v, _). put_op R c key v w))
       else if op = ''write_batch'' then
         bind_res (fetch rt1 ''items'') (\<lambda>(items, _). write_batch_op R c items w)
       else if op = ''get'' then
         bind_res (fetch_string rt1 ''key'') (\<lambda>(key, _). get_op R c key w)
       else if op = ''get_cf'' then
         bind_res (fetch_string rt1 ''column'') (\<lambda>(column, rt2).
         bind_res (fetch_string rt2 ''key'') (\<lambda>(key, _). get_cf_op R c column key w))
       else bind_res (set_error reply 7) (\<lambda>reply'. Inr (reply', w)))"

definition exec_request ::
    "('w, 'z, 'db, 'cf) rocks \<Rightarrow> json \<Rightarrow> ('w, 'z, 'db, 'cf) server_state \<Rightarrow>
     (json \<times> ('w, 'z, 'db, 'cf) server_state) res" where
  \<comment> \<open>the body of the \<^verbatim>\<open>do ... while(0)\<close> once the request is parsed\<close>
  "exec_request R rt st =
     bind_res (set_error null_singleton 0) (\<lambda>reply.
     bind_res (fetch_string rt ''dbname'') (\<lambda>(dbName, rt1).
       if dbName = [] then bind_res (set_error reply 6) (\<lambda>reply'. Inr (reply', st))
       else
         (case find_index dbName (map c_name (configs st)) of
            None \<Rightarrow> bind_res (set_error reply 3) (\<lambda>reply'. Inr (reply', st))
          | Some i \<Rightarrow>
              bind_res (open_config R (configs st ! i) (world st)) (\<lambda>(reply', c, w).
                let st' = st\<lparr>configs := (configs st)[i := c], world := w\<rparr>
                in if \<not> c_is_open c then Inr (reply', st')
                   else bind_res (exec_op R c rt1 reply' w) (\<lambda>(reply'', w').
                          Inr (reply'', st'\<lparr>world := w'\<rparr>))))))"

definition exec_json ::
    "('w, 'z, 'db, 'cf) rocks \<Rightarrow> ('w, 'z, 'db, 'cf) server_state \<Rightarrow> string \<Rightarrow>
     (string \<times> ('w, 'z, 'db, 'cf) server_state) res" where
  "exec_json R st inp =
     bind_res service_settings (\<lambda>builder.
     bind_res (parse_from_stream builder inp null_singleton) (\<lambda>(ok, rt, errs).
     bind_res
       (if ok then exec_request R rt st
        else bind_res (set_error null_singleton 0) (\<lambda>reply.
             bind_res (set_error reply 1) (\<lambda>reply'. Inr (reply', st)))) (\<lambda>(reply, st').
       Inr (fw_write fast_writer_default reply, st'))))"

section \<open>The configuration\<close>

fun read_cf_names :: "json \<Rightarrow> nat \<Rightarrow> uint32 \<Rightarrow> string list res" where
  \<comment> \<open>\<open>n\<close> rounds of the loop over \<^verbatim>\<open>cf_names\<close>, from index \<open>i\<close> on: the names pushed\<close>
  "read_cf_names cf_names 0 i = Inr []"
| "read_cf_names cf_names (Suc n) i =
     bind_res (index_ref cf_names i) (\<lambda>cf_names'.
     bind_res (as_string (index_get cf_names' i)) (\<lambda>cf_name.
     bind_res (read_cf_names cf_names' n (i + 1)) (\<lambda>r.
       Inr (if cf_name \<noteq> kDefaultColumnFamilyName then cf_name # r else r))))"

fun read_config_loop ::
    "('w, 'z, 'db, 'cf) rocks \<Rightarrow> (vkey \<times> json) list \<Rightarrow> string \<times> 'z options_scheme \<times> string list \<Rightarrow>
     (string \<times> 'z options_scheme \<times> string list) res" where
  "read_config_loop R [] s = Inr s"
| "read_config_loop R ((k, v) # r) (path, opts, cf) =
     bind_res (bind_res (key_value k) as_string) (\<lambda>key.
     bind_res
       (if key = ''column_family'' then
          bind_res (read_cf_names v (unat (size_of v)) 0) (\<lambda>names.
            Inr (path, opts, cf @ kDefaultColumnFamilyName # names))
        else if key = ''dbname'' then bind_res (as_string v) (\<lambda>path'. Inr (path', opts, cf))
        else if key = ''options'' then
          bind_res (options_from_json (rk_options R) v) (\<lambda>o1.
            Inr (path, optimize_level_style_compaction_default (rk_options R)
                         (increase_parallelism_default (rk_options R) o1), cf))
        else Inr (path, opts, cf))
     (\<lambda>s'. read_config_loop R r s'))"

definition read_config ::
    "('w, 'z, 'db, 'cf) rocks \<Rightarrow> string \<Rightarrow> json \<Rightarrow> ('z, 'db, 'cf) config res" where
  "read_config R name rt =
     bind_res (read_config_loop R (value_entries rt) ([], default_options (rk_options R), []))
       (\<lambda>(path, opts, cf). Inr (new_config name path opts cf))"

fun load_configs_loop ::
    "('w, 'z, 'db, 'cf) rocks \<Rightarrow> (vkey \<times> json) list \<Rightarrow> ('z, 'db, 'cf) config list res" where
  "load_configs_loop R [] = Inr []"
| "load_configs_loop R ((k, v) # r) =
     bind_res (bind_res (key_value k) as_string) (\<lambda>name.
     bind_res (read_config R name v) (\<lambda>c.
     bind_res (load_configs_loop R r) (\<lambda>cs. Inr (c # cs))))"

definition load_configs ::
    "('w, 'z, 'db, 'cf) rocks \<Rightarrow> string \<Rightarrow> ('z, 'db, 'cf) config list option res" where
  \<comment> \<open>\<^verbatim>\<open>main\<close> up to the server, for the text of the file; None is \<^verbatim>\<open>return EXIT_FAILURE\<close>\<close>
  "load_configs R ifs =
     bind_res service_settings (\<lambda>builder.
     bind_res (parse_from_stream builder ifs null_singleton) (\<lambda>(ok, root0, errs).
       if \<not> ok then Inr None
       else
         bind_res (fetch root0 ''dbs'') (\<lambda>(rt, _).
         bind_res (load_configs_loop R (value_entries rt)) (\<lambda>cs. Inr (Some cs)))))"

fun shutdown ::
    "('w, 'z, 'db, 'cf) rocks \<Rightarrow> ('z, 'db, 'cf) config list \<Rightarrow> 'w \<Rightarrow>
     (('z, 'db, 'cf) config list \<times> 'w) res" where
  \<comment> \<open>the handler of \<^verbatim>\<open>SIGINT\<close> and \<^verbatim>\<open>SIGTERM\<close>\<close>
  "shutdown R [] w = Inr ([], w)"
| "shutdown R (item # r) w =
     (case c_db item of
        Uninit \<Rightarrow> Inl (Undef ''delete of the uninitialised db'')
      | Nullptr \<Rightarrow>
          bind_res (shutdown R r w) (\<lambda>(r', w'). Inr (item\<lparr>c_is_open := False\<rparr> # r', w'))
      | Ptr d \<Rightarrow>
          bind_res (delete_db R d w) (\<lambda>w1.
          bind_res (shutdown R r w1) (\<lambda>(r', w').
            Inr (item\<lparr>c_is_open := False\<rparr> # r', w'))))"

end
