(* ===== verification/Server_Facts.thy ===== *)
theory Server_Facts
  imports Server
begin

text \<open>
  Facts about the server: the invariant of its configurations, which no request breaks;
  which requests misuse RocksDB, and that the others show no undefined behaviour; and what a
  request does to the stored data, under the contract of RocksDB.
\<close>

section \<open>Replies\<close>

lemma member_ref_cstr_object:
  "type_of v = nullValue \<or> type_of v = objectValue \<Longrightarrow>
   member_ref_cstr v k = Inr (JObj (meta (as_object v)) (om_emplace (czstring (c_str k)) null_singleton (object_map (as_object v))))"
  by (simp add: member_ref_cstr_def resolve_reference_def Let_def ensure_key_emplace)

lemma set_error_null: "set_error null_singleton code = Inr (JObj meta0 [(''error'', mk_int (of_int code))])"
  by (simp add: set_error_def set_member_def member_ref_cstr_object null_singleton_def as_object_def
      object_map_def member_put_def c_str_def czstring_def)

lemma set_error_again:
  "set_error (JObj meta0 [(''error'', x)]) code = Inr (JObj meta0 [(''error'', mk_int (of_int code))])"
  by (simp add: set_error_def set_member_def member_ref_cstr_object as_object_def
      object_map_def member_put_def c_str_def czstring_def)

definition error_reply :: "int \<Rightarrow> json" where
  "error_reply code = JObj meta0 [(''error'', mk_int (of_int code))]"

definition value_reply :: "string \<Rightarrow> json" where
  "value_reply v = JObj meta0 [(''error'', mk_int 0), (''value'', JStr meta0 v)]"

lemma set_error_reply [simp]:
  "set_error null_singleton code = Inr (error_reply code)"
  "set_error (error_reply a) code = Inr (error_reply code)"
  by (simp_all add: error_reply_def set_error_null set_error_again)

lemma set_value_reply:
  "set_member (error_reply 0) ''value'' (JStr meta0 v) = Inr (value_reply v)"
  by (simp add: error_reply_def value_reply_def set_member_def member_ref_cstr_object as_object_def
      object_map_def member_put_def c_str_def czstring_def)

section \<open>Defined behaviour\<close>

text \<open>A result that is no undefined behaviour; an exception or a failed assertion is allowed.\<close>

definition defined :: "'a res \<Rightarrow> bool" where
  "defined r \<longleftrightarrow> (\<forall>e. r = Inl e \<longrightarrow> (\<forall>m. e \<noteq> Undef m) \<and> e \<noteq> OutOfFuel)"

lemma defined_simps [simp]:
  "defined (Inr x)" "defined (Inl (LogicError m))" "defined (Inl (RuntimeError m))"
  "defined (Inl (AssertFail m))" "\<not> defined (Inl (Undef m))"
  by (simp_all add: defined_def)

lemma defined_bind [intro!]:
  "defined m \<Longrightarrow> (\<And>x. m = Inr x \<Longrightarrow> defined (k x)) \<Longrightarrow> defined (bind_res m k)"
  by (cases m) (auto simp: defined_def)

lemma defined_assert [intro!]: "defined k \<Longrightarrow> defined (json_assert c msg k)"
  by (simp add: json_assert_def)

lemma defined_only_stack: "only_stack r \<Longrightarrow> defined r"
  by (auto simp: only_stack_def defined_def)

lemma defined_mk_string [simp]: "defined (mk_string s)"
  by (auto simp: mk_string_def duplicate_and_prefix_def Let_def)

lemma defined_as_string [simp]: "defined (as_string v)"
  by (cases v) simp_all

lemma defined_member_ref [simp]: "defined (member_ref_cstr v k)"
  by (auto simp: member_ref_cstr_def resolve_reference_def Let_def)

lemma defined_set_member [simp]: "defined (set_member v k c)"
  by (auto simp: set_member_def)

lemma defined_fetch [simp]: "defined (fetch rt k)"
  by (auto simp: fetch_def)

lemma defined_fetch_string [simp]: "defined (fetch_string rt k)"
  by (auto simp: fetch_string_def)

lemma defined_member_const [simp]: "defined (member_const v k)"
  by (auto simp: member_const_def find_member_def)

lemma defined_get_member_names [simp]: "defined (get_member_names v)"
  by (auto simp: get_member_names_def)

lemma defined_batch_loop [simp]: "defined (batch_loop items names)"
  by (induction names) auto

lemma defined_replies [simp]: "defined (read_reply r w)" "defined (write_reply q)"
  by (auto simp: read_reply_def write_reply_def)

section \<open>The invariant of the configurations\<close>

definition config_ok :: "('w, 'z, 'db, 'cf) rocks \<Rightarrow> ('w \<Rightarrow> 'db set) \<Rightarrow> ('cf \<Rightarrow> string) \<Rightarrow> 'w \<Rightarrow> ('z, 'db, 'cf) config \<Rightarrow> bool" where
  "config_ok R live cfn w c \<longleftrightarrow>
     (c_is_cf c \<longleftrightarrow> c_cf_names c \<noteq> []) \<and>
     (c_is_cf c \<longrightarrow> column_families (c_cf_names c) = c_cf_names c) \<and>
     (c_is_open c \<longrightarrow>
        (\<exists>d. c_db c = Ptr d \<and> d \<in> live w \<and>
           (c_is_cf c \<longrightarrow> set (c_handles c) \<subseteq> set (rk_handles R d w))) \<and>
        (c_is_cf c \<longrightarrow> map cfn (c_handles c) = c_cf_names c))"

definition server_inv ::
    "('w, 'z, 'db, 'cf) rocks \<Rightarrow> ('w \<Rightarrow> 'db set) \<Rightarrow> ('cf \<Rightarrow> string) \<Rightarrow> ('w, 'z, 'db, 'cf) server_state \<Rightarrow> bool" where
  "server_inv R live cfn st \<longleftrightarrow>
     (\<forall>c \<in> set (configs st). config_ok R live cfn (world st) c) \<and>
     (\<forall>i < length (configs st). \<forall>j < length (configs st).
        i \<noteq> j \<longrightarrow> c_is_open (configs st ! i) \<longrightarrow> c_is_open (configs st ! j) \<longrightarrow>
        c_db (configs st ! i) \<noteq> c_db (configs st ! j))"

lemma keeps_refl [simp]: "keeps_others R view live w w" "keeps_handles R live w w"
  by (simp_all add: keeps_others_def keeps_handles_def)

lemma keeps_others_trans:
  "keeps_others R view live w w1 \<Longrightarrow> keeps_others R view live w1 w2 \<Longrightarrow> keeps_others R view live w w2"
  by (auto simp: keeps_others_def keeps_handles_def)

lemma open_contractD:
  assumes "open_contract R view live cfn"
  shows "rk_open R opts path w = (ok, p, w') \<Longrightarrow> keeps_others R view live w w' \<and>
        (if ok then opened_db R live [] p w w' else p = Nullptr)"
    "rk_open_cfs R path names w = (ok, hs, p, w') \<Longrightarrow> keeps_others R view live w w' \<and>
        (if ok then map cfn hs = names \<and> opened_db R live hs p w w' else p = Nullptr)"
    "d \<in> live w \<Longrightarrow> rk_create_cf R d name w = (ok, p', w') \<Longrightarrow> created_cf R view live d ok p' w w'"
    "d \<in> live w \<Longrightarrow> rk_handles R d w = [] \<Longrightarrow> live (rk_close R d w) = live w - {d}"
    "d \<in> live w \<Longrightarrow> rk_handles R d w = [] \<Longrightarrow> d' \<in> live w - {d} \<Longrightarrow>
       view (rk_close R d w) d' = view w d' \<and> rk_handles R d' (rk_close R d w) = rk_handles R d' w"
proof -
  note c = assms [unfolded open_contract_def]
  show "rk_open R opts path w = (ok, p, w') \<Longrightarrow> keeps_others R view live w w' \<and>
        (if ok then opened_db R live [] p w w' else p = Nullptr)"
    by (rule c [THEN conjunct1, rule_format])
  show "rk_open_cfs R path names w = (ok, hs, p, w') \<Longrightarrow> keeps_others R view live w w' \<and>
        (if ok then map cfn hs = names \<and> opened_db R live hs p w w' else p = Nullptr)"
    by (rule c [THEN conjunct2, THEN conjunct1, rule_format])
  show "d \<in> live w \<Longrightarrow> rk_create_cf R d name w = (ok, p', w') \<Longrightarrow> created_cf R view live d ok p' w w'"
    by (rule c [THEN conjunct2, THEN conjunct2, THEN conjunct1, rule_format])
  show "d \<in> live w \<Longrightarrow> rk_handles R d w = [] \<Longrightarrow> live (rk_close R d w) = live w - {d}"
    by (rule c [THEN conjunct2, THEN conjunct2, THEN conjunct2, rule_format, THEN conjunct1])
  show "d \<in> live w \<Longrightarrow> rk_handles R d w = [] \<Longrightarrow> d' \<in> live w - {d} \<Longrightarrow>
       view (rk_close R d w) d' = view w d' \<and> rk_handles R d' (rk_close R d w) = rk_handles R d' w"
    by (rule c [THEN conjunct2, THEN conjunct2, THEN conjunct2, rule_format, THEN conjunct2, rule_format])
qed

text \<open>The families that \<^verbatim>\<open>open\<close> creates each leave a handle behind.\<close>

lemma create_families_facts:
  assumes R: "open_contract R view live cfn" and w0: "d \<notin> live w0"
  shows "create_families R d names w = Inr w' \<Longrightarrow> keeps_others R view live w0 w \<Longrightarrow> d \<in> live w \<Longrightarrow>
    keeps_others R view live w0 w' \<and> d \<in> live w' \<and>
    length (rk_handles R d w') =
      length (rk_handles R d w) + length (filter (\<lambda>n. n \<noteq> kDefaultColumnFamilyName) names)"
proof (induction names arbitrary: w)
  case (Cons n r)
  show ?case
  proof (cases "n = kDefaultColumnFamilyName")
    case False
    obtain ok p w1 where c: "rk_create_cf R d n w = (ok, p, w1)" by (cases "rk_create_cf R d n w") auto
    then have ok: "ok" "create_families R d r w1 = Inr w'" using Cons.prems(1) False by (auto split: if_splits)
    note k = open_contractD(3) [OF R Cons.prems(3) c, unfolded created_cf_def]
    have "d' \<noteq> d" if "d' \<in> live w0" for d' using that w0 by blast
    then have "keeps_others R view live w0 w1" "d \<in> live w1"
      using k Cons.prems(2,3) by (auto simp: keeps_others_def keeps_handles_def subset_iff)
    moreover have "length (rk_handles R d w1) = Suc (length (rk_handles R d w))" using k ok(1) by auto
    ultimately show ?thesis using Cons.IH [OF ok(2)] False by simp
  qed (use Cons in simp)
qed simp

lemma defined_create_families [simp]: "defined (create_families R d names w)"
  by (induction names arbitrary: w) (auto split: prod.splits)

definition only_default :: "string list \<Rightarrow> bool" where
  "only_default names \<longleftrightarrow> filter (\<lambda>n. n \<noteq> kDefaultColumnFamilyName) names = []"

definition ends_badly :: "'a res \<Rightarrow> bool" where
  \<comment> \<open>the two ways in which the creation of a database with families ends\<close>
  "ends_badly r \<longleftrightarrow> r = Inl (Undef ''delete of a database with column family handles'') \<or>
     r = Inl (AssertFail ''status.ok()'')"

lemma create_families_assert: "create_families R d names w = Inl e \<Longrightarrow> e = AssertFail ''status.ok()''"
  by (induction names arbitrary: w) (auto split: prod.splits if_splits)

text \<open>A database with families besides the default one is never created without misuse.\<close>

lemma create_database_facts:
  assumes L: "live_contract R live" and R: "open_contract R view live cfn"
  shows "create_database R path names w = Inr w' \<Longrightarrow> keeps_others R view live w w'"
    "only_default names \<Longrightarrow> defined (create_database R path names w)"
    "\<not> only_default names \<Longrightarrow> ends_badly (create_database R path names w)"
proof -
  obtain ok p w1 where o: "rk_open R ((default_options (rk_options R))\<lparr>create_if_missing := True\<rparr>) path w =
      (ok, p, w1)" by (metis prod_cases3)
  note f = open_contractD(1) [OF R o]
  have al: "rk_alive R d x \<longleftrightarrow> d \<in> live x" for d x using L by (simp add: live_contract_def)
  have opened: "\<exists>d. p = Ptr d \<and> d \<in> live w1 \<and> d \<notin> live w \<and> rk_handles R d w1 = [] \<and>
      create_database R path names w = bind_res (create_families R d names w1) (delete_db R d)" if ok
    using f that by (auto simp: opened_db_def create_database_def o)
  have failed: "create_database R path names w = Inl (AssertFail ''status.ok()'')" if "\<not> ok"
    using that by (simp add: create_database_def o)
  show "create_database R path names w = Inr w' \<Longrightarrow> keeps_others R view live w w'"
  proof -
    assume c: "create_database R path names w = Inr w'"
    then have ok using failed by fastforce
    then obtain d where d0: "d \<in> live w1" "d \<notin> live w" "rk_handles R d w1 = []"
      "create_database R path names w = bind_res (create_families R d names w1) (delete_db R d)"
      using opened by blast
    with c obtain w2 where d: "d \<in> live w1" "d \<notin> live w" "rk_handles R d w1 = []"
      "create_families R d names w1 = Inr w2" "delete_db R d w2 = Inr w'"
      by (auto simp: bind_res_Inr_iff)
    note k = create_families_facts [OF R d(2,4) f [THEN conjunct1] d(1)]
    have h: "rk_handles R d w2 = []" and w': "w' = rk_close R d w2"
      using d(5) by (auto simp: delete_db_def split: if_splits)
    note cl = open_contractD(4,5) [OF R _ h]
    have "x \<in> live w2 - {d}" if "x \<in> live w" for x
      using that k d(2) by (auto simp: keeps_others_def keeps_handles_def)
    then show "keeps_others R view live w w'"
      using k cl w' by (auto simp: keeps_others_def keeps_handles_def)
  qed
  show "defined (create_database R path names w)" if "only_default names"
  proof (cases ok)
    case True
    then obtain d where d: "d \<in> live w1" "d \<notin> live w" "rk_handles R d w1 = []"
      "create_database R path names w = bind_res (create_families R d names w1) (delete_db R d)"
      using opened by blast
    have "defined (delete_db R d w2)" if "create_families R d names w1 = Inr w2" for w2
      using create_families_facts [OF R d(2) that f [THEN conjunct1] d(1)] \<open>only_default names\<close> d(3)
      by (simp add: delete_db_def al only_default_def)
    then show ?thesis unfolding d(4) by (intro defined_bind) simp_all
  qed (simp add: failed)
  show "ends_badly (create_database R path names w)" if "\<not> only_default names"
  proof (cases ok)
    case True
    then obtain d where d: "d \<in> live w1" "d \<notin> live w" "rk_handles R d w1 = []"
      "create_database R path names w = bind_res (create_families R d names w1) (delete_db R d)"
      using opened by blast
    show ?thesis
    proof (cases "create_families R d names w1")
      case (Inl e)
      then show ?thesis using create_families_assert [OF Inl] by (simp add: d(4) ends_badly_def)
    next
      case (Inr w2)
      then have "d \<in> live w2" "rk_handles R d w2 \<noteq> []"
        using create_families_facts [OF R d(2) Inr f [THEN conjunct1] d(1)] that
        by (auto simp: only_default_def)
      then show ?thesis by (simp add: d(4) Inr delete_db_def al ends_badly_def)
    qed
  qed (simp add: failed ends_badly_def)
qed

definition creates_families :: "('w, 'z, 'db, 'cf) rocks \<Rightarrow> ('z, 'db, 'cf) config \<Rightarrow> 'w \<Rightarrow> bool" where
  \<comment> \<open>opening \<open>c\<close> first creates its database, with families besides the default one\<close>
  "creates_families R c w \<longleftrightarrow>
     \<not> c_is_open c \<and> c_is_cf c \<and> \<not> rk_exists R (c_path c) w \<and> \<not> only_default (c_cf_names c)"

lemma open_config_creates:
  assumes "live_contract R live" "open_contract R view live cfn" "creates_families R c w"
  shows "ends_badly (open_config R c w)"
  using create_database_facts(3) [OF assms(1,2), of "c_cf_names c" "c_path c" w] assms(3)
  by (auto simp: open_config_def creates_families_def ends_badly_def)

lemma column_families_idem [simp]: "column_families (column_families names) = column_families names"
  by (simp add: column_families_def)

lemma open_config_facts:
  assumes L: "live_contract R live" and R: "open_contract R view live cfn" and c: "config_ok R live cfn w c"
  shows "\<not> creates_families R c w \<Longrightarrow> defined (open_config R c w)"
    "open_config R c w = Inr (reply, c', w') \<Longrightarrow>
       keeps_others R view live w w' \<and> config_ok R live cfn w' c' \<and> c_name c' = c_name c \<and>
       c_cf_names c' = c_cf_names c \<and>
       reply = error_reply (if c_is_open c' then 0 else 4) \<and>
       (if c_is_open c then c' = c \<and> w' = w
        else c_is_open c' \<longrightarrow> (\<exists>d. c_db c' = Ptr d \<and> d \<notin> live w))"
proof -
  show "\<not> creates_families R c w \<Longrightarrow> defined (open_config R c w)"
    using create_database_facts(2) [OF L R]
    by (auto simp: open_config_def creates_families_def split: prod.splits)
  assume o: "open_config R c w = Inr (reply, c', w')"
  show "keeps_others R view live w w' \<and> config_ok R live cfn w' c' \<and> c_name c' = c_name c \<and>
       c_cf_names c' = c_cf_names c \<and>
       reply = error_reply (if c_is_open c' then 0 else 4) \<and>
       (if c_is_open c then c' = c \<and> w' = w
        else c_is_open c' \<longrightarrow> (\<exists>d. c_db c' = Ptr d \<and> d \<notin> live w))"
  proof (cases "c_is_open c")
    case True
    then show ?thesis using o c by (simp add: open_config_def)
  next
    case closed: False
    show ?thesis
    proof (cases "c_is_cf c")
      case False
      obtain ok p w1 where p: "rk_open R (c_options c) (c_path c) w = (ok, p, w1)"
        by (metis prod_cases3)
      then show ?thesis
        using o closed False c open_contractD(1) [OF R p]
        by (auto simp: open_config_def config_ok_def opened_db_def split: if_splits)
    next
      case True
      let ?create = "if \<not> rk_exists R (c_path c) w
                        then create_database R (c_path c) (c_cf_names c) w else Inr w"
      have "\<exists>w1. ?create = Inr w1"
        using o closed True by (cases ?create) (simp_all add: open_config_def)
      then obtain w1 where w1: "(if \<not> rk_exists R (c_path c) w
                        then create_database R (c_path c) (c_cf_names c) w else Inr w) = Inr w1"
        by blast
      have k1: "keeps_others R view live w w1"
        using w1 create_database_facts(1) [OF L R] by (auto split: if_splits)
      obtain ok hs p w2 where p: "rk_open_cfs R (c_path c) (column_families (c_cf_names c)) w1 =
          (ok, hs, p, w2)" by (metis prod_cases4)
      note f = open_contractD(2) [OF R p]
      have k: "keeps_others R view live w w2"
        by (rule keeps_others_trans [OF k1 f [THEN conjunct1]])
      have e: "if ok then reply = error_reply 0 \<and> w' = w2 \<and>
                   c' = c\<lparr>c_handles := hs, c_db := p, c_is_open := True\<rparr>
               else reply = error_reply 4 \<and> w' = w2 \<and> c' = c\<lparr>c_handles := hs, c_db := p\<rparr>"
        using o closed True w1 p by (auto simp: open_config_def split: if_splits)
      have "live w \<subseteq> live w1" using k1 by (simp add: keeps_others_def keeps_handles_def)
      then show ?thesis
        using e f k c closed True
        by (cases ok) (auto simp: config_ok_def opened_db_def)
    qed
  qed
qed

section \<open>Operations\<close>

lemma find_index_Some: "find_index x xs = Some i \<Longrightarrow> i < length xs \<and> xs ! i = x"
  by (induction xs arbitrary: i) (auto split: if_splits)

lemma find_index_None: "find_index x xs = None \<longleftrightarrow> x \<notin> set xs"
  by (induction xs) auto

lemma get_handle_open:
  assumes "config_ok R live cfn w c" "c_is_open c"
  shows "if cf_name \<in> set (c_cf_names c) then \<exists>h. get_handle c cf_name = Inr (Some h) \<and> cfn h = cf_name
         else get_handle c cf_name = Inr None"
proof (cases "find_index cf_name (c_cf_names c)")
  case None
  then show ?thesis
    using find_index_None [of cf_name "c_cf_names c"] by (simp add: get_handle_def)
next
  case (Some i)
  note i = find_index_Some [OF Some]
  then have "map cfn (c_handles c) = c_cf_names c"
    using assms by (auto simp: config_ok_def)
  then have l: "i < length (c_handles c)" and "cfn (c_handles c ! i) = cf_name"
    using i by (metis length_map, metis i length_map nth_map)
  moreover have "cf_name \<in> set (c_cf_names c)" using i by (metis nth_mem)
  ultimately show ?thesis
    using Some i l by (simp add: get_handle_def)
qed

lemma data_contractD:
  assumes "data_contract R view live cfn"
  shows "d \<in> live w \<Longrightarrow> rk_get R d k w = (True, v) \<Longrightarrow> view w d kDefaultColumnFamilyName k = Some v"
    "d \<in> live w \<Longrightarrow> h \<in> set (rk_handles R d w) \<Longrightarrow> rk_get_cf R d h k w = (True, v) \<Longrightarrow> view w d (cfn h) k = Some v"
    "d \<in> live w \<Longrightarrow> rk_put R d k v w = (ok, w') \<Longrightarrow>
       touches_only R view live d w w' \<and> (ok \<longrightarrow> updates view d kDefaultColumnFamilyName [(k, v)] w w')"
    "d \<in> live w \<Longrightarrow> h \<in> set (rk_handles R d w) \<Longrightarrow> rk_put_cf R d h k v w = (ok, w') \<Longrightarrow>
       touches_only R view live d w w' \<and> (ok \<longrightarrow> updates view d (cfn h) [(k, v)] w w')"
    "d \<in> live w \<Longrightarrow> rk_write R d kvs w = (ok, w') \<Longrightarrow>
       touches_only R view live d w w' \<and> (ok \<longrightarrow> updates view d kDefaultColumnFamilyName kvs w w')"
proof -
  note c = assms [unfolded data_contract_def]
  show "d \<in> live w \<Longrightarrow> rk_get R d k w = (True, v) \<Longrightarrow> view w d kDefaultColumnFamilyName k = Some v"
    by (rule c [THEN conjunct1, rule_format])
  show "d \<in> live w \<Longrightarrow> h \<in> set (rk_handles R d w) \<Longrightarrow> rk_get_cf R d h k w = (True, v) \<Longrightarrow> view w d (cfn h) k = Some v"
    by (rule c [THEN conjunct2, THEN conjunct1, rule_format])
  show "d \<in> live w \<Longrightarrow> rk_put R d k v w = (ok, w') \<Longrightarrow>
       touches_only R view live d w w' \<and> (ok \<longrightarrow> updates view d kDefaultColumnFamilyName [(k, v)] w w')"
    by (rule c [THEN conjunct2, THEN conjunct2, THEN conjunct1, rule_format])
  show "d \<in> live w \<Longrightarrow> h \<in> set (rk_handles R d w) \<Longrightarrow> rk_put_cf R d h k v w = (ok, w') \<Longrightarrow>
       touches_only R view live d w w' \<and> (ok \<longrightarrow> updates view d (cfn h) [(k, v)] w w')"
    by (rule c [THEN conjunct2, THEN conjunct2, THEN conjunct2, THEN conjunct1, rule_format])
  show "d \<in> live w \<Longrightarrow> rk_write R d kvs w = (ok, w') \<Longrightarrow>
       touches_only R view live d w w' \<and> (ok \<longrightarrow> updates view d kDefaultColumnFamilyName kvs w w')"
    by (rule c [THEN conjunct2, THEN conjunct2, THEN conjunct2, THEN conjunct2, rule_format])
qed

text \<open>What an operation on an open database gives: an error code, or zero with its effect.\<close>

definition write_effect ::
    "('w, 'z, 'db, 'cf) rocks \<Rightarrow> ('w, 'db) store_view \<Rightarrow> ('w \<Rightarrow> 'db set) \<Rightarrow> 'db \<Rightarrow> string \<Rightarrow> (string \<times> string) list \<Rightarrow>
     'w \<Rightarrow> json \<times> 'w \<Rightarrow> bool" where
  "write_effect R view live d cf kvs w r \<longleftrightarrow>
     touches_only R view live d w (snd r) \<and>
     (fst r = error_reply (-2) \<or> fst r = error_reply 0 \<and> updates view d cf kvs w (snd r))"

definition read_effect ::
    "('w, 'db) store_view \<Rightarrow> 'db \<Rightarrow> string \<Rightarrow> string \<Rightarrow> 'w \<Rightarrow> json \<times> 'w \<Rightarrow> bool" where
  "read_effect view d cf key w r \<longleftrightarrow>
     snd r = w \<and>
     (fst r = error_reply (-2) \<or>
      (\<exists>v u. view w d cf key = Some v \<and> mk_string v = Inr (JStr meta0 u) \<and> fst r = value_reply u))"

lemma mk_string_JStr: "mk_string s = Inr v \<Longrightarrow> \<exists>u. v = JStr meta0 u"
  by (auto simp: mk_string_def bind_res_Inr_iff)

lemma write_reply_effect:
  assumes "touches_only R view live d w (snd q)" "fst q \<Longrightarrow> updates view d cf kvs w (snd q)"
    "write_reply q = Inr r"
  shows "write_effect R view live d cf kvs w r"
proof -
  have r: "r = (error_reply (if fst q then 0 else -2), snd q)"
    using assms(3) by (simp add: write_reply_def)
  show ?thesis
  proof (cases "fst q")
    case True
    then show ?thesis unfolding r write_effect_def using assms(1) assms(2) [OF True] by simp
  next
    case False
    then show ?thesis unfolding r write_effect_def using assms(1) by simp
  qed
qed

lemma read_reply_effect:
  assumes "fst q \<Longrightarrow> view w d cf key = Some (snd q)" "read_reply q w = Inr r"
  shows "read_effect view d cf key w r"
proof (cases "fst q")
  case True
  then obtain v where v: "mk_string (snd q) = Inr v"
      "bind_res (set_member (error_reply 0) ''value'' v) (\<lambda>err'. Inr (err', w)) = Inr r"
    using assms(2) by (auto simp: read_reply_def bind_res_Inr_iff)
  then obtain u where "v = JStr meta0 u" using mk_string_JStr by blast
  then show ?thesis using True v assms(1) by (auto simp: read_effect_def set_value_reply)
next
  case False
  then show ?thesis using assms(2) by (auto simp: read_reply_def read_effect_def)
qed

lemma get_op_effect:
  assumes D: "data_contract R view live cfn" and c: "c_db c = Ptr d" "d \<in> live w"
    and op: "get_op R c key w = Inr r"
  shows "read_effect view d kDefaultColumnFamilyName key w r"
proof -
  obtain ok v where q: "rk_get R d key w = (ok, v)" by (cases "rk_get R d key w") auto
  show ?thesis
    using op c q data_contractD(1) [OF D c(2), of key v]
    by (intro read_reply_effect [of "(ok, v)"]) (auto simp: get_op_def with_db_def split: if_splits)
qed

lemma put_op_effect:
  assumes D: "data_contract R view live cfn" and c: "c_db c = Ptr d" "d \<in> live w"
    and op: "put_op R c key v w = Inr r"
  shows "write_effect R view live d kDefaultColumnFamilyName [(key, v)] w r"
proof -
  obtain ok w' where q: "rk_put R d key v w = (ok, w')" by (cases "rk_put R d key v w") auto
  show ?thesis
    using op c q data_contractD(3) [OF D c(2) q]
    by (intro write_reply_effect [where q = "(ok, w')"]) (auto simp: put_op_def with_db_def split: if_splits)
qed

lemma write_batch_op_effect:
  assumes D: "data_contract R view live cfn" and c: "c_db c = Ptr d" "d \<in> live w"
    and op: "write_batch_op R c items w = Inr r"
  shows "\<exists>names kvs. get_member_names items = Inr names \<and> batch_loop items names = Inr kvs \<and>
    write_effect R view live d kDefaultColumnFamilyName kvs w r"
proof -
  obtain names kvs where n: "get_member_names items = Inr names" "batch_loop items names = Inr kvs"
      "write_reply (rk_write R d kvs w) = Inr r"
    using op c by (auto simp: write_batch_op_def with_db_def bind_res_Inr_iff split: if_splits)
  obtain ok w' where q: "rk_write R d kvs w = (ok, w')" by (cases "rk_write R d kvs w") auto
  have "write_effect R view live d kDefaultColumnFamilyName kvs w r"
    using n(3) q data_contractD(5) [OF D c(2) q]
    by (intro write_reply_effect [where q = "(ok, w')"]) auto
  then show ?thesis using n by blast
qed

lemma put_cf_op_effect:
  assumes D: "data_contract R view live cfn" and i: "config_ok R live cfn w c" "c_is_open c"
    and c: "c_db c = Ptr d" "d \<in> live w" and op: "put_cf_op R c cf key v w = Inr r"
  shows "if cf \<in> set (c_cf_names c) then write_effect R view live d cf [(key, v)] w r
         else r = (error_reply 7, w)"
proof (cases "cf \<in> set (c_cf_names c)")
  case True
  then obtain h where h: "get_handle c cf = Inr (Some h)" "cfn h = cf"
    using get_handle_open [OF i, of cf] by auto
  obtain ok w' where q: "rk_put_cf R d h key v w = (ok, w')" by (cases "rk_put_cf R d h key v w") auto
  have "write_effect R view live d cf [(key, v)] w r"
    using op c q h data_contractD(4) [OF D c(2) _ q]
    by (intro write_reply_effect [where q = "(ok, w')"])
      (auto simp: put_cf_op_def with_db_def with_handle_def split: if_splits)
  then show ?thesis using True by simp
next
  case False
  then show ?thesis
    using op c get_handle_open [OF i, of cf] by (auto simp: put_cf_op_def with_db_def split: if_splits)
qed

lemma get_cf_op_effect:
  assumes D: "data_contract R view live cfn" and i: "config_ok R live cfn w c" "c_is_open c"
    and c: "c_db c = Ptr d" "d \<in> live w" and op: "get_cf_op R c cf key w = Inr r"
  shows "if cf \<in> set (c_cf_names c) then read_effect view d cf key w r
         else r = (error_reply 7, w)"
proof (cases "cf \<in> set (c_cf_names c)")
  case True
  then obtain h where h: "get_handle c cf = Inr (Some h)" "cfn h = cf"
    using get_handle_open [OF i, of cf] by auto
  obtain ok v where q: "rk_get_cf R d h key w = (ok, v)" by (cases "rk_get_cf R d h key w") auto
  have "read_effect view d cf key w r"
    using op c q h data_contractD(2) [OF D c(2), of h key v]
    by (intro read_reply_effect [of "(ok, v)"])
      (auto simp: get_cf_op_def with_db_def with_handle_def split: if_splits)
  then show ?thesis using True by simp
next
  case False
  then show ?thesis
    using op c get_handle_open [OF i, of cf] by (auto simp: get_cf_op_def with_db_def split: if_splits)
qed

lemma get_handle_of_db:
  assumes "config_ok R live cfn w c" "c_is_open c" "c_db c = Ptr d" "get_handle c cf = Inr (Some h)"
  shows "h \<in> set (rk_handles R d w)"
proof -
  obtain i where "i < length (c_handles c)" "h = c_handles c ! i" "find_index cf (c_cf_names c) = Some i"
    using assms(4) by (auto simp: get_handle_def split: option.splits if_splits)
  moreover from this have "c_is_cf c" using assms(1) by (auto simp: config_ok_def)
  ultimately show ?thesis using assms(1-3) by (auto simp: config_ok_def)
qed

lemma ops_defined:
  assumes "live_contract R live" "config_ok R live cfn w c" "c_is_open c"
  shows "defined (get_op R c key w)" "defined (put_op R c key v w)"
    "defined (write_batch_op R c items w)"
    "defined (put_cf_op R c cf key v w)" "defined (get_cf_op R c cf key w)"
proof -
  obtain d where d: "c_db c = Ptr d" "rk_alive R d w"
    using assms by (auto simp: config_ok_def live_contract_def)
  note h = get_handle_open [OF assms(2,3), of cf] get_handle_of_db [OF assms(2,3) d(1), of cf]
  show "defined (get_op R c key w)" "defined (put_op R c key v w)"
    "defined (write_batch_op R c items w)"
    by (auto simp: get_op_def put_op_def write_batch_op_def with_db_def d)
  show "defined (put_cf_op R c cf key v w)" "defined (get_cf_op R c cf key w)"
    using h by (auto simp: put_cf_op_def get_cf_op_def with_db_def with_handle_def d split: if_splits)
qed

section \<open>The members of a request\<close>

definition req_member :: "json \<Rightarrow> string \<Rightarrow> json" where
  "req_member rt key =
     (case om_find (czstring (c_str key)) (object_map rt) of None \<Rightarrow> null_singleton | Some c \<Rightarrow> c)"

definition req_string :: "json \<Rightarrow> string \<Rightarrow> string res" where
  "req_string rt key = as_string (req_member rt key)"

lemma object_map_as_object [simp]: "object_map (as_object v) = object_map v"
  by (cases v) (simp_all add: as_object_def object_map_def)

lemma fetch_facts:
  assumes "fetch rt k = Inr (v, rt')" "wf_json rt"
  shows "v = req_member rt k" "req_member rt' k' = req_member rt k'" "wf_json rt'"
proof -
  have t: "type_of rt = nullValue \<or> type_of rt = objectValue"
    using assms(1) by (auto simp: fetch_def member_ref_cstr_def resolve_reference_def bind_res_Inr_iff
        json_assert_Inr_iff)
  let ?m = "om_emplace (czstring (c_str k)) null_singleton (object_map rt)"
  have r: "rt' = JObj (meta (as_object rt)) ?m" and v: "v = member_get rt' (c_str k)"
    using assms(1) by (auto simp: fetch_def member_ref_cstr_object [OF t])
  have s: "om_sorted (object_map rt)" using assms(2) by (simp add: wf_map_sorted)
  have f: "om_find x ?m =
      (if x = czstring (c_str k) \<and> om_find x (object_map rt) = None then Some null_singleton
       else om_find x (object_map rt))" for x
    using s by (auto simp: om_find_map_of om_sorted_emplace map_of_om_emplace)
  show "wf_json rt'" using assms(2) r by simp
  show "v = req_member rt k"
    by (simp add: v r member_get_def req_member_def object_map_def [of "JObj _ _"] f split: option.splits)
  show "req_member rt' k' = req_member rt k'"
    by (auto simp: r req_member_def object_map_def [of "JObj _ _"] f split: option.splits)
qed

lemma fetch_string_facts:
  assumes "fetch_string rt k = Inr (s, rt')" "wf_json rt"
  shows "req_string rt k = Inr s" "req_string rt' k' = req_string rt k'"
    "req_member rt' k' = req_member rt k'" "wf_json rt'"
proof -
  obtain v where f: "fetch rt k = Inr (v, rt')" "as_string v = Inr s"
    using assms(1) by (auto simp: fetch_string_def bind_res_Inr_iff)
  note g = fetch_facts [OF f(1) assms(2)]
  show "req_string rt k = Inr s" using f(2) g(1) by (simp add: req_string_def)
  show "req_member rt' k' = req_member rt k'" "wf_json rt'" using g by simp_all
  show "req_string rt' k' = req_string rt k'" using g(2) by (simp add: req_string_def)
qed

section \<open>The abstract service\<close>

text \<open>
  A database is a map from families and keys to values. \<open>kv_spec\<close> lists the outcomes of a
  request on an open database with families \<open>cfs\<close>: the reply and the database after it.
  After a failed write nothing is known of it.
\<close>

type_synonym store = "string \<Rightarrow> string \<Rightarrow> string option"

definition store_put :: "string \<Rightarrow> (string \<times> string) list \<Rightarrow> store \<Rightarrow> store" where
  "store_put cf kvs s = s(cf := s cf ++ map_of (rev kvs))"

inductive kv_spec :: "string list \<Rightarrow> json \<Rightarrow> store \<Rightarrow> json \<Rightarrow> store \<Rightarrow> bool" for cfs rt where
  put: "req_string rt ''op'' = Inr ''put'' \<Longrightarrow> req_string rt ''key'' = Inr k \<Longrightarrow>
    req_string rt ''value'' = Inr v \<Longrightarrow>
    kv_spec cfs rt s (error_reply 0) (store_put kDefaultColumnFamilyName [(k, v)] s)"
| put_cf: "req_string rt ''op'' = Inr ''put_cf'' \<Longrightarrow> req_string rt ''column'' = Inr cf \<Longrightarrow>
    req_string rt ''key'' = Inr k \<Longrightarrow> req_string rt ''value'' = Inr v \<Longrightarrow> cf \<in> set cfs \<Longrightarrow>
    kv_spec cfs rt s (error_reply 0) (store_put cf [(k, v)] s)"
| write_batch: "req_string rt ''op'' = Inr ''write_batch'' \<Longrightarrow>
    get_member_names (req_member rt ''items'') = Inr names \<Longrightarrow>
    batch_loop (req_member rt ''items'') names = Inr kvs \<Longrightarrow>
    kv_spec cfs rt s (error_reply 0) (store_put kDefaultColumnFamilyName kvs s)"
| failed_write: "req_string rt ''op'' = Inr op \<Longrightarrow> op \<in> {''put'', ''put_cf'', ''write_batch''} \<Longrightarrow>
    kv_spec cfs rt s (error_reply (-2)) s'"
| get: "req_string rt ''op'' = Inr ''get'' \<Longrightarrow> req_string rt ''key'' = Inr k \<Longrightarrow>
    s kDefaultColumnFamilyName k = Some v \<Longrightarrow> mk_string v = Inr (JStr meta0 u) \<Longrightarrow>
    kv_spec cfs rt s (value_reply u) s"
| get_cf: "req_string rt ''op'' = Inr ''get_cf'' \<Longrightarrow> req_string rt ''column'' = Inr cf \<Longrightarrow>
    req_string rt ''key'' = Inr k \<Longrightarrow> cf \<in> set cfs \<Longrightarrow>
    s cf k = Some v \<Longrightarrow> mk_string v = Inr (JStr meta0 u) \<Longrightarrow>
    kv_spec cfs rt s (value_reply u) s"
| failed_read: "req_string rt ''op'' = Inr op \<Longrightarrow> op \<in> {''get'', ''get_cf''} \<Longrightarrow>
    kv_spec cfs rt s (error_reply (-2)) s"
| no_family: "req_string rt ''op'' = Inr op \<Longrightarrow> op \<in> {''put_cf'', ''get_cf''} \<Longrightarrow>
    req_string rt ''column'' = Inr cf \<Longrightarrow> cf \<notin> set cfs \<Longrightarrow>
    kv_spec cfs rt s (error_reply 7) s"
| no_op: "req_string rt ''op'' = Inr op \<Longrightarrow>
    op \<notin> {''put'', ''put_cf'', ''write_batch'', ''get'', ''get_cf''} \<Longrightarrow>
    kv_spec cfs rt s (error_reply 7) s"

inductive_cases kv_spec_value: "kv_spec cfs rt s (value_reply v) s'"

text \<open>The server: every configured database, or None while it is not open.\<close>

inductive server_spec ::
    "string list \<Rightarrow> string list list \<Rightarrow> json \<Rightarrow> (nat \<Rightarrow> store option) \<Rightarrow> json \<Rightarrow>
     (nat \<Rightarrow> store option) \<Rightarrow> bool" for names fams rt where
  no_dbname: "req_string rt ''dbname'' = Inr [] \<Longrightarrow> server_spec names fams rt dbs (error_reply 6) dbs"
| unknown_db: "req_string rt ''dbname'' = Inr n \<Longrightarrow> n \<notin> set names \<Longrightarrow> n \<noteq> [] \<Longrightarrow>
    server_spec names fams rt dbs (error_reply 3) dbs"
| open_failed: "req_string rt ''dbname'' = Inr n \<Longrightarrow> n \<noteq> [] \<Longrightarrow> find_index n names = Some i \<Longrightarrow>
    dbs i = None \<Longrightarrow> server_spec names fams rt dbs (error_reply 4) dbs"
| executed: "req_string rt ''dbname'' = Inr n \<Longrightarrow> n \<noteq> [] \<Longrightarrow> find_index n names = Some i \<Longrightarrow>
    (\<And>s0. dbs i = Some s0 \<Longrightarrow> s = s0) \<Longrightarrow> kv_spec (fams ! i) rt s reply s' \<Longrightarrow>
    server_spec names fams rt dbs reply (dbs(i \<mapsto> s'))"

section \<open>The operations implement the abstract service\<close>

lemma write_effect_spec:
  assumes "write_effect R view live d cf kvs w r" "req_string rt ''op'' = Inr op"
    "op \<in> {''put'', ''put_cf'', ''write_batch''}"
    "kv_spec cfs rt (view w d) (error_reply 0) (store_put cf kvs (view w d))"
  shows "kv_spec cfs rt (view w d) (fst r) (view (snd r) d)"
  using assms kv_spec.failed_write [OF assms(2, 3)]
  by (auto simp: write_effect_def updates_def store_put_def)

lemma read_effect_spec:
  assumes "read_effect view d cf k w r" "req_string rt ''op'' = Inr op" "op \<in> {''get'', ''get_cf''}"
    "\<And>v u. view w d cf k = Some v \<Longrightarrow> mk_string v = Inr (JStr meta0 u) \<Longrightarrow>
       kv_spec cfs rt (view w d) (value_reply u) (view w d)"
  shows "kv_spec cfs rt (view w d) (fst r) (view (snd r) d)"
  using assms kv_spec.failed_read [OF assms(2, 3)] by (auto simp: read_effect_def)

definition op_ok ::
    "('w, 'z, 'db, 'cf) rocks \<Rightarrow> ('w, 'db) store_view \<Rightarrow> ('w \<Rightarrow> 'db set) \<Rightarrow> 'db \<Rightarrow> string list \<Rightarrow> json \<Rightarrow> 'w \<Rightarrow> json \<times> 'w \<Rightarrow> bool" where
  \<comment> \<open>an operation on database \<open>d\<close> for the request \<open>rt\<close>\<close>
  "op_ok R view live d cfs rt w r \<longleftrightarrow>
     kv_spec cfs rt (view w d) (fst r) (view (snd r) d) \<and> touches_only R view live d w (snd r)"

lemma touches_only_refl [simp]: "touches_only R view live d w w"
  by (simp add: touches_only_def)

lemma write_effect_touches: "write_effect R view live d cf kvs w r \<Longrightarrow> touches_only R view live d w (snd r)"
  by (simp add: write_effect_def)

lemma read_effect_touches: "read_effect view d cf k w r \<Longrightarrow> touches_only R view live d w (snd r)"
  by (simp add: read_effect_def)

definition open_db ::
    "('w, 'z, 'db, 'cf) rocks \<Rightarrow> ('w, 'db) store_view \<Rightarrow> ('w \<Rightarrow> 'db set) \<Rightarrow> ('cf \<Rightarrow> string) \<Rightarrow>
     ('z, 'db, 'cf) config \<Rightarrow> 'w \<Rightarrow> 'db \<Rightarrow> bool" where
  "open_db R view live cfn c w d \<longleftrightarrow>
     data_contract R view live cfn \<and> config_ok R live cfn w c \<and> c_is_open c \<and>
     c_db c = Ptr d \<and> d \<in> live w"

lemma open_dbD:
  assumes "open_db R view live cfn c w d"
  shows "data_contract R view live cfn" "config_ok R live cfn w c" "c_is_open c" "c_db c = Ptr d" "d \<in> live w"
  using assms by (simp_all add: open_db_def)

lemma put_ok:
  assumes o: "open_db R view live cfn c w d" and "put_op R c k v w = Inr r" "req_string rt ''op'' = Inr ''put''"
    "req_string rt ''key'' = Inr k" "req_string rt ''value'' = Inr v"
  shows "op_ok R view live d cfs rt w r"
  using put_op_effect [OF open_dbD(1, 4, 5) [OF o] assms(2)] kv_spec.put [OF assms(3-5)]
  by (simp add: op_ok_def write_effect_touches write_effect_spec [OF _ assms(3)])

lemma write_batch_ok:
  assumes o: "open_db R view live cfn c w d" and "write_batch_op R c (req_member rt ''items'') w = Inr r"
    "req_string rt ''op'' = Inr ''write_batch''"
  shows "op_ok R view live d cfs rt w r"
proof -
  obtain names kvs where n: "get_member_names (req_member rt ''items'') = Inr names"
      "batch_loop (req_member rt ''items'') names = Inr kvs"
    and e: "write_effect R view live d kDefaultColumnFamilyName kvs w r"
    using write_batch_op_effect [OF open_dbD(1, 4, 5) [OF o] assms(2)] by blast
  show ?thesis
    using e kv_spec.write_batch [OF assms(3) n]
    by (simp add: op_ok_def write_effect_touches write_effect_spec [OF _ assms(3)])
qed

lemma get_ok:
  assumes o: "open_db R view live cfn c w d" and "get_op R c k w = Inr r" "req_string rt ''op'' = Inr ''get''" "req_string rt ''key'' = Inr k"
  shows "op_ok R view live d cfs rt w r"
  using get_op_effect [OF open_dbD(1, 4, 5) [OF o] assms(2)] kv_spec.get [OF assms(3, 4)]
  by (simp add: op_ok_def read_effect_touches read_effect_spec [OF _ assms(3)])

lemma put_cf_ok:
  assumes o: "open_db R view live cfn c w d" and "put_cf_op R c cf k v w = Inr r" "req_string rt ''op'' = Inr ''put_cf''"
    "req_string rt ''column'' = Inr cf" "req_string rt ''key'' = Inr k" "req_string rt ''value'' = Inr v"
  shows "op_ok R view live d (c_cf_names c) rt w r"
  using put_cf_op_effect [OF open_dbD [OF o] assms(2)] kv_spec.put_cf [OF assms(3-6)]
    kv_spec.no_family [OF assms(3) _ assms(4)]
  by (cases "cf \<in> set (c_cf_names c)")
    (simp_all add: op_ok_def write_effect_touches write_effect_spec [OF _ assms(3)])

lemma get_cf_ok:
  assumes o: "open_db R view live cfn c w d" and "get_cf_op R c cf k w = Inr r" "req_string rt ''op'' = Inr ''get_cf''"
    "req_string rt ''column'' = Inr cf" "req_string rt ''key'' = Inr k"
  shows "op_ok R view live d (c_cf_names c) rt w r"
  using get_cf_op_effect [OF open_dbD [OF o] assms(2)] kv_spec.get_cf [OF assms(3-5)]
    kv_spec.no_family [OF assms(3) _ assms(4)]
  by (cases "cf \<in> set (c_cf_names c)")
    (simp_all add: op_ok_def read_effect_touches read_effect_spec [OF _ assms(3)])

lemma exec_op_ok:
  assumes o: "open_db R view live cfn c w d" and wf: "wf_json rt" and x: "exec_op R c rt reply w = Inr r"
    and re: "reply = error_reply n"
  shows "op_ok R view live d (c_cf_names c) rt w r"
proof -
  obtain op rt1 where op: "fetch_string rt ''op'' = Inr (op, rt1)"
    using x by (auto simp: exec_op_def bind_res_Inr_iff)
  note f1 = fetch_string_facts [OF op wf]
  note x' = x [unfolded exec_op_def op bind_res_simps prod.case]
  consider "op = ''put_cf''" | "op = ''put''" | "op = ''write_batch''" | "op = ''get''" | "op = ''get_cf''"
    | "op \<notin> {''put'', ''put_cf'', ''write_batch'', ''get'', ''get_cf''}" by blast
  then show ?thesis
  proof cases
    case 1
    obtain cf rt2 k rt3 v rt4 where s: "fetch_string rt1 ''column'' = Inr (cf, rt2)"
        "fetch_string rt2 ''key'' = Inr (k, rt3)" "fetch_string rt3 ''value'' = Inr (v, rt4)"
      and p: "put_cf_op R c cf k v w = Inr r"
      using x' 1 by (auto simp: bind_res_Inr_iff)
    note f2 = fetch_string_facts [OF s(1) f1(4)]
    note f3 = fetch_string_facts [OF s(2) f2(4)]
    note f4 = fetch_string_facts [OF s(3) f3(4)]
    show ?thesis
      by (rule put_cf_ok [OF o p]) (use 1 f1 f2 f3 f4 in simp_all)
  next
    case 2
    obtain k rt2 v rt3 where s: "fetch_string rt1 ''key'' = Inr (k, rt2)"
        "fetch_string rt2 ''value'' = Inr (v, rt3)" and p: "put_op R c k v w = Inr r"
      using x' 2 by (auto simp: bind_res_Inr_iff)
    note f2 = fetch_string_facts [OF s(1) f1(4)]
    note f3 = fetch_string_facts [OF s(2) f2(4)]
    show ?thesis
      by (rule put_ok [OF o p]) (use 2 f1 f2 f3 in simp_all)
  next
    case 3
    obtain items rt2 where s: "fetch rt1 ''items'' = Inr (items, rt2)"
      and p: "write_batch_op R c items w = Inr r"
      using x' 3 by (auto simp: bind_res_Inr_iff)
    have "items = req_member rt ''items''"
      using fetch_facts(1) [OF s f1(4)] f1(3) by simp
    then show ?thesis
      using write_batch_ok [OF o] p 3 f1 by simp
  next
    case 4
    obtain k rt2 where s: "fetch_string rt1 ''key'' = Inr (k, rt2)" and p: "get_op R c k w = Inr r"
      using x' 4 by (auto simp: bind_res_Inr_iff)
    note f2 = fetch_string_facts [OF s f1(4)]
    show ?thesis by (rule get_ok [OF o p]) (use 4 f1 f2 in simp_all)
  next
    case 5
    obtain cf rt2 k rt3 where s: "fetch_string rt1 ''column'' = Inr (cf, rt2)"
        "fetch_string rt2 ''key'' = Inr (k, rt3)" and p: "get_cf_op R c cf k w = Inr r"
      using x' 5 by (auto simp: bind_res_Inr_iff)
    note f2 = fetch_string_facts [OF s(1) f1(4)]
    note f3 = fetch_string_facts [OF s(2) f2(4)]
    show ?thesis by (rule get_cf_ok [OF o p]) (use 5 f1 f2 f3 in simp_all)
  next
    case 6
    then have "r = (error_reply 7, w)" using x' re by auto
    then show ?thesis
      using kv_spec.no_op [OF f1(1) 6] by (simp add: op_ok_def)
  qed
qed

lemma exec_op_defined:
  assumes "live_contract R live" "config_ok R live cfn w c" "c_is_open c"
  shows "defined (exec_op R c rt (error_reply n) w)"
proof -
  note o = ops_defined [OF assms]
  have *: "defined (if op = a then A else if op = b then B else if op = e then C
             else if op = f then D else if op = g then E else F)"
    if "defined A" "defined B" "defined C" "defined D" "defined E" "defined F"
    for op a b e f g :: string and A B C D E F :: "(json \<times> 'w) res"
    using that by simp
  show ?thesis
    unfolding exec_op_def
    by (intro defined_bind defined_fetch_string) (clarify, rule *, auto intro: o)
qed

section \<open>Requests\<close>

definition abs_state :: "('w, 'db) store_view \<Rightarrow> ('w, 'z, 'db, 'cf) server_state \<Rightarrow> nat \<Rightarrow> store option" where
  "abs_state view st i =
     (if i < length (configs st) \<and> c_is_open (configs st ! i)
      then (case c_db (configs st ! i) of Ptr d \<Rightarrow> Some (view (world st) d) | _ \<Rightarrow> None)
      else None)"

lemma server_invD:
  assumes "server_inv R live cfn st" "i < length (configs st)"
  shows "config_ok R live cfn (world st) (configs st ! i)"
  using assms by (simp add: server_inv_def)

lemma server_inv_distinct:
  "server_inv R live cfn st \<Longrightarrow> i < length (configs st) \<Longrightarrow> j < length (configs st) \<Longrightarrow> i \<noteq> j \<Longrightarrow>
   c_is_open (configs st ! i) \<Longrightarrow> c_is_open (configs st ! j) \<Longrightarrow>
   c_db (configs st ! i) \<noteq> c_db (configs st ! j)"
  by (simp add: server_inv_def)

lemma config_ok_keeps: "config_ok R live cfn w c \<Longrightarrow> keeps_handles R live w w' \<Longrightarrow> config_ok R live cfn w' c"
  by (auto simp: config_ok_def keeps_handles_def)

text \<open>Replacing configuration \<open>i\<close> by one that kept its handle or got a fresh one.\<close>

lemma server_inv_update:
  assumes inv: "server_inv R live cfn st" and i: "i < length (configs st)"
    and w: "keeps_handles R live (world st) w'" and c: "config_ok R live cfn w' c"
    and db: "c_is_open c \<Longrightarrow> (c_is_open (configs st ! i) \<and> c_db c = c_db (configs st ! i)) \<or>
        (\<exists>d. c_db c = Ptr d \<and> d \<notin> live (world st))"
  shows "server_inv R live cfn (st\<lparr>configs := (configs st)[i := c], world := w'\<rparr>)"
proof -
  have ok: "config_ok R live cfn w' (configs st ! j)" if "j < length (configs st)" for j
    using config_ok_keeps [OF server_invD [OF inv that] w] .
  have live: "\<exists>d. c_db (configs st ! j) = Ptr d \<and> d \<in> live (world st)"
    if "j < length (configs st)" "c_is_open (configs st ! j)" for j
    using server_invD [OF inv that(1)] that(2) by (auto simp: config_ok_def)
  have ne: "c_db c \<noteq> c_db (configs st ! j)"
    if "c_is_open c" "j < length (configs st)" "j \<noteq> i" "c_is_open (configs st ! j)" for j
  proof -
    have "c_is_open (configs st ! i) \<Longrightarrow> c_db (configs st ! i) \<noteq> c_db (configs st ! j)"
      using inv i that by (simp add: server_inv_def)
    then show ?thesis using db [OF that(1)] live [OF that(2, 4)] by auto
  qed
  have "\<forall>c' \<in> set ((configs st)[i := c]). config_ok R live cfn w' c'"
  proof -
    have "config_ok R live cfn w' x" if "x \<in> set (configs st)" for x
      using that ok by (metis in_set_conv_nth)
    then show ?thesis using c set_update_subset_insert [of "configs st" i c] by auto
  qed
  moreover have "c_db ((configs st)[i := c] ! j) \<noteq> c_db ((configs st)[i := c] ! k)"
    if "j < length (configs st)" "k < length (configs st)" "j \<noteq> k"
      "c_is_open ((configs st)[i := c] ! j)" "c_is_open ((configs st)[i := c] ! k)" for j k
    using that ne [of j] ne [of k, THEN not_sym] server_inv_distinct [OF inv, of j k] i
    by (auto simp: nth_list_update split: if_splits)
  ultimately show ?thesis by (simp add: server_inv_def)
qed

lemma server_inv_world:
  assumes "server_inv R live cfn st" "keeps_handles R live (world st) w'"
  shows "server_inv R live cfn (st\<lparr>world := w'\<rparr>)"
  using assms by (auto simp: server_inv_def intro: config_ok_keeps)

lemma touches_only_keeps: "touches_only R view live d w w' \<Longrightarrow> keeps_handles R live w w'"
  by (simp add: touches_only_def keeps_handles_def)

lemma kv_spec_cong:
  assumes "kv_spec cfs rt1 s r s'" "\<And>k. req_member rt1 k = req_member rt k"
  shows "kv_spec cfs rt s r s'"
proof -
  have "req_string rt1 k = req_string rt k" for k using assms(2) by (simp add: req_string_def)
  with assms show ?thesis
    by (induction rule: kv_spec.induct) (auto intro: kv_spec.intros)
qed

lemma abs_state_keeps:
  assumes inv: "server_inv R live cfn st" and k: "keeps_others R view live (world st) w" and j: "j \<noteq> i"
  shows "abs_state view (st\<lparr>configs := (configs st)[i := c], world := w\<rparr>) j = abs_state view st j"
proof (cases "j < length (configs st) \<and> c_is_open (configs st ! j)")
  case True
  then obtain d where "c_db (configs st ! j) = Ptr d" "d \<in> live (world st)"
    using server_invD [OF inv, of j] by (auto simp: config_ok_def)
  then show ?thesis using True j k by (simp add: abs_state_def keeps_others_def)
next
  case False
  then show ?thesis using j by (auto simp: abs_state_def)
qed

lemma exec_request_ok:
  assumes R: "rocks_contract R view live cfn" and inv: "server_inv R live cfn st" and wf: "wf_json rt"
    and x: "exec_request R rt st = Inr (reply, st')"
  shows "server_inv R live cfn st' \<and> map c_name (configs st') = map c_name (configs st) \<and>
    map c_cf_names (configs st') = map c_cf_names (configs st) \<and>
    server_spec (map c_name (configs st)) (map c_cf_names (configs st)) rt
      (abs_state view st) reply (abs_state view st')"
proof -
  have L: "live_contract R live" and O: "open_contract R view live cfn" and D: "data_contract R view live cfn"
    using R by (simp_all add: rocks_contract_def)
  obtain n rt1 where n: "fetch_string rt ''dbname'' = Inr (n, rt1)"
    using x by (auto simp: exec_request_def bind_res_Inr_iff)
  note nf = fetch_string_facts [OF n wf]
  note x' = x [unfolded exec_request_def n set_error_reply bind_res_simps prod.case]
  show ?thesis
  proof (cases "n = []")
    case True
    then have "reply = error_reply 6" "st' = st" using x' by simp_all
    then show ?thesis using inv server_spec.no_dbname nf(1) True by simp
  next
    case ne: False
    show ?thesis
    proof (cases "find_index n (map c_name (configs st))")
      case None
      then have "reply = error_reply 3" "st' = st" using x' ne by simp_all
      then show ?thesis
        using inv server_spec.unknown_db [OF nf(1) _ ne] None
        by (simp add: find_index_None)
    next
      case (Some i)
      note i = find_index_Some [OF Some]
      then have il: "i < length (configs st)" by simp
      note ci = server_invD [OF inv il]
      let ?c = "configs st ! i"
      obtain r0 c w where oc: "open_config R ?c (world st) = Inr (r0, c, w)"
        using x' ne Some by (auto simp: bind_res_Inr_iff)
      note cf = open_config_facts(2) [OF L O ci oc]
      let ?st1 = "st\<lparr>configs := (configs st)[i := c], world := w\<rparr>"
      have inv1: "server_inv R live cfn ?st1"
        using cf ci by (intro server_inv_update [OF inv il])
          (auto simp: keeps_others_def config_ok_def split: if_splits)
      have names: "map c_name ((configs st)[i := c]) = map c_name (configs st)"
        "map c_cf_names ((configs st)[i := c]) = map c_cf_names (configs st)"
        using cf il by (auto simp: map_update list_update_id [of _ i, simplified nth_map [OF il]]
            intro!: nth_equalityI simp: nth_list_update)
      show ?thesis
      proof (cases "c_is_open c")
        case False
        then have e: "reply = error_reply 4" "st' = ?st1"
          using x' ne Some oc cf by simp_all
        have closed: "\<not> c_is_open ?c" using cf False by (auto split: if_splits)
        have "abs_state view ?st1 j = abs_state view st j" for j
        proof (cases "j = i")
          case True
          then show ?thesis using closed False il by (simp add: abs_state_def)
        next
          case False
          then show ?thesis by (rule abs_state_keeps [OF inv cf [THEN conjunct1]])
        qed
        then have "abs_state view ?st1 = abs_state view st" by (rule ext)
        moreover have "abs_state view st i = None" using closed by (simp add: abs_state_def)
        ultimately show ?thesis
          using server_spec.open_failed [OF nf(1) ne Some] inv1 names e by simp
      next
        case True
        obtain w' where xo: "exec_op R c rt1 r0 w = Inr (reply, w')"
          and st': "st' = ?st1\<lparr>world := w'\<rparr>"
          using x' ne Some oc True by (auto simp: bind_res_Inr_iff)
        obtain d where d: "c_db c = Ptr d" "d \<in> live w"
          using cf True by (auto simp: config_ok_def)
        have od: "open_db R view live cfn c w d"
          using cf D True d by (simp add: open_db_def)
        have ok: "op_ok R view live d (c_cf_names c) rt1 w (reply, w')"
          using cf by (intro exec_op_ok [OF od nf(4) xo]) simp
        have kv: "kv_spec (c_cf_names ?c) rt (view w d) reply (view w' d)"
          using kv_spec_cong [of _ rt1 _ _ _ rt] ok nf(3) cf by (auto simp: op_ok_def)
        have t: "touches_only R view live d w w'" using ok by (simp add: op_ok_def)
        have inv': "server_inv R live cfn st'"
          using server_inv_world [OF inv1, of w'] touches_only_keeps [OF t] st' by simp
        have "abs_state view st' j = ((abs_state view st)(i \<mapsto> view w' d)) j" for j
        proof (cases "j = i")
          case i: True
          then show ?thesis using True d il st' by (simp add: abs_state_def)
        next
          case j: False
          have "abs_state view st' j = abs_state view ?st1 j"
          proof (cases "j < length (configs st) \<and> c_is_open (configs st ! j)")
            case o: True
            then obtain d' where d': "c_db (configs st ! j) = Ptr d'" "d' \<in> live w"
              using server_invD [OF inv1, of j] j by (auto simp: config_ok_def)
            have "d' \<noteq> d"
              using server_inv_distinct [OF inv1, of i j] o j d d' True il by auto
            then show ?thesis
              using o d' j t st' by (simp add: abs_state_def touches_only_def)
          qed (use j st' in \<open>auto simp: abs_state_def\<close>)
          then show ?thesis
            using abs_state_keeps [OF inv cf [THEN conjunct1] j] j by simp
        qed
        then have abs: "abs_state view st' = (abs_state view st)(i \<mapsto> view w' d)" by (rule ext)
        have "s0 = view w d" if "abs_state view st i = Some s0" for s0
          using that cf d by (auto simp: abs_state_def split: if_splits)
        then show ?thesis
          using server_spec.executed [OF nf(1) ne Some, of "abs_state view st" "view w d"
              "map c_cf_names (configs st)" reply "view w' d"] kv il names inv' st' abs
          by simp
      qed
    qed
  qed
qed

text \<open>The requests that make the server create a database with families.\<close>

definition request_creates :: "('w, 'z, 'db, 'cf) rocks \<Rightarrow> ('w, 'z, 'db, 'cf) server_state \<Rightarrow> json \<Rightarrow> bool" where
  "request_creates R st rt \<longleftrightarrow>
     (case req_string rt ''dbname'' of
        Inr n \<Rightarrow> n \<noteq> [] \<and>
          (case find_index n (map c_name (configs st)) of
             None \<Rightarrow> False | Some i \<Rightarrow> creates_families R (configs st ! i) (world st))
      | _ \<Rightarrow> False)"

lemma fetch_string_returns:
  assumes "req_string rt k = Inr n" "n \<noteq> []" "wf_json rt"
  shows "\<exists>rt'. fetch_string rt k = Inr (n, rt')"
proof -
  have "object_map rt \<noteq> []" using assms by (auto simp: req_string_def req_member_def null_singleton_def)
  then obtain mt m where rt: "rt = JObj mt m" by (cases rt) (simp_all add: object_map_def)
  then obtain v rt' where f: "fetch rt k = Inr (v, rt')"
    by (simp add: fetch_def member_ref_cstr_object)
  have "v = req_member rt k" by (rule fetch_facts(1) [OF f assms(3)])
  then show ?thesis using assms(1) f by (simp add: fetch_string_def req_string_def)
qed

lemma exec_request_creates:
  assumes R: "rocks_contract R view live cfn" and wf: "wf_json rt" and c: "request_creates R st rt"
  shows "ends_badly (exec_request R rt st)"
proof -
  obtain n i where n: "req_string rt ''dbname'' = Inr n" "n \<noteq> []"
    and i: "find_index n (map c_name (configs st)) = Some i" "creates_families R (configs st ! i) (world st)"
    using c by (auto simp: request_creates_def split: sum.splits option.splits)
  obtain rt1 where "fetch_string rt ''dbname'' = Inr (n, rt1)" using fetch_string_returns [OF n wf] by blast
  moreover have "ends_badly (open_config R (configs st ! i) (world st))"
    using R by (intro open_config_creates [OF _ _ i(2), of live view cfn]) (simp_all add: rocks_contract_def)
  ultimately show ?thesis
    using n i by (auto simp: exec_request_def ends_badly_def)
qed

lemma exec_request_defined:
  assumes R: "rocks_contract R view live cfn" and inv: "server_inv R live cfn st" and wf: "wf_json rt"
    and no: "\<not> request_creates R st rt"
  shows "defined (exec_request R rt st)"
proof -
  have L: "live_contract R live" and O: "open_contract R view live cfn"
    using R by (simp_all add: rocks_contract_def)
  have step: "defined (bind_res (open_config R (configs st ! i) (world st)) (\<lambda>(reply', c, w).
                let st' = st\<lparr>configs := (configs st)[i := c], world := w\<rparr>
                in if \<not> c_is_open c then Inr (reply', st')
                   else bind_res (exec_op R c rt1 reply' w) (\<lambda>(reply'', w').
                          Inr (reply'', st'\<lparr>world := w'\<rparr>))))"
    if i: "i < length (configs st)" "\<not> creates_families R (configs st ! i) (world st)" for i rt1
  proof (rule defined_bind)
    note ci = server_invD [OF inv i(1)]
    show "defined (open_config R (configs st ! i) (world st))"
      by (rule open_config_facts(1) [OF L O ci i(2)])
    fix x assume x: "open_config R (configs st ! i) (world st) = Inr x"
    obtain r c w where e: "x = (r, c, w)" by (cases x)
    note f = open_config_facts(2) [OF L O ci x [unfolded e]]
    have "defined (exec_op R c rt1 r w)" if "c_is_open c"
      using f that exec_op_defined [OF L, of cfn w c rt1 0] by simp
    then show "defined (case x of (reply', c, w) \<Rightarrow>
                let st' = st\<lparr>configs := (configs st)[i := c], world := w\<rparr>
                in if \<not> c_is_open c then Inr (reply', st')
                   else bind_res (exec_op R c rt1 reply' w) (\<lambda>(reply'', w').
                          Inr (reply'', st'\<lparr>world := w'\<rparr>)))"
      by (auto simp: e Let_def)
  qed
  have safe: "i < length (configs st) \<and> \<not> creates_families R (configs st ! i) (world st)"
    if "fetch_string rt ''dbname'' = Inr (n, rt1)" "n \<noteq> []" "find_index n (map c_name (configs st)) = Some i"
    for n rt1 i
    using no that fetch_string_facts(1) [OF that(1) wf] find_index_Some [OF that(3)]
    by (simp add: request_creates_def)
  show ?thesis
    unfolding exec_request_def
    by (auto split: option.splits dest: safe intro!: step)
qed

lemma exec_json_unfold:
  "exec_json R st inp =
     bind_res (char_reader_parse service_features inp null_singleton) (\<lambda>(ok, rt, errs).
     bind_res (if ok then exec_request R rt st else Inr (error_reply 1, st)) (\<lambda>(reply, st').
       Inr (fw_write fast_writer_default reply, st')))"
proof -
  have e: "bind_res (set_error null_singleton 0) (\<lambda>reply. bind_res (set_error reply 1)
      (\<lambda>reply'. Inr (reply', st))) = Inr (error_reply 1, st)"
    by simp
  have "exec_json R st inp =
     bind_res (bind_res service_settings (\<lambda>b. parse_from_stream b inp null_singleton)) (\<lambda>(ok, rt, errs).
     bind_res (if ok then exec_request R rt st else Inr (error_reply 1, st)) (\<lambda>(reply, st').
       Inr (fw_write fast_writer_default reply, st')))"
    unfolding exec_json_def e bind_res_assoc ..
  then show ?thesis by (simp only: service_parse)
qed

lemma exec_json_defined:
  assumes "rocks_contract R view live cfn" "server_inv R live cfn st" "length inp < 2 ^ 30"
    and "\<And>rt errs. char_reader_parse service_features inp null_singleton = Inr (True, rt, errs) \<Longrightarrow>
      \<not> request_creates R st rt"
  shows "defined (exec_json R st inp)"
  unfolding exec_json_unfold
proof (intro defined_bind defined_only_stack [OF service_parse_only_stack [OF assms(3)]])
  fix x assume x: "char_reader_parse service_features inp null_singleton = Inr x"
  obtain ok rt errs where e: "x = (ok, rt, errs)" by (cases x)
  have wf: "wf_json rt" using service_parse_result [OF x [unfolded e]] by simp
  have "defined (exec_request R rt st)" if ok
    using that exec_request_defined [OF assms(1,2) wf] assms(4) x e by simp
  then show "defined (case x of (ok, rt, errs) \<Rightarrow>
      bind_res (if ok then exec_request R rt st else Inr (error_reply 1, st)) (\<lambda>(reply, st').
        Inr (fw_write fast_writer_default reply, st')))"
    by (auto simp: e)
qed

lemma exec_json_creates:
  assumes "rocks_contract R view live cfn"
    and "char_reader_parse service_features inp null_singleton = Inr (True, rt, errs)" "request_creates R st rt"
  shows "ends_badly (exec_json R st inp)"
proof -
  have "wf_json rt" using service_parse_result [OF assms(2)] by simp
  from exec_request_creates [OF assms(1) this assms(3)] show ?thesis
    using assms(2) by (auto simp: exec_json_unfold ends_badly_def)
qed

text \<open>One request text: a parse error, or the request that the text denotes.\<close>

lemma exec_json_ok:
  assumes R: "rocks_contract R view live cfn" and inv: "server_inv R live cfn st"
    and x: "exec_json R st inp = Inr (out, st')"
  shows "\<exists>ok rt errs reply. char_reader_parse service_features inp null_singleton = Inr (ok, rt, errs) \<and>
    out = fw_write fast_writer_default reply \<and> server_inv R live cfn st' \<and>
    map c_name (configs st') = map c_name (configs st) \<and>
    map c_cf_names (configs st') = map c_cf_names (configs st) \<and>
    (if ok then server_spec (map c_name (configs st)) (map c_cf_names (configs st)) rt
                  (abs_state view st) reply (abs_state view st')
     else reply = error_reply 1 \<and> st' = st)"
proof -
  obtain ok rt errs where p: "char_reader_parse service_features inp null_singleton = Inr (ok, rt, errs)"
    and rest: "bind_res (if ok then exec_request R rt st else Inr (error_reply 1, st)) (\<lambda>(reply, st').
       Inr (fw_write fast_writer_default reply, st')) = Inr (out, st')"
    using x by (auto simp: exec_json_unfold bind_res_Inr_iff)
  have wf: "wf_json rt" using service_parse_result [OF p] by simp
  obtain reply where r: "(if ok then exec_request R rt st else Inr (error_reply 1, st)) = Inr (reply, st')"
    and out: "out = fw_write fast_writer_default reply"
    using rest by (auto simp: bind_res_Inr_iff)
  show ?thesis
  proof (cases ok)
    case True
    then have "exec_request R rt st = Inr (reply, st')" using r by simp
    from exec_request_ok [OF R inv wf this] show ?thesis using p out True by auto
  next
    case False
    then show ?thesis using p out r inv by auto
  qed
qed

section \<open>The configuration file\<close>

lemma read_cf_names_no_default: "read_cf_names v n i = Inr names \<Longrightarrow> kDefaultColumnFamilyName \<notin> set names"
  by (induction v n i arbitrary: names rule: read_cf_names.induct)
    (auto simp: bind_res_Inr_iff split: if_splits)

lemma filter_no_default:
  "kDefaultColumnFamilyName \<notin> set names \<Longrightarrow>
   filter (\<lambda>n. n \<noteq> kDefaultColumnFamilyName) names = names"
  by (induction names) auto

lemma key_name_string:
  assumes "bind_res (key_value (KName s)) as_string = Inr key" "length s < 2 ^ 30"
  shows "key = s"
  using assms key_value_name [of s] by simp

text \<open>The column families of a configuration, as \<^verbatim>\<open>read_config\<close> collects them.\<close>

lemma read_config_loop_families:
  "read_config_loop R (map (\<lambda>(k, c). (KName k, c)) m) (path, opts, cf) = Inr (path', opts', cf') \<Longrightarrow>
   keys_ok m \<Longrightarrow> distinct (map fst m) \<Longrightarrow>
   cf' = cf \<or> (''column_family'' \<in> fst ` set m \<and>
     (\<exists>names. kDefaultColumnFamilyName \<notin> set names \<and> cf' = cf @ kDefaultColumnFamilyName # names))"
proof (induction m arbitrary: path opts cf)
  case (Cons p m)
  obtain k v where p: "p = (k, v)" by (cases p)
  have k: "length k < 2 ^ 30" using Cons.prems(2) by (simp add: keys_ok_def p)
  obtain key s' where key: "bind_res (key_value (KName k)) as_string = Inr key"
    and step: "(if key = ''column_family'' then
          bind_res (read_cf_names v (unat (size_of v)) 0) (\<lambda>names.
            Inr (path, opts, cf @ kDefaultColumnFamilyName # names))
        else if key = ''dbname'' then bind_res (as_string v) (\<lambda>path'. Inr (path', opts, cf))
        else if key = ''options'' then
          bind_res (options_from_json (rk_options R) v) (\<lambda>o1.
            Inr (path, optimize_level_style_compaction_default (rk_options R)
                         (increase_parallelism_default (rk_options R) o1), cf))
        else Inr (path, opts, cf)) = Inr s'"
    and rest: "read_config_loop R (map (\<lambda>(k, c). (KName k, c)) m) s' = Inr (path', opts', cf')"
    using Cons.prems(1)
    by (simp only: p list.map prod.case read_config_loop.simps bind_res_Inr_iff) blast
  have kk: "key = k" by (rule key_name_string [OF key k])
  obtain p1 o1 c1 where s': "s' = (p1, o1, c1)" by (cases s')
  have IH: "cf' = c1 \<or> (''column_family'' \<in> fst ` set m \<and>
     (\<exists>names. kDefaultColumnFamilyName \<notin> set names \<and> cf' = c1 @ kDefaultColumnFamilyName # names))"
    using Cons.IH [of p1 o1 c1] rest s' Cons.prems(2, 3) by (simp add: keys_ok_def p)
  show ?case
  proof (cases "k = ''column_family''")
    case True
    then obtain names where "read_cf_names v (unat (size_of v)) 0 = Inr names"
        "c1 = cf @ kDefaultColumnFamilyName # names"
      using step kk s' by (auto simp: bind_res_Inr_iff)
    moreover have "''column_family'' \<notin> fst ` set m" using Cons.prems(3) True by (auto simp: p)
    ultimately show ?thesis using IH True read_cf_names_no_default by (auto simp: p)
  next
    case False
    then have "c1 = cf"
      using step kk s' by (auto simp: bind_res_Inr_iff split: if_splits)
    then show ?thesis using IH by (auto simp: p)
  qed
qed simp

lemma read_config_loop_indices:
  "read_config_loop R (map (\<lambda>(k, c). (KIndex k, c)) m) (path, opts, cf) = Inr (path', opts', cf') \<Longrightarrow> cf' = cf"
proof (induction m arbitrary: path opts cf)
  case (Cons p m)
  obtain k v where p: "p = (k, v)" by (cases p)
  have digits: "\<forall>c \<in> set (value_to_string_uint (ucast k)). is_digit c"
    by (auto simp: value_to_string_uint_show show_nat_digits)
  then have "value_to_string_uint (ucast k) \<noteq> ''column_family''"
      "value_to_string_uint (ucast k) \<noteq> ''dbname''" "value_to_string_uint (ucast k) \<noteq> ''options''"
    by (auto simp: is_digit_def byte_def)
  then show ?case
    using Cons by (auto simp: p mk_uint_def)
qed simp

lemma read_config_ok:
  assumes "read_config R name rt = Inr c" "wf_json rt"
  shows "config_ok R live cfn w c" "\<not> c_is_open c" "c_name c = name"
proof -
  obtain path opts cf where l: "read_config_loop R (value_entries rt)
      ([], default_options (rk_options R), []) = Inr (path, opts, cf)"
    and c: "c = new_config name path opts cf"
    using assms(1) by (auto simp: read_config_def bind_res_Inr_iff)
  have "cf = [] \<or> (\<exists>names. kDefaultColumnFamilyName \<notin> set names \<and> cf = kDefaultColumnFamilyName # names)"
  proof (cases rt)
    case (JObj mt m)
    then have "distinct (map fst m)" "keys_ok m"
      using assms(2) om.keys_distinct [of m] by (auto simp: wf_map_def om_keys_def)
    then show ?thesis
      using read_config_loop_families l JObj by (fastforce simp: value_entries_def)
  next
    case (JArr mt m)
    then show ?thesis using read_config_loop_indices l by (fastforce simp: value_entries_def)
  qed (use l in \<open>auto simp: value_entries_def\<close>)
  then have "cf \<noteq> [] \<Longrightarrow> column_families cf = cf"
    by (auto simp: column_families_def filter_no_default)
  then show "config_ok R live cfn w c" "\<not> c_is_open c" "c_name c = name"
    by (auto simp: c new_config_def config_ok_def)
qed

lemma load_configs_loop_ok:
  "load_configs_loop R kvs = Inr cs \<Longrightarrow> \<forall>(k, v) \<in> set kvs. wf_json v \<Longrightarrow>
   \<forall>c \<in> set cs. config_ok R live cfn w c \<and> \<not> c_is_open c"
proof (induction kvs arbitrary: cs)
  case (Cons p kvs)
  obtain k v where p: "p = (k, v)" by (cases p)
  then obtain name c cs' where "read_config R name v = Inr c" "load_configs_loop R kvs = Inr cs'"
      "cs = c # cs'"
    using Cons.prems(1) by (auto simp: bind_res_Inr_iff)
  then show ?case
    using Cons.IH [of cs'] Cons.prems(2) read_config_ok [of R name v c] p by auto
qed simp

lemma wf_value_entries: "wf_json v \<Longrightarrow> \<forall>(k, c) \<in> set (value_entries v). wf_json c"
  by (cases v) (auto simp: value_entries_def wf_map_def)

lemma load_configs_inv:
  assumes "load_configs R text = Inr (Some cs)"
  shows "server_inv R live cfn \<lparr>configs = cs, world = w\<rparr>"
    "\<forall>c \<in> set cs. \<not> c_is_open c"
proof -
  have "load_configs R text =
     bind_res (bind_res service_settings (\<lambda>b. parse_from_stream b text null_singleton)) (\<lambda>(ok, root0, errs).
       if \<not> ok then Inr None
       else
         bind_res (fetch root0 ''dbs'') (\<lambda>(rt, _).
         bind_res (load_configs_loop R (value_entries rt)) (\<lambda>cs. Inr (Some cs))))"
    unfolding load_configs_def bind_res_assoc ..
  then have "bind_res (char_reader_parse service_features text null_singleton) (\<lambda>(ok, root0, errs).
       if \<not> ok then Inr None
       else
         bind_res (fetch root0 ''dbs'') (\<lambda>(rt, _).
         bind_res (load_configs_loop R (value_entries rt)) (\<lambda>cs. Inr (Some cs)))) = Inr (Some cs)"
    unfolding service_parse using assms by (rule trans [OF sym])
  then obtain root0 errs rt root1 where p: "char_reader_parse service_features text null_singleton = Inr (True, root0, errs)"
    and f: "fetch root0 ''dbs'' = Inr (rt, root1)"
    and l: "load_configs_loop R (value_entries rt) = Inr cs"
    by (auto simp: bind_res_Inr_iff split: if_splits)
  have w0: "wf_json root0" using service_parse_result [OF p] by simp
  have "wf_json rt"
    using fetch_facts(1) [OF f w0] w0
    by (auto simp: req_member_def split: option.splits intro: wf_map_find [OF wf_map_object])
  then have "\<forall>c \<in> set cs. config_ok R live cfn w c \<and> \<not> c_is_open c"
    by (rule load_configs_loop_ok [OF l wf_value_entries])
  then show "server_inv R live cfn \<lparr>configs = cs, world = w\<rparr>" "\<forall>c \<in> set cs. \<not> c_is_open c"
    by (auto simp: server_inv_def)
qed


lemma column_families_shape:
  "column_families names = names \<Longrightarrow>
   \<exists>r. names = kDefaultColumnFamilyName # r \<and> kDefaultColumnFamilyName \<notin> set r"
  by (metis (mono_tags, lifting) column_families_def mem_Collect_eq set_filter)

lemma load_configs_uninit:
  assumes "load_configs R tx = Inr (Some cs)"
  shows "\<forall>c \<in> set cs. c_db c = Uninit"
proof -
  have "\<forall>c \<in> set cs. c_db c = Uninit" if "load_configs_loop R kvs = Inr cs" for kvs cs
    using that
    by (induction kvs arbitrary: cs)
      (auto simp: bind_res_Inr_iff read_config_def new_config_def)
  then show ?thesis using assms by (auto simp: load_configs_def bind_res_Inr_iff split: if_splits)
qed

end
