(* ===== verification/Session.thy ===== *)
theory Session
  imports Prelude
begin

text \<open>
  src/networkinterface.cc: the framing of requests and replies on a connection. A frame is
  a 32-bit length in host byte order (little endian) and that many bytes. The callbacks of
  a session are the steps of a state machine; what the socket delivers is the event of a
  step, and \<open>event_ok\<close> states what asio guarantees of it. The server is these machines and
  the one thread that runs their callbacks. The function \<^verbatim>\<open>exec_json\<close> is declared
  in this file and defined elsewhere: it is the parameter \<open>exec\<close>, over the state \<open>'st\<close> of
  the service, and the interface \<open>framed_service\<close> states what the session relies on.
\<close>

section \<open>Frames\<close>

definition size32 :: nat where "size32 = 4"

definition le32 :: "uint32 \<Rightarrow> string" where
  \<comment> \<open>the bytes of \<^verbatim>\<open>*(uint32_t*)p = w\<close>\<close>
  "le32 w = map (\<lambda>i. chr (unat w div 256 ^ i mod 256)) [0..<4]"

definition of_le32 :: "string \<Rightarrow> uint32" where
  "of_le32 b = of_nat (\<Sum>i < 4. byte (b ! i) * 256 ^ i)"

definition strncpy_bytes :: "string \<Rightarrow> nat \<Rightarrow> string" where
  \<comment> \<open>the \<open>n\<close> bytes that \<^verbatim>\<open>strncpy(p, s.c_str(), n)\<close> writes\<close>
  "strncpy_bytes s n = take n (takeWhile (\<lambda>c. c \<noteq> NUL) s @ replicate n NUL)"

section \<open>The session\<close>

text \<open>
  \<open>AwaitHeader\<close>: inside the blocking \<^verbatim>\<open>asio::read\<close> of \<^verbatim>\<open>do_read\<close>. \<open>FirstRead\<close>: the
  \<^verbatim>\<open>async_read_some\<close> of \<^verbatim>\<open>do_read\<close> is pending. \<open>RestRead off n\<close>: the one of \<^verbatim>\<open>read_rest\<close>, with
  \<^verbatim>\<open>buffer\<close> at offset \<open>off\<close> of the input buffer and \<^verbatim>\<open>length = n\<close>. \<open>AwaitWrite b\<close>: the
  \<^verbatim>\<open>async_write\<close> of the bytes \<open>b\<close> is pending. \<open>Ended\<close>: no operation is pending, the last
  \<^verbatim>\<open>shared_ptr\<close> to the session is gone. A byte of a new buffer is None until it is written.
\<close>

datatype phase =
  AwaitHeader | FirstRead | RestRead nat nat | AwaitWrite string | Ended

record session =
  s_phase :: phase
  s_length :: uint32
  s_inp :: "char option list option"   \<comment> \<open>\<^verbatim>\<open>inp_data_\<close>; None when null or deleted\<close>
  s_sent :: string                     \<comment> \<open>what the socket has accepted so far\<close>

definition do_read :: "session \<Rightarrow> session" where
  \<comment> \<open>the call of \<^verbatim>\<open>do_read\<close>, up to its \<^verbatim>\<open>asio::read\<close>; \<open>do_read_header\<close> is the rest of it\<close>
  [simp]: "do_read s = s\<lparr>s_phase := AwaitHeader\<rparr>"

definition new_session :: session where
  \<comment> \<open>the constructor, then \<^verbatim>\<open>start()\<close>, which calls \<^verbatim>\<open>do_read\<close>\<close>
  "new_session = do_read \<lparr>s_phase = Ended, s_length = 0, s_inp = None, s_sent = []\<rparr>"

datatype event =
    Header string | HeaderFailed
  | Data string | DataFailed
  | Written | WriteFailed

definition max_request :: nat where "max_request = 1024 * 1024"

definition event_ok :: "session \<Rightarrow> event \<Rightarrow> bool" where
  \<comment> \<open>asio: \<^verbatim>\<open>read\<close> fills the buffer or fails; \<^verbatim>\<open>async_read_some\<close> delivers at least one byte and
     at most the buffer, or nothing into an empty buffer\<close>
  "event_ok s e =
     (case s_phase s of
        AwaitHeader \<Rightarrow> (case e of Header b \<Rightarrow> length b = size32 | HeaderFailed \<Rightarrow> True | _ \<Rightarrow> False)
      | FirstRead \<Rightarrow>
          (case e of Data b \<Rightarrow> length b \<le> unat (s_length s) \<and> (b = [] \<longrightarrow> s_length s = 0)
           | DataFailed \<Rightarrow> True | _ \<Rightarrow> False)
      | RestRead off n \<Rightarrow>
          (case e of Data b \<Rightarrow> length b \<le> n \<and> (b = [] \<longrightarrow> n = 0) | DataFailed \<Rightarrow> True | _ \<Rightarrow> False)
      | AwaitWrite b \<Rightarrow> (case e of Written \<Rightarrow> True | WriteFailed \<Rightarrow> True | _ \<Rightarrow> False)
      | Ended \<Rightarrow> False)"

definition store_at :: "nat \<Rightarrow> string \<Rightarrow> char option list \<Rightarrow> char option list res" where
  \<comment> \<open>bytes the socket writes from offset \<open>off\<close> of a buffer on\<close>
  "store_at off b buf =
     (if off + length b \<le> length buf
      then Inr (take off buf @ map Some b @ drop (off + length b) buf)
      else Inl (Undef ''write past the end of inp_data_''))"

definition read_bytes :: "char option list \<Rightarrow> nat \<Rightarrow> string res" where
  \<comment> \<open>\<^verbatim>\<open>std::string request(inp_data_, len)\<close>\<close>
  "read_bytes buf len =
     (if len \<le> length buf \<and> None \<notin> set (take len buf) then Inr (map the (take len buf))
      else Inl (Undef ''read of bytes that were not written''))"

definition do_write ::
    "('st \<Rightarrow> string \<Rightarrow> (string \<times> 'st) res) \<Rightarrow> uint32 \<Rightarrow> session \<Rightarrow> 'st \<Rightarrow> (session \<times> 'st) res" where
  \<comment> \<open>\<^verbatim>\<open>out_data_\<close> has \<open>len + size32\<close> bytes, added as \<^verbatim>\<open>uint32_t\<close>; \<^verbatim>\<open>strncpy\<close> writes \<open>out_len\<close> after the header\<close>
  "do_write exec len s st =
     (case s_inp s of
        None \<Rightarrow> Inl (Undef ''inp_data_ is not allocated'')
      | Some buf \<Rightarrow>
          bind_res (read_bytes buf (unat len)) (\<lambda>request.
          bind_res (exec st request) (\<lambda>(out, st').
            let out_len = (of_nat (length out) :: uint32); out_size = unat (len + of_nat size32)
            in if out_size < size32 + unat out_len
               then Inl (Undef ''write past the end of out_data_'')
               else Inr (s\<lparr>s_phase := AwaitWrite (le32 out_len @ strncpy_bytes out (unat out_len))\<rparr>, st'))))"

definition do_read_header :: "string \<Rightarrow> session \<Rightarrow> session" where
  \<comment> \<open>\<^verbatim>\<open>do_read\<close> once the header is there\<close>
  "do_read_header b s =
     (let len = of_le32 b; s' = s\<lparr>s_length := len\<rparr>
      in if max_request < unat len then s'\<lparr>s_phase := Ended\<rparr>
         else s'\<lparr>s_inp := Some (replicate (unat len) None), s_phase := FirstRead\<rparr>)"

definition step ::
    "('st \<Rightarrow> string \<Rightarrow> (string \<times> 'st) res) \<Rightarrow> event \<Rightarrow> session \<Rightarrow> 'st \<Rightarrow> (session \<times> 'st) res" where
  \<comment> \<open>one completed operation: \<^verbatim>\<open>do_read\<close>, the lambda of \<^verbatim>\<open>do_read\<close>, the one of \<^verbatim>\<open>read_rest\<close>, the
     one of \<^verbatim>\<open>do_write\<close>; any other event does not occur\<close>
  "step exec e s st =
     (case s_phase s of
        AwaitHeader \<Rightarrow>
          (case e of
             Header b \<Rightarrow> Inr (do_read_header b s, st)
           | _ \<Rightarrow> Inr (s\<lparr>s_phase := Ended\<rparr>, st))
      | FirstRead \<Rightarrow>
          (case e of
             Data b \<Rightarrow>
               (case s_inp s of
                  None \<Rightarrow> Inl (Undef ''inp_data_ is not allocated'')
                | Some buf \<Rightarrow>
                    bind_res (store_at 0 b buf) (\<lambda>buf'.
                      let s' = s\<lparr>s_inp := Some buf'\<rparr>
                      in if length b < unat (s_length s)
                         then Inr (s'\<lparr>s_phase := RestRead (length b) (unat (s_length s) - length b)\<rparr>, st)
                         else do_write exec (s_length s) s' st))
           | _ \<Rightarrow> Inr (s\<lparr>s_phase := Ended\<rparr>, st))
      | RestRead off n \<Rightarrow>
          (case e of
             Data b \<Rightarrow>
               (case s_inp s of
                  None \<Rightarrow> Inl (Undef ''inp_data_ is not allocated'')
                | Some buf \<Rightarrow>
                    bind_res (store_at off b buf) (\<lambda>buf'.
                      let s' = s\<lparr>s_inp := Some buf'\<rparr>
                      in if length b < n
                         then Inr (s'\<lparr>s_phase := RestRead (off + length b) (n - length b)\<rparr>, st)
                         else do_write exec (s_length s) s' st))
           | _ \<Rightarrow> Inr (s\<lparr>s_inp := None, s_phase := Ended\<rparr>, st))
      | AwaitWrite b \<Rightarrow>
          (case e of
             Written \<Rightarrow> Inr (do_read (s\<lparr>s_inp := None, s_sent := s_sent s @ b\<rparr>), st)
           | _ \<Rightarrow> Inr (s\<lparr>s_inp := None, s_phase := Ended\<rparr>, st))
      | Ended \<Rightarrow> Inr (s, st))"

fun run ::
    "('st \<Rightarrow> string \<Rightarrow> (string \<times> 'st) res) \<Rightarrow> event list \<Rightarrow> session \<Rightarrow> 'st \<Rightarrow> (session \<times> 'st) res" where
  "run exec [] s st = Inr (s, st)"
| "run exec (e # es) s st = bind_res (step exec e s st) (\<lambda>(s', st'). run exec es s' st')"

section \<open>The server\<close>

text \<open>
  \<^verbatim>\<open>server::do_accept\<close> starts a session per connection. One thread runs \<^verbatim>\<open>io_context.run()\<close>,
  which takes the handlers of completed operations one after the other. A handler holds the
  thread until it returns; it returns early from an operation that it only starts (the
  \<^verbatim>\<open>async_\<close> functions), but not from a call that performs its operation, \<^verbatim>\<open>asio::read\<close>.
  \<open>n_thread = Some i\<close>: the thread is inside such a call of session \<open>i\<close>. \<open>n_thread = None\<close>: it
  is in \<^verbatim>\<open>run()\<close> and takes the next handler.
\<close>

fun performs_read :: "phase \<Rightarrow> bool" where
  \<comment> \<open>how the session waits: the operation of the phase is performed by the call itself
     (\<^verbatim>\<open>asio::read\<close>), or was started by an \<^verbatim>\<open>async_\<close> call that has returned, or there is none\<close>
  "performs_read AwaitHeader = True"
| "performs_read FirstRead = False"
| "performs_read (RestRead off n) = False"
| "performs_read (AwaitWrite b) = False"
| "performs_read Ended = False"

record 'st server_net =
  n_sessions :: "session list"
  n_service :: 'st
  n_thread :: "nat option"

definition thread_after :: "nat \<Rightarrow> session \<Rightarrow> nat option" where
  \<comment> \<open>where the thread is once session \<open>i\<close> has got to the state \<open>s\<close>\<close>
  "thread_after i s = (if performs_read (s_phase s) then Some i else None)"

inductive net_step ::
    "('st \<Rightarrow> string \<Rightarrow> (string \<times> 'st) res) \<Rightarrow> 'st server_net \<Rightarrow> 'st server_net \<Rightarrow> bool" for exec where
  accept: \<comment> \<open>the handler of \<^verbatim>\<open>async_accept\<close>\<close>
    "n_thread n = None \<Longrightarrow>
     net_step exec n (n\<lparr>n_sessions := n_sessions n @ [new_session],
                        n_thread := thread_after (length (n_sessions n)) new_session\<rparr>)"
| handler: \<comment> \<open>\<^verbatim>\<open>run()\<close> takes the handler of an operation of session \<open>i\<close>\<close>
    "n_thread n = None \<Longrightarrow> i < length (n_sessions n) \<Longrightarrow> event_ok (n_sessions n ! i) e \<Longrightarrow>
     step exec e (n_sessions n ! i) (n_service n) = Inr (s, st) \<Longrightarrow>
     net_step exec n (n\<lparr>n_sessions := (n_sessions n)[i := s], n_service := st,
                        n_thread := thread_after i s\<rparr>)"
| returned: \<comment> \<open>the call that the thread is in returns or throws, and the handler goes on\<close>
    "n_thread n = Some i \<Longrightarrow> i < length (n_sessions n) \<Longrightarrow> event_ok (n_sessions n ! i) e \<Longrightarrow>
     step exec e (n_sessions n ! i) (n_service n) = Inr (s, st) \<Longrightarrow>
     net_step exec n (n\<lparr>n_sessions := (n_sessions n)[i := s], n_service := st,
                        n_thread := thread_after i s\<rparr>)"

inductive_cases net_stepE: "net_step exec n n'"

inductive net_reachable :: "('st \<Rightarrow> string \<Rightarrow> (string \<times> 'st) res) \<Rightarrow> 'st \<Rightarrow> 'st server_net \<Rightarrow> bool"
  for exec st0 where
  start: "net_reachable exec st0 \<lparr>n_sessions = [], n_service = st0, n_thread = None\<rparr>"
| more: "net_reachable exec st0 n \<Longrightarrow> net_step exec n n' \<Longrightarrow> net_reachable exec st0 n'"

end
