(* ===== verification/Session_Facts.thy ===== *)
theory Session_Facts
  imports Session
begin

text \<open>
  Facts about the sessions: the invariant of the input buffer, the reply to a request
  however the network cuts it, where the thread of the server is, and what the blocking read
  does to the other connections.
\<close>

section \<open>Frames\<close>

lemma length_le32 [simp]: "length (le32 w) = size32"
  by (simp add: le32_def size32_def)

lemma out_size:
  fixes len :: uint32
  assumes "unat len \<le> max_request"
  shows "unat (len + of_nat size32) = unat len + size32"
proof -
  have "unat len + unat (4 :: uint32) < 2 ^ LENGTH(32)"
    using assms by (simp add: max_request_def)
  then show ?thesis by (simp add: size32_def unat_add_lem [THEN iffD1])
qed

lemma of_le32_le32: "of_le32 (le32 w) = w"
proof -
  let ?n = "unat w"
  have lt: "?n < 2 ^ 32" using unsigned_less [of w, where ?'a = nat] by simp
  have b: "byte (le32 w ! i) = ?n div 256 ^ i mod 256" if "i < 4" for i
    using that by (simp add: le32_def byte_chr)
  have "(\<Sum>i < 4. byte (le32 w ! i) * 256 ^ i) = (\<Sum>i < 4. (?n div 256 ^ i mod 256) * 256 ^ i)"
    by (intro sum.cong) (simp_all add: b)
  also have "\<dots> = ?n"
  proof -
    define a b c where "a = ?n div 256" and "b = a div 256" and "c = b div 256"
    have d: "?n div 256 ^ 2 = b" "?n div 256 ^ 3 = c"
      by (simp_all add: a_def b_def c_def flip: div_mult2_eq)
    have "c < 256" using lt by (simp add: a_def b_def c_def flip: div_mult2_eq)
    moreover have "?n = 256 * a + ?n mod 256" "a = 256 * b + a mod 256" "b = 256 * c + b mod 256"
      by (simp_all add: a_def b_def c_def)
    ultimately have "?n mod 256 + a mod 256 * 256 + b mod 256 * 256 ^ 2 + c mod 256 * 256 ^ 3 = ?n"
      by simp
    moreover have "(\<Sum>i < (4 :: nat). f i) = f 0 + f 1 + f 2 + (f 3 :: nat)" for f
      by (simp add: eval_nat_numeral)
    ultimately show ?thesis by (simp only: d) (simp add: a_def)
  qed
  finally show ?thesis by (simp add: of_le32_def)
qed

lemma takeWhile_no_nul: "NUL \<notin> set s \<Longrightarrow> takeWhile (\<lambda>c. c \<noteq> NUL) s = s"
  by (auto simp: takeWhile_eq_all_conv)

lemma strncpy_bytes_no_nul: "NUL \<notin> set s \<Longrightarrow> strncpy_bytes s (length s) = s"
  by (simp add: strncpy_bytes_def takeWhile_no_nul)

section \<open>The invariant of a session\<close>

text \<open>While a request is read the input buffer has the announced length, at most
  \<open>max_request\<close>, and its first bytes are the ones received.\<close>

definition buffer_ok :: "session \<Rightarrow> nat \<Rightarrow> bool" where
  "buffer_ok s off \<longleftrightarrow>
     unat (s_length s) \<le> max_request \<and>
     (\<exists>buf. s_inp s = Some buf \<and> length buf = unat (s_length s) \<and> None \<notin> set (take off buf))"

definition session_inv :: "session \<Rightarrow> bool" where
  "session_inv s \<longleftrightarrow>
     (case s_phase s of
        AwaitHeader \<Rightarrow> s_inp s = None
      | FirstRead \<Rightarrow> buffer_ok s 0
      | RestRead off n \<Rightarrow> buffer_ok s off \<and> off + n = unat (s_length s) \<and> 0 < n
      | AwaitWrite b \<Rightarrow> buffer_ok s (unat (s_length s))
      | Ended \<Rightarrow> True)"

lemma session_inv_new: "session_inv new_session"
  by (simp add: session_inv_def new_session_def)

lemma store_at_ok:
  assumes "off + length b \<le> length buf" "None \<notin> set (take off buf)"
  shows "\<exists>buf'. store_at off b buf = Inr buf' \<and> length buf' = length buf \<and>
    None \<notin> set (take (off + length b) buf')"
  using assms by (auto simp: store_at_def)

lemma do_write_cases:
  assumes "buffer_ok s (unat (s_length s))"
  shows "(\<exists>s' st'. do_write exec (s_length s) s st = Inr (s', st') \<and> session_inv s') \<or>
    do_write exec (s_length s) s st = Inl (Undef ''write past the end of out_data_'') \<or>
    (\<exists>q e. exec st q = Inl e \<and> do_write exec (s_length s) s st = Inl e)"
proof -
  obtain buf where buf: "s_inp s = Some buf" "length buf = unat (s_length s)"
      "None \<notin> set (take (unat (s_length s)) buf)"
    using assms by (auto simp: buffer_ok_def)
  then have r: "read_bytes buf (unat (s_length s)) = Inr (map the buf)"
    by (simp add: read_bytes_def)
  show ?thesis
  proof (cases "exec st (map the buf)")
    case (Inl e)
    then show ?thesis by (auto simp: do_write_def buf(1) r)
  next
    case (Inr p)
    then show ?thesis
      using assms by (cases p) (auto simp: do_write_def buf(1) r Let_def session_inv_def buffer_ok_def)
  qed
qed

text \<open>
  A step on an event that asio can deliver keeps the invariant. The only undefined
  behaviour of the session itself is the write past \<^verbatim>\<open>out_data_\<close>.
\<close>

lemma step_cases:
  assumes "session_inv s" "event_ok s e"
  shows "(\<exists>s' st'. step exec e s st = Inr (s', st') \<and> session_inv s') \<or>
    step exec e s st = Inl (Undef ''write past the end of out_data_'') \<or>
    (\<exists>q x. exec st q = Inl x \<and> step exec e s st = Inl x)"
proof (cases "s_phase s")
  case AwaitHeader
  then show ?thesis
    using assms
    by (cases e) (auto simp: step_def do_read_header_def Let_def session_inv_def buffer_ok_def)
next
  case FirstRead
  then obtain buf where buf: "s_inp s = Some buf" "length buf = unat (s_length s)"
      "unat (s_length s) \<le> max_request"
    using assms(1) by (auto simp: session_inv_def buffer_ok_def)
  show ?thesis
  proof (cases e)
    case (Data b)
    then have b: "length b \<le> length buf" using assms(2) FirstRead buf by (simp add: event_ok_def)
    obtain buf' where buf': "store_at 0 b buf = Inr buf'" "length buf' = length buf"
        "None \<notin> set (take (length b) buf')"
      using store_at_ok [of 0 b buf] b by auto
    show ?thesis
    proof (cases "length b < unat (s_length s)")
      case True
      then show ?thesis
        using buf buf' Data FirstRead by (auto simp: step_def Let_def session_inv_def buffer_ok_def)
    next
      case False
      then have "length b = unat (s_length s)" using b buf by simp
      then have "buffer_ok (s\<lparr>s_inp := Some buf'\<rparr>) (unat (s_length s))"
        using buf buf' by (simp add: buffer_ok_def)
      from do_write_cases [of "s\<lparr>s_inp := Some buf'\<rparr>" exec st] this show ?thesis
        using False buf buf' Data FirstRead by (simp add: step_def Let_def)
    qed
  qed (use assms FirstRead in \<open>auto simp: step_def event_ok_def session_inv_def\<close>)
next
  case (RestRead off n)
  then obtain buf where buf: "s_inp s = Some buf" "length buf = unat (s_length s)"
      "unat (s_length s) \<le> max_request" "None \<notin> set (take off buf)" and n: "off + n = unat (s_length s)"
    using assms(1) by (auto simp: session_inv_def buffer_ok_def)
  show ?thesis
  proof (cases e)
    case (Data b)
    then have b: "length b \<le> n" using assms(2) RestRead buf by (simp add: event_ok_def)
    obtain buf' where buf': "store_at off b buf = Inr buf'" "length buf' = length buf"
        "None \<notin> set (take (off + length b) buf')"
      using store_at_ok [of off b buf] b n buf by auto
    show ?thesis
    proof (cases "length b < n")
      case True
      then show ?thesis
        using buf buf' n Data RestRead by (auto simp: step_def Let_def session_inv_def buffer_ok_def)
    next
      case False
      then have "off + length b = unat (s_length s)" using b n by simp
      then have "buffer_ok (s\<lparr>s_inp := Some buf'\<rparr>) (unat (s_length s))"
        using buf buf' by (simp add: buffer_ok_def)
      from do_write_cases [of "s\<lparr>s_inp := Some buf'\<rparr>" exec st] this show ?thesis
        using False buf buf' Data RestRead by (simp add: step_def Let_def)
    qed
  qed (use assms RestRead in \<open>auto simp: step_def event_ok_def session_inv_def\<close>)
next
  case (AwaitWrite b)
  then show ?thesis using assms by (cases e) (auto simp: step_def session_inv_def)
next
  case Ended
  then show ?thesis using assms by (simp add: step_def)
qed

lemma step_inv:
  "session_inv s \<Longrightarrow> event_ok s e \<Longrightarrow> step exec e s st = Inr (s', st') \<Longrightarrow> session_inv s'"
  using step_cases [of s e exec st] by auto

section \<open>The network of sessions\<close>

lemma net_reachable_inv: "net_reachable exec st0 n \<Longrightarrow> s \<in> set (n_sessions n) \<Longrightarrow> session_inv s"
proof (induction arbitrary: s rule: net_reachable.induct)
  case (more n n')
  have upd: "session_inv x" if "x \<in> set ((n_sessions n)[i := s'])" "i < length (n_sessions n)"
    "event_ok (n_sessions n ! i) e" "step exec e (n_sessions n ! i) (n_service n) = Inr (s', st)"
    for x i e s' st
    using that more.IH step_inv [OF more.IH that(3, 4)] set_update_subset_insert [of "n_sessions n" i s']
    by auto
  show ?case
    using more.hyps(2)
  proof (cases rule: net_step.cases)
    case accept
    then show ?thesis using more.prems more.IH session_inv_new by auto
  qed (use more.prems upd in auto)
qed simp

text \<open>The thread is inside a call of session \<open>i\<close> exactly while \<open>i\<close> performs its read: so at most
  one session does.\<close>

definition thread_inv :: "'st server_net \<Rightarrow> bool" where
  "thread_inv n \<longleftrightarrow>
     (\<forall>i < length (n_sessions n). performs_read (s_phase (n_sessions n ! i)) \<longleftrightarrow> n_thread n = Some i)"

lemma thread_inv_update:
  assumes "thread_inv n" "i < length (n_sessions n)" "n_thread n = None \<or> n_thread n = Some i"
  shows "thread_inv (n\<lparr>n_sessions := (n_sessions n)[i := s], n_service := st, n_thread := thread_after i s\<rparr>)"
  using assms by (auto simp: thread_inv_def thread_after_def nth_list_update)

lemma net_reachable_thread: "net_reachable exec st0 n \<Longrightarrow> thread_inv n"
proof (induction rule: net_reachable.induct)
  case (more n n')
  show ?case
    using more.hyps(2)
  proof (cases rule: net_step.cases)
    case accept
    then show ?thesis
      using more.IH by (auto simp: thread_inv_def thread_after_def nth_append less_Suc_eq)
  next
    case (handler i e s st)
    then show ?thesis using thread_inv_update [OF more.IH] by simp
  next
    case (returned i e s st)
    then show ?thesis using thread_inv_update [OF more.IH] by simp
  qed
qed (simp add: thread_inv_def)

text \<open>A header or its failure reaches neither the service nor the output.\<close>

lemma step_header:
  assumes "s_phase s = AwaitHeader" "step exec e s st = Inr (s', st')"
  shows "st' = st \<and> s_phase s' \<noteq> AwaitHeader \<and> s_sent s' = s_sent s"
  using assms by (cases e) (auto simp: step_def do_read_header_def Let_def split: if_splits)

lemma waiting_thread_step:
  assumes "net_reachable exec st0 n" "net_step exec n n'"
    and "i < length (n_sessions n)" "s_phase (n_sessions n ! i) = AwaitHeader"
  shows "\<exists>s. n' = n\<lparr>n_sessions := (n_sessions n)[i := s], n_thread := None\<rparr> \<and>
    s_phase s \<noteq> AwaitHeader \<and> s_sent s = s_sent (n_sessions n ! i)"
proof -
  have t: "n_thread n = Some i"
    using net_reachable_thread [OF assms(1)] assms(3,4) performs_read.simps(1) unfolding thread_inv_def by metis
  from assms(2) show ?thesis
  proof (cases rule: net_step.cases)
    case (returned j e s st)
    then have "j = i" using t by simp
    with returned have s: "st = n_service n" "s_phase s \<noteq> AwaitHeader" "s_sent s = s_sent (n_sessions n ! i)"
      using step_header [OF assms(4), of exec e "n_service n" s st] by simp_all
    then have "thread_after i s = None" by (cases "s_phase s") (simp_all add: thread_after_def)
    then have "n' = n\<lparr>n_sessions := (n_sessions n)[i := s], n_thread := None\<rparr>"
      using returned(1) \<open>j = i\<close> s(1) by simp
    with s(2,3) show ?thesis by blast
  qed (use t in simp_all)
qed

section \<open>The interface to the service\<close>

text \<open>
  What a session relies on in \<^verbatim>\<open>exec_json\<close>: its reply has no NUL, so \<^verbatim>\<open>strncpy\<close> copies all of it.
  \<open>cuts q cs\<close>: the network delivers the bytes \<open>q\<close> in the pieces \<open>cs\<close>.
\<close>

definition cuts :: "string \<Rightarrow> string list \<Rightarrow> bool" where
  "cuts q cs \<longleftrightarrow> concat cs = q \<and> (if q = [] then cs = [[]] else [] \<notin> set cs)"

lemma run_append: "run exec (es @ fs) s st = bind_res (run exec es s st) (\<lambda>(s', st'). run exec fs s' st')"
  by (induction es arbitrary: s st) (simp_all add: bind_res_assoc case_prod_unfold)

lemma run_Nil [simp]: "(\<lambda>(s, st). run exec [] s st) = Inr"
  by (simp add: fun_eq_iff)

lemma bind_res_Inr [simp]: "bind_res m Inr = m"
  by (cases m) simp_all

lemma read_bytes_all: "read_bytes (map Some q) (length q) = Inr q"
  by (auto simp: read_bytes_def comp_def)

definition request_events :: "string \<Rightarrow> string list \<Rightarrow> event list" where
  "request_events q cs = Header (le32 (of_nat (length q))) # map Data cs"

lemma store_at_prefix:
  assumes "take off buf = map Some p" "off = length p" "off + length b \<le> length buf"
  shows "\<exists>buf'. store_at off b buf = Inr buf' \<and> length buf' = length buf \<and>
    take (off + length b) buf' = map Some (p @ b)"
  using assms by (auto simp: store_at_def)

text \<open>The pieces after the first fill the buffer with the request.\<close>

lemma run_rest:
  assumes "s_phase s = RestRead (length p) (length q)" "s_inp s = Some buf"
    "length buf = length p + length q" "unat (s_length s) = length p + length q"
    "take (length p) buf = map Some p" "concat cs = q" "[] \<notin> set cs" "q \<noteq> []"
  shows "\<exists>t. run exec (map Data cs) s st =
      do_write exec (s_length s) (t\<lparr>s_inp := Some (map Some (p @ q))\<rparr>) st \<and> s_sent t = s_sent s \<and> s_length t = s_length s"
  using assms
proof (induction cs arbitrary: s p q buf)
  case (Cons b cs)
  have q: "q = b @ concat cs" "b \<noteq> []" using Cons.prems by auto
  obtain buf' where buf': "store_at (length p) b buf = Inr buf'" "length buf' = length buf"
      "take (length p + length b) buf' = map Some (p @ b)"
    using store_at_prefix [of "length p" buf p b] Cons.prems q by auto
  let ?s = "s\<lparr>s_inp := Some buf'\<rparr>"
  show ?case
  proof (cases "concat cs = []")
    case True
    then have "cs = []" using Cons.prems(7) by (cases cs) auto
    moreover have "buf' = map Some (p @ q)"
      using buf' Cons.prems(3) q True by simp
    ultimately show ?thesis
      using Cons.prems(1, 2) buf'(1) q True
      by (intro exI [of _ s]) (simp add: step_def Let_def)
  next
    case False
    let ?s1 = "?s\<lparr>s_phase := RestRead (length (p @ b)) (length (concat cs))\<rparr>"
    have "step exec (Data b) s st = Inr (?s1, st)"
      using Cons.prems(1, 2) buf'(1) q False by (simp add: step_def Let_def)
    moreover have "\<exists>t. run exec (map Data cs) ?s1 st =
        do_write exec (s_length ?s1) (t\<lparr>s_inp := Some (map Some ((p @ b) @ concat cs))\<rparr>) st \<and> s_sent t = s_sent ?s1 \<and> s_length t = s_length ?s1"
      using Cons.prems q buf' False by (intro Cons.IH [of _ _ _ buf']) auto
    ultimately show ?thesis using q by auto
  qed
qed simp

lemma run_request:
  assumes "s_phase s = AwaitHeader" "length q \<le> max_request" "cuts q cs"
  shows "\<exists>t. run exec (request_events q cs) s st =
      do_write exec (of_nat (length q)) (t\<lparr>s_inp := Some (map Some q)\<rparr>) st \<and>
      s_sent t = s_sent s \<and> s_length t = of_nat (length q)"
proof -
  let ?l = "of_nat (length q) :: uint32"
  have u: "unat ?l = length q" using assms(2) by (simp add: unat_of_nat max_request_def)
  let ?s0 = "s\<lparr>s_length := ?l, s_inp := Some (replicate (length q) None), s_phase := FirstRead\<rparr>"
  have h: "step exec (Header (le32 ?l)) s st = Inr (?s0, st)"
    using assms(1, 2) by (simp add: step_def do_read_header_def of_le32_le32 Let_def u)
  obtain b r where cs: "cs = b # r" using assms(3) by (cases cs) (auto simp: cuts_def split: if_splits)
  have q: "q = b @ concat r" using assms(3) cs by (auto simp: cuts_def)
  obtain buf' where buf': "store_at 0 b (replicate (length q) None) = Inr buf'" "length buf' = length q"
      "take (length b) buf' = map Some b"
    using store_at_prefix [of 0 "replicate (length q) None" "[]" b] q by auto
  show ?thesis
  proof (cases "concat r = []")
    case True
    then have "r = []" using assms(3) cs by (cases r) (auto simp: cuts_def split: if_splits)
    moreover have bq: "b = q" using q True by simp
    moreover have "buf' = map Some q" using buf' bq by simp
    ultimately have "step exec (Data q) ?s0 st =
        do_write exec ?l (?s0\<lparr>s_inp := Some (map Some q)\<rparr>) st"
      using buf'(1) by (simp add: step_def Let_def u)
    then show ?thesis
      using h cs bq \<open>r = []\<close> by (intro exI [of _ ?s0]) (simp add: request_events_def)
  next
    case False
    let ?s1 = "?s0\<lparr>s_inp := Some buf', s_phase := RestRead (length b) (length (concat r))\<rparr>"
    have d: "step exec (Data b) ?s0 st = Inr (?s1, st)"
    proof -
      have "length b < length q" "length q - length b = length (concat r)"
        using q False by simp_all
      then show ?thesis using buf'(1) by (simp add: step_def Let_def u)
    qed
    have "[] \<notin> set r" using assms(3) cs False by (auto simp: cuts_def split: if_splits)
    then have "\<exists>t. run exec (map Data r) ?s1 st =
      do_write exec (s_length ?s1) (t\<lparr>s_inp := Some (map Some (b @ concat r))\<rparr>) st \<and> s_sent t = s_sent ?s1 \<and> s_length t = s_length ?s1"
      using buf' q False by (intro run_rest [of _ b _ buf']) (auto simp: u [unfolded q, simplified])
    then show ?thesis using h d q cs by (auto simp: request_events_def)
  qed
qed

text \<open>A conversation: the replies to the requests, in order, whatever the cuts.\<close>

fun answers :: "('st \<Rightarrow> string \<Rightarrow> (string \<times> 'st) res) \<Rightarrow> 'st \<Rightarrow> string list \<Rightarrow> string \<Rightarrow> 'st \<Rightarrow> bool" where
  "answers exec st [] bytes st' \<longleftrightarrow> bytes = [] \<and> st' = st"
| "answers exec st (q # qs) bytes st' \<longleftrightarrow>
     (\<exists>out st1 bytes'. exec st q = Inr (out, st1) \<and> length q \<le> max_request \<and> length out \<le> length q \<and>
        bytes = le32 (of_nat (length out)) @ out @ bytes' \<and> answers exec st1 qs bytes' st')"

locale framed_service =
  fixes exec :: "'st \<Rightarrow> string \<Rightarrow> (string \<times> 'st) res"
  assumes reply_no_nul: "exec st q = Inr (out, st') \<Longrightarrow> NUL \<notin> set out"
begin

lemma reply_bytes: "exec st q = Inr (out, st') \<Longrightarrow> strncpy_bytes out (length out) = out"
  by (rule strncpy_bytes_no_nul [OF reply_no_nul])

lemma serve:
  assumes "s_phase s = AwaitHeader" "length q \<le> max_request" "cuts q cs"
    and x: "exec st q = Inr (out, st')" and fits: "length out \<le> length q"
  shows "\<exists>s'. run exec (request_events q cs @ [Written]) s st = Inr (s', st') \<and>
    s_phase s' = AwaitHeader \<and> s_inp s' = None \<and>
    s_sent s' = s_sent s @ le32 (of_nat (length out)) @ out"
proof -
  obtain t where t: "run exec (request_events q cs) s st =
      do_write exec (of_nat (length q)) (t\<lparr>s_inp := Some (map Some q)\<rparr>) st" "s_sent t = s_sent s"
    using run_request [OF assms(1-3), of exec st] by (elim exE conjE)
  have u: "unat (of_nat (length q) :: uint32) = length q" "unat (of_nat (length out) :: uint32) = length out"
    using assms(2) fits by (simp_all add: unat_of_nat max_request_def)
  have "do_write exec (of_nat (length q)) (t\<lparr>s_inp := Some (map Some q)\<rparr>) st =
      Inr (t\<lparr>s_inp := Some (map Some q), s_phase := AwaitWrite (le32 (of_nat (length out)) @ out)\<rparr>, st')"
    using fits assms(2) by (simp add: do_write_def u x Let_def read_bytes_all reply_bytes [OF x] out_size)
  then show ?thesis using t by (simp add: run_append step_def)
qed

lemma serve_overflow:
  assumes "s_phase s = AwaitHeader" "length q \<le> max_request" "cuts q cs"
    and x: "exec st q = Inr (out, st')" and big: "length q < length out" "length out < 2 ^ 32"
  shows "run exec (request_events q cs) s st = Inl (Undef ''write past the end of out_data_'')"
proof -
  obtain t where t: "run exec (request_events q cs) s st =
      do_write exec (of_nat (length q)) (t\<lparr>s_inp := Some (map Some q)\<rparr>) st"
    using run_request [OF assms(1-3), of exec st] by (elim exE conjE)
  have u: "unat (of_nat (length q) :: uint32) = length q" "unat (of_nat (length out) :: uint32) = length out"
    using assms(2) big by (simp_all add: unat_of_nat max_request_def)
  show ?thesis
    unfolding t using big assms(2) by (simp add: do_write_def u x Let_def read_bytes_all out_size)
qed

lemma serve_all:
  assumes "answers exec st qs bytes st'" "list_all2 cuts qs css" "s_phase s = AwaitHeader"
  shows "\<exists>s'. run exec (concat (map2 (\<lambda>q cs. request_events q cs @ [Written]) qs css)) s st = Inr (s', st') \<and>
    s_phase s' = AwaitHeader \<and> s_sent s' = s_sent s @ bytes"
  using assms
proof (induction qs arbitrary: st bytes css s)
  case (Cons q qs)
  obtain cs css' where css: "css = cs # css'" "cuts q cs" "list_all2 cuts qs css'"
    using Cons.prems(2) by (auto simp: list_all2_Cons1)
  obtain out st1 bytes' where a: "exec st q = Inr (out, st1)" "length q \<le> max_request"
      "length out \<le> length q" "bytes = le32 (of_nat (length out)) @ out @ bytes'" "answers exec st1 qs bytes' st'"
    using Cons.prems(1) by auto
  obtain s1 where s1: "run exec (request_events q cs @ [Written]) s st = Inr (s1, st1)"
      "s_phase s1 = AwaitHeader" "s_sent s1 = s_sent s @ le32 (of_nat (length out)) @ out"
    using serve [OF Cons.prems(3) a(2) css(2) a(1, 3)] by blast
  show ?case
    using Cons.IH [OF a(5) css(3) s1(2)] s1 a(4) css(1)
    by (auto simp: run_append [of _ "request_events q cs @ [Written]"] simp del: append_assoc)
qed simp

end

end
