(* ===== verification/Service.thy ===== *)
theory Service
  imports Server_Facts Session_Facts
begin

text \<open>
  The whole service: \<^verbatim>\<open>exec_json\<close> behind the sessions. The interface of the sessions is
  interpreted on the model of \<^verbatim>\<open>exec_json\<close>; reachable states of the service are those that a
  configuration file and any requests lead to; the shutdown of a service with open column
  families; facts about consecutive requests follow from the abstract service.
\<close>

section \<open>The interface\<close>

lemma exec_json_reply:
  "exec_json R st q = Inr (out, st') \<Longrightarrow> \<exists>reply. out = fw_write fast_writer_default reply"
  by (auto simp: exec_json_unfold bind_res_Inr_iff)

interpretation svc: framed_service "exec_json R" for R :: "('w, 'z, 'db, 'cf) rocks"
  by unfold_locales (metis exec_json_reply fw_write_no_nul)

section \<open>Reachable states\<close>

inductive service_reachable ::
    "('w, 'z, 'db, 'cf) rocks \<Rightarrow> string \<Rightarrow> 'w \<Rightarrow> ('w, 'z, 'db, 'cf) server_state \<Rightarrow> bool"
  for R text_file w0 where
  started: "load_configs R text_file = Inr (Some cs) \<Longrightarrow> service_reachable R text_file w0 \<lparr>configs = cs, world = w0\<rparr>"
| request: "service_reachable R text_file w0 st \<Longrightarrow> exec_json R st q = Inr (out, st') \<Longrightarrow>
    service_reachable R text_file w0 st'"

lemma service_reachable_inv:
  assumes "rocks_contract R view live cfn"
  shows "service_reachable R text_file w0 st \<Longrightarrow> server_inv R live cfn st"
proof (induction rule: service_reachable.induct)
  case (started cs)
  then show ?case by (rule load_configs_inv(1))
next
  case (request st q out st')
  then show ?case using exec_json_ok [OF assms request.IH] by blast
qed

section \<open>Shutdown\<close>

text \<open>Once a database with column families is open, the signal handler deletes it with its
  column family handles, which nothing destroys.\<close>

lemma shutdown_with_handles:
  assumes R: "rocks_contract R view live cfn"
  shows "c \<in> set cs \<Longrightarrow> c_db c = Ptr d \<Longrightarrow> d \<in> live w \<Longrightarrow> rk_handles R d w \<noteq> [] \<Longrightarrow>
    \<exists>m. shutdown R cs w = Inl (Undef m)"
proof (induction cs arbitrary: w)
  case (Cons item cs)
  have O: "open_contract R view live cfn" and L: "live_contract R live"
    using R by (simp_all add: rocks_contract_def)
  show ?case
  proof (cases "c_db item")
    case (Ptr d')
    show ?thesis
    proof (cases "delete_db R d' w")
      case (Inl e)
      then show ?thesis using Ptr by (auto simp: delete_db_def split: if_splits)
    next
      case (Inr w1)
      then have h: "rk_handles R d' w = []" "d' \<in> live w" "w1 = rk_close R d' w"
        using L by (auto simp: delete_db_def live_contract_def split: if_splits)
      then have "d' \<noteq> d" "c \<noteq> item" using Cons.prems Ptr by auto
      then have "c \<in> set cs" "d \<in> live w1" "rk_handles R d w1 \<noteq> []"
        using Cons.prems h open_contractD(4,5) [OF O h(2,1)] by auto
      from Cons.IH [OF this(1) Cons.prems(2) this(2,3)] show ?thesis using Ptr Inr by auto
    qed
  next
    case Nullptr
    then have "c \<in> set cs" using Cons.prems(1,2) by auto
    from Cons.IH [OF this Cons.prems(2-4)] show ?thesis using Nullptr by auto
  qed simp
qed simp

lemma shutdown_with_families:
  assumes "rocks_contract R view live cfn" "server_inv R live cfn st"
    and c: "c \<in> set (configs st)" "c_is_open c" "c_is_cf c"
  shows "\<exists>m. shutdown R (configs st) (world st) = Inl (Undef m)"
proof -
  have ok: "config_ok R live cfn (world st) c" using assms(2) c(1) by (simp add: server_inv_def)
  then obtain d where d: "c_db c = Ptr d" "d \<in> live (world st)" "set (c_handles c) \<subseteq> set (rk_handles R d (world st))"
    using c(2,3) by (auto simp: config_ok_def)
  have "map cfn (c_handles c) \<noteq> []" using ok c(2,3) by (simp add: config_ok_def)
  then have "c_handles c \<noteq> []" by blast
  with d(3) have "rk_handles R d (world st) \<noteq> []" by auto
  from shutdown_with_handles [OF assms(1) c(1) d(1,2) this] show ?thesis .
qed

section \<open>Consecutive requests\<close>

fun exec_all ::
    "('w, 'z, 'db, 'cf) rocks \<Rightarrow> ('w, 'z, 'db, 'cf) server_state \<Rightarrow> string list \<Rightarrow>
     (string list \<times> ('w, 'z, 'db, 'cf) server_state) res" where
  \<comment> \<open>the replies to consecutive requests\<close>
  "exec_all R st [] = Inr ([], st)"
| "exec_all R st (q # qs) =
     bind_res (exec_json R st q) (\<lambda>(out, st1).
     bind_res (exec_all R st1 qs) (\<lambda>(outs, st2). Inr (out # outs, st2)))"

definition request_of :: "string \<Rightarrow> json option" where
  \<comment> \<open>the request that a text denotes\<close>
  "request_of q =
     (case char_reader_parse service_features q null_singleton of
        Inr (True, rt, errs) \<Rightarrow> Some rt | _ \<Rightarrow> None)"

text \<open>What the text of a request does: it ends badly if the database must be created with
  families, and is no undefined behaviour otherwise.\<close>

lemma exec_json_outcome:
  assumes "rocks_contract R view live cfn" "server_inv R live cfn st" "length q < 2 ^ 30"
  shows "if \<exists>rt. request_of q = Some rt \<and> request_creates R st rt then ends_badly (exec_json R st q)
    else defined (exec_json R st q)"
proof -
  have r: "request_of q = Some rt \<longleftrightarrow>
      (\<exists>errs. char_reader_parse service_features q null_singleton = Inr (True, rt, errs))" for rt
    by (auto simp: request_of_def split: sum.splits bool.splits)
  show ?thesis
  proof (cases "\<exists>rt. request_of q = Some rt \<and> request_creates R st rt")
    case True
    then show ?thesis using exec_json_creates [OF assms(1)] by (auto simp: r)
  next
    case False
    then have "defined (exec_json R st q)" by (intro exec_json_defined [OF assms]) (auto simp: r)
    then show ?thesis unfolding if_not_P [OF False] .
  qed
qed

definition reply_text :: "json \<Rightarrow> string" where
  "reply_text reply = fw_write fast_writer_default reply"

lemma error_reply_distinct [simp]:
  "error_reply 0 \<noteq> error_reply (-2)" "error_reply 0 \<noteq> error_reply 1" "error_reply 0 \<noteq> error_reply 3"
  "error_reply 0 \<noteq> error_reply 4" "error_reply 0 \<noteq> error_reply 6" "error_reply 0 \<noteq> error_reply 7"
  by (simp_all add: error_reply_def mk_int_def)

lemma value_reply_neq [simp]:
  "value_reply v \<noteq> error_reply c" "error_reply c \<noteq> value_reply v"
  by (simp_all add: value_reply_def error_reply_def)

lemma value_reply_eq [simp]: "value_reply u = value_reply v \<longleftrightarrow> u = v"
  by (simp add: value_reply_def)

text \<open>The text of every reply; \<open>{"error":0}\<close> is the reply of a successful write only.\<close>

lemma reply_text_error:
  \<open>reply_text (error_reply c) = ''{"error":'' @ value_to_string_int (scast (of_int c :: int32)) @ ''}'' @ [LF]\<close>
proof -
  have q: \<open>value_to_quoted_string ''error'' False = ''"error"''\<close> by code_simp
  show ?thesis
    by (simp add: reply_text_def error_reply_def fw_write_def fast_writer_default_def q om_keys_def mk_int_def)
qed

lemma reply_text_value:
  \<open>reply_text (value_reply v) = ''{"error":0,"value":'' @ value_to_quoted_string v False @ ''}'' @ [LF]\<close>
proof -
  have q: \<open>value_to_quoted_string ''error'' False = ''"error"''\<close> \<open>value_to_quoted_string ''value'' False = ''"value"''\<close>
    \<open>value_to_string_int 0 = ''0''\<close> by code_simp+
  show ?thesis
    by (simp add: reply_text_def value_reply_def fw_write_def fast_writer_default_def q om_keys_def mk_int_def)
qed

lemma sint_scast_of_int:
  "- (2 ^ 31) \<le> c \<Longrightarrow> c < 2 ^ 31 \<Longrightarrow> sint (scast (of_int c :: int32) :: int64) = c"
  by (simp add: sint_scast_int32 sint_of_int_32)

lemma reply_text_inject:
  assumes "reply_text reply = reply_text (error_reply 0)"
    and "(\<exists>c. reply = error_reply c \<and> - (2 ^ 31) \<le> c \<and> c < 2 ^ 31) \<or> (\<exists>v. reply = value_reply v)"
  shows "reply = error_reply 0"
proof -
  have z: "value_to_string_int 0 = ''0''" by code_simp
  show ?thesis
    using assms(2)
  proof (elim disjE exE conjE)
    fix c assume c: "reply = error_reply c" "- (2 ^ 31) \<le> c" "c < 2 ^ 31"
    then have "value_to_string_int (scast (of_int c :: int32)) = value_to_string_int 0"
      using assms(1) by (simp add: reply_text_error)
    then have "sint (scast (of_int c :: int32) :: int64) = 0"
      by (auto simp: value_to_string_int_inject)
    with c show ?thesis by (simp add: sint_scast_of_int)
  next
    fix v assume "reply = value_reply v"
    then show ?thesis using assms(1) by (simp add: reply_text_error reply_text_value z)
  qed
qed

lemma spec_reply_form:
  assumes "server_spec names fams rt dbs reply dbs'"
  shows "(\<exists>c. reply = error_reply c \<and> - (2 ^ 31) \<le> c \<and> c < 2 ^ 31) \<or> (\<exists>v. reply = value_reply v)"
proof -
  have "\<exists>c \<in> {0, -2, 3, 4, 6, 7}. reply = error_reply c \<or> (\<exists>v. reply = value_reply v)"
    using assms by (cases rule: server_spec.cases) (auto elim!: kv_spec.cases)
  then show ?thesis by auto
qed

text \<open>Requests that leave a database as it is, and requests that write or read one key.\<close>

definition write_ops :: "string set" where
  "write_ops = {''put'', ''put_cf'', ''write_batch''}"

definition no_write_to :: "string \<Rightarrow> string \<Rightarrow> bool" where
  "no_write_to n q \<longleftrightarrow>
     (\<forall>rt. request_of q = Some rt \<longrightarrow> req_string rt ''dbname'' = Inr n \<longrightarrow>
        (\<forall>op. req_string rt ''op'' = Inr op \<longrightarrow> op \<notin> write_ops))"

definition writes_key :: "string \<Rightarrow> string \<Rightarrow> string \<Rightarrow> string \<Rightarrow> string \<Rightarrow> bool" where
  \<comment> \<open>the text asks for \<open>v\<close> to be stored under key \<open>k\<close> in family \<open>cf\<close> of database \<open>n\<close>\<close>
  "writes_key q n cf k v \<longleftrightarrow>
     (\<exists>rt. request_of q = Some rt \<and> req_string rt ''dbname'' = Inr n \<and>
        req_string rt ''key'' = Inr k \<and> req_string rt ''value'' = Inr v \<and>
        (req_string rt ''op'' = Inr ''put'' \<and> cf = kDefaultColumnFamilyName \<or>
         req_string rt ''op'' = Inr ''put_cf'' \<and> req_string rt ''column'' = Inr cf))"

definition reads_key :: "string \<Rightarrow> string \<Rightarrow> string \<Rightarrow> string \<Rightarrow> bool" where
  "reads_key q n cf k \<longleftrightarrow>
     (\<exists>rt. request_of q = Some rt \<and> req_string rt ''dbname'' = Inr n \<and> req_string rt ''key'' = Inr k \<and>
        (req_string rt ''op'' = Inr ''get'' \<and> cf = kDefaultColumnFamilyName \<or>
         req_string rt ''op'' = Inr ''get_cf'' \<and> req_string rt ''column'' = Inr cf))"

inductive_cases server_spec_ok: "server_spec names fams rt dbs (error_reply 0) dbs'"
inductive_cases kv_spec_ok: "kv_spec cfs rt s (error_reply 0) s'"

text \<open>A request text is executed as its request, or answered with a parse error.\<close>

lemma exec_json_request:
  assumes "rocks_contract R view live cfn" "server_inv R live cfn st" "exec_json R st q = Inr (out, st')"
  shows "\<exists>reply. out = reply_text reply \<and> server_inv R live cfn st' \<and>
    map c_name (configs st') = map c_name (configs st) \<and>
    map c_cf_names (configs st') = map c_cf_names (configs st) \<and>
    (case request_of q of
       None \<Rightarrow> reply = error_reply 1 \<and> st' = st
     | Some rt \<Rightarrow> server_spec (map c_name (configs st)) (map c_cf_names (configs st)) rt
                   (abs_state view st) reply (abs_state view st'))"
  using exec_json_ok [OF assms] by (auto simp: request_of_def reply_text_def split: if_splits bool.splits)

lemma write_effect_on_store:
  assumes "rocks_contract R view live cfn" "server_inv R live cfn st"
    and "exec_json R st q = Inr (reply_text (error_reply 0), st')" "writes_key q n cf k v"
  shows "\<exists>i s. find_index n (map c_name (configs st)) = Some i \<and> abs_state view st' i = Some s \<and>
    s cf k = Some v \<and> n \<noteq> []"
proof -
  obtain rt where rt: "request_of q = Some rt" "req_string rt ''dbname'' = Inr n"
      "req_string rt ''key'' = Inr k" "req_string rt ''value'' = Inr v"
      "req_string rt ''op'' = Inr ''put'' \<and> cf = kDefaultColumnFamilyName \<or>
       req_string rt ''op'' = Inr ''put_cf'' \<and> req_string rt ''column'' = Inr cf"
    using assms(4) by (auto simp: writes_key_def)
  obtain reply where r: "reply_text (error_reply 0) = reply_text reply"
      "server_spec (map c_name (configs st)) (map c_cf_names (configs st)) rt
        (abs_state view st) reply (abs_state view st')"
    using exec_json_request [OF assms(1-3)] rt(1) by auto
  have "reply = error_reply 0"
    by (rule reply_text_inject [OF r(1) [symmetric] spec_reply_form [OF r(2)]])
  then show ?thesis
    using r(2) rt(2-5) by (auto elim!: server_spec_ok kv_spec_ok simp: store_put_def)
qed

lemma kv_spec_no_write:
  "kv_spec cfs rt s r s' \<Longrightarrow> \<forall>op. req_string rt ''op'' = Inr op \<longrightarrow> op \<notin> write_ops \<Longrightarrow> s' = s"
  by (erule kv_spec.cases) (simp_all add: write_ops_def)

lemma no_write_keeps:
  assumes "rocks_contract R view live cfn" "server_inv R live cfn st"
    and "exec_json R st q = Inr (out, st')" "no_write_to n q"
    and "find_index n (map c_name (configs st)) = Some i" "abs_state view st i = Some s"
  shows "abs_state view st' i = Some s"
proof -
  obtain reply where "case request_of q of None \<Rightarrow> reply = error_reply 1 \<and> st' = st
     | Some rt \<Rightarrow> server_spec (map c_name (configs st)) (map c_cf_names (configs st)) rt
                   (abs_state view st) reply (abs_state view st')"
    using exec_json_request [OF assms(1-3)] by blast
  then show ?thesis
  proof (cases "request_of q")
    case (Some rt)
    then have "server_spec (map c_name (configs st)) (map c_cf_names (configs st)) rt
        (abs_state view st) reply (abs_state view st')"
      using \<open>case request_of q of None \<Rightarrow> _ | Some rt \<Rightarrow> _\<close> by simp
    then show ?thesis
    proof (cases rule: server_spec.cases)
      case (executed m j t t')
      show ?thesis
      proof (cases "j = i")
        case True
        then have "m = n"
          using find_index_Some [OF executed(4)] find_index_Some [OF assms(5)] by simp
        then have "\<forall>op. req_string rt ''op'' = Inr op \<longrightarrow> op \<notin> write_ops"
          using assms(4) Some executed(2) by (simp add: no_write_to_def)
        then have "t' = t" by (rule kv_spec_no_write [OF executed(6)])
        then show ?thesis using True executed(1, 5) assms(6) by simp
      qed (use executed(1) assms(6) in simp)
    qed (use assms(6) in simp_all)
  qed (use assms(6) in simp)
qed

lemma no_write_keeps_all:
  assumes "rocks_contract R view live cfn"
  shows "exec_all R st qs = Inr (outs, st') \<Longrightarrow> server_inv R live cfn st \<Longrightarrow> \<forall>q \<in> set qs. no_write_to n q \<Longrightarrow>
    find_index n (map c_name (configs st)) = Some i \<Longrightarrow> abs_state view st i = Some s \<Longrightarrow>
    server_inv R live cfn st' \<and> map c_name (configs st') = map c_name (configs st) \<and>
    map c_cf_names (configs st') = map c_cf_names (configs st) \<and> abs_state view st' i = Some s"
proof (induction qs arbitrary: st outs)
  case (Cons q qs)
  obtain out st1 outs1 where x: "exec_json R st q = Inr (out, st1)" "exec_all R st1 qs = Inr (outs1, st')"
    using Cons.prems(1) by (auto simp: bind_res_Inr_iff)
  have k: "abs_state view st1 i = Some s"
    using Cons.prems by (intro no_write_keeps [OF assms _ x(1)]) simp_all
  obtain reply where f: "server_inv R live cfn st1" "map c_name (configs st1) = map c_name (configs st)"
      "map c_cf_names (configs st1) = map c_cf_names (configs st)"
    using exec_json_request [OF assms Cons.prems(2) x(1)] by blast
  show ?case
    using Cons.IH [OF x(2) f(1) _ _ k] Cons.prems f by simp
qed simp

text \<open>The configured families of a database.\<close>

definition families_of :: "('w, 'z, 'db, 'cf) server_state \<Rightarrow> string \<Rightarrow> string list" where
  "families_of st n =
     (case find_index n (map c_name (configs st)) of
        None \<Rightarrow> [] | Some i \<Rightarrow> map c_cf_names (configs st) ! i)"

lemma read_of_store:
  assumes "rocks_contract R view live cfn" "server_inv R live cfn st"
    and "exec_json R st q = Inr (out, st')" "reads_key q n cf k"
    and i: "find_index n (map c_name (configs st)) = Some i" "abs_state view st i = Some s"
    and v: "s cf k = Some v" "length v < 2147483643"
  shows "out = reply_text (value_reply v) \<or> out = reply_text (error_reply (-2)) \<or>
    out = reply_text (error_reply 7) \<and> cf \<notin> set (families_of st n) \<or> n = []"
proof -
  obtain rt where rt: "request_of q = Some rt" "req_string rt ''dbname'' = Inr n"
      "req_string rt ''key'' = Inr k"
      "req_string rt ''op'' = Inr ''get'' \<and> cf = kDefaultColumnFamilyName \<or>
       req_string rt ''op'' = Inr ''get_cf'' \<and> req_string rt ''column'' = Inr cf"
    using assms(4) by (auto simp: reads_key_def)
  obtain reply where r: "out = reply_text reply"
      "server_spec (map c_name (configs st)) (map c_cf_names (configs st)) rt
        (abs_state view st) reply (abs_state view st')"
    using exec_json_request [OF assms(1-3)] rt(1) by auto
  from r(2) show ?thesis
  proof (cases rule: server_spec.cases)
    case (executed m j t t')
    then have j: "m = n" "j = i" "t = s" "map c_cf_names (configs st) ! j = families_of st n"
      using rt(2) i by (simp_all add: families_of_def)
    have mk: "mk_string v = Inr (JStr meta0 v)" by (rule mk_string_small [OF v(2)])
    from executed(6) show ?thesis
      by (cases rule: kv_spec.cases) (use rt r(1) j v(1) mk in auto)
  qed (use rt i find_index_None [of n "map c_name (configs st)"] in auto)
qed

lemma exec_all_snoc:
  "exec_all R st (qs @ [q]) =
     bind_res (exec_all R st qs) (\<lambda>(outs, st1).
     bind_res (exec_json R st1 q) (\<lambda>(out, st2). Inr (outs @ [out], st2)))"
  by (induction qs arbitrary: st) (simp_all add: bind_res_assoc case_prod_unfold)

text \<open>An acknowledged write is still in the store when the last of the requests is executed.\<close>

lemma acknowledged_write_stays:
  assumes R: "rocks_contract R view live cfn" and inv: "server_inv R live cfn st"
    and x: "exec_all R st (q1 # qs @ [q2]) = Inr (outs, st')" "hd outs = reply_text (error_reply 0)"
    and q: "writes_key q1 n cf k v" "\<forall>q \<in> set qs. no_write_to n q"
  shows "\<exists>st2 i s. server_inv R live cfn st2 \<and> exec_json R st2 q2 = Inr (last outs, st') \<and>
    find_index n (map c_name (configs st2)) = Some i \<and> abs_state view st2 i = Some s \<and> s cf k = Some v \<and>
    n \<noteq> [] \<and> families_of st2 n = families_of st n"
proof -
  obtain out st1 outs1 where w: "exec_json R st q1 = Inr (out, st1)" "outs = out # outs1"
      "exec_all R st1 (qs @ [q2]) = Inr (outs1, st')"
    using x(1) by (auto simp: bind_res_Inr_iff)
  then have w0: "exec_json R st q1 = Inr (reply_text (error_reply 0), st1)" using x(2) by simp
  obtain i s where i: "find_index n (map c_name (configs st)) = Some i" "abs_state view st1 i = Some s"
      "s cf k = Some v" "n \<noteq> []"
    using write_effect_on_store [OF R inv w0 q(1)] by blast
  have n1: "server_inv R live cfn st1" "map c_name (configs st1) = map c_name (configs st)"
      "map c_cf_names (configs st1) = map c_cf_names (configs st)"
    using exec_json_request [OF R inv w0] by blast+
  obtain outs2 st2 out2 where r: "exec_all R st1 qs = Inr (outs2, st2)"
      "exec_json R st2 q2 = Inr (out2, st')" "outs1 = outs2 @ [out2]"
    using w(3) by (auto simp: exec_all_snoc bind_res_Inr_iff)
  have k: "server_inv R live cfn st2" "map c_name (configs st2) = map c_name (configs st)"
      "map c_cf_names (configs st2) = map c_cf_names (configs st)" "abs_state view st2 i = Some s"
    using no_write_keeps_all [OF R r(1) n1(1) q(2)] i n1 by simp_all
  have f: "find_index n (map c_name (configs st2)) = Some i" "families_of st2 n = families_of st n"
    using i k by (simp_all add: families_of_def)
  have "exec_json R st2 q2 = Inr (last outs, st')" using r(2,3) w(2) by simp
  with k(1,4) i f show ?thesis by blast
qed

end
