(* ===== verification/Json_Utf8.thy ===== *)
theory Json_Utf8
  imports Json_Quote Json_Decode
begin

unbundle bit_operations_syntax

text \<open>
  Strings survive the JSON text. \<open>literal_text\<close> is the grammar of JSON literals with the string
  each stands for, independent of the program; \<^verbatim>\<open>OurReader::decodeString\<close> decodes every literal to
  its string, and what \<^verbatim>\<open>valueToQuotedStringN\<close> writes for a valid UTF-8 string is a literal for
  it. The lemmas go by code point: UTF-8 decoding inverts the encoder, and each escape is a
  literal for its code point.
\<close>

section \<open>Code points\<close>

definition scalar :: "uint32 \<Rightarrow> bool" where
  \<comment> \<open>a Unicode scalar value: a code point that is no surrogate\<close>
  "scalar cp \<longleftrightarrow> cp \<le> 0x10FFFF \<and> \<not> (0xD800 \<le> cp \<and> cp \<le> 0xDFFF)"

definition utf8_text :: "uint32 list \<Rightarrow> string" where
  "utf8_text cps = concat (map code_point_to_utf8 cps)"

definition valid_utf8 :: "string \<Rightarrow> bool" where
  "valid_utf8 s \<longleftrightarrow> (\<exists>cps. list_all scalar cps \<and> s = utf8_text cps)"

lemma utf8_text_simps [simp]:
  "utf8_text [] = []" "utf8_text (cp # cps) = code_point_to_utf8 cp @ utf8_text cps"
  by (simp_all add: utf8_text_def)

lemma scalar_unat:
  "scalar cp \<longleftrightarrow> unat cp \<le> 0x10FFFF \<and> \<not> (0xD800 \<le> unat cp \<and> unat cp \<le> 0xDFFF)"
  by (simp add: scalar_def word_le_nat_alt)

section \<open>UTF-8 decoding inverts the encoder\<close>

lemma unat_u8_chr: "b < 256 \<Longrightarrow> unat (u8 (chr b)) = b"
  by (simp add: u8_def unat_of_nat)

lemma unat_and_mask: "unat (w AND mask k :: uint32) = unat w mod 2 ^ k"
proof -
  have "w AND mask k = take_bit k w" by (simp only: take_bit_eq_mask)
  then have "unat (w AND mask k) = take_bit k (unat w)" by (simp only: unsigned_take_bit_eq)
  then show ?thesis by (simp only: take_bit_eq_mod)
qed

lemma unat_push_bit: "unat (w :: uint32) * 2 ^ k < 2 ^ 32 \<Longrightarrow> unat (push_bit k w) = unat w * 2 ^ k"
proof -
  assume "unat w * 2 ^ k < 2 ^ 32"
  then have "take_bit 32 (push_bit k (unat w)) = unat w * 2 ^ k"
    by (simp only: push_bit_eq_mult take_bit_nat_eq_self)
  then show ?thesis by (simp add: unsigned_push_bit_eq del: push_bit_nat_eq)
qed

lemma join_bits:
  fixes x y :: uint32
  assumes "k < 32" "unat x * 2 ^ k < 2 ^ 32"
  shows "unat (push_bit k x OR (y AND mask k)) = unat x * 2 ^ k + unat y mod 2 ^ k"
  using unat_or_and_mask [of "push_bit k x" k x y] assms by (simp add: unat_push_bit and.commute)

lemma masks: "(0x3F :: uint32) = mask 6" "(0x1F :: uint32) = mask 5" "(0x0F :: uint32) = mask 4"
  "(0x07 :: uint32) = mask 3" "(0x3FF :: uint32) = mask 10"
  by (simp_all add: mask_eq_exp_minus_1)

lemma unat_join2:
  fixes a b :: uint32
  shows "unat (push_bit 6 (a AND 0x1F) OR (b AND 0x3F)) = unat a mod 32 * 64 + unat b mod 64"
proof -
  have "unat (a AND mask 5) * 2 ^ 6 < 2 ^ 32"
    using mod_less_divisor [of 32 "unat a"] by (simp add: unat_and_mask)
  from join_bits [OF _ this, of b] show ?thesis
    unfolding masks by (simp add: unat_and_mask)
qed

lemma unat_join3:
  fixes a b c :: uint32
  shows "unat (push_bit 12 (a AND 0x0F) OR push_bit 6 (b AND 0x3F) OR (c AND 0x3F)) =
    (unat a mod 16 * 64 + unat b mod 64) * 64 + unat c mod 64"
proof -
  let ?x = "push_bit 6 (a AND mask 4) OR (b AND mask 6)"
  have "unat (a AND mask 4) * 2 ^ 6 < 2 ^ 32"
    using mod_less_divisor [of 16 "unat a"] by (simp add: unat_and_mask)
  from join_bits [OF _ this, of b] have x: "unat ?x = unat a mod 16 * 64 + unat b mod 64"
    by (simp add: unat_and_mask)
  have "unat a mod 16 * 64 + unat b mod 64 < 1024"
    using mod_less_divisor [of 16 "unat a"] mod_less_divisor [of 64 "unat b"] by linarith
  then have "unat ?x * 2 ^ 6 < 2 ^ 32" using x by simp
  from join_bits [OF _ this, of c] x show ?thesis
    unfolding masks by (simp add: push_bit_or push_bit_push_bit or.assoc)
qed

lemma unat_join4:
  fixes a b c d :: uint32
  shows "unat (push_bit 18 (a AND 0x07) OR push_bit 12 (b AND 0x3F) OR push_bit 6 (c AND 0x3F) OR (d AND 0x3F)) =
    ((unat a mod 8 * 64 + unat b mod 64) * 64 + unat c mod 64) * 64 + unat d mod 64"
proof -
  let ?x = "push_bit 6 (a AND mask 3) OR (b AND mask 6)"
  let ?y = "push_bit 6 ?x OR (c AND mask 6)"
  have "unat (a AND mask 3) * 2 ^ 6 < 2 ^ 32"
    using mod_less_divisor [of 8 "unat a"] by (simp add: unat_and_mask)
  from join_bits [OF _ this, of b] have x: "unat ?x = unat a mod 8 * 64 + unat b mod 64"
    by (simp add: unat_and_mask)
  have "unat a mod 8 * 64 + unat b mod 64 < 512"
    using mod_less_divisor [of 8 "unat a"] mod_less_divisor [of 64 "unat b"] by linarith
  then have "unat ?x * 2 ^ 6 < 2 ^ 32" and l: "unat ?x < 512" using x by simp_all
  from join_bits [OF _ this(1), of c] have y: "unat ?y = unat ?x * 64 + unat c mod 64" by simp
  have "unat ?x * 64 + unat c mod 64 < 32768" using l mod_less_divisor [of 64 "unat c"] by linarith
  then have "unat ?y * 2 ^ 6 < 2 ^ 32" using y by simp
  from join_bits [OF _ this, of d] x y show ?thesis
    unfolding masks by (simp add: push_bit_or push_bit_push_bit or.assoc)
qed

text \<open>The digits of a number in base 64.\<close>

lemma base_64:
  fixes n :: nat
  shows "n div 64 * 64 + n mod 64 = n"
    "(n div 4096 * 64 + n div 64 mod 64) * 64 + n mod 64 = n"
    "((n div 262144 * 64 + n div 4096 mod 64) * 64 + n div 64 mod 64) * 64 + n mod 64 = n"
proof -
  have a: "m div 64 * 64 + m mod 64 = m" for m :: nat by simp
  have d: "n div 4096 = n div 64 div 64" "n div 262144 = n div 4096 div 64"
    by (simp_all flip: div_mult2_eq)
  show "n div 64 * 64 + n mod 64 = n" by simp
  show b: "(n div 4096 * 64 + n div 64 mod 64) * 64 + n mod 64 = n"
    by (simp only: d(1) a)
  show "((n div 262144 * 64 + n div 4096 mod 64) * 64 + n div 64 mod 64) * 64 + n mod 64 = n"
    by (simp only: d(2) a b)
qed

lemma offset_mods:
  fixes k :: nat
  shows "(128 + k) mod 64 = k mod 64" "(192 + k) mod 32 = k mod 32" "(224 + k) mod 16 = k mod 16"
    "(240 + k) mod 8 = k mod 8"
  using mod_mult_self4 [of 64 2 k] mod_mult_self4 [of 32 6 k] mod_mult_self4 [of 16 14 k]
    mod_mult_self4 [of 8 30 k] by simp_all

lemma utf8_to_codepoint_encode:
  assumes "scalar cp"
  shows "utf8_to_codepoint (code_point_to_utf8 cp @ r) = (cp, last (code_point_to_utf8 cp) # r)"
proof -
  let ?n = "unat cp"
  have n: "?n \<le> 0x10FFFF" "\<not> (0xD800 \<le> ?n \<and> ?n \<le> 0xDFFF)" using assms by (simp_all add: scalar_unat)
  have eq: "w = cp" if "unat w = ?n" for w using that by (simp add: word_unat_eq_iff)
  have m: "?n mod 64 < 64" "?n div 64 mod 64 < 64" "?n div 4096 mod 64 < 64" by simp_all
  consider "?n \<le> 0x7f" | "0x7f < ?n" "?n \<le> 0x7FF" | "0x7FF < ?n" "?n \<le> 0xFFFF" | "0xFFFF < ?n"
    by linarith
  then show ?thesis
  proof cases
    case 1
    then have "u8 (chr ?n) = cp" by (intro eq) (simp add: unat_u8_chr)
    with 1 show ?thesis
      by (simp add: code_point_to_utf8_bytes utf8_bytes_def utf8_to_codepoint_def Let_def word_less_nat_alt)
  next
    case 2
    let ?b0 = "192 + ?n div 64" and ?b1 = "128 + ?n mod 64"
    have d: "?n div 64 < 32" using 2 by linarith
    have u: "unat (u8 (chr ?b0)) = ?b0" "unat (u8 (chr ?b1)) = ?b1"
      using d m by (simp_all add: unat_u8_chr)
    have "unat (push_bit 6 (u8 (chr ?b0) AND 0x1F) OR (u8 (chr ?b1) AND 0x3F)) = ?n"
      unfolding unat_join2 u using base_64(1) [of ?n] d by (simp add: offset_mods)
    then have c: "push_bit 6 (u8 (chr ?b0) AND 0x1F) OR (u8 (chr ?b1) AND 0x3F) = cp" by (rule eq)
    show ?thesis
      using 2 d m u c
      by (simp add: code_point_to_utf8_bytes utf8_bytes_def utf8_to_codepoint_def Let_def word_less_nat_alt)
  next
    case 3
    let ?b0 = "224 + ?n div 4096" and ?b1 = "128 + ?n div 64 mod 64" and ?b2 = "128 + ?n mod 64"
    have d: "?n div 4096 < 16" using 3 by linarith
    have u: "unat (u8 (chr ?b0)) = ?b0" "unat (u8 (chr ?b1)) = ?b1" "unat (u8 (chr ?b2)) = ?b2"
      using d m by (simp_all add: unat_u8_chr)
    have "unat (push_bit 12 (u8 (chr ?b0) AND 0x0F) OR push_bit 6 (u8 (chr ?b1) AND 0x3F) OR
        (u8 (chr ?b2) AND 0x3F)) = ?n"
      unfolding unat_join3 u using base_64(2) [of ?n] d by (simp add: offset_mods)
    then have c: "push_bit 12 (u8 (chr ?b0) AND 0x0F) OR push_bit 6 (u8 (chr ?b1) AND 0x3F) OR
        (u8 (chr ?b2) AND 0x3F) = cp" by (rule eq)
    show ?thesis
      using 3 d m u c n(2)
      by (auto simp add: code_point_to_utf8_bytes utf8_bytes_def utf8_to_codepoint_def Let_def
          word_less_nat_alt word_le_nat_alt)
  next
    case 4
    let ?b0 = "240 + ?n div 262144" and ?b1 = "128 + ?n div 4096 mod 64"
      and ?b2 = "128 + ?n div 64 mod 64" and ?b3 = "128 + ?n mod 64"
    have d: "?n div 262144 < 8" using n by linarith
    have u: "unat (u8 (chr ?b0)) = ?b0" "unat (u8 (chr ?b1)) = ?b1" "unat (u8 (chr ?b2)) = ?b2"
        "unat (u8 (chr ?b3)) = ?b3"
      using d m by (simp_all add: unat_u8_chr)
    have "unat (push_bit 18 (u8 (chr ?b0) AND 0x07) OR push_bit 12 (u8 (chr ?b1) AND 0x3F) OR
        push_bit 6 (u8 (chr ?b2) AND 0x3F) OR (u8 (chr ?b3) AND 0x3F)) = ?n"
      unfolding unat_join4 u using base_64(3) [of ?n] d by (simp add: offset_mods)
    then have c: "push_bit 18 (u8 (chr ?b0) AND 0x07) OR push_bit 12 (u8 (chr ?b1) AND 0x3F) OR
        push_bit 6 (u8 (chr ?b2) AND 0x3F) OR (u8 (chr ?b3) AND 0x3F) = cp" by (rule eq)
    show ?thesis
      using 4 d m u c n
      by (auto simp add: code_point_to_utf8_bytes utf8_bytes_def utf8_to_codepoint_def Let_def
          word_less_nat_alt word_le_nat_alt)
  qed
qed

section \<open>Escapes are read back\<close>

lemma hex_digit_val_hex_chr: "d < 16 \<Longrightarrow> hex_digit_val (hex_chr d) = Some d"
  by (auto simp: hex_digit_val_def hex_chr_def is_digit_def)

lemma base_16:
  fixes n :: nat
  assumes "n < 65536"
  shows "((n div 4096 mod 16 * 16 + n div 256 mod 16) * 16 + n div 16 mod 16) * 16 + n mod 16 = n"
proof -
  have d: "n div 256 = n div 16 div 16" "n div 4096 = n div 16 div 16 div 16"
    by (simp_all flip: div_mult2_eq)
  have "n div 4096 < 16" using assms by linarith
  then have "n div 4096 mod 16 = n div 16 div 16 div 16" unfolding d(2) by simp
  moreover have "m div 16 * 16 + m mod 16 = m" for m :: nat by simp
  ultimately show ?thesis by (simp only: d(1))
qed

lemma hex_loop_step:
  "d < 16 \<Longrightarrow> hex_loop (Suc k) (hex_chr d # r) u = hex_loop k r (u * 16 + of_nat d)"
  by (simp add: hex_digit_val_hex_chr)

lemma hex_loop_to_hex:
  assumes "unat x < 65536"
  shows "hex_loop 4 (to_hex_16bit x @ r) 0 = Inr (x, r)"
proof -
  let ?n = "unat x"
  have "of_nat (((?n div 4096 mod 16 * 16 + ?n div 256 mod 16) * 16 + ?n div 16 mod 16) * 16 + ?n mod 16) = x"
    unfolding base_16 [OF assms] by simp
  then have "((of_nat (?n div 4096 mod 16) * 16 + of_nat (?n div 256 mod 16)) * 16 +
      of_nat (?n div 16 mod 16)) * 16 + of_nat (?n mod 16) = x"
    by (simp only: of_nat_add of_nat_mult of_nat_numeral)
  moreover have "hex_loop 4 (to_hex_16bit x @ r) 0 =
      hex_loop (Suc (Suc (Suc (Suc 0)))) (to_hex_16bit x @ r) 0"
    by (simp add: eval_nat_numeral)
  ultimately show ?thesis
    by (simp only: to_hex_16bit_chars append_Cons append_Nil hex_loop_step mod_less_divisor zero_less_numeral)
      (simp add: algebra_simps)
qed

lemma length_to_hex [simp]: "length (to_hex_16bit x) = 4"
  by (simp add: to_hex_16bit_chars)

lemma decode_escape_to_hex:
  "unat x < 65536 \<Longrightarrow> decode_unicode_escape_sequence tok fin (to_hex_16bit x @ r) = Inr (x, r)"
  by (simp add: decode_unicode_escape_sequence_def hex_loop_to_hex)

lemma decode_code_point_bmp:
  assumes "unat x < 65536" "\<not> (0xD800 \<le> x \<and> x \<le> 0xDBFF)"
  shows "decode_unicode_code_point tok fin (to_hex_16bit x @ r) = Inr (x, r)"
  using assms by (auto simp: decode_unicode_code_point_def bind_dec_def decode_escape_to_hex)

text \<open>The two halves of a code point beyond the basic plane.\<close>

lemma surrogates:
  fixes cp :: uint32
  assumes "0x10000 \<le> unat cp" "unat cp \<le> 0x10FFFF"
  defines "c \<equiv> cp - 0x10000"
  shows "unat (0xd800 + (drop_bit 10 c AND 0x3ff)) = 0xD800 + unat c div 1024"
    "unat (0xdc00 + (c AND 0x3ff)) = 0xDC00 + unat c mod 1024"
    "unat c < 0x100000" "unat cp = 0x10000 + unat c"
proof -
  have cp: "unat c = unat cp - 0x10000"
    using assms(1) unfolding c_def by (subst unat_sub) (simp_all add: word_le_nat_alt)
  then show c: "unat c < 0x100000" and "unat cp = 0x10000 + unat c" using assms by simp_all
  have h: "unat (drop_bit 10 c AND 0x3ff) = unat c div 1024"
    using c unfolding masks unat_and_mask unat_drop_bit by simp
  have l: "unat (c AND 0x3ff) = unat c mod 1024"
    unfolding masks unat_and_mask by simp
  show "unat (0xd800 + (drop_bit 10 c AND 0x3ff)) = 0xD800 + unat c div 1024"
    using c by (subst unat_add_lem [THEN iffD1]) (simp_all add: h)
  have "unat c mod 1024 < 1024" by simp
  then show "unat (0xdc00 + (c AND 0x3ff)) = 0xDC00 + unat c mod 1024"
    by (subst unat_add_lem [THEN iffD1]) (simp_all add: l)
qed

lemma unat_add3:
  fixes x y z :: uint32
  assumes "unat x + unat y + unat z < 2 ^ 32"
  shows "unat (x + y + z) = unat x + unat y + unat z"
proof -
  have "unat (x + y) = unat x + unat y"
    using assms by (subst unat_add_lem [THEN iffD1]) simp_all
  with assms show ?thesis by (subst unat_add_lem [THEN iffD1]) simp_all
qed

lemma decode_code_point_pair:
  assumes "0x10000 \<le> unat cp" "unat cp \<le> 0x10FFFF"
  defines "c \<equiv> cp - 0x10000"
  shows "decode_unicode_code_point tok fin
    (to_hex_16bit (0xd800 + (drop_bit 10 c AND 0x3ff)) @ [BSL, CHR ''u''] @
     to_hex_16bit (0xdc00 + (c AND 0x3ff)) @ r) = Inr (cp, r)"
proof -
  let ?hi = "0xd800 + (drop_bit 10 c AND 0x3ff)" and ?lo = "0xdc00 + (c AND 0x3ff)"
  note s = surrogates [OF assms(1, 2), folded c_def]
  have div: "unat c div 1024 < 1024" using s(3) by linarith
  have hi: "unat ?hi < 65536" "0xD800 \<le> ?hi" "?hi \<le> 0xDBFF"
    using div by (simp_all only: word_le_nat_alt s(1)) simp_all
  have lo: "unat ?lo < 65536" using s(2) mod_less_divisor [of 1024 "unat c"] by simp
  have m: "unat (?hi AND 0x3FF) = unat c div 1024" "unat (?lo AND 0x3FF) = unat c mod 1024"
  proof -
    have "(0xD800 + k) mod 1024 = k mod 1024" "(0xDC00 + k) mod 1024 = k mod 1024" for k :: nat
      using mod_mult_self4 [of 1024 54 k] mod_mult_self4 [of 1024 55 k] by simp_all
    then show "unat (?hi AND 0x3FF) = unat c div 1024" "unat (?lo AND 0x3FF) = unat c mod 1024"
      using div unfolding masks(5) unat_and_mask by (simp_all add: s(1, 2) [unfolded masks(5)])
  qed
  have p: "unat (push_bit 10 (?hi AND 0x3FF)) = unat c div 1024 * 1024"
    using div by (subst unat_push_bit) (simp_all add: m)
  have "unat c div 1024 * 1024 + unat c mod 1024 = unat c" by simp
  then have "unat (0x10000 + push_bit 10 (?hi AND 0x3FF) + (?lo AND 0x3FF)) = unat cp"
    using s(3, 4) p m by (subst unat_add3) simp_all
  then have cp: "0x10000 + push_bit 10 (?hi AND 0x3FF) + (?lo AND 0x3FF) = cp"
    by (simp only: word_unat_eq_iff)
  show ?thesis
    using hi lo cp
    by (simp add: decode_unicode_code_point_def bind_dec_def decode_escape_to_hex del: unat_add_lem)
qed

section \<open>The literals of JSON\<close>

text \<open>
  What stands between the quotes of a JSON string, and for which bytes, as RFC 8259 (section 7)
  has it: characters that stand for themselves, the escapes of two characters, and four
  hexadecimal digits for a UTF-16 code unit, where two surrogates stand for one code point.
  The bytes of a code point are its UTF-8 encoding by arithmetic. A surrogate without its
  other half stands for nothing. The definition refers to neither the reader nor the writer;
  beyond the RFC it lets control characters stand for themselves, which is what the reader does.
\<close>

definition hex_digit_of :: "nat \<Rightarrow> char \<Rightarrow> bool" where
  "hex_digit_of d c \<longleftrightarrow> d < 16 \<and> (c = ''0123456789abcdef'' ! d \<or> c = ''0123456789ABCDEF'' ! d)"

definition hex_value :: "nat list \<Rightarrow> nat" where
  "hex_value ds = foldl (\<lambda>a d. a * 16 + d) 0 ds"

definition hex_quad :: "string \<Rightarrow> nat \<Rightarrow> bool" where
  \<comment> \<open>four hexadecimal digits, of either case, and their value\<close>
  "hex_quad h n \<longleftrightarrow> length h = 4 \<and> (\<exists>ds. list_all2 hex_digit_of ds h \<and> n = hex_value ds)"

definition short_escapes :: "(char \<times> char) list" where
  \<comment> \<open>the character behind the backslash and the character that the escape stands for\<close>
  "short_escapes =
     [(CHR 0x22, CHR 0x22), (CHR 0x5C, CHR 0x5C), (CHR ''/'', CHR 0x2F), (CHR ''b'', CHR 0x08),
      (CHR ''f'', CHR 0x0C), (CHR ''n'', CHR 0x0A), (CHR ''r'', CHR 0x0D), (CHR ''t'', CHR 0x09)]"

definition utf8_of :: "nat \<Rightarrow> string" where
  "utf8_of n = map chr (utf8_bytes n)"

inductive literal_text :: "string \<Rightarrow> string \<Rightarrow> bool" where
  \<comment> \<open>the text \<open>b\<close> between quotes stands for the string \<open>s\<close>: \<open>literal_text s b\<close>\<close>
  lit_end: "literal_text [] []"
| lit_char: "c \<noteq> DQ \<Longrightarrow> c \<noteq> BSL \<Longrightarrow> literal_text s b \<Longrightarrow> literal_text (c # s) (c # b)"
| lit_escape: "(x, c) \<in> set short_escapes \<Longrightarrow> literal_text s b \<Longrightarrow> literal_text (c # s) (BSL # x # b)"
| lit_unicode: "hex_quad h n \<Longrightarrow> n < 0xD800 \<or> 0xDFFF < n \<Longrightarrow> literal_text s b \<Longrightarrow>
    literal_text (utf8_of n @ s) (BSL # CHR ''u'' # h @ b)"
| lit_pair: "hex_quad h hi \<Longrightarrow> 0xD800 \<le> hi \<Longrightarrow> hi \<le> 0xDBFF \<Longrightarrow>
    hex_quad h' lo \<Longrightarrow> 0xDC00 \<le> lo \<Longrightarrow> lo \<le> 0xDFFF \<Longrightarrow> literal_text s b \<Longrightarrow>
    literal_text (utf8_of (0x10000 + (hi - 0xD800) * 0x400 + (lo - 0xDC00)) @ s)
      (BSL # CHR ''u'' # h @ BSL # CHR ''u'' # h' @ b)"

lemma literal_append:
  "literal_text s b \<Longrightarrow> literal_text s' b' \<Longrightarrow> literal_text (s @ s') (b @ b')"
proof (induction rule: literal_text.induct)
  case (lit_unicode h n s b)
  then show ?case using literal_text.lit_unicode [OF lit_unicode.hyps(1,2) lit_unicode.IH] by simp
next
  case (lit_pair h hi h' lo s b)
  then show ?case using literal_text.lit_pair [OF lit_pair.hyps(1-6) lit_pair.IH] by simp
qed (auto intro: literal_text.intros)

lemma literal_chars: "\<forall>c \<in> set s. c \<noteq> DQ \<and> c \<noteq> BSL \<Longrightarrow> literal_text s s"
  by (induction s) (auto intro: literal_text.intros)

section \<open>The reader decodes the literals\<close>

lemma hex_digit_val_of: "hex_digit_of d c \<Longrightarrow> hex_digit_val c = Some d"
proof -
  assume h: "hex_digit_of d c"
  then have d: "d \<in> {0, 1, 2, 3, 4, 5, 6, 7, 8, 9, 10, 11, 12, 13, 14, 15}"
    using less_16_cases [of d] by (simp add: hex_digit_of_def)
  have upper: "hex_digit_val (''0123456789ABCDEF'' ! d) = Some d"
    using d by (elim insertE emptyE) (simp_all add: hex_digit_val_def is_digit_def byte_def)
  have "''0123456789abcdef'' ! d = hex_chr d"
    using h hex_digits_nth [of d] by (simp add: hex_digit_of_def hex_digits_def)
  then show ?thesis
    using h upper hex_digit_val_hex_chr [of d] unfolding hex_digit_of_def by metis
qed

lemma hex_digits_loop:
  "list_all2 hex_digit_of ds h \<Longrightarrow>
   hex_loop (length h) (h @ r) u = Inr (foldl (\<lambda>a d. a * 16 + of_nat d) u ds, r)"
  by (induction arbitrary: u rule: list_all2_induct) (simp_all add: hex_digit_val_of)

lemma of_nat_hex_value:
  "foldl (\<lambda>a d. a * 16 + of_nat d) (of_nat u :: uint32) ds = of_nat (foldl (\<lambda>a d. a * 16 + d) u ds)"
proof (induction ds arbitrary: u)
  case (Cons d ds)
  have "of_nat u * 16 + of_nat d = (of_nat (u * 16 + d) :: uint32)" by simp
  then show ?case by (simp only: foldl_Cons Cons.IH)
qed simp

lemma hex_value_less: "list_all (\<lambda>d :: nat. d < 16) ds \<Longrightarrow> foldl (\<lambda>a d. a * 16 + d) u ds < (u + 1) * 16 ^ length ds"
proof (induction ds arbitrary: u)
  case (Cons d ds)
  have "foldl (\<lambda>a d. a * 16 + d) (u * 16 + d) ds < (u * 16 + d + 1) * 16 ^ length ds"
    using Cons by simp
  also have "\<dots> \<le> (u + 1) * 16 * 16 ^ length ds"
    using Cons.prems by (intro mult_le_mono1) simp
  finally show ?case by (simp only: foldl_Cons list.size(4) power_Suc mult.assoc add_0_right add_Suc_right)
qed simp

lemma hex_quad_less:
  assumes "hex_quad h n"
  shows "n < 65536"
proof -
  obtain ds where ds: "list_all2 hex_digit_of ds h" "n = hex_value ds" "length h = 4"
    using assms by (auto simp: hex_quad_def)
  then have "list_all (\<lambda>d. d < 16) ds" "length ds = 4"
    by (auto simp: list_all2_conv_all_nth list_all_length hex_digit_of_def)
  from hex_value_less [OF this(1), of 0] this(2) ds(2) show ?thesis by (simp add: hex_value_def)
qed

lemma hex_quad_decoded:
  assumes "hex_quad h n"
  shows "decode_unicode_escape_sequence tok fin (h @ r) = Inr (of_nat n, r)"
proof -
  obtain ds where ds: "list_all2 hex_digit_of ds h" "n = hex_value ds" "length h = 4"
    using assms by (auto simp: hex_quad_def)
  have "hex_loop 4 (h @ r) 0 = Inr (of_nat n, r)"
    using hex_digits_loop [OF ds(1), of r 0] of_nat_hex_value [of 0 ds] ds(2,3) by (simp add: hex_value_def)
  then show ?thesis using ds(3) by (simp add: decode_unicode_escape_sequence_def)
qed

lemma utf8_of_code_point: "n < 2 ^ 32 \<Longrightarrow> code_point_to_utf8 (of_nat n) = utf8_of n"
  by (simp add: code_point_to_utf8_bytes utf8_of_def unat_of_nat)

text \<open>A code unit that is no surrogate, and two surrogates.\<close>

lemma hex_quad_unit:
  assumes "hex_quad h n" "n < 0xD800 \<or> 0xDFFF < n"
  shows "decode_unicode_code_point tok fin (h @ r) = Inr (of_nat n, r)"
proof -
  have "unat (of_nat n :: uint32) = n" using hex_quad_less [OF assms(1)] by (simp add: unat_of_nat)
  then have "\<not> (0xD800 \<le> (of_nat n :: uint32) \<and> (of_nat n :: uint32) \<le> 0xDBFF)"
    using assms(2) by (auto simp: word_le_nat_alt)
  then show ?thesis
    unfolding decode_unicode_code_point_def bind_dec_def hex_quad_decoded [OF assms(1)] sum.case prod.case
    by (rule if_not_P)
qed

lemma hex_quad_pair:
  assumes hi: "hex_quad h hi" "0xD800 \<le> hi" "hi \<le> 0xDBFF"
    and lo: "hex_quad h' lo" "0xDC00 \<le> lo" "lo \<le> 0xDFFF"
  shows "decode_unicode_code_point tok fin (h @ BSL # CHR ''u'' # h' @ r) =
    Inr (of_nat (0x10000 + (hi - 0xD800) * 0x400 + (lo - 0xDC00)), r)"
proof -
  let ?hi = "of_nat hi :: uint32" and ?lo = "of_nat lo :: uint32"
  have u: "unat ?hi = hi" "unat ?lo = lo" using hi lo by (simp_all add: unat_of_nat)
  have m: "unat (?hi AND 0x3FF) = hi - 0xD800" "unat (?lo AND 0x3FF) = lo - 0xDC00"
  proof -
    have "(0xD800 + k) mod 1024 = k mod 1024" "(0xDC00 + k) mod 1024 = k mod 1024" for k :: nat
      using mod_mult_self4 [of 1024 54 k] mod_mult_self4 [of 1024 55 k] by simp_all
    from this(1) [of "hi - 0xD800"] this(2) [of "lo - 0xDC00"]
    show "unat (?hi AND 0x3FF) = hi - 0xD800" "unat (?lo AND 0x3FF) = lo - 0xDC00"
      using hi(2,3) lo(2,3) unfolding masks(5) unat_and_mask by (simp_all add: u)
  qed
  have p: "unat (push_bit 10 (?hi AND 0x3FF)) = (hi - 0xD800) * 1024"
    using hi(3) by (subst unat_push_bit) (simp_all add: m)
  have "unat (0x10000 + push_bit 10 (?hi AND 0x3FF) + (?lo AND 0x3FF)) =
      0x10000 + (hi - 0xD800) * 0x400 + (lo - 0xDC00)"
    using hi(3) lo(3) p m by (subst unat_add3) simp_all
  moreover have "of_nat (unat x) = x" for x :: uint32 by simp
  ultimately have c: "0x10000 + push_bit 10 (?hi AND 0x3FF) + (?lo AND 0x3FF) =
      of_nat (0x10000 + (hi - 0xD800) * 0x400 + (lo - 0xDC00))"
    by metis
  have "0xD800 \<le> ?hi" "?hi \<le> 0xDBFF" "length h' = 4"
    using hi(2,3) lo(1) by (simp_all add: word_le_nat_alt u hex_quad_def)
  then show ?thesis
    using c by (simp add: decode_unicode_code_point_def bind_dec_def hex_quad_decoded [OF hi(1)]
        hex_quad_decoded [OF lo(1)] del: of_nat_add of_nat_mult)
qed

lemma decode_plain_char:
  "c \<noteq> DQ \<Longrightarrow> c \<noteq> BSL \<Longrightarrow>
   decode_string_loop tok fin (c # body) d = decode_string_loop tok fin body (d @ [c])"
  by (simp add: decode_string_loop.simps(2))

lemma decode_simple_escape:
  "simple_escape x = Some c \<Longrightarrow>
   decode_string_loop tok fin (BSL # x # body) d = decode_string_loop tok fin body (d @ [c])"
  by (simp add: decode_string_loop.simps(2))

lemma decode_unicode_escape:
  "decode_unicode_code_point tok fin r1 = Inr (x, r2) \<Longrightarrow>
   decode_string_loop tok fin (BSL # CHR ''u'' # r1) d = decode_string_loop tok fin r2 (d @ code_point_to_utf8 x)"
  by (simp add: decode_string_loop.simps(2) simple_escape_def)

lemma short_escapes_decoded: "(x, c) \<in> set short_escapes \<Longrightarrow> simple_escape x = Some c"
  by (auto simp: short_escapes_def simple_escape_def)

theorem literal_decoded:
  "literal_text s b \<Longrightarrow> decode_string_loop tok fin b d = Inr (d @ s)"
proof (induction arbitrary: d rule: literal_text.induct)
  case (lit_unicode h n s b)
  have "n < 2 ^ 32" using hex_quad_less [OF lit_unicode.hyps(1)] by simp
  then show ?case
    using lit_unicode.IH decode_unicode_escape [OF hex_quad_unit [OF lit_unicode.hyps(1,2)]]
    by (simp add: utf8_of_code_point)
next
  case (lit_pair h hi h' lo s b)
  have "0x10000 + (hi - 0xD800) * 0x400 + (lo - 0xDC00) < 2 ^ 32" using lit_pair.hyps(3,6) by simp
  then show ?case
    using lit_pair.IH decode_unicode_escape [OF hex_quad_pair [OF lit_pair.hyps(1-6)], of tok fin]
    by (simp add: utf8_of_code_point del: of_nat_add of_nat_mult)
qed (simp_all add: decode_plain_char decode_simple_escape short_escapes_decoded)

section \<open>The writer writes literals\<close>

lemma encode_head:
  assumes "scalar cp"
  obtains c r where "code_point_to_utf8 cp = c # r" "byte c < 0x80 \<Longrightarrow> r = [] \<and> unat cp = byte c"
    "\<not> byte c < 0x80 \<Longrightarrow> 0x80 \<le> unat cp"
proof -
  let ?n = "unat cp"
  have n: "?n \<le> 0x10FFFF" using assms by (simp add: scalar_unat)
  consider "?n \<le> 0x7f" | "0x7f < ?n" "?n \<le> 0x7FF" | "0x7FF < ?n" "?n \<le> 0xFFFF" | "0xFFFF < ?n"
    by linarith
  then show ?thesis
  proof cases
    case 1
    then show ?thesis by (intro that) (auto simp: code_point_to_utf8_bytes utf8_bytes_def)
  next
    case 2
    then have "?n div 64 < 32" by linarith
    with 2 show ?thesis by (intro that) (auto simp: code_point_to_utf8_bytes utf8_bytes_def)
  next
    case 3
    then have "?n div 4096 < 16" by linarith
    with 3 show ?thesis by (intro that) (auto simp: code_point_to_utf8_bytes utf8_bytes_def)
  next
    case 4
    then have "?n div 262144 < 8" using n by linarith
    with 4 n show ?thesis by (intro that) (auto simp: code_point_to_utf8_bytes utf8_bytes_def)
  qed
qed

definition special_chars :: "string" where
  "special_chars = [DQ, BSL, BSP, FF, LF, CR, TAB]"

definition escape_letter :: "char \<Rightarrow> char" where
  "escape_letter c =
     (if c = BSP then CHR ''b'' else if c = FF then CHR ''f'' else if c = LF then CHR ''n''
      else if c = CR then CHR ''r'' else if c = TAB then CHR ''t'' else c)"

text \<open>The quoting loop writes the text \<open>u\<close> for the bytes \<open>e\<close>, and it is a literal for them.\<close>

definition unit_of :: "string \<Rightarrow> string \<Rightarrow> bool" where
  "unit_of e u \<longleftrightarrow> (\<forall>s. quote_loop False (e @ s) = u @ quote_loop False s) \<and> literal_text e u"

lemma special_literal:
  assumes "c \<in> set special_chars"
  shows "literal_text [c] [BSL, escape_letter c]"
proof -
  have "(escape_letter c, c) \<in> set short_escapes"
    using assms by (auto simp: special_chars_def escape_letter_def short_escapes_def)
  then show ?thesis by (intro lit_escape lit_end)
qed

lemma special_unit:
  assumes "c \<in> set special_chars"
  shows "\<exists>u. unit_of [c] u"
proof -
  have "quote_step c r = ([BSL, escape_letter c], r)" for r
    using assms by (auto simp: special_chars_def quote_step_def escape_letter_def)
  then have "unit_of [c] [BSL, escape_letter c]"
    by (simp add: unit_of_def quote_loop_step special_literal [OF assms])
  then show ?thesis by blast
qed

lemma eq_byte: "c = DQ \<longleftrightarrow> byte c = 0x22" "c = BSL \<longleftrightarrow> byte c = 0x5C"
  by (simp_all add: byte_def flip: of_char_eq_iff [where 'a = nat])

lemma hex_quad_written:
  assumes "unat x < 65536"
  shows "hex_quad (to_hex_16bit x) (unat x)"
proof -
  let ?n = "unat x"
  have d: "hex_digit_of k (hex_chr k)" if "k < 16" for k
    using that hex_digits_nth [OF that] by (simp add: hex_digit_of_def hex_digits_def)
  have "hex_value [?n div 4096 mod 16, ?n div 256 mod 16, ?n div 16 mod 16, ?n mod 16] = ?n"
    using base_16 [OF assms] by (simp only: hex_value_def foldl_Cons foldl_Nil mult_zero_left add_0_left)
  then show ?thesis
    unfolding hex_quad_def to_hex_16bit_chars
    by (intro conjI exI [of _ "[?n div 4096 mod 16, ?n div 256 mod 16, ?n div 16 mod 16, ?n mod 16]"])
      (simp_all add: d)
qed

lemma append_hex_literal:
  assumes "unat x < 65536" "unat x < 0xD800 \<or> 0xDFFF < unat x"
  shows "literal_text (code_point_to_utf8 x) (append_hex x)"
  using lit_unicode [OF hex_quad_written [OF assms(1)] assms(2) lit_end]
  by (simp add: append_hex_def code_point_to_utf8_bytes utf8_of_def)

lemma escape_literal:
  assumes "scalar cp" "cp \<noteq> 0x22" "cp \<noteq> 0x5C"
  shows "literal_text (code_point_to_utf8 cp) (escape_codepoint cp)"
proof -
  have n: "unat cp \<le> 0x10FFFF" "unat cp < 0xD800 \<or> 0xDFFF < unat cp"
    using assms(1) by (auto simp: scalar_unat)
  consider "unat cp < 0x20" | "0x20 \<le> unat cp" "unat cp < 0x80" | "0x80 \<le> unat cp" "unat cp < 0x10000"
    | "0x10000 \<le> unat cp" by linarith
  then show ?thesis
  proof cases
    case 2
    have "unat cp \<noteq> 0x22" "unat cp \<noteq> 0x5C"
      using assms(2, 3) by (simp_all add: word_unat_eq_iff)
    then have "wchr cp \<noteq> DQ" "wchr cp \<noteq> BSL"
      using 2 by (simp_all add: wchr_def eq_byte)
    moreover have "code_point_to_utf8 cp = [wchr cp]"
      using 2 by (simp add: code_point_to_utf8_def word_le_nat_alt)
    ultimately show ?thesis
      using 2 by (simp add: escape_codepoint_def append_raw_def word_less_nat_alt literal_chars)
  next
    case 4
    define c where "c = cp - 0x10000"
    note s = surrogates [OF 4 n(1), folded c_def]
    let ?hi = "0xd800 + (drop_bit 10 c AND 0x3ff)" and ?lo = "0xdc00 + (c AND 0x3ff)"
    have div: "unat c div 1024 < 1024" using s(3) by linarith
    have mod: "unat c mod 1024 < 1024" by simp
    have q: "hex_quad (to_hex_16bit ?hi) (unat ?hi)" "hex_quad (to_hex_16bit ?lo) (unat ?lo)"
      using div mod by (intro hex_quad_written, simp only: s)+
    have "0x10000 + (unat ?hi - 0xD800) * 0x400 + (unat ?lo - 0xDC00) = unat cp"
      by (simp only: s) simp
    moreover have "literal_text (utf8_of (0x10000 + (unat ?hi - 0xD800) * 0x400 + (unat ?lo - 0xDC00)) @ [])
        (BSL # CHR ''u'' # to_hex_16bit ?hi @ BSL # CHR ''u'' # to_hex_16bit ?lo @ [])"
      using div mod by (intro lit_pair q lit_end; simp only: s; simp)
    ultimately show ?thesis
      using 4 by (simp add: escape_codepoint_def word_less_nat_alt Let_def append_hex_def
          code_point_to_utf8_bytes utf8_of_def flip: c_def)
  qed (use append_hex_literal [of cp] n in \<open>simp_all add: escape_codepoint_def word_less_nat_alt\<close>)
qed

lemma scalar_unit:
  assumes "scalar cp"
  shows "\<exists>u. unit_of (code_point_to_utf8 cp) u"
proof -
  obtain c r where e: "code_point_to_utf8 cp = c # r"
    and ascii: "byte c < 0x80 \<Longrightarrow> r = [] \<and> unat cp = byte c" "\<not> byte c < 0x80 \<Longrightarrow> 0x80 \<le> unat cp"
    using encode_head [OF assms] by metis
  show ?thesis
  proof (cases "c \<in> set special_chars")
    case True
    then have "byte c < 0x80" by (auto simp: special_chars_def byte_def)
    then show ?thesis using special_unit [OF True] ascii(1) e by simp
  next
    case False
    have q: "quote_step c (r @ s) = (escape_codepoint cp, s)" for s
      using False utf8_to_codepoint_encode [OF assms, of s] by (simp add: quote_step_def special_chars_def e)
    have "cp \<noteq> 0x22 \<and> cp \<noteq> 0x5C"
    proof (cases "byte c < 0x80")
      case True
      have "byte c \<noteq> 0x22" "byte c \<noteq> 0x5C"
        using False by (simp_all add: special_chars_def eq_byte)
      with True ascii(1) show ?thesis by auto
    qed (use ascii(2) in auto)
    then have "unit_of (c # r) (escape_codepoint cp)"
      using escape_literal [OF assms] e by (simp add: unit_of_def quote_loop_step q)
    then show ?thesis using e by auto
  qed
qed

lemma quote_loop_literal:
  assumes "list_all scalar cps"
  shows "literal_text (utf8_text cps) (quote_loop False (utf8_text cps))"
  using assms
proof (induction cps)
  case (Cons cp cps)
  obtain u where "unit_of (code_point_to_utf8 cp) u" using scalar_unit Cons.prems by auto
  then show ?case using Cons by (auto simp: unit_of_def intro: literal_append)
qed (simp add: lit_end)

lemma plain_literal: "\<not> does_any_char_require_escaping s \<Longrightarrow> literal_text s s"
  by (rule literal_chars)
    (auto simp: does_any_char_require_escaping_def list_ex_iff char_requires_escaping_def)

text \<open>The body of a literal, without its quotes.\<close>

definition literal_body :: "string \<Rightarrow> string" where
  "literal_body s = (if \<not> does_any_char_require_escaping s then s else quote_loop False s)"

lemma byte_NUL: "byte NUL = 0"
  by (simp add: byte_def)

lemma no_escape_no_nul:
  assumes "\<not> does_any_char_require_escaping s"
  shows "takeWhile (\<lambda>c. c \<noteq> NUL) s = s"
proof -
  have "char_requires_escaping NUL"
    by (simp add: char_requires_escaping_def byte_NUL)
  then have "\<forall>c \<in> set s. c \<noteq> NUL"
    using assms by (metis does_any_char_require_escaping_def list_ex_iff)
  then show ?thesis by (simp add: takeWhile_eq_all_conv)
qed

lemma quoted_literal: "value_to_quoted_string s False = DQ # literal_body s @ [DQ]"
  by (simp add: value_to_quoted_string_def literal_body_def no_escape_no_nul)

lemma literal_written: "valid_utf8 s \<Longrightarrow> literal_text s (literal_body s)"
  using quote_loop_literal plain_literal by (auto simp: literal_body_def valid_utf8_def)

end
