(* ===== verification/Json_Literal.thy ===== *)
theory Json_Literal
  imports Json_Writer
begin

text \<open>
  The text of a value seen as a sequence of literals and other characters. \<open>strip\<close> removes
  the white space outside of string literals, which is what a layout may add, and \<open>closed\<close>
  says that a text ends outside of a literal. The lemmas: the literals of
  \<^verbatim>\<open>valueToQuotedStringN\<close> are closed, because every quote in them is escaped, and so are the
  texts of numbers and constants.
\<close>

section \<open>Bodies of literals\<close>

fun escaped :: "string \<Rightarrow> bool" where
  \<comment> \<open>no quote outside of an escape, and no escape cut off\<close>
  "escaped [] = True"
| "escaped (c # r) =
     (if c = BSL then (case r of [] \<Rightarrow> False | _ # r' \<Rightarrow> escaped r') else c \<noteq> DQ \<and> escaped r)"

lemma escaped_append: "escaped s \<Longrightarrow> escaped t \<Longrightarrow> escaped (s @ t)"
  by (induction s rule: escaped.induct) (auto split: list.splits if_splits)

lemma escaped_pair: "escaped r \<Longrightarrow> escaped (BSL # c # r)"
  by simp

lemma escaped_plain: "\<forall>c \<in> set s. c \<noteq> DQ \<and> c \<noteq> BSL \<Longrightarrow> escaped s"
  by (induction s) auto

lemma hex_chr_no_quote: "d < 16 \<Longrightarrow> hex_chr d \<noteq> DQ \<and> hex_chr d \<noteq> BSL"
proof -
  assume "d < 16"
  then have "byte (hex_chr d) = (if d < 10 then 48 + d else 87 + d)"
    by (simp add: hex_chr_def)
  moreover have "byte DQ = 34" "byte BSL = 92" by (simp_all add: byte_def)
  ultimately show ?thesis using \<open>d < 16\<close> by (auto split: if_splits)
qed

lemma escaped_append_hex: "escaped (append_hex x)"
  using hex_chr_no_quote [of "unat x div 4096 mod 16"] hex_chr_no_quote [of "unat x div 256 mod 16"]
    hex_chr_no_quote [of "unat x div 16 mod 16"] hex_chr_no_quote [of "unat x mod 16"]
  by (simp add: append_hex_def to_hex_16bit_chars)

lemma unat_u8: "unat (u8 c) = byte c"
proof -
  have "byte c mod 4294967296 = byte c" using byte_less_256 [of c] by (intro mod_less) linarith
  then show ?thesis by (simp add: u8_def unat_of_nat)
qed

lemma u8_inject [simp]: "u8 c = u8 d \<longleftrightarrow> c = d"
  by (metis unat_u8 byte_inject)

lemma escaped_escape_codepoint:
  assumes "x \<noteq> u8 DQ" "x \<noteq> u8 BSL"
  shows "escaped (escape_codepoint x)"
proof -
  have "escaped (append_raw x)" if "x < 0x80"
  proof -
    have "unat (u8 (wchr x)) = unat x"
      using that by (simp add: unat_u8 wchr_def word_less_nat_alt)
    then have x: "x = u8 (wchr x)" by (metis word_unat_eq_iff)
    then have "wchr x \<noteq> DQ" "wchr x \<noteq> BSL" using assms by metis+
    then show ?thesis by (simp add: append_raw_def)
  qed
  then show ?thesis
    by (simp add: escape_codepoint_def Let_def escaped_append_hex escaped_append)
qed

lemma utf8_to_codepoint_ascii:
  "fst (utf8_to_codepoint (c # r)) = u8 c \<and> byte c < 0x80 \<or> 0x80 \<le> fst (utf8_to_codepoint (c # r))"
proof -
  have w: "0x80 \<le> x" if "\<not> x < 0x80" for x :: uint32
    using that by (simp add: not_less)
  have m: "0x80 \<le> x" if "\<not> x < 0x800" for x :: uint32
  proof -
    have "0x80 \<le> (0x800 :: uint32)" by simp
    with that show ?thesis by (meson not_less order_trans)
  qed
  have l: "0x80 \<le> x" if "\<not> x < 0x10000" for x :: uint32
  proof -
    have "0x80 \<le> (0x10000 :: uint32)" by simp
    with that show ?thesis by (meson not_less order_trans)
  qed
  have a: "u8 c < 0x80 \<Longrightarrow> byte c < 0x80" by (simp add: word_less_nat_alt unat_u8)
  show ?thesis
    by (simp add: utf8_to_codepoint_def Let_def w m l a replacement_character_def split: list.split)
qed

lemma escaped_codepoint_of:
  assumes "c \<noteq> DQ" "c \<noteq> BSL"
  shows "escaped (escape_codepoint (fst (utf8_to_codepoint (c # r))))"
proof -
  have "u8 d < 0x80" if "byte d < 0x80" for d
    using that by (simp add: word_less_nat_alt unat_u8)
  then have q: "u8 DQ < 0x80" "u8 BSL < 0x80" by (simp_all add: byte_def)
  have "fst (utf8_to_codepoint (c # r)) \<noteq> u8 d" if "u8 d < 0x80" "c \<noteq> d" for d
    using utf8_to_codepoint_ascii [of c r] that by auto
  then show ?thesis using q assms by (intro escaped_escape_codepoint) blast+
qed

lemma escaped_quote_loop: "escaped (quote_loop e s)"
proof (induction s rule: length_induct)
  case (1 s)
  show ?case
  proof (cases s)
    case (Cons c r)
    let ?t = "tl (snd (utf8_to_codepoint (c # r)))"
    have "length ?t \<le> length r"
      using utf8_to_codepoint_rest(2) [of c r "fst (utf8_to_codepoint (c # r))"
          "snd (utf8_to_codepoint (c # r))"]
      by (auto dest: suffix_length_le)
    then have IH: "escaped (quote_loop e r)" "escaped (quote_loop e ?t)"
      using 1 Cons by (simp_all add: less_Suc_eq_le)
    have raw: "escaped (append_raw (u8 c))" if "c \<noteq> DQ" "c \<noteq> BSL"
      using that by (simp add: append_raw_def wchr_def unat_u8)
    consider "c \<in> {DQ, BSL, BSP, FF, LF, CR, TAB}" | "c \<notin> {DQ, BSL, BSP, FF, LF, CR, TAB}" by blast
    then show ?thesis
    proof cases
      case 1
      then have "\<exists>d. quote_loop e (c # r) = BSL # d # quote_loop e r"
        by (auto simp: quote_loop.simps(2))
      with IH(1) Cons show ?thesis by auto
    next
      case 2
      then have "c \<noteq> DQ" "c \<noteq> BSL" by auto
      with 2 IH Cons raw show ?thesis
        by (cases e) (simp_all add: quote_loop.simps(2) Let_def escaped_append escaped_append_hex
            escaped_codepoint_of)
    qed
  qed simp
qed

definition quoted_body :: "string \<Rightarrow> bool \<Rightarrow> string" where
  \<comment> \<open>what \<open>value_to_quoted_string\<close> puts between the quotes\<close>
  "quoted_body s e =
     (if \<not> does_any_char_require_escaping s then takeWhile (\<lambda>c. c \<noteq> NUL) s else quote_loop e s)"

lemma quoted_string_body: "value_to_quoted_string s e = DQ # quoted_body s e @ [DQ]"
  by (simp add: value_to_quoted_string_def quoted_body_def)

lemma escaped_body: "escaped (quoted_body s e)"
proof (cases "does_any_char_require_escaping s")
  case False
  have "d \<noteq> DQ \<and> d \<noteq> BSL" if "d \<in> set (takeWhile (\<lambda>c. c \<noteq> NUL) s)" for d
  proof -
    have "\<not> char_requires_escaping d"
      using False set_takeWhileD [OF that] by (simp add: does_any_char_require_escaping_def list_ex_iff)
    then show ?thesis by (simp add: char_requires_escaping_def)
  qed
  with False show ?thesis by (simp add: quoted_body_def escaped_plain)
qed (simp add: quoted_body_def escaped_quote_loop)

section \<open>White space between literals\<close>

definition white_char :: "char \<Rightarrow> bool" where
  "white_char c \<longleftrightarrow> c = CHR '' '' \<or> c = TAB \<or> c = CR \<or> c = LF"

fun strip :: "bool \<Rightarrow> string \<Rightarrow> string" where
  \<comment> \<open>the flag says whether the text starts inside of a literal\<close>
  "strip lit [] = []"
| "strip False (c # r) =
     (if white_char c then strip False r else c # strip (c = DQ) r)"
| "strip True (c # r) =
     (if c = BSL then (case r of [] \<Rightarrow> [c] | d # r' \<Rightarrow> c # d # strip True r')
      else c # strip (c \<noteq> DQ) r)"

definition closed_text :: "string \<Rightarrow> bool" where
  "closed_text s \<longleftrightarrow> (\<forall>r. strip False (s @ r) = strip False s @ strip False r)"

lemma strip_append: "closed_text s \<Longrightarrow> strip False (s @ r) = strip False s @ strip False r"
  by (simp add: closed_text_def)

lemma closed_Nil [simp]: "closed_text []"
  by (simp add: closed_text_def)

lemma closed_append [simp]: "closed_text s \<Longrightarrow> closed_text t \<Longrightarrow> closed_text (s @ t)"
  by (simp add: closed_text_def)

lemma white_not_quote: "white_char c \<Longrightarrow> c \<noteq> DQ"
  by (auto simp: white_char_def)

lemma closed_Cons [simp]: "c \<noteq> DQ \<Longrightarrow> closed_text s \<Longrightarrow> closed_text (c # s)"
  by (simp add: closed_text_def)

lemma strip_white: "list_all white_char s \<Longrightarrow> closed_text s \<and> strip False s = []"
  by (induction s) (auto dest: white_not_quote)

text \<open>Text without quotes and white space, such as numbers, is left alone.\<close>

definition solid :: "char \<Rightarrow> bool" where
  "solid c \<longleftrightarrow> c \<noteq> DQ \<and> \<not> white_char c"

lemma strip_solid: "list_all solid s \<Longrightarrow> closed_text s \<and> strip False s = s"
  by (induction s) (auto simp: solid_def)

lemma strip_escaped: "escaped b \<Longrightarrow> strip True (b @ DQ # r) = b @ DQ # strip False r"
proof (induction b rule: escaped.induct)
  case (2 c b)
  then show ?case by (cases b) (auto split: if_splits)
qed simp

lemma strip_literal:
  "closed_text (value_to_quoted_string s e)"
  "strip False (value_to_quoted_string s e) = value_to_quoted_string s e"
proof -
  have "\<not> white_char DQ" by (simp add: white_char_def)
  then have q: "strip False (DQ # x) = DQ # strip True x" for x by simp
  have s: "strip False (value_to_quoted_string s e @ r) = value_to_quoted_string s e @ strip False r" for r
    using strip_escaped [OF escaped_body] by (simp add: quoted_string_body q del: strip.simps(2))
  from s [of "[]"] show "strip False (value_to_quoted_string s e) = value_to_quoted_string s e" by simp
  with s show "closed_text (value_to_quoted_string s e)" by (simp add: closed_text_def)
qed

section \<open>Texts as tokens\<close>

text \<open>\<open>spaced ks t\<close>: the text \<open>t\<close> is the tokens \<open>ks\<close> with white space between them.\<close>

inductive spaced :: "string list \<Rightarrow> string \<Rightarrow> bool" where
  spaces: "list_all white_char w \<Longrightarrow> spaced [] w"
| token: "list_all white_char w \<Longrightarrow> spaced ks t \<Longrightarrow> spaced (k # ks) (w @ k @ t)"

inductive_cases spaced_NilE: "spaced [] t"
inductive_cases spaced_ConsE: "spaced (k # ks) t"

lemma spaced_Nil [simp]: "spaced [] t \<longleftrightarrow> list_all white_char t"
  by (auto elim: spaced_NilE intro: spaces)

lemma spaced_white: "list_all white_char w \<Longrightarrow> spaced ks t \<Longrightarrow> spaced ks (w @ t)"
proof (erule spaced.cases)
  fix w' ks' t' k
  assume "list_all white_char w" "ks = k # ks'" "t = w' @ k @ t'" "list_all white_char w'" "spaced ks' t'"
  then show "spaced ks (w @ t)" using token [of "w @ w'" ks' t' k] by simp
qed simp

lemma spaced_append: "spaced ks s \<Longrightarrow> spaced ls t \<Longrightarrow> spaced (ks @ ls) (s @ t)"
proof (induction rule: spaced.induct)
  case (token w ks s k)
  then show ?case using spaced.token [of w "ks @ ls" "s @ t" k] by simp
qed (simp add: spaced_white)

lemma spaced_one: "spaced [k] k"
  using token [of "[]" "[]" "[]" k] by simp

lemma spaced_Cons: "spaced ks t \<Longrightarrow> spaced (k # ks) (k @ t)"
  using token [of "[]"] by simp

lemma spaced_trailing: "spaced ks s \<Longrightarrow> list_all white_char w \<Longrightarrow> spaced ks (s @ w)"
  using spaced_append [of ks s "[]" w] by simp

lemma spaced_around: "list_all white_char w \<Longrightarrow> list_all white_char w' \<Longrightarrow> spaced [k] (w @ k @ w')"
  using token [of w "[]" w' k] by simp

text \<open>Stripping the white space leaves the tokens.\<close>

definition token_text_ok :: "string \<Rightarrow> bool" where
  "token_text_ok k \<longleftrightarrow> closed_text k \<and> strip False k = k"

lemma spaced_strip:
  "spaced ks t \<Longrightarrow> list_all token_text_ok ks \<Longrightarrow> closed_text t \<and> strip False t = concat ks"
proof (induction rule: spaced.induct)
  case (spaces w)
  then show ?case by (simp add: strip_white)
next
  case (token w ks t k)
  then show ?case using strip_white [OF token.hyps(1)] by (simp add: strip_append token_text_ok_def)
qed

end
