(* ===== verification/Dbl_Round.thy ===== *)
theory Dbl_Round
  imports Dbl
begin

text \<open>
  Rounding is that of IEEE 754: a finite result of \<open>round_dbl\<close> is a double in normal form, or
  subnormal, within half a unit in the last place of the exact quotient, and so is the double
  that \<open>dec_to_dbl\<close> gives for a decimal number.
\<close>

section \<open>Binary logarithm\<close>

lemma bitlen_bounds: "0 < n \<Longrightarrow> 0 < bitlen n \<and> 2 ^ (bitlen n - 1) \<le> n \<and> n < 2 ^ bitlen n"
proof (induction n rule: bitlen.induct)
  case (1 n)
  show ?case
  proof (cases "n div 2 = 0")
    case True
    then have "n = 1" using 1 by simp
    then show ?thesis by (simp add: bitlen.simps [of "Suc 0"] bitlen.simps [of 0])
  next
    case False
    define b where "b = bitlen (n div 2)"
    have IH: "0 < b" "2 ^ (b - 1) \<le> n div 2" "n div 2 < 2 ^ b"
      using 1 False by (simp_all add: b_def)
    have b: "bitlen n = Suc b" using 1(2) by (simp add: bitlen.simps [of n] b_def)
    have "2 * 2 ^ (b - 1) \<le> n" "n < 2 * 2 ^ b" using IH(2,3) by linarith+
    moreover have "2 * 2 ^ (b - 1) = (2 :: nat) ^ b" using IH(1) by (cases b) simp_all
    ultimately show ?thesis by (simp add: b)
  qed
qed

lemma powi_nat: "0 \<le> k \<Longrightarrow> (2 :: real) powi k = 2 ^ nat k" "k < 0 \<Longrightarrow> (2 :: real) powi k = 1 / 2 ^ nat (- k)"
  by (simp_all add: power_int_def inverse_eq_divide power_one_over)

lemma scaled_ge_real:
  assumes "0 < d"
  shows "scaled_ge n d k 2 \<longleftrightarrow> 2 powi k \<le> real n / real d"
proof (cases "0 \<le> k")
  case True
  have "d * 2 ^ nat k \<le> n \<longleftrightarrow> real (d * 2 ^ nat k) \<le> real n" by (simp only: of_nat_le_iff)
  then show ?thesis using True assms by (simp add: scaled_ge_def powi_nat field_simps)
next
  case False
  have "d \<le> n * 2 ^ nat (- k) \<longleftrightarrow> real d \<le> real (n * 2 ^ nat (- k))" by (simp only: of_nat_le_iff)
  then show ?thesis using False assms by (simp add: scaled_ge_def powi_nat field_simps)
qed

lemma floor_log2_bounds:
  assumes "0 < n" "0 < d"
  shows "2 powi (floor_log2 n d) \<le> real n / real d" "real n / real d < 2 powi (floor_log2 n d + 1)"
proof -
  let ?bn = "bitlen n" and ?bd = "bitlen d"
  define k where "k = int ?bn - int ?bd"
  note bn = bitlen_bounds [OF assms(1)] and bd = bitlen_bounds [OF assms(2)]
  have "real (2 ^ (?bn - 1)) \<le> real n" "real n < real (2 ^ ?bn)"
    "real (2 ^ (?bd - 1)) \<le> real d" "real d < real (2 ^ ?bd)"
    using bn bd by (simp_all only: of_nat_le_iff of_nat_less_iff)
  then have r: "2 ^ (?bn - 1) \<le> real n" "real n < 2 ^ ?bn" "2 ^ (?bd - 1) \<le> real d" "real d < 2 ^ ?bd"
    by simp_all
  have p: "(2 :: real) powi (int a - int b) = 2 ^ a / 2 ^ b" for a b
    by (simp add: power_int_diff)
  have "real n / real d < 2 ^ ?bn / 2 ^ (?bd - 1)"
    using r assms by (intro frac_less) simp_all
  also have "\<dots> = 2 powi (k + 1)"
    using bd p [of ?bn "?bd - 1"] by (simp add: k_def of_nat_diff algebra_simps)
  finally have up: "real n / real d < 2 powi (k + 1)" .
  have "2 powi (k - 1) = 2 ^ (?bn - 1) / (2 :: real) ^ ?bd"
    using bn p [of "?bn - 1" ?bd] by (simp add: k_def of_nat_diff algebra_simps)
  also have "\<dots> \<le> real n / real d"
    using r assms by (intro frac_le) simp_all
  finally have lo: "2 powi (k - 1) \<le> real n / real d" .
  have "floor_log2 n d = (if scaled_ge n d k 2 then k else k - 1)"
    by (simp add: floor_log2_def Let_def k_def)
  then show "2 powi (floor_log2 n d) \<le> real n / real d" "real n / real d < 2 powi (floor_log2 n d + 1)"
    using up lo scaled_ge_real [OF assms(2), of n k] by (auto simp: not_le)
qed

section \<open>Rounding to an integer\<close>

lemma round_half_even_error:
  assumes "0 < d"
  shows "\<bar>real (round_half_even n d) - real n / real d\<bar> \<le> 1 / 2"
proof -
  let ?q = "n div d" and ?r = "n mod d"
  have "real n = real d * real ?q + real ?r"
    by (metis mult_div_mod_eq of_nat_add of_nat_mult)
  then have x: "real n / real d = real ?q + real ?r / real d" using assms by (simp add: field_simps)
  define y where "y = real ?r / real d"
  have y: "0 \<le> y" "y < 1" using assms by (simp_all add: y_def)
  have lo: "y \<le> 1 / 2" if "\<not> d < 2 * ?r"
  proof -
    have "real (2 * ?r) \<le> real d" using that by (simp only: of_nat_le_iff)
    then show ?thesis using assms by (simp add: y_def field_simps)
  qed
  have up: "1 / 2 \<le> y" if "d \<le> 2 * ?r"
  proof -
    have "real d \<le> real (2 * ?r)" using that by (simp only: of_nat_le_iff)
    then show ?thesis using assms by (simp add: y_def field_simps)
  qed
  show ?thesis
  proof (cases "d < 2 * ?r \<or> 2 * ?r = d \<and> odd ?q")
    case True
    then have "d \<le> 2 * ?r" by auto
    then have "\<bar>1 - y\<bar> \<le> 1 / 2" using up y by linarith
    then show ?thesis using True by (simp add: round_half_even_def Let_def x flip: y_def)
  next
    case False
    then have "y \<le> 1 / 2" using lo by blast
    then have "\<bar>y\<bar> \<le> 1 / 2" using y by simp
    then show ?thesis unfolding round_half_even_def Let_def x if_not_P [OF False] y_def [symmetric] by simp
  qed
qed

lemma round_half_even_range:
  assumes "0 < d" "real a \<le> real n / real d" "real n / real d < real b"
  shows "a \<le> round_half_even n d" "round_half_even n d \<le> b"
proof -
  have "real a < real (round_half_even n d) + 1" "real (round_half_even n d) < real b + 1"
    using round_half_even_error [OF assms(1), of n] assms(2,3) by linarith+
  then show "a \<le> round_half_even n d" "round_half_even n d \<le> b" by linarith+
qed

section \<open>Rounding to a double\<close>

theorem round_dbl_half_ulp:
  assumes "0 < d" "round_dbl s n d = DFin s' m e"
  shows "s' = s" "\<bar>real m * 2 powi e - real n / real d\<bar> \<le> 2 powi e / 2"
    "m < 2 ^ 53" "e = -1074 \<or> 2 ^ 52 \<le> m" "-1074 \<le> e" "e \<le> 971"
proof -
  have goal: "s' = s \<and> \<bar>real m * 2 powi e - real n / real d\<bar> \<le> 2 powi e / 2 \<and> m < 2 ^ 53 \<and>
    (e = -1074 \<or> 2 ^ 52 \<le> m) \<and> -1074 \<le> e \<and> e \<le> 971"
  proof (cases "n = 0")
    case True
    then show ?thesis using assms(2) by (auto simp: round_dbl_def)
  next
    case False
    define k where "k = floor_log2 n d"
    define x where "x = max (-1074) (k - 52)"
    define N where "N = (if 0 \<le> x then n else n * 2 ^ nat (- x))"
    define D where "D = (if 0 \<le> x then d * 2 ^ nat x else d)"
    define q where "q = round_half_even N D"
    have dbl: "round_dbl s n d =
        (if 971 < (if q = 2 ^ 53 then x + 1 else x) then DInf s
         else DFin s (if q = 2 ^ 53 then 2 ^ 52 else q) (if q = 2 ^ 53 then x + 1 else x))"
      using False by (simp only: round_dbl_def Let_def if_False flip: k_def x_def N_def D_def q_def)
    have D: "0 < D" using assms(1) by (simp add: D_def)
    have nd: "real N / real D = real n / real d / 2 powi x"
      by (simp add: N_def D_def powi_nat)
    note lg = floor_log2_bounds [of n d, folded k_def] 
    have pos: "(0 :: real) < 2 powi x" by simp
    have "\<bar>real q - real n / real d / 2 powi x\<bar> \<le> 1 / 2"
      using round_half_even_error [OF D, of N] by (simp add: q_def nd)
    then have err: "\<bar>real q * 2 powi x - real n / real d\<bar> \<le> 2 powi x / 2"
    proof -
      assume h: "\<bar>real q - real n / real d / 2 powi x\<bar> \<le> 1 / 2"
      have "real q * 2 powi x - real n / real d = (real q - real n / real d / 2 powi x) * 2 powi x"
        using pos by (simp add: left_diff_distrib)
      then have "\<bar>real q * 2 powi x - real n / real d\<bar> = \<bar>real q - real n / real d / 2 powi x\<bar> * 2 powi x"
        using pos by (simp add: abs_mult)
      also have "\<dots> \<le> 1 / 2 * 2 powi x" using h pos by (intro mult_right_mono) simp_all
      finally show ?thesis by simp
    qed
    have "real n / real d < 2 powi (x + 53)"
    proof -
      have "(2 :: real) powi (k + 1) \<le> 2 powi (x + 53)" by (intro power_int_increasing) (auto simp: x_def)
      then show ?thesis using lg(2) False assms(1) by simp
    qed
    then have hi: "real N / real D < real (2 ^ 53)"
      unfolding nd pos_divide_less_eq [OF pos] by (simp add: power_int_add mult.commute)
    have lo: "real (2 ^ 52) \<le> real N / real D" if "x \<noteq> -1074"
    proof -
      have "x + 52 = k" using that by (simp add: x_def max_def split: if_splits)
      moreover have "(2 :: real) powi (x + 52) = 2 powi x * 2 ^ 52" by (simp add: power_int_add)
      ultimately have "2 powi x * 2 ^ 52 \<le> real n / real d" using lg(1) False assms(1) by simp
      then show ?thesis unfolding nd pos_le_divide_eq [OF pos] by (simp add: mult.commute)
    qed
    have q: "q \<le> 2 ^ 53" "x \<noteq> -1074 \<Longrightarrow> 2 ^ 52 \<le> q"
      using round_half_even_range [OF D _ hi, of 0] round_half_even_range(1) [OF D lo hi] by (simp_all add: q_def)
    show ?thesis
    proof (cases "q = 2 ^ 53")
      case True
      have p: "(2 :: real) powi (x + 1) = 2 * 2 powi x" by (simp add: power_int_add)
      have r: "s' = s" "m = 2 ^ 52" "e = x + 1" "x + 1 \<le> 971"
        using assms(2) True by (simp_all add: dbl split: if_splits)
      have "\<bar>real m * 2 powi e - real n / real d\<bar> \<le> 2 powi x / 2"
        using err unfolding r p True by simp
      also have "\<dots> \<le> 2 powi e / 2" using pos unfolding r p by simp
      finally show ?thesis using r by (simp add: x_def)
    next
      case False
      then show ?thesis
        using assms(2) err q by (auto simp: dbl x_def split: if_splits)
    qed
  qed
  then show "s' = s" "\<bar>real m * 2 powi e - real n / real d\<bar> \<le> 2 powi e / 2"
    "m < 2 ^ 53" "e = -1074 \<or> 2 ^ 52 \<le> m" "-1074 \<le> e" "e \<le> 971" by blast+
qed

lemma dec_to_dbl_half_ulp:
  assumes "dec_to_dbl s n x = DFin s' m e"
  shows "s' = s \<and> \<bar>real m * 2 powi e - real n * 10 powi x\<bar> \<le> 2 powi e / 2 \<and>
    m < 2 ^ 53 \<and> (e = -1074 \<or> 2 ^ 52 \<le> m) \<and> -1074 \<le> e \<and> e \<le> 971"
proof -
  let ?n = "if 0 \<le> x then n * 10 ^ nat x else n" and ?d = "if 0 \<le> x then 1 else (10 :: nat) ^ nat (- x)"
  have "real ?n / real ?d = real n * 10 powi x"
    by (simp add: power_int_def inverse_eq_divide power_one_over)
  moreover have "0 < ?d" "round_dbl s ?n ?d = DFin s' m e" using assms by (simp_all add: dec_to_dbl_def)
  ultimately show ?thesis using round_dbl_half_ulp [of ?d s ?n s' m e] by simp
qed

end
