(* ===== verification/Json_Grammar.thy ===== *)
theory Json_Grammar
  imports Json_Reader_Facts Json_Pointer Json_Utf8 Json_Literal Dbl_Round
begin

text \<open>
  The grammar of JSON as an inductive relation between values and texts, independent of the
  reader, and the reader's scanners and decoders on the texts of the grammar. \<open>value_text d v t\<close>
  says that \<open>t\<close> is a text of the value \<open>v\<close> in which arrays and objects are nested at most \<open>d\<close>
  deep, with any white space between the tokens; the members of an object come in any order,
  and of two members with one name the last counts. A string is what \<open>literal_text\<close> (theory
  Json_Utf8) says; a number stands for the 64-bit integer it denotes, if it has neither fraction
  nor exponent and is in range, and otherwise for the double nearest to it (\<open>dec_to_dbl\<close>, see Dbl_Round). The values are
  those of the reader without their offsets (\<open>erase\<close>).
\<close>

section \<open>Values without offsets\<close>

fun erase :: "json \<Rightarrow> json" where
  "erase (JArr _ m) = JArr meta0 (map_snd erase m)"
| "erase (JObj _ m) = JObj meta0 (map_snd erase m)"
| "erase v = set_meta meta0 v"

lemma erase_set_meta [simp]: "erase (set_meta m v) = erase v"
  by (cases v) simp_all

lemma erase_put_value [simp]: "erase (put_value b tok v cur) = erase v"
  by (simp add: put_value_def swap_payload_def set_offset_start_def set_offset_limit_def)

lemma erase_set_limit [simp]: "erase (set_offset_limit n v) = erase v"
  by (simp add: set_offset_limit_def)

section \<open>The grammar\<close>

definition white_text :: "string \<Rightarrow> bool" where
  "white_text s \<longleftrightarrow> list_all white_char s"

definition digits :: "string \<Rightarrow> bool" where
  "digits s \<longleftrightarrow> s \<noteq> [] \<and> list_all is_digit s"

definition fraction :: "string \<Rightarrow> bool" where
  "fraction s \<longleftrightarrow> s = [] \<or> (\<exists>ds. s = CHR ''.'' # ds \<and> digits ds)"

definition exponent :: "string \<Rightarrow> bool" where
  "exponent s \<longleftrightarrow> s = [] \<or>
     (\<exists>e sg ds. s = e # sg @ ds \<and> (e = CHR ''e'' \<or> e = CHR ''E'') \<and>
        (sg = [] \<or> sg = ''+'' \<or> sg = ''-'') \<and> digits ds)"

definition number_text :: "string \<Rightarrow> bool" where
  "number_text s \<longleftrightarrow>
     (\<exists>sg ds fr ex. s = sg @ ds @ fr @ ex \<and> (sg = [] \<or> sg = ''-'') \<and> digits ds \<and> fraction fr \<and> exponent ex)"

definition text_token :: "token_type \<Rightarrow> string \<Rightarrow> loc \<Rightarrow> token" where
  \<comment> \<open>the token with the text \<open>s\<close> before \<open>rest\<close>\<close>
  "text_token ty s rest = \<lparr>tok_type = ty, tok_start = s @ rest, tok_end = rest\<rparr>"

text \<open>What a number denotes: its digits, the digits behind the point, and the exponent.\<close>

definition sign_text :: "bool \<Rightarrow> string" where
  "sign_text neg = (if neg then ''-'' else [])"

definition fraction_digits :: "string \<Rightarrow> string \<Rightarrow> bool" where
  "fraction_digits fr fd \<longleftrightarrow> fr = [] \<and> fd = [] \<or> fr = CHR ''.'' # fd \<and> digits fd"

definition exponent_value :: "string \<Rightarrow> int \<Rightarrow> bool" where
  "exponent_value ex x \<longleftrightarrow> ex = [] \<and> x = 0 \<or>
     (\<exists>e sg ds. ex = e # sg @ ds \<and> (e = CHR ''e'' \<or> e = CHR ''E'') \<and> digits ds \<and>
        ((sg = [] \<or> sg = ''+'') \<and> x = int (nat_of_dec 0 ds) \<or> sg = ''-'' \<and> x = - int (nat_of_dec 0 ds)))"

definition integer_value :: "bool \<Rightarrow> nat \<Rightarrow> json option" where
  \<comment> \<open>the 64-bit integer \<open>n\<close> or \<open>-n\<close>, signed if possible; None out of range\<close>
  "integer_value neg n =
     (if neg then if n \<le> 2 ^ 63 then Some (JInt meta0 (- of_nat n)) else None
      else if n < 2 ^ 63 then Some (JInt meta0 (of_nat n))
      else if n < 2 ^ 64 then Some (JUInt meta0 (of_nat n)) else None)"

inductive number_value :: "string \<Rightarrow> json \<Rightarrow> bool" where
  num_integer: "digits ds \<Longrightarrow> integer_value neg (nat_of_dec 0 ds) = Some v \<Longrightarrow>
    number_value (sign_text neg @ ds) v"
| num_large: "digits ds \<Longrightarrow> integer_value neg (nat_of_dec 0 ds) = None \<Longrightarrow>
    number_value (sign_text neg @ ds) (JReal meta0 (dec_to_dbl neg (nat_of_dec 0 ds) 0))"
| num_decimal: "digits ds \<Longrightarrow> fraction_digits fr fd \<Longrightarrow> exponent_value ex x \<Longrightarrow> fr @ ex \<noteq> [] \<Longrightarrow>
    number_value (sign_text neg @ ds @ fr @ ex)
      (JReal meta0 (dec_to_dbl neg (nat_of_dec 0 (ds @ fd)) (x - int (length fd))))"

definition indexed :: "json list \<Rightarrow> (uint32 \<times> json) list" where
  "indexed vs = zip (map of_nat [0..<length vs]) vs"

definition put_member :: "string \<times> json \<Rightarrow> (string, json) omap \<Rightarrow> (string, json) omap" where
  "put_member kv m = om_put (fst kv) (snd kv) m"

inductive value_text :: "nat \<Rightarrow> json \<Rightarrow> string \<Rightarrow> bool"
  and elements_text :: "nat \<Rightarrow> json list \<Rightarrow> string \<Rightarrow> bool"
  and members_text :: "nat \<Rightarrow> (string \<times> json) list \<Rightarrow> string \<Rightarrow> bool"
where
  null: "value_text (Suc d) (JNull meta0) ''null''"
| true: "value_text (Suc d) (JBool meta0 True) ''true''"
| false: "value_text (Suc d) (JBool meta0 False) ''false''"
| number: "number_text t \<Longrightarrow> number_value t v \<Longrightarrow> value_text (Suc d) v t"
| string: "literal_text s b \<Longrightarrow> length s < 2147483643 \<Longrightarrow> value_text (Suc d) (JStr meta0 s) (DQ # b @ [DQ])"
| empty_array: "white_text w \<Longrightarrow> value_text (Suc d) (JArr meta0 []) (CHR ''['' # w @ '']'')"
| array: "elements_text d vs t \<Longrightarrow> length vs < 2 ^ 31 \<Longrightarrow>
    value_text (Suc d) (JArr meta0 (indexed vs)) (CHR ''['' # t @ '']'')"
| empty_object: "white_text w \<Longrightarrow> value_text (Suc d) (JObj meta0 []) (CHR ''{'' # w @ ''}'')"
| object: "members_text d kvs t \<Longrightarrow>
    value_text (Suc d) (JObj meta0 (fold put_member kvs [])) (CHR ''{'' # t @ ''}'')"
| element: "white_text w1 \<Longrightarrow> value_text d v t \<Longrightarrow> white_text w2 \<Longrightarrow> elements_text d [v] (w1 @ t @ w2)"
| elements: "white_text w1 \<Longrightarrow> value_text d v t \<Longrightarrow> white_text w2 \<Longrightarrow> elements_text d vs u \<Longrightarrow>
    elements_text d (v # vs) (w1 @ t @ w2 @ CHR '','' # u)"
| member: "white_text w1 \<Longrightarrow> literal_text k b \<Longrightarrow> length k < 2 ^ 30 \<Longrightarrow> white_text w2 \<Longrightarrow> white_text w3 \<Longrightarrow>
    value_text d v t \<Longrightarrow> white_text w4 \<Longrightarrow>
    members_text d [(k, v)] (w1 @ DQ # b @ DQ # w2 @ CHR '':'' # w3 @ t @ w4)"
| members: "white_text w1 \<Longrightarrow> literal_text k b \<Longrightarrow> length k < 2 ^ 30 \<Longrightarrow> white_text w2 \<Longrightarrow> white_text w3 \<Longrightarrow>
    value_text d v t \<Longrightarrow> white_text w4 \<Longrightarrow> members_text d kvs u \<Longrightarrow>
    members_text d ((k, v) # kvs) (w1 @ DQ # b @ DQ # w2 @ CHR '':'' # w3 @ t @ w4 @ CHR '','' # u)"

section \<open>Scanning\<close>

lemma white_not_special: "white_char c \<longleftrightarrow> c = CHR '' '' \<or> c = TAB \<or> c = CR \<or> c = LF"
  by (simp add: white_char_def)

lemma skip_spaces_white: "white_text w \<Longrightarrow> skip_spaces (w @ x) = skip_spaces x"
  by (induction w) (auto simp: white_text_def white_char_def)

lemma skip_spaces_solid: "\<not> white_char c \<Longrightarrow> skip_spaces (c # r) = c # r"
  by (simp add: white_char_def)

lemma read_token_white: "white_text w \<Longrightarrow> read_token f (w @ x) = read_token f x"
  by (simp add: read_token_def skip_spaces_white)

lemma skip_comment_tokens_white:
  "white_text w \<Longrightarrow> skip_comment_tokens f (w @ x) = skip_comment_tokens f x"
  by (simp add: skip_comment_tokens.simps [of f "w @ x"] skip_comment_tokens.simps [of f x] read_token_white)

lemma read_token_char:
  assumes "\<not> white_char c" "token_switch f c r = (ty, True, r')"
  shows "read_token f (c # r) = (True, \<lparr>tok_type = ty, tok_start = c # r, tok_end = r'\<rparr>, r')"
  using assms by (simp add: read_token_def skip_spaces_solid get_next_char_def del: skip_spaces.simps)

definition punctuation :: "char \<Rightarrow> token_type option" where
  "punctuation c =
     (if c = CHR ''{'' then Some tokenObjectBegin else if c = CHR ''}'' then Some tokenObjectEnd
      else if c = CHR ''['' then Some tokenArrayBegin else if c = CHR '']'' then Some tokenArrayEnd
      else if c = CHR '','' then Some tokenArraySeparator else if c = CHR '':'' then Some tokenMemberSeparator
      else None)"

lemma read_token_punctuation:
  assumes "punctuation c = Some ty"
  shows "read_token f (c # r) = (True, text_token ty [c] r, r)"
proof -
  have "\<not> white_char c" "token_switch f c r = (ty, True, r)"
    using assms
    by (auto simp: punctuation_def token_switch_def white_char_def is_digit_def byte_def split: if_splits)
  then show ?thesis by (simp add: read_token_char text_token_def)
qed

lemma read_string_loop_escaped:
  "escaped b \<Longrightarrow> read_string_loop DQ c (b @ DQ # r) = (DQ, r)"
proof (induction b arbitrary: c rule: escaped.induct)
  case (2 d b)
  then show ?case by (cases b) (auto split: if_splits)
qed simp

lemma read_token_string:
  assumes "escaped b"
  shows "read_token f (DQ # b @ DQ # r) = (True, text_token tokenString (DQ # b @ [DQ]) r, r)"
proof -
  have "\<not> white_char DQ" by (simp add: white_char_def)
  moreover have "token_switch f DQ (b @ DQ # r) = (tokenString, True, r)"
    using assms by (simp add: token_switch_def read_string_def read_string_loop_escaped)
  ultimately show ?thesis by (simp add: read_token_char text_token_def)
qed

lemma read_token_word:
  "read_token f (''null'' @ r) = (True, text_token tokenNull ''null'' r, r)"
  "read_token f (''true'' @ r) = (True, text_token tokenTrue ''true'' r, r)"
  "read_token f (''false'' @ r) = (True, text_token tokenFalse ''false'' r, r)"
  by (simp_all add: read_token_def get_next_char_def token_switch_def is_digit_def byte_def
      match_pattern_def text_token_def)

text \<open>Numbers: the scanner stops where the digits of each part stop.\<close>

definition stops :: "loc \<Rightarrow> bool" where
  \<comment> \<open>what may follow a value\<close>
  "stops r \<longleftrightarrow> r = [] \<or> white_char (hd r) \<or> hd r \<in> {CHR '','', CHR '']'', CHR ''}''}"

definition no_digit :: "loc \<Rightarrow> bool" where
  "no_digit r \<longleftrightarrow> r = [] \<or> \<not> is_digit (hd r)"

lemma skip_digits_text: "list_all is_digit ds \<Longrightarrow> no_digit r \<Longrightarrow> skip_digits (ds @ r) = next_c r"
  by (induction ds) (auto simp: next_c_def no_digit_def split: list.split)

lemma while_digits_text: "list_all is_digit ds \<Longrightarrow> no_digit r \<Longrightarrow> while_digits (next_c (ds @ r)) = next_c r"
proof (cases ds)
  case Nil
  assume "no_digit r"
  moreover have "\<not> is_digit NUL" by (simp add: is_digit_def byte_def)
  ultimately show ?thesis
    using Nil by (auto simp: while_digits_def next_c_def no_digit_def split: list.splits)
next
  case (Cons c cs)
  assume "list_all is_digit ds" "no_digit r"
  then show ?thesis using Cons by (simp add: while_digits_def next_c_def skip_digits_text)
qed

lemma no_digit_chars: "\<not> is_digit (CHR ''e'')" "\<not> is_digit (CHR ''E'')" "\<not> is_digit (CHR ''.'')"
    "\<not> is_digit (CHR ''+'')" "\<not> is_digit NUL" "\<not> is_digit (CHR ''I'')" "\<not> is_digit (CHR '','')"
    "\<not> is_digit (CHR '']'')" "\<not> is_digit (CHR ''}'')" "white_char c \<Longrightarrow> \<not> is_digit c"
  by (auto simp: is_digit_def byte_def white_char_def)

lemma stops_no_digit: "stops r \<Longrightarrow> no_digit r"
  by (auto simp: stops_def no_digit_def no_digit_chars)

lemma stops_next: "stops r \<Longrightarrow> fst (next_c r) \<notin> {CHR ''.'', CHR ''e'', CHR ''E''}"
  by (cases r) (auto simp: stops_def next_c_def white_char_def)

lemma exponent_no_digit: "exponent ex \<Longrightarrow> stops r \<Longrightarrow> no_digit (ex @ r)"
  using stops_no_digit [of r] by (auto simp: exponent_def no_digit_def no_digit_chars)

lemma fraction_no_digit: "fraction fr \<Longrightarrow> no_digit r \<Longrightarrow> no_digit (fr @ r)"
  by (auto simp: fraction_def no_digit_def no_digit_chars)

text \<open>\<^verbatim>\<open>readNumber\<close> behind the digits of the integer part, from the state \<open>next_c (fr @ ex @ r)\<close>.\<close>

lemma fraction_scanned:
  assumes "fraction fr" "no_digit x" "fst (next_c x) \<noteq> CHR ''.''"
  shows "(case next_c (fr @ x) of (c, _, p) \<Rightarrow>
     if c = CHR ''.'' then while_digits (next_c p) else next_c (fr @ x)) = next_c x"
proof (cases "fr = []")
  case True
  then show ?thesis using assms(3) by (auto split: prod.splits)
next
  case False
  then obtain ds where "fr = CHR ''.'' # ds" "digits ds" using assms(1) by (auto simp: fraction_def)
  then show ?thesis using assms(2) while_digits_text [of ds x] by (simp add: next_c_def digits_def)
qed

lemma exponent_scanned:
  assumes "exponent ex" "stops r"
  shows "(case next_c (ex @ r) of (c, _, p) \<Rightarrow>
     if c = CHR ''e'' \<or> c = CHR ''E'' then
       (let t = next_c p;
            u = (case t of (d, _, q) \<Rightarrow> if d = CHR ''+'' \<or> d = CHR ''-'' then next_c q else t)
        in while_digits u)
     else next_c (ex @ r)) = next_c r"
proof (cases "ex = []")
  case True
  then show ?thesis using stops_next [OF assms(2)] by (auto split: prod.splits)
next
  case False
  then obtain e sg ds where e: "ex = e # sg @ ds" "e = CHR ''e'' \<or> e = CHR ''E''"
      "sg = [] \<or> sg = ''+'' \<or> sg = ''-''" "list_all is_digit ds" "ds \<noteq> []"
    using assms(1) by (auto simp: exponent_def digits_def)
  have "is_digit (hd ds)" using e(4,5) by (cases ds) simp_all
  then have "hd ds \<noteq> CHR ''+''" "hd ds \<noteq> CHR ''-''"
    using no_digit_chars(4) not_digit_minus by metis+
  then have "(case next_c (sg @ ds @ r) of (d, _, q) \<Rightarrow>
      if d = CHR ''+'' \<or> d = CHR ''-'' then next_c q else next_c (sg @ ds @ r)) = next_c (ds @ r)"
    using e(3,5) by (cases ds) (auto simp: next_c_def)
  then show ?thesis
    using e while_digits_text [OF e(4) stops_no_digit [OF assms(2)]]
    by (auto simp: next_c_def [of "e # x" for x] Let_def)
qed

lemma read_number_text:
  assumes "list_all is_digit ds" "fraction fr" "exponent ex" "stops r" "\<not> b \<or> ds \<noteq> []"
  shows "read_number b (ds @ fr @ ex @ r) = (True, r)"
proof -
  let ?x = "ex @ r"
  have x: "no_digit ?x" "fst (next_c ?x) \<noteq> CHR ''.''"
    using exponent_no_digit [OF assms(3,4)] stops_next [OF assms(4)] assms(3)
    by (cases "ex = []"; force simp: exponent_def next_c_def)+
  have "\<not> (b \<and> ds @ fr @ ?x \<noteq> [] \<and> hd (ds @ fr @ ?x) = CHR ''I'')"
    using assms(1,5) no_digit_chars(6) by (cases ds) auto
  moreover have "skip_digits (ds @ fr @ ?x) = next_c (fr @ ?x)"
    by (rule skip_digits_text [OF assms(1) fraction_no_digit [OF assms(2) x(1)]])
  moreover have "fst (snd (next_c r)) = r" by (cases r) (simp_all add: next_c_def)
  ultimately show ?thesis
    using fraction_scanned [OF assms(2) x] exponent_scanned [OF assms(3,4)]
    by (simp add: read_number_def)
qed

lemma read_token_number:
  assumes "number_text t" "stops r"
  shows "read_token f (t @ r) = (True, text_token tokenNumber t r, r)"
proof -
  obtain sg ds fr ex where t: "t = sg @ ds @ fr @ ex" "sg = [] \<or> sg = ''-''" "digits ds" "fraction fr" "exponent ex"
    using assms(1) by (auto simp: number_text_def)
  then obtain c cs where ds: "ds = c # cs" "is_digit c" "list_all is_digit cs"
    by (cases ds) (auto simp: digits_def)
  have ne: "\<not> white_char c" "c \<notin> {CHR ''{'', CHR ''}'', CHR ''['', CHR '']'', DQ, SQ, CHR ''/''}"
    using ds(2) by (auto simp: is_digit_def byte_def white_char_def)
  show ?thesis
  proof (cases "sg = []")
    case True
    have "token_switch f c (cs @ fr @ ex @ r) = (tokenNumber, True, r)"
      using ds ne read_number_text [OF ds(3) t(4,5) assms(2), of False] by (simp add: token_switch_def)
    then show ?thesis using True t(1) ds(1) ne(1) by (simp add: read_token_char text_token_def)
  next
    case False
    have m: "\<not> white_char (CHR ''-'')" by (simp add: white_char_def)
    have "token_switch f (CHR ''-'') (ds @ fr @ ex @ r) = (tokenNumber, True, r)"
      using ds read_number_text [of ds fr ex r True] t(4,5) assms(2)
      by (simp add: token_switch_def)
    then show ?thesis using False t(1,2) m by (simp add: read_token_char text_token_def)
  qed
qed

lemma token_text_text [simp]: "token_text (text_token ty s r) = s"
  by (simp add: text_token_def token_text_def range_text_def)

lemma text_token_simps [simp]:
  "tok_type (text_token ty s r) = ty" "tok_start (text_token ty s r) = s @ r" "tok_end (text_token ty s r) = r"
  by (simp_all add: text_token_def)

text \<open>A token that is no comment is what \<^verbatim>\<open>skipCommentTokens\<close> and the loops that skip comments return.\<close>

lemma skip_comment_tokens_token:
  "read_token f x = (True, tok, r) \<Longrightarrow> tok_type tok \<noteq> tokenComment \<Longrightarrow> skip_comment_tokens f x = (tok, r)"
  by (simp add: skip_comment_tokens.simps [of f x])

lemma skip_comments_token:
  "tok_type tok \<noteq> tokenComment \<Longrightarrow> skip_comments f ok tok c = (ok, tok, c)"
  by (simp add: skip_comments.simps [of f ok tok c])

section \<open>Decoding\<close>

lemma round_dbl_inf: "round_dbl s n d \<noteq> DNaN" "round_dbl s n d = DInf s' \<Longrightarrow> s' = s"
  by (auto simp: round_dbl_def Let_def split: if_splits)

lemma dec_to_dbl_inf: "dec_to_dbl s n x \<noteq> DNaN" "dec_to_dbl s n x = DInf s' \<Longrightarrow> s' = s"
  using round_dbl_inf by (simp_all add: dec_to_dbl_def)

lemma digits_span:
  "digits ds \<Longrightarrow> no_digit r \<Longrightarrow> takeWhile is_digit (ds @ r) = ds \<and> dropWhile is_digit (ds @ r) = r"
  by (cases r) (auto simp: digits_def no_digit_def list_all_iff)

lemma take_sign_digits: "digits ds \<Longrightarrow> take_sign (sign_text neg @ ds @ r) = (neg, ds @ r)"
  using no_digit_chars(4) not_digit_minus
  by (cases ds) (auto simp: take_sign_def sign_text_def digits_def)

lemma fraction_digits_text: "fraction_digits fr fd \<Longrightarrow> fraction fr"
  by (auto simp: fraction_digits_def fraction_def)

lemma take_sign_exponent:
  "digits ds \<Longrightarrow> sg = [] \<or> sg = ''+'' \<or> sg = ''-'' \<Longrightarrow> take_sign (sg @ ds) = (sg = ''-'', ds)"
  using no_digit_chars(4) not_digit_minus by (cases ds) (auto simp: take_sign_def digits_def)

lemma exponent_value_parsed:
  assumes "exponent_value ex x"
  obtains "ex = []" "x = 0"
  | e r es ed where "ex = e # r" "e = CHR ''e'' \<or> e = CHR ''E''" "take_sign r = (es, ed)" "ed \<noteq> []"
      "(if es then - int (nat_of_dec 0 ed) else int (nat_of_dec 0 ed)) = x"
proof (cases "ex = []")
  case True
  then show ?thesis using assms that(1) by (simp add: exponent_value_def)
next
  case False
  then obtain e sg ds where e: "ex = e # sg @ ds" "e = CHR ''e'' \<or> e = CHR ''E''" "digits ds"
      "(sg = [] \<or> sg = ''+'') \<and> x = int (nat_of_dec 0 ds) \<or> sg = ''-'' \<and> x = - int (nat_of_dec 0 ds)"
    using assms unfolding exponent_value_def by blast
  have "take_sign (sg @ ds) = (sg = ''-'', ds)" using take_sign_exponent [OF e(3)] e(4) by blast
  moreover have "(if sg = ''-'' then - int (nat_of_dec 0 ds) else int (nat_of_dec 0 ds)) = x"
    using e(4) by auto
  ultimately show ?thesis using that(2) [OF e(1,2)] e(3) by (simp add: digits_def)
qed

lemma istream_double_number:
  assumes "digits ds" "fraction_digits fr fd" "exponent_value ex x"
  shows "istream_double (sign_text neg @ ds @ fr @ ex) =
    (case dec_to_dbl neg (nat_of_dec 0 (ds @ fd)) (x - int (length fd)) of
       DInf s' \<Rightarrow> (False, DFin s' (2 ^ 53 - 1) 971) | d \<Rightarrow> (True, d))"
proof -
  define has_e where "has_e = (ex \<noteq> [] \<and> (hd ex = CHR ''e'' \<or> hd ex = CHR ''E''))"
  obtain es ed where e: "(if has_e then take_sign (tl ex) else (False, [])) = (es, ed)" by fastforce
  have "no_digit ex \<and> (ex = [] \<or> hd ex \<noteq> CHR ''.'') \<and> (has_e \<longrightarrow> ed \<noteq> []) \<and>
      (if es then - int (nat_of_dec 0 ed) else int (nat_of_dec 0 ed)) = x"
    using assms(3)
  proof (cases rule: exponent_value_parsed)
    case 1
    then show ?thesis using e by (simp add: has_e_def no_digit_def)
  next
    case (2 c r es' ed')
    then have "has_e" "\<not> is_digit c" "c \<noteq> CHR ''.''" using no_digit_chars by (auto simp: has_e_def)
    moreover have "es' = es" "ed' = ed" using e 2(1,3) \<open>has_e\<close> by simp_all
    ultimately show ?thesis using 2(1,4,5) by (auto simp: no_digit_def)
  qed
  then have ex: "no_digit ex" "ex = [] \<or> hd ex \<noteq> CHR ''.''" "\<not> (has_e \<and> ed = [])"
    and x: "(if es then - int (nat_of_dec 0 ed) else int (nat_of_dec 0 ed)) = x" by simp_all
  have ip: "takeWhile is_digit (ds @ fr @ ex) = ds" "dropWhile is_digit (ds @ fr @ ex) = fr @ ex"
    using digits_span [OF assms(1) fraction_no_digit [OF fraction_digits_text [OF assms(2)] ex(1)]] by simp_all
  have fp: "(if fr @ ex \<noteq> [] \<and> hd (fr @ ex) = CHR ''.'' then takeWhile is_digit (tl (fr @ ex)) else []) = fd"
    "(if fr @ ex \<noteq> [] \<and> hd (fr @ ex) = CHR ''.'' then dropWhile is_digit (tl (fr @ ex)) else fr @ ex) = ex"
    using assms(2) ex(2) digits_span [OF _ ex(1), of fd] by (auto simp: fraction_digits_def)
  have ne: "\<not> (ds @ fd = [] \<or> has_e \<and> ed = [])" using assms(1) ex(3) by (auto simp: digits_def)
  show ?thesis
    unfolding istream_double_def take_sign_digits [OF assms(1)] Let_def prod.case ip fp
      has_e_def [symmetric] e x if_not_P [OF ne] ..
qed

lemma decode_double_number:
  assumes "digits ds" "fraction_digits fr fd" "exponent_value ex x" "token_text tok = sign_text neg @ ds @ fr @ ex"
  shows "decode_double tok = Inr (JReal meta0 (dec_to_dbl neg (nat_of_dec 0 (ds @ fd)) (x - int (length fd))))"
proof (cases "dec_to_dbl neg (nat_of_dec 0 (ds @ fd)) (x - int (length fd))")
  case (DInf s')
  then have "s' = neg" by (rule dec_to_dbl_inf(2))
  then show ?thesis
    using DInf istream_double_number [OF assms(1-3), of neg]
    by (cases neg) (simp_all add: decode_double_def assms(4) mk_real_def dscale_def)
qed (use istream_double_number [OF assms(1-3), of neg] dec_to_dbl_inf(1) in
      \<open>simp_all add: decode_double_def assms(4) mk_real_def\<close>)

lemma decode_number_decimal:
  assumes "digits ds" "fraction_digits fr fd" "exponent_value ex x" "fr @ ex \<noteq> []"
    and "token_text tok = sign_text neg @ ds @ fr @ ex"
  shows "decode_number tok = decode_double tok"
proof -
  obtain c r where ds: "ds = c # r" "is_digit c" using assms(1) by (cases ds) (auto simp: digits_def)
  then have "c \<noteq> CHR ''-''" by auto
  then have neg: "(tok_start tok \<noteq> [] \<and> hd (tok_start tok) = CHR ''-'') = neg"
    using token_text_hd [of tok] assms(5) ds by (auto simp: sign_text_def split: if_splits)
  have cur: "(if neg then tl (token_text tok) else token_text tok) = ds @ fr @ ex"
    using assms(5) by (simp add: sign_text_def)
  have "\<exists>c \<in> set (fr @ ex). \<not> is_digit c"
    using assms(2-4) no_digit_chars by (auto simp: fraction_digits_def exponent_value_def)
  then have "decode_number_loop (threshold neg) (max_last_digit neg) (ds @ fr @ ex) 0 = None"
    using decode_number_loop_digits [of "threshold neg" "max_last_digit neg" "ds @ fr @ ex" 0] by fastforce
  then show ?thesis
    unfolding decode_number_def Let_def neg cur by simp
qed

lemma number_value_token:
  "number_value t v \<Longrightarrow> decode_number (text_token tokenNumber t r) = Inr v"
proof (induction rule: number_value.induct)
  case (num_integer ds neg v)
  then have "number_token neg ds (text_token tokenNumber (sign_text neg @ ds) r)"
    by (auto simp: number_token_def digits_def list_all_iff sign_text_def)
  from decode_number_integer [OF this] show ?case
    using num_integer(2) by (auto simp: integer_value_def mk_int64_def mk_uint64_def split: if_splits)
next
  case (num_large ds neg)
  then have "number_token neg ds (text_token tokenNumber (sign_text neg @ ds) r)"
    by (auto simp: number_token_def digits_def list_all_iff sign_text_def)
  from decode_number_integer [OF this] show ?case
    using num_large(2) decode_double_number [OF num_large(1), of "[]" "[]" "[]" 0 _ neg]
    by (auto simp: integer_value_def fraction_digits_def exponent_value_def split: if_splits)
next
  case (num_decimal ds fr fd ex x neg)
  then show ?case
    using decode_number_decimal [OF num_decimal] decode_double_number [OF num_decimal(1-3)] by simp
qed

lemma number_value_leaf: "number_value t v \<Longrightarrow> (\<exists>i. v = JInt meta0 i) \<or> (\<exists>u. v = JUInt meta0 u) \<or> (\<exists>d. v = JReal meta0 d)"
  by (rule decode_number_leaf [OF number_value_token])

lemma hex_quad_escaped: "hex_quad h n \<Longrightarrow> escaped h"
proof (rule escaped_plain, rule ballI)
  fix c assume "hex_quad h n" "c \<in> set h"
  then obtain d where "hex_digit_of d c"
    by (auto simp: hex_quad_def list_all2_conv_all_nth in_set_conv_nth)
  from hex_digit_val_of [OF this] show "c \<noteq> DQ \<and> c \<noteq> BSL"
    by (auto simp: hex_digit_val_def is_digit_def byte_def split: if_splits)
qed

lemma literal_escaped: "literal_text s b \<Longrightarrow> escaped b"
  by (induction rule: literal_text.induct) (simp_all add: hex_quad_escaped escaped_append)

lemma decode_string_literal:
  assumes "literal_text s b"
  shows "decode_string_text (text_token tokenString (DQ # b @ [DQ]) r) [] = Inr s"
  using literal_decoded [OF assms] by (simp add: decode_string_text_def Let_def)

end
