(* ===== verification/Json_Accept.thy ===== *)
theory Json_Accept
  imports Json_Grammar
begin

text \<open>
  The reader accepts the grammar: on a text of the value \<open>v\<close> nested no deeper than the stack
  limit, \<^verbatim>\<open>readValue\<close>, \<^verbatim>\<open>readArray\<close> and \<^verbatim>\<open>readObject\<close> return true without adding an error, leave
  \<open>v\<close> (apart from its offsets) and stop right behind the text. The induction follows the
  grammar; each step of the loops of \<^verbatim>\<open>readArray\<close> and \<^verbatim>\<open>readObject\<close> is a lemma of its own.
\<close>

section \<open>How texts begin\<close>

definition value_start :: "char \<Rightarrow> bool" where
  "value_start c \<longleftrightarrow> is_digit c \<or> c \<in> {CHR ''-'', DQ, CHR ''['', CHR ''{'', CHR ''n'', CHR ''t'', CHR ''f''}"

lemma number_text_start: "number_text t \<Longrightarrow> \<exists>c s. t = c # s \<and> value_start c"
  by (auto simp: number_text_def digits_def value_start_def neq_Nil_conv)

lemma value_text_start: "value_text d v t \<Longrightarrow> \<exists>c s. t = c # s \<and> value_start c"
  by (cases rule: value_text.cases) (auto dest: number_text_start simp: value_start_def)

lemma value_start_solid: "value_start c \<Longrightarrow> \<not> white_char c \<and> c \<noteq> CHR '']'' \<and> c \<noteq> CHR ''}'' \<and> byte c < 128"
  by (auto simp: value_start_def white_char_def is_digit_def byte_def)

lemma skip_spaces_value: "white_text w \<Longrightarrow> value_text d v t \<Longrightarrow> skip_spaces (w @ t @ x) = t @ x"
  using value_text_start [of d v t] value_start_solid
  by (auto simp: skip_spaces_white skip_spaces_solid simp del: skip_spaces.simps)

lemma stops_intros:
  "stops []" "white_text w \<Longrightarrow> stops w"
  "white_text w \<Longrightarrow> c = CHR '','' \<or> c = CHR '']'' \<or> c = CHR ''}'' \<Longrightarrow> stops (w @ c # x)"
  by (cases w; auto simp: stops_def white_text_def)+

section \<open>Steps of the loops\<close>

definition at_text :: "loc \<Rightarrow> err_info list \<Rightarrow> rstate" where
  "at_text c es = \<lparr>r_current = c, r_errors = es\<rparr>"

lemma at_text_simps [simp]:
  "r_current (at_text c es) = c" "(at_text c es)\<lparr>r_current := c'\<rparr> = at_text c' es"
  by (simp_all add: at_text_def)

lemma after_element_text:
  assumes "white_text w"
  shows "after_element f (at_text (w @ CHR '','' # x) es) = (None, at_text x es)"
    "after_element f (at_text (w @ CHR '']'' # x) es) = (Some True, at_text x es)"
proof -
  have p: "punctuation (CHR '','') = Some tokenArraySeparator" "punctuation (CHR '']'') = Some tokenArrayEnd"
    by (simp_all add: punctuation_def)
  show "after_element f (at_text (w @ CHR '','' # x) es) = (None, at_text x es)"
    "after_element f (at_text (w @ CHR '']'' # x) es) = (Some True, at_text x es)"
    by (simp_all add: after_element_def read_token_white [OF assms] read_token_punctuation [OF p(1)]
        read_token_punctuation [OF p(2)] skip_comments_token)
qed

lemma after_member_text:
  assumes "white_text w"
  shows "after_member f (at_text (w @ CHR '','' # x) es) = (None, at_text x es)"
    "after_member f (at_text (w @ CHR ''}'' # x) es) = (Some True, at_text x es)"
proof -
  have p: "punctuation (CHR '','') = Some tokenArraySeparator" "punctuation (CHR ''}'') = Some tokenObjectEnd"
    by (simp_all add: punctuation_def)
  show "after_member f (at_text (w @ CHR '','' # x) es) = (None, at_text x es)"
    "after_member f (at_text (w @ CHR ''}'' # x) es) = (Some True, at_text x es)"
    by (simp_all add: after_member_def read_token_white [OF assms] read_token_punctuation [OF p(1)]
        read_token_punctuation [OF p(2)] skip_comments_token)
qed

lemma object_key_text:
  assumes "white_text w1" "literal_text k b" "length k < 2 ^ 30" "white_text w2" "\<not> rejectDupKeys f"
  shows "object_key f v name (at_text (w1 @ DQ # b @ DQ # w2 @ CHR '':'' # x) es) =
    Inr (KeyMember k (at_text x es))"
proof -
  let ?r = "w2 @ CHR '':'' # x"
  have e: "escaped b" by (rule literal_escaped [OF assms(2)])
  have "punctuation (CHR '':'') = Some tokenMemberSeparator" by (simp add: punctuation_def)
  then have c: "read_token f ?r = (True, text_token tokenMemberSeparator '':'' x, x)"
    by (simp add: read_token_white [OF assms(4)] read_token_punctuation)
  have "member_name f (text_token tokenString (DQ # b @ [DQ]) ?r) = Inr (Some (Inr k))"
    using decode_string_literal [OF assms(2)] by (simp add: member_name_def)
  then show ?thesis
    using assms(3,5) by (simp add: object_key_def read_token_white [OF assms(1)] read_token_string [OF e]
        skip_comments_token read_colon_def c)
qed

lemma object_key_end:
  assumes "white_text w"
  shows "object_key f v [] (at_text (w @ CHR ''}'' # x) es) = Inr (KeyEnd True (at_text x es))"
proof -
  have "punctuation (CHR ''}'') = Some tokenObjectEnd" by (simp add: punctuation_def)
  then show ?thesis
    by (simp add: object_key_def read_token_white [OF assms] read_token_punctuation skip_comments_token)
qed

section \<open>Arrays under construction\<close>

lemma indexed_snoc: "indexed (us @ [v]) = indexed us @ [(of_nat (length us), v)]"
  by (simp add: indexed_def)

lemma indexed_Nil [simp]: "indexed [] = []"
  by (simp add: indexed_def)

lemma map_fst_indexed: "map fst (indexed us) = map of_nat [0..<length us]"
  by (simp add: indexed_def)

lemma indexed_sorted: "length us \<le> 2 ^ 31 \<Longrightarrow> om_sorted (indexed us)"
  by (simp add: om_sorted_def map_fst_indexed sorted_wrt_map sorted_wrt_iff_nth_less
      word_less_nat_alt unat_of_nat)

lemma put_indexed:
  assumes "length us < 2 ^ 31" "map_snd erase m = indexed us"
  shows "map_snd erase (om_put (of_nat (length us)) c m) = indexed (us @ [erase c])"
proof -
  have "om_sorted (indexed us @ [(of_nat (length us), erase c)])"
    using indexed_sorted [of "us @ [erase c]"] assms(1) by (simp add: indexed_snoc)
  from om_put_last [OF this] show ?thesis
    by (simp add: om_put_map_snd assms(2) indexed_snoc)
qed

lemma sint_of_nat_32: "k < 2 ^ 31 \<Longrightarrow> sint (of_nat k :: int32) = int k"
  using sint_of_int_32 [of "int k"] by simp

text \<open>One element: the value is read into the slot of its index.\<close>

lemma array_round:
  assumes t: "white_text w1" "value_text d v t" and k: "length us < 2 ^ 31" "map_snd erase m = indexed us"
    and rd: "\<And>cur. \<exists>v'. read_value f b n (Suc nodes) cur (at_text (t @ x) es) = Inr (True, v', at_text y es) \<and>
      erase v' = v"
    and after: "after_element f (at_text y es) = (o1, at_text z es)"
  shows "\<exists>m'. map_snd erase m' = indexed (us @ [v]) \<and>
    read_array f b (Suc n) nodes (JArr mt m) (of_nat (length us)) (at_text (w1 @ t @ x) es) =
      (case o1 of Some r \<Rightarrow> Inr (r, JArr mt m', at_text z es)
       | None \<Rightarrow> read_array f b n nodes (JArr mt m') (of_nat (length (us @ [v]))) (at_text z es))"
proof -
  let ?i = "of_nat (length us) :: int32"
  let ?v1 = "JArr mt (om_emplace ?i null_singleton m)"
  obtain c s where "t = c # s" "value_start c" using value_text_start [OF t(2)] by blast
  then have ends: "\<not> array_ends f ?i (t @ x)"
    using value_start_solid by (auto simp: array_ends_def)
  obtain v' where v': "read_value f b n (Suc nodes) (index_get ?v1 ?i) (at_text (t @ x) es) =
      Inr (True, v', at_text y es)" "erase v' = v" using rd by blast
  have ref: "index_ref_int (JArr mt m) ?i = Inr ?v1"
    using k(1) by (simp add: index_ref_int_def index_ref_def sint_of_nat_32 as_array_def array_map_def
        ensure_key_emplace)
  have "index_put ?v1 ?i v' = JArr mt (om_put ?i v' m)"
    by (simp add: index_put_def array_map_def om_put_emplace)
  then have "read_array f b (Suc n) nodes (JArr mt m) ?i (at_text (w1 @ t @ x) es) =
      (case o1 of Some r \<Rightarrow> Inr (r, JArr mt (om_put ?i v' m), at_text z es)
       | None \<Rightarrow> read_array f b n nodes (JArr mt (om_put ?i v' m)) (?i + 1) (at_text z es))"
    using ends by (simp add: read_array.simps skip_spaces_value [OF t] Let_def ref v'(1) after
        split: option.splits)
  moreover have "?i + 1 = of_nat (length (us @ [v]))" by simp
  ultimately show ?thesis
    using put_indexed [OF k, of v'] v'(2) by (metis)
qed

lemma object_round:
  assumes t: "white_text w1" "literal_text k b" "length k < 2 ^ 30" "white_text w2" "\<not> rejectDupKeys f"
    and m: "map_snd erase m = ms"
    and rd: "\<And>cur. \<exists>v'. read_value f bg n (Suc nodes) cur (at_text x es) = Inr (True, v', at_text y es) \<and>
      erase v' = v"
    and after: "after_member f (at_text y es) = (o1, at_text z es)"
  shows "\<exists>m'. map_snd erase m' = put_member (k, v) ms \<and>
    read_object f bg (Suc n) nodes (JObj mt m) name
        (at_text (w1 @ DQ # b @ DQ # w2 @ CHR '':'' # x) es) =
      (case o1 of Some r \<Rightarrow> Inr (r, JObj mt m', at_text z es)
       | None \<Rightarrow> read_object f bg n nodes (JObj mt m') k (at_text z es))"
proof -
  let ?v1 = "JObj mt (om_emplace k null_singleton m)"
  obtain v' where v': "read_value f bg n (Suc nodes) (member_get ?v1 k) (at_text x es) =
      Inr (True, v', at_text y es)" "erase v' = v" using rd by blast
  have ref: "resolve_reference (JObj mt m) k = Inr ?v1"
    using t(3) by (simp add: resolve_reference_def as_object_def object_map_def ensure_key_emplace czstring_id)
  have "member_put ?v1 k v' = JObj mt (om_put k v' m)"
    using t(3) by (simp add: member_put_def object_map_def om_put_emplace czstring_id)
  then have "read_object f bg (Suc n) nodes (JObj mt m) name
        (at_text (w1 @ DQ # b @ DQ # w2 @ CHR '':'' # x) es) =
      (case o1 of Some r \<Rightarrow> Inr (r, JObj mt (om_put k v' m), at_text z es)
       | None \<Rightarrow> read_object f bg n nodes (JObj mt (om_put k v' m)) k (at_text z es))"
    by (simp add: read_object.simps object_key_text [OF t] ref v'(1) after split: option.splits)
  moreover have "map_snd erase (om_put k v' m) = put_member (k, v) ms"
    using m v'(2) by (simp add: put_member_def om_put_map_snd)
  ultimately show ?thesis by blast
qed

section \<open>The reader accepts the grammar\<close>

text \<open>What is proved of \<^verbatim>\<open>readValue\<close>, \<^verbatim>\<open>readArray\<close> and \<^verbatim>\<open>readObject\<close> at a text of nesting depth \<open>d\<close>.\<close>

definition reads_value :: "features \<Rightarrow> nat \<Rightarrow> json \<Rightarrow> string \<Rightarrow> bool" where
  "reads_value f d v t \<longleftrightarrow>
     (\<forall>b n nodes cur w r es. white_text w \<longrightarrow> stops r \<longrightarrow> nodes + d \<le> Suc (stackLimit f) \<longrightarrow>
        2 * length (w @ t @ r) + 1 \<le> n \<longrightarrow>
        (\<exists>v'. read_value f b n nodes cur (at_text (w @ t @ r) es) = Inr (True, v', at_text r es) \<and>
              erase v' = v))"

definition reads_elements :: "features \<Rightarrow> nat \<Rightarrow> json list \<Rightarrow> string \<Rightarrow> bool" where
  "reads_elements f d vs t \<longleftrightarrow>
     (\<forall>b n nodes mt m us r es. map_snd erase m = indexed us \<longrightarrow> length us + length vs < 2 ^ 31 \<longrightarrow>
        nodes + d \<le> stackLimit f \<longrightarrow> 2 * length (t @ CHR '']'' # r) + 2 \<le> n \<longrightarrow>
        (\<exists>m'. read_array f b n nodes (JArr mt m) (of_nat (length us)) (at_text (t @ CHR '']'' # r) es) =
                Inr (True, JArr mt m', at_text r es) \<and> map_snd erase m' = indexed (us @ vs)))"

definition reads_members :: "features \<Rightarrow> nat \<Rightarrow> (string \<times> json) list \<Rightarrow> string \<Rightarrow> bool" where
  "reads_members f d kvs t \<longleftrightarrow>
     (\<forall>b n nodes mt m name r es. nodes + d \<le> stackLimit f \<longrightarrow> 2 * length (t @ CHR ''}'' # r) + 2 \<le> n \<longrightarrow>
        (\<exists>m'. read_object f b n nodes (JObj mt m) name (at_text (t @ CHR ''}'' # r) es) =
                Inr (True, JObj mt m', at_text r es) \<and>
              map_snd erase m' = fold put_member kvs (map_snd erase m)))"

lemma reads_leaf:
  assumes "\<And>r. stops r \<Longrightarrow> read_token f (t @ r) = (True, text_token ty t r, r)"
    "ty \<notin> {tokenComment, tokenObjectBegin, tokenArrayBegin}"
    "\<And>b cur r st. \<exists>v'. read_leaf f b (text_token ty t r) cur st = Inr (True, v', st) \<and> erase v' = v"
  shows "reads_value f (Suc d) v t"
  unfolding reads_value_def
proof (intro allI impI)
  fix b n nodes cur w r es
  assume a: "white_text w" "stops r" "nodes + Suc d \<le> Suc (stackLimit f)" "2 * length (w @ t @ r) + 1 \<le> n"
  have "skip_comment_tokens f (w @ t @ r) = (text_token ty t r, r)"
    using skip_comment_tokens_token [OF assms(1) [OF a(2)]] assms(2) skip_comment_tokens_white [OF a(1)]
    by simp
  moreover have "\<not> stackLimit f < nodes" using a(3) by simp
  moreover obtain n' where "n = Suc n'" using a(4) by (cases n) simp_all
  ultimately show "\<exists>v'. read_value f b n nodes cur (at_text (w @ t @ r) es) = Inr (True, v', at_text r es) \<and>
      erase v' = v"
    using assms(2,3) by (simp add: read_value.simps Let_def)
qed

lemma init_container_form:
  "\<exists>mt. init_container b tok arrayValue cur = JArr mt []" "\<exists>mt. init_container b tok objectValue cur = JObj mt []"
  by (simp_all add: init_container_def swap_payload_def set_offset_start_def)

lemma number_value_erased:
  assumes "number_value t v"
  shows "erase v = v"
  using number_value_leaf [OF assms] by auto

text \<open>Behind an opening bracket or brace the rest is up to the loop.\<close>

lemma reads_array:
  assumes "\<And>b n nodes mt r es. nodes + d \<le> stackLimit f \<Longrightarrow> 2 * length (t @ CHR '']'' # r) + 2 \<le> n \<Longrightarrow>
      \<exists>m'. read_array f b n nodes (JArr mt []) 0 (at_text (t @ CHR '']'' # r) es) =
        Inr (True, JArr mt m', at_text r es) \<and> map_snd erase m' = ms"
  shows "reads_value f (Suc d) (JArr meta0 ms) (CHR ''['' # t @ '']'')"
  unfolding reads_value_def
proof (intro allI impI)
  fix b n nodes cur w r es
  let ?t = "CHR ''['' # t @ '']''" and ?x = "t @ CHR '']'' # r"
  assume a: "white_text w" "stops r" "nodes + Suc d \<le> Suc (stackLimit f)" "2 * length (w @ ?t @ r) + 1 \<le> n"
  have "punctuation (CHR ''['') = Some tokenArrayBegin" by (simp add: punctuation_def)
  then have s: "skip_comment_tokens f (w @ CHR ''['' # ?x) = (text_token tokenArrayBegin ''['' ?x, ?x)"
    using skip_comment_tokens_white [OF a(1)] by (simp add: skip_comment_tokens_token read_token_punctuation)
  obtain n' where n: "n = Suc n'" "2 * length ?x + 2 \<le> n'" using a(4) by (cases n) simp_all
  obtain mt where mt: "init_container b (text_token tokenArrayBegin ''['' ?x) arrayValue cur = JArr mt []"
    using init_container_form(1) by blast
  obtain m' where "read_array f b n' nodes (JArr mt []) 0 (at_text ?x es) = Inr (True, JArr mt m', at_text r es)"
    "map_snd erase m' = ms" using assms [OF _ n(2)] a(3) by (metis add_Suc_right Suc_le_mono)
  then show "\<exists>v'. read_value f b n nodes cur (at_text (w @ ?t @ r) es) = Inr (True, v', at_text r es) \<and>
      erase v' = JArr meta0 ms"
    using a(3) by (simp add: read_value.simps n(1) s Let_def mt)
qed

lemma reads_object:
  assumes "\<And>b n nodes mt r es. nodes + d \<le> stackLimit f \<Longrightarrow> 2 * length (t @ CHR ''}'' # r) + 2 \<le> n \<Longrightarrow>
      \<exists>m'. read_object f b n nodes (JObj mt []) [] (at_text (t @ CHR ''}'' # r) es) =
        Inr (True, JObj mt m', at_text r es) \<and> map_snd erase m' = ms"
  shows "reads_value f (Suc d) (JObj meta0 ms) (CHR ''{'' # t @ ''}'')"
  unfolding reads_value_def
proof (intro allI impI)
  fix b n nodes cur w r es
  let ?t = "CHR ''{'' # t @ ''}''" and ?x = "t @ CHR ''}'' # r"
  assume a: "white_text w" "stops r" "nodes + Suc d \<le> Suc (stackLimit f)" "2 * length (w @ ?t @ r) + 1 \<le> n"
  have "punctuation (CHR ''{'') = Some tokenObjectBegin" by (simp add: punctuation_def)
  then have s: "skip_comment_tokens f (w @ CHR ''{'' # ?x) = (text_token tokenObjectBegin ''{'' ?x, ?x)"
    using skip_comment_tokens_white [OF a(1)] by (simp add: skip_comment_tokens_token read_token_punctuation)
  obtain n' where n: "n = Suc n'" "2 * length ?x + 2 \<le> n'" using a(4) by (cases n) simp_all
  obtain mt where mt: "init_container b (text_token tokenObjectBegin ''{'' ?x) objectValue cur = JObj mt []"
    using init_container_form(2) by blast
  obtain m' where "read_object f b n' nodes (JObj mt []) [] (at_text ?x es) = Inr (True, JObj mt m', at_text r es)"
    "map_snd erase m' = ms" using assms [OF _ n(2)] a(3) by (metis add_Suc_right Suc_le_mono)
  then show "\<exists>v'. read_value f b n nodes cur (at_text (w @ ?t @ r) es) = Inr (True, v', at_text r es) \<and>
      erase v' = JObj meta0 ms"
    using a(3) by (simp add: read_value.simps n(1) s Let_def mt)
qed

lemma reads_empty_array:
  assumes "white_text w"
  shows "reads_value f (Suc d) (JArr meta0 []) (CHR ''['' # w @ '']'')"
proof (rule reads_array)
  fix b n nodes mt r es
  assume "2 * length (w @ CHR '']'' # r) + 2 \<le> n"
  then obtain n' where n: "n = Suc n'" by (cases n) simp_all
  have "skip_spaces (w @ CHR '']'' # r) = CHR '']'' # r"
    using assms by (simp add: skip_spaces_white white_char_def)
  moreover have "punctuation (CHR '']'') = Some tokenArrayEnd" by (simp add: punctuation_def)
  ultimately show "\<exists>m'. read_array f b n nodes (JArr mt []) 0 (at_text (w @ CHR '']'' # r) es) =
      Inr (True, JArr mt m', at_text r es) \<and> map_snd erase m' = []"
    by (simp add: n read_array.simps array_ends_def read_token_punctuation)
qed

lemma reads_empty_object:
  assumes "white_text w"
  shows "reads_value f (Suc d) (JObj meta0 []) (CHR ''{'' # w @ ''}'')"
proof (rule reads_object)
  fix b n nodes mt r es
  assume "2 * length (w @ CHR ''}'' # r) + 2 \<le> n"
  then obtain n' where n: "n = Suc n'" by (cases n) simp_all
  show "\<exists>m'. read_object f b n nodes (JObj mt []) [] (at_text (w @ CHR ''}'' # r) es) =
      Inr (True, JObj mt m', at_text r es) \<and> map_snd erase m' = []"
    by (simp add: n read_object.simps object_key_end [OF assms])
qed

lemma reads_valueD:
  assumes "reads_value f d v t" "white_text w" "stops r" "nodes + d \<le> Suc (stackLimit f)"
    "2 * length (w @ t @ r) + 1 \<le> n"
  shows "\<exists>v'. read_value f b n nodes cur (at_text (w @ t @ r) es) = Inr (True, v', at_text r es) \<and> erase v' = v"
  using assms unfolding reads_value_def by blast

lemma white_Nil [simp]: "white_text []"
  by (simp add: white_text_def)

theorem reader_accepts:
  assumes "\<not> rejectDupKeys f"
  shows "value_text d v t \<Longrightarrow> reads_value f d v t"
    "elements_text d vs u \<Longrightarrow> reads_elements f d vs u"
    "members_text d kvs s \<Longrightarrow> reads_members f d kvs s"
proof (induction rule: value_text_elements_text_members_text.inducts)
  case (null d)
  show ?case
    by (rule reads_leaf [where ty = tokenNull])
      (simp_all only: read_token_word, simp_all add: read_leaf_def leaf_value_def)
next
  case (true d)
  show ?case
    by (rule reads_leaf [where ty = tokenTrue])
      (simp_all only: read_token_word, simp_all add: read_leaf_def leaf_value_def mk_bool_def)
next
  case (false d)
  show ?case
    by (rule reads_leaf [where ty = tokenFalse])
      (simp_all only: read_token_word, simp_all add: read_leaf_def leaf_value_def mk_bool_def)
next
  case (number t v d)
  from number_value_token [OF number.hyps(2)] show ?case
    by (intro reads_leaf [where ty = tokenNumber, OF read_token_number [OF number.hyps(1)]])
      (auto simp: read_leaf_def decode_into_def number_value_erased [OF number.hyps(2)])
next
  case (string s b d)
  have e: "escaped b" by (rule literal_escaped [OF string.hyps(1)])
  show ?case
    using read_token_string [OF e, of f] decode_string_literal [OF string.hyps(1)] string.hyps(2)
    by (intro reads_leaf [where ty = tokenString])
      (auto simp: read_leaf_def decode_string_def mk_string_small)
next
  case (empty_array w d)
  then show ?case by (rule reads_empty_array)
next
  case (array d vs t)
  show ?case
  proof (rule reads_array)
    fix b n nodes mt r es
    assume "nodes + d \<le> stackLimit f" "2 * length (t @ CHR '']'' # r) + 2 \<le> n"
    then show "\<exists>m'. read_array f b n nodes (JArr mt []) 0 (at_text (t @ CHR '']'' # r) es) =
        Inr (True, JArr mt m', at_text r es) \<and> map_snd erase m' = indexed vs"
      using array.IH [unfolded reads_elements_def, rule_format, of "[]" "[]" nodes r n] array.hyps(2) by simp
  qed
next
  case (empty_object w d)
  then show ?case by (rule reads_empty_object)
next
  case (object d kvs t)
  then show ?case
    unfolding reads_members_def by (intro reads_object) fastforce
next
  case (element w1 d v t w2)
  show ?case
    unfolding reads_elements_def
  proof (intro allI impI)
    fix b n nodes mt m us r es
    let ?x = "w2 @ CHR '']'' # r"
    assume a: "map_snd erase m = indexed us" "length us + length [v] < 2 ^ 31" "nodes + d \<le> stackLimit f"
      "2 * length ((w1 @ t @ w2) @ CHR '']'' # r) + 2 \<le> n"
    obtain n' where n: "n = Suc n'" "2 * length (t @ ?x) + 1 \<le> n'" using a(4) by (cases n) simp_all
    have rd: "\<exists>v'. read_value f b n' (Suc nodes) cur (at_text (t @ ?x) es) = Inr (True, v', at_text ?x es) \<and>
        erase v' = v" for cur
      using reads_valueD [OF element.IH white_Nil, of ?x "Suc nodes" n' b cur es] a(3) n(2)
        stops_intros(3) [OF element.hyps(3)] by simp
    show "\<exists>m'. read_array f b n nodes (JArr mt m) (of_nat (length us))
          (at_text ((w1 @ t @ w2) @ CHR '']'' # r) es) =
        Inr (True, JArr mt m', at_text r es) \<and> map_snd erase m' = indexed (us @ [v])"
      using array_round [OF element.hyps(1,2) _ a(1) rd after_element_text(2) [OF element.hyps(3)], of mt] a(2)
      by (auto simp: n(1))
  qed
next
  case (elements w1 d v t w2 vs u)
  show ?case
    unfolding reads_elements_def
  proof (intro allI impI)
    fix b n nodes mt m us r es
    let ?y = "u @ CHR '']'' # r"
    let ?x = "w2 @ CHR '','' # ?y"
    assume a: "map_snd erase m = indexed us" "length us + length (v # vs) < 2 ^ 31" "nodes + d \<le> stackLimit f"
      "2 * length ((w1 @ t @ w2 @ CHR '','' # u) @ CHR '']'' # r) + 2 \<le> n"
    obtain n' where n: "n = Suc n'" "2 * length (t @ ?x) + 1 \<le> n'" "2 * length ?y + 2 \<le> n'"
      using a(4) by (cases n) simp_all
    have rd: "\<exists>v'. read_value f b n' (Suc nodes) cur (at_text (t @ ?x) es) = Inr (True, v', at_text ?x es) \<and>
        erase v' = v" for cur
      using reads_valueD [OF elements.IH(1) white_Nil, of ?x "Suc nodes" n' b cur es] a(3) n(2)
        stops_intros(3) [OF elements.hyps(3)] by simp
    obtain m1 where m1: "map_snd erase m1 = indexed (us @ [v])"
      "read_array f b (Suc n') nodes (JArr mt m) (of_nat (length us)) (at_text (w1 @ t @ ?x) es) =
         read_array f b n' nodes (JArr mt m1) (of_nat (length (us @ [v]))) (at_text ?y es)"
      using array_round [OF elements.hyps(1,2) _ a(1) rd after_element_text(1) [OF elements.hyps(3)], of mt] a(2)
      by auto
    then show "\<exists>m'. read_array f b n nodes (JArr mt m) (of_nat (length us))
          (at_text ((w1 @ t @ w2 @ CHR '','' # u) @ CHR '']'' # r) es) =
        Inr (True, JArr mt m', at_text r es) \<and> map_snd erase m' = indexed (us @ v # vs)"
      using elements.IH(2) [unfolded reads_elements_def, rule_format, OF m1(1) _ a(3) n(3)] a(2)
      by (simp add: n(1))
  qed
next
  case (member w1 k b w2 w3 d v t w4)
  show ?case
    unfolding reads_members_def
  proof (intro allI impI)
    fix bg n nodes mt m name r es
    let ?x = "w4 @ CHR ''}'' # r"
    assume a: "nodes + d \<le> stackLimit f"
      "2 * length ((w1 @ DQ # b @ DQ # w2 @ CHR '':'' # w3 @ t @ w4) @ CHR ''}'' # r) + 2 \<le> n"
    obtain n' where n: "n = Suc n'" "2 * length (w3 @ t @ ?x) + 1 \<le> n'" using a(2) by (cases n) simp_all
    have rd: "\<exists>v'. read_value f bg n' (Suc nodes) cur (at_text (w3 @ t @ ?x) es) =
        Inr (True, v', at_text ?x es) \<and> erase v' = v" for cur
      using reads_valueD [OF member.IH member.hyps(5), of ?x "Suc nodes" n' bg cur es] a(1) n(2)
        stops_intros(3) [OF member.hyps(7)] by simp
    show "\<exists>m'. read_object f bg n nodes (JObj mt m) name
          (at_text ((w1 @ DQ # b @ DQ # w2 @ CHR '':'' # w3 @ t @ w4) @ CHR ''}'' # r) es) =
        Inr (True, JObj mt m', at_text r es) \<and>
        map_snd erase m' = fold put_member [(k, v)] (map_snd erase m)"
      using object_round [OF member.hyps(1-4) assms refl rd after_member_text(2) [OF member.hyps(7)], of m mt name]
      by (auto simp: n(1))
  qed
next
  case (members w1 k b w2 w3 d v t w4 kvs u)
  show ?case
    unfolding reads_members_def
  proof (intro allI impI)
    fix bg n nodes mt m name r es
    let ?y = "u @ CHR ''}'' # r"
    let ?x = "w4 @ CHR '','' # ?y"
    assume a: "nodes + d \<le> stackLimit f"
      "2 * length ((w1 @ DQ # b @ DQ # w2 @ CHR '':'' # w3 @ t @ w4 @ CHR '','' # u) @ CHR ''}'' # r) + 2 \<le> n"
    obtain n' where n: "n = Suc n'" "2 * length (w3 @ t @ ?x) + 1 \<le> n'" "2 * length ?y + 2 \<le> n'"
      using a(2) by (cases n) simp_all
    have rd: "\<exists>v'. read_value f bg n' (Suc nodes) cur (at_text (w3 @ t @ ?x) es) =
        Inr (True, v', at_text ?x es) \<and> erase v' = v" for cur
      using reads_valueD [OF members.IH(1) members.hyps(5), of ?x "Suc nodes" n' bg cur es] a(1) n(2)
        stops_intros(3) [OF members.hyps(7)] by simp
    obtain m1 where m1: "map_snd erase m1 = put_member (k, v) (map_snd erase m)"
      "read_object f bg (Suc n') nodes (JObj mt m) name
          (at_text (w1 @ DQ # b @ DQ # w2 @ CHR '':'' # w3 @ t @ ?x) es) =
         read_object f bg n' nodes (JObj mt m1) k (at_text ?y es)"
      using object_round [OF members.hyps(1-4) assms refl rd after_member_text(1) [OF members.hyps(7)], of m mt name]
      by auto
    obtain m' where "read_object f bg n' nodes (JObj mt m1) k (at_text ?y es) = Inr (True, JObj mt m', at_text r es)"
      "map_snd erase m' = fold put_member kvs (map_snd erase m1)"
      using members.IH(2) [unfolded reads_members_def, rule_format, OF a(1) n(3)] by blast
    then show "\<exists>m'. read_object f bg n nodes (JObj mt m) name
          (at_text ((w1 @ DQ # b @ DQ # w2 @ CHR '':'' # w3 @ t @ w4 @ CHR '','' # u) @ CHR ''}'' # r) es) =
        Inr (True, JObj mt m', at_text r es) \<and>
        map_snd erase m' = fold put_member ((k, v) # kvs) (map_snd erase m)"
      using m1 by (simp add: n(1))
  qed
qed

end
