(* ===== verification/Json_Roundtrip.thy ===== *)
theory Json_Roundtrip
  imports Json_Accept Json_Writer Json_Wf Json_Builder "HOL-Library.Code_Target_Nat"
begin

text \<open>
  What the fast writer writes is in the grammar, so the reader reads it back: apart from
  doubles, whose text is rounded, a value of well-formed UTF-8 is recovered. \<open>canon\<close> says what
  it is recovered as: without comments and offsets, an unsigned integer that fits becoming
  signed, and an index without element becoming a null.
\<close>

section \<open>Documents\<close>

lemma type_erase [simp]: "type_of (erase v) = type_of v"
  by (cases v) simp_all

lemma parse_accepts:
  assumes "value_text (stackLimit f) v t" "white_text w1" "white_text w2" "\<not> rejectDupKeys f"
    "\<not> strictRoot f \<or> is_array v \<or> is_object v"
  shows "\<exists>v'. parse f (w1 @ t @ w2) rt = Inr (True, v', []) \<and> erase v' = v"
proof -
  let ?doc = "w1 @ t @ w2"
  obtain c s where t: "t = c # s" "value_start c" using value_text_start [OF assms(1)] by blast
  have "byte (CHR 0xEF) = 239" by (simp add: byte_def)
  then have "c \<noteq> CHR 0xEF" using value_start_solid [OF t(2)] by auto
  moreover have "\<not> white_char (CHR 0xEF)" by (simp add: white_char_def)
  then have "w1 \<noteq> [] \<Longrightarrow> hd w1 \<noteq> CHR 0xEF" using assms(2) by (cases w1) (auto simp: white_text_def)
  ultimately have "hd ?doc \<noteq> CHR 0xEF" "?doc \<noteq> []" using t(1) by (cases w1; simp)+
  then have "take 3 ?doc \<noteq> [CHR 0xEF, CHR 0xBB, CHR 0xBF]" by (cases ?doc) simp_all
  then have b: "skip_bom (skipBom f) ?doc = ?doc" by (simp add: skip_bom_def)
  obtain v' where v': "read_value f ?doc (parse_fuel ?doc) 1 rt (at_text ?doc []) = Inr (True, v', at_text w2 [])"
      "erase v' = v"
    using reads_valueD [OF reader_accepts(1) [OF assms(4,1)] assms(2) stops_intros(2) [OF assms(3)],
        of 1 "parse_fuel ?doc" ?doc rt "[]"]
    by (auto simp: parse_fuel_def)
  have "read_token f [] = (True, text_token tokenEndOfStream [] [], [])"
    by (simp add: read_token_def get_next_char_def token_switch_NUL text_token_def)
  then have e: "skip_comment_tokens f w2 = (text_token tokenEndOfStream [] [], [])"
    using skip_comment_tokens_white [OF assms(3), of f "[]"] by (simp add: skip_comment_tokens_token)
  have "\<not> (strictRoot f \<and> \<not> is_array v' \<and> \<not> is_object v')"
    using assms(5) v'(2) type_erase [of v'] by (auto simp: is_array_def is_object_def)
  then show ?thesis
    using v' e unfolding parse_def Let_def b at_text_def by auto
qed

section \<open>What is read back\<close>

fun canon :: "json \<Rightarrow> json" where
  "canon (JUInt _ u) = (if unat u < 2 ^ 63 then JInt meta0 u else JUInt meta0 u)"
| "canon (JArr mt m) =
     (let children = map_snd canon m
      in JArr meta0 (indexed (map (\<lambda>index.
           case om_find (of_nat index) children of None \<Rightarrow> JNull meta0 | Some c \<Rightarrow> c)
           [0..<unat (size_of (JArr mt m))])))"
| "canon (JObj _ m) = JObj meta0 (map_snd canon m)"
| "canon (JNull _) = JNull meta0"
| "canon (JInt _ i) = JInt meta0 i"
| "canon (JReal _ d) = JReal meta0 d"
| "canon (JStr _ s) = JStr meta0 s"
| "canon (JBool _ b) = JBool meta0 b"

text \<open>\<open>readable\<close> asks for no doubles, well-formed UTF-8 and sizes that the reader can index.\<close>

fun readable :: "json \<Rightarrow> bool" where
  "readable (JReal _ _) = False"
| "readable (JStr _ s) \<longleftrightarrow> valid_utf8 s \<and> length s < 2147483643"
| "readable (JArr mt m) \<longleftrightarrow> unat (size_of (JArr mt m)) < 2 ^ 31 \<and> list_all (\<lambda>(_, r). r) (map_snd readable m)"
| "readable (JObj _ m) \<longleftrightarrow> list_all (\<lambda>(k, r). valid_utf8 k \<and> r) (map_snd readable m)"
| "readable _ \<longleftrightarrow> True"

fun levels :: "json \<Rightarrow> nat" where
  \<comment> \<open>how deep arrays and objects are nested\<close>
  "levels (JArr _ m) = Suc (fold (\<lambda>(_, n). max n) (map_snd levels m) 0)"
| "levels (JObj _ m) = Suc (fold (\<lambda>(_, n). max n) (map_snd levels m) 0)"
| "levels _ = 1"

lemma fold_max: "(k, n :: nat) \<in> set xs \<or> n \<le> a \<Longrightarrow> n \<le> fold (\<lambda>(_, n). max n) xs a"
proof (induction xs arbitrary: a)
  case (Cons x xs)
  obtain j l where x: "x = (j, l)" by (cases x)
  from Cons.prems have "(k, n) \<in> set xs \<or> n \<le> max l a" by (auto simp: x le_max_iff_disj)
  from Cons.IH [OF this] show ?case by (simp add: x)
qed auto

lemma levels_member:
  assumes "(k, v) \<in> set m" "Suc (fold (\<lambda>(_, n). max n) (map_snd levels m) 0) \<le> Suc d"
  shows "levels v \<le> d"
proof -
  have "(k, levels v) \<in> set (map_snd levels m)" using assms(1) by (force simp: map_snd_def)
  then have "levels v \<le> fold (\<lambda>(_, n). max n) (map_snd levels m) 0" by (intro fold_max) blast
  with assms(2) show ?thesis by simp
qed

lemma levels_positive: "1 \<le> levels v"
  by (cases v) simp_all

section \<open>The fast writer's text is in the grammar\<close>

lemma show_nat_digits_text: "digits (show_nat n)"
proof -
  have "show_nat n \<noteq> []" by (subst show_nat.simps) simp
  then show ?thesis using show_nat_digits by (auto simp: digits_def list_all_iff)
qed

lemma number_text_integer:
  "number_text (show_nat n)" "number_text (CHR ''-'' # show_nat n)"
proof -
  have "number_text (sg @ show_nat n @ [] @ [])" if "sg = [] \<or> sg = ''-''" for sg
    unfolding number_text_def using that show_nat_digits_text [of n]
    by (intro exI [of _ sg] exI [of _ "show_nat n"] exI [of _ "[]"]) (simp add: fraction_def exponent_def)
  from this [of "[]"] this [of "''-''"]
  show "number_text (show_nat n)" "number_text (CHR ''-'' # show_nat n)" by simp_all
qed

lemma int_value:
  "number_text (value_to_string_int i)" "number_value (value_to_string_int i) (JInt meta0 i)"
proof -
  show "number_text (value_to_string_int i)"
    by (simp add: value_to_string_int_show number_text_integer)
  let ?n = "nat \<bar>sint i\<bar>"
  have b: "- (2 ^ 63) \<le> sint i" "sint i < 2 ^ 63" by (rule sint64_bounds)+
  have "integer_value (sint i < 0) ?n = Some (JInt meta0 i)"
  proof (cases "sint i < 0")
    case True
    then have "?n \<le> 2 ^ 63" "- of_nat ?n = i" using b by (simp_all add: nat_le_iff)
    then show ?thesis using True by (simp add: integer_value_def)
  next
    case False
    then have "?n < 2 ^ 63" "of_nat ?n = i" using b by (simp_all add: nat_less_iff)
    then show ?thesis using False by (simp add: integer_value_def)
  qed
  from num_integer [OF show_nat_digits_text, of "sint i < 0" ?n "JInt meta0 i"] this
  show "number_value (value_to_string_int i) (JInt meta0 i)"
    by (cases "sint i < 0") (simp_all add: value_to_string_int_show nat_of_dec_show_nat sign_text_def)
qed

lemma uint_value:
  "number_text (value_to_string_uint u)" "number_value (value_to_string_uint u) (canon (JUInt mt u))"
proof -
  show "number_text (value_to_string_uint u)"
    by (simp add: value_to_string_uint_show number_text_integer)
  have "unat u < 2 ^ 64" using unsigned_less [of u, where ?'a = nat] by simp
  then have "integer_value False (unat u) = Some (canon (JUInt mt u))" by (simp add: integer_value_def)
  from num_integer [OF show_nat_digits_text, of False "unat u" "canon (JUInt mt u)"] this
  show "number_value (value_to_string_uint u) (canon (JUInt mt u))"
    by (simp add: value_to_string_uint_show nat_of_dec_show_nat sign_text_def)
qed

lemma elements_join:
  "list_all2 (value_text d) vs ts \<Longrightarrow> vs \<noteq> [] \<Longrightarrow> elements_text d vs (join '','' ts)"
proof (induction vs ts rule: list_all2_induct)
  case (Cons v vs t ts)
  show ?case
  proof (cases vs)
    case Nil
    with Cons.hyps show ?thesis using element [OF white_Nil _ white_Nil, of d v t] by simp
  next
    case (Cons v2 vs2)
    with Cons.hyps obtain t2 ts2 where "ts = t2 # ts2" by (cases ts) auto
    then show ?thesis using Cons.IH Cons.hyps(1) Cons elements [OF white_Nil _ white_Nil, of d v t vs] by simp
  qed
qed simp

lemma members_join:
  assumes "\<And>k v. (k, v) \<in> set xs \<Longrightarrow> valid_utf8 k \<and> length k < 2 ^ 30 \<and> value_text d (g v) (h v)"
    "xs \<noteq> []" "white_text w"
  shows "members_text d (map_snd g xs)
    (join '','' (map (\<lambda>(k, v). value_to_quoted_string k False @ CHR '':'' # w @ h v) xs))"
  using assms(1,2)
proof (induction xs)
  case (Cons x xs)
  obtain k v where x: "x = (k, v)" by (cases x)
  have k: "literal_text k (literal_body k)" "length k < 2 ^ 30" "value_text d (g v) (h v)"
    using Cons.prems(1) [of k v] by (simp_all add: x literal_written)
  show ?case
  proof (cases xs)
    case Nil
    then show ?thesis
      using member [OF white_Nil k(1,2) white_Nil assms(3) k(3) white_Nil] by (simp add: x quoted_literal)
  next
    case ne: (Cons y ys)
    obtain k2 v2 where y: "y = (k2, v2)" by (cases y)
    have "members_text d (map_snd g xs)
        (join '','' (map (\<lambda>(k, v). value_to_quoted_string k False @ CHR '':'' # w @ h v) xs))"
      using Cons.prems(1) by (intro Cons.IH) (auto simp: ne)
    then show ?thesis
      using members [OF white_Nil k(1,2) white_Nil assms(3) k(3) white_Nil, of "map_snd g xs"]
      by (simp add: x y ne quoted_literal)
  qed
qed simp

lemma fold_put_sorted: "om_sorted (ms @ kvs) \<Longrightarrow> fold put_member kvs ms = ms @ kvs"
proof (induction kvs arbitrary: ms)
  case (Cons x kvs)
  obtain k v where x: "x = (k, v)" by (cases x)
  have "om_sorted (ms @ [(k, v)])" using Cons.prems by (auto simp: om_sorted_append x)
  from om_put_last [OF this] show ?case
    using Cons.IH [of "ms @ [(k, v)]"] Cons.prems by (simp add: x put_member_def)
qed simp

lemma fw_object_text:
  assumes "om_sorted m"
  shows "fw_write_value w (JObj mt m) = CHR ''{'' # join '','' (map (\<lambda>(k, v).
      value_to_quoted_string k False @ CHR '':'' # (if yamlCompatibilityEnabled w then '' '' else []) @
      fw_write_value w v) m) @ ''}''"
proof -
  have "om_find k (map_snd (fw_write_value w) m) = Some (fw_write_value w v)" if "(k, v) \<in> set m" for k v
    using om_find_in_set [OF assms that] by (simp add: om_find_map_snd)
  then show ?thesis
    by (auto simp: om_keys_def Let_def intro!: arg_cong [where f = "join _"])
qed

theorem written_in_grammar:
  assumes "\<not> dropNullPlaceholders w"
  shows "readable v \<Longrightarrow> wf_json v \<Longrightarrow> levels v \<le> d \<Longrightarrow> value_text d (canon v) (fw_write_value w v)"
proof (induction v arbitrary: d rule: canon.induct)
  case (1 mt u)
  then obtain d' where d: "d = Suc d'" by (cases d) auto
  show ?case using number [OF uint_value] by (simp add: d)
next
  case (2 mt m)
  from "2.prems"(3) obtain d' where d: "d = Suc d'" by (cases d) auto
  let ?n = "unat (size_of (JArr mt m))"
  let ?v = "\<lambda>i. case om_find (of_nat i) (map_snd canon m) of None \<Rightarrow> JNull meta0 | Some c \<Rightarrow> c"
  let ?t = "\<lambda>i. case om_find (of_nat i) (map_snd (fw_write_value w) m) of None \<Rightarrow> null_text w | Some t \<Rightarrow> t"
  show ?case
  proof (cases "?n = 0")
    case True
    then show ?thesis using empty_array [OF white_Nil, of d'] by (simp add: d Let_def)
  next
    case False
    have elem: "value_text d' (?v i) (?t i)" for i
    proof (cases "om_find (of_nat i :: uint32) m")
      case None
      from False obtain k v where kv: "(k, v) \<in> set m" by (cases m) auto
      with 2 have "levels v \<le> d'" by (intro levels_member) (auto simp: d)
      then obtain d'' where "d' = Suc d''" using levels_positive [of v] by (cases d') auto
      then show ?thesis using assms null [of d''] by (simp add: om_find_map_snd None null_text_def)
    next
      case (Some v)
      then have kv: "(of_nat i, v) \<in> set m" by (rule om_find_Some_in_set)
      then have "readable v" "wf_json v" "levels v \<le> d'"
        using 2 levels_member [OF kv, of d'] by (auto simp: d map_snd_def list_all_iff wf_map_def)
      then show ?thesis using 2 kv by (simp add: om_find_map_snd Some)
    qed
    have "elements_text d' (map ?v [0..<?n]) (join '','' (map ?t [0..<?n]))"
      using elem False by (intro elements_join) (simp_all add: list_all2_conv_all_nth)
    then show ?thesis
      using array [of d' "map ?v [0..<?n]"] 2 by (simp add: d Let_def)
  qed
next
  case (3 mt m)
  from "3.prems"(3) obtain d' where d: "d = Suc d'" by (cases d) auto
  have s: "om_sorted m" using 3 by (simp add: wf_map_def)
  show ?case
  proof (cases "m = []")
    case True
    then show ?thesis using empty_object [OF white_Nil, of d'] by (simp add: d om_keys_def)
  next
    case False
    have kv: "valid_utf8 k \<and> length k < 2 ^ 30 \<and> value_text d' (canon v) (fw_write_value w v)"
      if "(k, v) \<in> set m" for k v
    proof -
      have l: "levels v \<le> d'" using "3.prems"(3) levels_member [OF that, of d'] by (simp add: d)
      have v: "readable v" "wf_json v" "valid_utf8 k" "length k < 2 ^ 30"
        using "3.prems"(1,2) that by (auto simp: map_snd_def list_all_iff wf_map_def keys_ok_def)
      from "3.IH" [OF that v(1,2) l] v(3,4) show ?thesis by simp
    qed
    have "white_text (if yamlCompatibilityEnabled w then '' '' else [])"
      by (simp add: white_text_def white_char_def)
    from members_join [OF kv False this] fold_put_sorted [of "[]" "map_snd canon m"] s
    show ?thesis
      unfolding fw_object_text [OF s] using object [of d' "map_snd canon m"] by (auto simp: d)
  qed
next
  case (5 mt i)
  then obtain d' where d: "d = Suc d'" by (cases d) auto
  show ?case using number [OF int_value] by (simp add: d)
next
  case (7 mt s)
  then obtain d' where d: "d = Suc d'" by (cases d) auto
  show ?case using string [OF literal_written, of s] 7 by (simp add: d quoted_literal)
next
  case (8 mt b)
  then obtain d' where d: "d = Suc d'" by (cases d) auto
  show ?case using true false by (cases b) (simp_all add: d value_to_string_bool_def)
next
  case (4 mt)
  then obtain d' where d: "d = Suc d'" by (cases d) auto
  show ?case using assms null by (simp add: d null_text_def)
qed simp

section \<open>The properties\<close>

text \<open>C34: The reader accepts the JSON grammar. If \<open>t\<close> is a text of the value \<open>v\<close>, with any white
  space between the tokens, in which arrays and objects are nested no deeper than the stack
  limit, then parsing it, with white space around, returns true without an error, and the
  root is \<open>v\<close> apart from the offsets. The grammar says on its own what a literal stands for (UTF-8,
  the short escapes, code units in hexadecimal, surrogates in pairs: a literal with a lone
  surrogate has no value and is no text of the grammar) and what a number denotes (the integer if
  it has neither fraction nor exponent and fits 64 bits, otherwise the nearest double). Names are
  shorter than 2^30 bytes, strings than 2^31 - 5, arrays than 2^31 elements.\<close>

theorem parse_accepts_json:
  assumes "value_text (stackLimit f) v t" "white_text w1" "white_text w2" "\<not> rejectDupKeys f"
    "\<not> strictRoot f \<or> is_array v \<or> is_object v"
  shows "\<exists>v'. parse f (w1 @ t @ w2) rt = Inr (True, v', []) \<and> erase v' = v"
  by (rule parse_accepts [OF assms])

lemma spaced_text:
  \<open>value_text 1000 (JObj meta0 [(''a'', JArr meta0 [(0, JNull meta0)]), (''b'', JStr meta0 ''x'')])
     ''{"b" : "y","a":[ null ],"b":"x"}''\<close>
proof -
  have sp: "white_text '' ''" by (simp add: white_text_def white_char_def)
  have l: "literal_text s s" if "s = ''a'' \<or> s = ''b'' \<or> s = ''x'' \<or> s = ''y''" for s
    using that by (intro literal_chars) auto
  have "elements_text 998 [JNull meta0] '' null ''"
    using element [OF sp null [of 997] sp] by simp
  then have a: "value_text 999 (JArr meta0 [(0, JNull meta0)]) ''[ null ]''"
    using array [of 998 "[JNull meta0]" "'' null ''"] by (simp add: indexed_def)
  have x: "value_text 999 (JStr meta0 s) (DQ # s @ [DQ])" if "s = ''x'' \<or> s = ''y''" for s
    using string [OF l, of s 998] that by auto
  have m1: \<open>members_text 999 [(''b'', JStr meta0 ''x'')] ''"b":"x"''\<close>
    using member [OF white_Nil l [of "''b''"] _ white_Nil white_Nil x [of "''x''"] white_Nil] by simp
  have m2: \<open>members_text 999 [(''a'', JArr meta0 [(0, JNull meta0)]), (''b'', JStr meta0 ''x'')]
      ''"a":[ null ],"b":"x"''\<close>
    using members [OF white_Nil l [of "''a''"] _ white_Nil white_Nil a white_Nil m1] by simp
  have \<open>members_text 999
      [(''b'', JStr meta0 ''y''), (''a'', JArr meta0 [(0, JNull meta0)]), (''b'', JStr meta0 ''x'')]
      ''"b" : "y","a":[ null ],"b":"x"''\<close>
    using members [OF white_Nil l [of "''b''"] _ sp sp x [of "''y''"] white_Nil m2] by simp
  from object [OF this] show ?thesis by (simp add: put_member_def)
qed

theorem parse_accepts_json_witness:
  \<open>\<exists>v'. parse service_features ''{"b" : "y","a":[ null ],"b":"x"}'' null_singleton = Inr (True, v', []) \<and>
     erase v' = JObj meta0 [(''a'', JArr meta0 [(0, JNull meta0)]), (''b'', JStr meta0 ''x'')]\<close>
  using parse_accepts_json [OF _ white_Nil white_Nil, of service_features _
      \<open>''{"b" : "y","a":[ null ],"b":"x"}''\<close> null_singleton] spaced_text
  by (simp add: service_features_def)

lemma written_read_back:
  assumes "readable v" "wf_json v" "levels v \<le> stackLimit f" "\<not> dropNullPlaceholders w"
    "\<not> rejectDupKeys f" "\<not> strictRoot f \<or> is_array v \<or> is_object v"
  shows "\<exists>v'. parse f (fw_write w v) rt = Inr (True, v', []) \<and> erase v' = canon v"
proof -
  have t: "value_text (stackLimit f) (canon v) (fw_write_value w v)"
    by (rule written_in_grammar [OF assms(4,1,2,3)])
  have "white_text (if \<not> omitEndingLineFeed w then [LF] else [])"
    by (simp add: white_text_def white_char_def)
  moreover have "\<not> strictRoot f \<or> is_array (canon v) \<or> is_object (canon v)"
    using assms(6) by (cases v) (auto simp: is_array_def is_object_def Let_def)
  ultimately show ?thesis
    using parse_accepts [OF t white_Nil _ assms(5)] by (simp add: fw_write_def)
qed

text \<open>C35: What the fast writer writes is read back. For a value without doubles whose strings and
  names are well-formed UTF-8, nested no deeper than the stack limit, parsing the text that
  \<^verbatim>\<open>FastWriter::write\<close> gives returns true without an error, and the root is the value, apart
  from comments and offsets, with missing elements as nulls and small unsigned integers as
  signed ones.\<close>

theorem written_value_is_read:
  assumes "readable v" "wf_json v" "levels v \<le> stackLimit f" "\<not> dropNullPlaceholders w"
    "\<not> rejectDupKeys f" "\<not> strictRoot f \<or> is_array v \<or> is_object v"
  shows "\<exists>v'. parse f (fw_write w v) rt = Inr (True, v', []) \<and> erase v' = canon v"
  by (rule written_read_back [OF assms])

definition roundtrip_demo :: json where
  "roundtrip_demo = JObj meta0
     [(''a'', JArr meta0 [(0, JInt meta0 (-5)), (2, JUInt meta0 (2 ^ 63))]),
      (''b'', JStr meta0 [CHR 0xC3, CHR 0xA4, LF, DQ])]"

lemma valid_utf8_points: "list_all scalar cps \<Longrightarrow> s = utf8_text cps \<Longrightarrow> valid_utf8 s"
  by (auto simp: valid_utf8_def)

lemma roundtrip_demo_utf8: "valid_utf8 ''a''" "valid_utf8 ''b''" "valid_utf8 [CHR 0xC3, CHR 0xA4, LF, DQ]"
  by (rule valid_utf8_points [of "[0x61]"], code_simp, code_simp,
      rule valid_utf8_points [of "[0x62]"], code_simp, code_simp,
      rule valid_utf8_points [of "[0xE4, 0xA, 0x22]"], code_simp, code_simp)

lemma roundtrip_demo_canon:
  "canon roundtrip_demo = JObj meta0
     [(''a'', JArr meta0 [(0, JInt meta0 (-5)), (1, JNull meta0), (2, JUInt meta0 (2 ^ 63))]),
      (''b'', JStr meta0 [CHR 0xC3, CHR 0xA4, LF, DQ])]"
  by (simp add: roundtrip_demo_def indexed_def upt_rec)

theorem written_value_is_read_witness:
  "\<exists>v'. parse service_features (fw_write fast_writer_default roundtrip_demo) null_singleton =
      Inr (True, v', []) \<and>
    erase v' = JObj meta0
     [(''a'', JArr meta0 [(0, JInt meta0 (-5)), (1, JNull meta0), (2, JUInt meta0 (2 ^ 63))]),
      (''b'', JStr meta0 [CHR 0xC3, CHR 0xA4, LF, DQ])]"
  using written_value_is_read [of roundtrip_demo service_features fast_writer_default null_singleton]
  unfolding roundtrip_demo_canon
  by (simp add: roundtrip_demo_def service_features_def fast_writer_default_def roundtrip_demo_utf8
      wf_map_def keys_ok_def del: value_text.simps)

end
