(* ===== verification/Client.thy ===== *)
theory Client
  imports Service Json_Roundtrip
begin

text \<open>
  The service seen by a client that writes its requests with the JSON library and reads the
  replies with it: a request written by \<^verbatim>\<open>FastWriter\<close> denotes what was written, a reply is
  read back as what the service answered, and so the bytes a client stores are the bytes it
  gets, through both texts.
\<close>

section \<open>Requests\<close>

definition text_members :: "(string \<times> string) list \<Rightarrow> json" where
  \<comment> \<open>an object of strings, the names in the order of the map\<close>
  "text_members kvs = JObj meta0 (map_snd (JStr meta0) kvs)"

definition put_request :: "string \<Rightarrow> string \<Rightarrow> string \<Rightarrow> json" where
  "put_request n k v = text_members [(''dbname'', n), (''key'', k), (''op'', ''put''), (''value'', v)]"

definition get_request :: "string \<Rightarrow> string \<Rightarrow> json" where
  "get_request n k = text_members [(''dbname'', n), (''key'', k), (''op'', ''get'')]"

definition sendable :: "string \<Rightarrow> bool" where
  "sendable s \<longleftrightarrow> valid_utf8 s \<and> length s < 2147483643"

lemma ascii_sendable: "list_all (\<lambda>c. byte c < 128) s \<Longrightarrow> length s < 2147483643 \<Longrightarrow> sendable s"
proof -
  assume a: "list_all (\<lambda>c. byte c < 128) s" and l: "length s < 2147483643"
  let ?cps = "map (\<lambda>c. of_nat (byte c) :: uint32) s"
  have u: "unat (of_nat (byte c) :: uint32) = byte c" if "byte c < 128" for c
    using that by (simp add: unat_of_nat)
  have "list_all scalar ?cps"
    using a u by (auto simp: list_all_iff scalar_unat)
  moreover have "utf8_text ?cps = s"
    using a u by (induction s) (auto simp: code_point_to_utf8_def word_le_nat_alt wchr_def)
  ultimately show ?thesis using l by (auto simp: sendable_def valid_utf8_def)
qed

text \<open>A text written from a readable object is a request that has its members.\<close>

definition denotes :: "string \<Rightarrow> json \<Rightarrow> bool" where
  \<comment> \<open>the text is a request with that value\<close>
  "denotes t v \<longleftrightarrow> (\<exists>rt. request_of t = Some rt \<and> erase rt = v)"

lemma denotes_parsed:
  "parse service_features t null_singleton = Inr (True, rt, []) \<Longrightarrow> erase rt = v \<Longrightarrow> denotes t v"
  by (simp add: denotes_def request_of_def char_reader_parse_def)

lemma written_denotes:
  assumes "readable v" "wf_json v" "levels v \<le> 1000" "\<not> dropNullPlaceholders w"
  shows "denotes (fw_write w v) (canon v)"
  using written_read_back [of v service_features w null_singleton] assms
  by (auto simp: service_features_def intro: denotes_parsed)

lemma object_map_erase: "object_map (erase v) = map_snd erase (object_map v)"
  by (cases v) (simp_all add: object_map_def)

lemma erase_JStr: "erase c = JStr meta0 s \<Longrightarrow> as_string c = Inr s"
  by (cases c) auto

lemma req_string_erase:
  assumes "erase rt = text_members kvs" "om_find k kvs = Some s" "c_str k = k" "length k < 2 ^ 30"
  shows "req_string rt k = Inr s"
proof -
  have "map_snd erase (object_map rt) = map_snd (JStr meta0) kvs"
    using object_map_erase [of rt] unfolding assms(1) by (simp add: text_members_def object_map_def)
  then have "map_option erase (om_find k (object_map rt)) = Some (JStr meta0 s)"
    using assms(2) by (metis om_find_map_snd option.map(2))
  then obtain c where "om_find k (object_map rt) = Some c" "erase c = JStr meta0 s" by auto
  then show ?thesis
    using assms(3,4) by (simp add: req_string_def req_member_def czstring_id erase_JStr)
qed

lemma names_utf8:
  "valid_utf8 ''dbname''" "valid_utf8 ''key''" "valid_utf8 ''op''" "valid_utf8 ''value''" "valid_utf8 ''error''"
  "sendable ''put''" "sendable ''get''"
proof -
  have "sendable ''dbname''" "sendable ''key''" "sendable ''op''" "sendable ''value''" "sendable ''error''"
    "sendable ''put''" "sendable ''get''"
    by (rule ascii_sendable; simp add: byte_def)+
  then show "valid_utf8 ''dbname''" "valid_utf8 ''key''" "valid_utf8 ''op''" "valid_utf8 ''value''"
    "valid_utf8 ''error''" "sendable ''put''" "sendable ''get''" by (simp_all add: sendable_def)
qed

lemma text_members_facts:
  assumes "om_sorted kvs" "\<forall>(k, s) \<in> set kvs. valid_utf8 k \<and> length k < 2 ^ 30 \<and> sendable s"
  shows "readable (text_members kvs)" "wf_json (text_members kvs)" "levels (text_members kvs) \<le> 1000"
    "canon (text_members kvs) = text_members kvs"
proof -
  have m: "fold (\<lambda>(_, n). max n) (map_snd levels (map_snd (JStr meta0) kvs)) 0 \<le> 1"
    "map_snd canon (map_snd (JStr meta0) kvs) = map_snd (JStr meta0) kvs"
  proof -
    have "fold (\<lambda>(_, n). max n) (map_snd levels (map_snd (JStr meta0) kvs)) a \<le> 1" if "a \<le> 1" for a
      using that
    proof (induction kvs arbitrary: a)
      case (Cons x kvs)
      then show ?case using Cons.IH [of 1] by (cases x) (simp add: max_absorb1)
    qed simp
    then show "fold (\<lambda>(_, n). max n) (map_snd levels (map_snd (JStr meta0) kvs)) 0 \<le> 1" by simp
  qed (induction kvs; auto)
  show "readable (text_members kvs)"
    using assms(2) by (auto simp: text_members_def map_snd_def sendable_def list_all_iff)
  have "wf_map (map_snd (JStr meta0) kvs)"
    using assms(1) by (simp add: wf_map_def) (simp add: map_snd_def case_prod_unfold)
  moreover have "keys_ok (map_snd (JStr meta0) kvs)"
    using assms(2) by (auto simp: keys_ok_def map_snd_def)
  ultimately show "wf_json (text_members kvs)" by (simp add: text_members_def)
  show "levels (text_members kvs) \<le> 1000" "canon (text_members kvs) = text_members kvs"
    using m by (simp_all add: text_members_def)
qed

lemma put_request_facts:
  assumes "sendable n" "sendable k" "sendable v"
  shows "readable (put_request n k v)" "wf_json (put_request n k v)" "levels (put_request n k v) \<le> 1000"
    "canon (put_request n k v) = put_request n k v"
  unfolding put_request_def using assms names_utf8
  by (intro text_members_facts; simp add: om_sorted_def less_char_def)+

lemma get_request_facts:
  assumes "sendable n" "sendable k"
  shows "readable (get_request n k)" "wf_json (get_request n k)" "levels (get_request n k) \<le> 1000"
    "canon (get_request n k) = get_request n k"
  unfolding get_request_def using assms names_utf8
  by (intro text_members_facts; simp add: om_sorted_def less_char_def)+

lemma put_request_writes:
  "denotes q (put_request n k v) \<Longrightarrow> writes_key q n kDefaultColumnFamilyName k v"
proof -
  assume "denotes q (put_request n k v)"
  then obtain rt where rt: "request_of q = Some rt"
      "erase rt = text_members [(''dbname'', n), (''key'', k), (''op'', ''put''), (''value'', v)]"
    by (auto simp: denotes_def put_request_def)
  then show ?thesis
    using req_string_erase [OF rt(2)] by (simp add: writes_key_def c_str_def)
qed

lemma put_written:
  assumes "sendable n" "sendable k" "sendable v" "\<not> dropNullPlaceholders w"
  shows "denotes (fw_write w (put_request n k v)) (put_request n k v)"
  using written_denotes [OF put_request_facts(1-3) [OF assms(1-3)] assms(4)] by (simp add: put_request_facts(4) assms)

lemma get_written:
  assumes "sendable n" "sendable k" "\<not> dropNullPlaceholders w"
  shows "denotes (fw_write w (get_request n k)) (get_request n k)"
  using written_denotes [OF get_request_facts(1-3) [OF assms(1,2)] assms(3)] by (simp add: get_request_facts(4) assms)

section \<open>Replies\<close>

lemma replies_read_back:
  assumes "\<not> rejectDupKeys f" "2 \<le> stackLimit f"
  shows "\<exists>v'. parse f (reply_text (error_reply c)) rt = Inr (True, v', []) \<and> erase v' = error_reply c"
    "sendable s \<Longrightarrow> \<exists>v'. parse f (reply_text (value_reply s)) rt = Inr (True, v', []) \<and> erase v' = value_reply s"
proof -
  have w: "\<not> dropNullPlaceholders fast_writer_default" by (simp add: fast_writer_default_def)
  have l: "levels (error_reply c) \<le> stackLimit f" "levels (value_reply s) \<le> stackLimit f"
    using assms(2) by (simp_all add: error_reply_def value_reply_def mk_int_def)
  show "\<exists>v'. parse f (reply_text (error_reply c)) rt = Inr (True, v', []) \<and> erase v' = error_reply c"
    using written_read_back [OF _ _ l(1) w assms(1)] names_utf8
    by (simp add: error_reply_def mk_int_def reply_text_def is_object_def wf_map_def keys_ok_def)
  assume "sendable s"
  then show "\<exists>v'. parse f (reply_text (value_reply s)) rt = Inr (True, v', []) \<and> erase v' = value_reply s"
    using written_read_back [OF _ _ l(2) w assms(1)] names_utf8
    by (simp add: value_reply_def mk_int_def reply_text_def is_object_def wf_map_def keys_ok_def sendable_def
        less_char_def)
qed

text \<open>A get of a stored key is answered with the value, or with error -2 when RocksDB fails.\<close>

lemma get_of_store:
  assumes "rocks_contract R view live cfn" "server_inv R live cfn st"
    and "exec_json R st q = Inr (out, st')" and d: "denotes q (get_request n k)"
    and i: "find_index n (map c_name (configs st)) = Some i" "abs_state view st i = Some s"
    and v: "s kDefaultColumnFamilyName k = Some v" "n \<noteq> []" "sendable v"
  shows "out = reply_text (value_reply v) \<or> out = reply_text (error_reply (-2))"
proof -
  obtain rt where e: "request_of q = Some rt" "erase rt = text_members [(''dbname'', n), (''key'', k), (''op'', ''get'')]"
    using d by (auto simp: denotes_def get_request_def)
  then have rt: "request_of q = Some rt" "req_string rt ''dbname'' = Inr n"
      "req_string rt ''key'' = Inr k" "req_string rt ''op'' = Inr ''get''"
    using req_string_erase [OF e(2)] by (simp_all add: c_str_def)
  obtain reply where r: "out = reply_text reply"
      "server_spec (map c_name (configs st)) (map c_cf_names (configs st)) rt
        (abs_state view st) reply (abs_state view st')"
    using exec_json_request [OF assms(1-3)] rt(1) by auto
  from r(2) show ?thesis
  proof (cases rule: server_spec.cases)
    case (executed m j t t')
    then have j: "j = i" "t = s" using rt(2) i by simp_all
    have mk: "mk_string v = Inr (JStr meta0 v)" using v(3) by (simp add: sendable_def mk_string_small)
    from executed(6) show ?thesis
      by (cases rule: kv_spec.cases) (use rt r(1) j v(1) mk in auto)
  qed (use rt i v(2) find_index_None [of n "map c_name (configs st)"] in auto)
qed

end
