(* ===== verification/Json_Styled.thy ===== *)
theory Json_Styled
  imports Json_Writer Json_Compare
begin

text \<open>
  \<^verbatim>\<open>StyledWriter\<close> and \<^verbatim>\<open>StyledStreamWriter\<close> of src/json_writer.cc: the writers that lay a
  value out on several lines. Their state is a record; a call on a member is the function
  from state to state that writes it, computed for all members of a container first and
  then looked up by index or name, as \<^verbatim>\<open>value[index]\<close> and \<^verbatim>\<open>value[name]\<close> look them up. A
  failed \<^verbatim>\<open>assert\<close> and an access beyond \<^verbatim>\<open>childValues_\<close> are errors of the model, which
  \<open>Json_Styled_Facts\<close> shows to be unreachable.
\<close>

section \<open>The state of a writer\<close>

record wstate =
  document :: string
  childValues :: "string list"
  indentString :: string
  addChildValues :: bool
  indented :: bool

type_synonym child = "json \<times> (wstate \<Rightarrow> wstate res)"

definition right_margin :: uint32 where "right_margin = 74"

definition emit :: "string \<Rightarrow> wstate \<Rightarrow> wstate" where
  \<comment> \<open>\<^verbatim>\<open>document_ += s\<close>, \<^verbatim>\<open>*document_ << s\<close> or \<^verbatim>\<open>*sout_ << s\<close>\<close>
  "emit s st = st\<lparr>document := document st @ s\<rparr>"

definition push_value :: "string \<Rightarrow> wstate \<Rightarrow> wstate" where
  "push_value s st =
     (if addChildValues st then st\<lparr>childValues := childValues st @ [s]\<rparr> else emit s st)"

definition has_comment_for_value :: "json \<Rightarrow> bool" where
  "has_comment_for_value v \<longleftrightarrow>
     has_comment v commentBefore \<or> has_comment v commentAfterOnSameLine \<or> has_comment v commentAfter"

definition child_value :: "nat \<Rightarrow> wstate \<Rightarrow> string res" where
  \<comment> \<open>\<^verbatim>\<open>childValues_[index]\<close>\<close>
  "child_value i st =
     (if i < length (childValues st) then Inr (childValues st ! i)
      else Inl (Undef ''childValues_ out of range''))"

text \<open>The parts of the methods that are the same in all three writers.\<close>

definition array_children :: "nat \<Rightarrow> child \<Rightarrow> (uint32, child) omap \<Rightarrow> child list" where
  \<comment> \<open>\<^verbatim>\<open>value[index]\<close> for every index below the size; an index without element gives the null singleton\<close>
  "array_children n dflt m =
     map (\<lambda>i. case om_find (of_nat i) m of None \<Rightarrow> dflt | Some c \<Rightarrow> c) [0..<n]"

fun comma_loop ::
    "(json \<Rightarrow> wstate \<Rightarrow> wstate) \<Rightarrow> ('k \<Rightarrow> child \<Rightarrow> wstate \<Rightarrow> wstate res) \<Rightarrow> (json \<Rightarrow> wstate \<Rightarrow> wstate) \<Rightarrow>
     ('k \<times> child) list \<Rightarrow> wstate \<Rightarrow> wstate res"
where
  \<comment> \<open>the loop \<^verbatim>\<open>for (;;)\<close> over members or elements, which breaks after the last one\<close>
  "comma_loop before element after [] st = Inr st"
| "comma_loop before element after ((k, c) # cs) st =
     bind_res (element k c (before (fst c) st)) (\<lambda>st1.
       if cs = [] then Inr (after (fst c) st1)
       else comma_loop before element after cs (after (fst c) (emit '','' st1)))"

fun length_loop :: "nat \<Rightarrow> child list \<Rightarrow> bool \<Rightarrow> uint32 \<Rightarrow> wstate \<Rightarrow> (bool \<times> uint32 \<times> wstate) res" where
  \<comment> \<open>the second loop of \<^verbatim>\<open>isMultilineArray\<close>\<close>
  "length_loop i [] isMultiLine lineLength st = Inr (isMultiLine, lineLength, st)"
| "length_loop i (c # cs) isMultiLine lineLength st =
     bind_res (snd c st) (\<lambda>st1.
     bind_res (child_value i st1) (\<lambda>s.
       length_loop (Suc i) cs (isMultiLine \<or> has_comment_for_value (fst c))
         (lineLength + of_nat (length s)) st1))"

definition is_multiline_array :: "uint32 \<Rightarrow> child list \<Rightarrow> wstate \<Rightarrow> (bool \<times> wstate) res" where
  "is_multiline_array sz cs st =
     (let isMultiLine = (sz * 3 \<ge> right_margin);
          st0 = st\<lparr>childValues := []\<rparr>;
          isMultiLine = (isMultiLine \<or>
            list_ex (\<lambda>c. (is_array (fst c) \<or> is_object (fst c)) \<and> \<not> is_empty_value (fst c)) cs)
      in if isMultiLine then Inr (True, st0)
         else
           bind_res (length_loop 0 cs False (4 + (sz - 1) * 2) (st0\<lparr>addChildValues := True\<rparr>))
             (\<lambda>(isMultiLine, lineLength, st1).
               Inr (isMultiLine \<or> lineLength \<ge> right_margin, st1\<lparr>addChildValues := False\<rparr>)))"

fun separated :: "string \<Rightarrow> string list \<Rightarrow> nat \<Rightarrow> wstate \<Rightarrow> wstate" where
  \<comment> \<open>\<^verbatim>\<open>if (index > 0) document_ += separator; document_ += childValues_[index];\<close>\<close>
  "separated sep [] i st = st"
| "separated sep (s # ss) i st = separated sep ss (Suc i) (emit s (if i > 0 then emit sep st else st))"

fun comment_loop :: "(wstate \<Rightarrow> wstate) \<Rightarrow> string \<Rightarrow> wstate \<Rightarrow> wstate" where
  \<comment> \<open>the characters of a comment, with \<open>nl\<close> between a newline and a slash\<close>
  "comment_loop nl [] st = st"
| "comment_loop nl (c # r) st =
     (let st1 = emit [c] st
      in comment_loop nl r (if c = LF \<and> r \<noteq> [] \<and> hd r = CHR ''/'' then nl st1 else st1))"

section \<open>\<^verbatim>\<open>StyledWriter\<close>\<close>

definition sw_indent_size :: nat where "sw_indent_size = 3"

definition sw_write_indent :: "wstate \<Rightarrow> wstate" where
  "sw_write_indent st =
     (if document st \<noteq> [] then
        (if last (document st) = CHR '' '' then st
         else emit (indentString st) (if last (document st) \<noteq> LF then emit [LF] st else st))
      else emit (indentString st) st)"

definition sw_write_with_indent :: "string \<Rightarrow> wstate \<Rightarrow> wstate" where
  "sw_write_with_indent s st = emit s (sw_write_indent st)"

definition sw_indent :: "wstate \<Rightarrow> wstate" where
  "sw_indent st = st\<lparr>indentString := indentString st @ replicate sw_indent_size (CHR '' '')\<rparr>"

definition sw_unindent :: "wstate \<Rightarrow> wstate res" where
  "sw_unindent st =
     (if length (indentString st) \<ge> sw_indent_size
      then Inr (st\<lparr>indentString := take (length (indentString st) - sw_indent_size) (indentString st)\<rparr>)
      else Inl (AssertFail ''indentString_.size() >= indentSize_''))"

definition sw_comment_before :: "json \<Rightarrow> wstate \<Rightarrow> wstate" where
  "sw_comment_before v st =
     (if \<not> has_comment v commentBefore then st
      else emit [LF] (comment_loop sw_write_indent (get_comment v commentBefore)
             (sw_write_indent (emit [LF] st))))"

definition sw_comment_after :: "json \<Rightarrow> wstate \<Rightarrow> wstate" where
  "sw_comment_after v st =
     (let st1 = (if has_comment v commentAfterOnSameLine
                 then emit ('' '' @ get_comment v commentAfterOnSameLine) st else st)
      in if has_comment v commentAfter
         then emit [LF] (emit (get_comment v commentAfter) (emit [LF] st1)) else st1)"

definition sw_element :: "bool \<Rightarrow> nat \<Rightarrow> child \<Rightarrow> wstate \<Rightarrow> wstate res" where
  "sw_element hasChildValue index c st =
     (if hasChildValue
      then bind_res (child_value index st) (\<lambda>s. Inr (sw_write_with_indent s st))
      else snd c (sw_write_indent st))"

definition sw_write_array_value :: "uint32 \<Rightarrow> child list \<Rightarrow> wstate \<Rightarrow> wstate res" where
  "sw_write_array_value sz cs st =
     (if sz = 0 then Inr (push_value ''[]'' st)
      else
        bind_res (is_multiline_array sz cs st) (\<lambda>(isArrayMultiLine, st0).
          if isArrayMultiLine then
            (let st1 = sw_indent (sw_write_with_indent ''['' st0);
                 hasChildValue = (childValues st1 \<noteq> [])
             in bind_res (comma_loop sw_comment_before (sw_element hasChildValue) sw_comment_after
                      (zip [0..<length cs] cs) st1) (\<lambda>st2.
                bind_res (sw_unindent st2) (\<lambda>st3.
                  Inr (sw_write_with_indent '']'' st3))))
          else if length (childValues st0) \<noteq> unat sz
          then Inl (AssertFail ''childValues_.size() == size'')
          else Inr (emit '' ]'' (separated '', '' (childValues st0) 0 (emit ''[ '' st0)))))"

definition sw_member :: "string \<Rightarrow> child \<Rightarrow> wstate \<Rightarrow> wstate res" where
  "sw_member name c st = snd c (emit '' : '' (sw_write_with_indent (value_to_quoted_cstring name) st))"

definition sw_write_object_value :: "(string \<times> child) list \<Rightarrow> wstate \<Rightarrow> wstate res" where
  \<comment> \<open>the case \<^verbatim>\<open>objectValue\<close> of \<^verbatim>\<open>writeValue\<close>\<close>
  "sw_write_object_value members st =
     (if members = [] then Inr (push_value ''{}'' st)
      else
        bind_res (comma_loop sw_comment_before sw_member sw_comment_after members
              (sw_indent (sw_write_with_indent ''{'' st))) (\<lambda>st1.
        bind_res (sw_unindent st1) (\<lambda>st2.
          Inr (sw_write_with_indent ''}'' st2))))"

fun sw_write_value :: "json \<Rightarrow> wstate \<Rightarrow> wstate res" where
  "sw_write_value (JNull _) = (\<lambda>st. Inr (push_value ''null'' st))"
| "sw_write_value (JInt _ i) = (\<lambda>st. Inr (push_value (value_to_string_int i) st))"
| "sw_write_value (JUInt _ u) = (\<lambda>st. Inr (push_value (value_to_string_uint u) st))"
| "sw_write_value (JReal _ d) =
     (\<lambda>st. Inr (push_value (value_to_string_dbl d default_real_precision significantDigits) st))"
| "sw_write_value (JStr _ s) = (\<lambda>st. Inr (push_value (value_to_quoted_string s False) st))"
| "sw_write_value (JBool _ b) = (\<lambda>st. Inr (push_value (value_to_string_bool b) st))"
| "sw_write_value (JArr mt m) =
     (let sz = size_of (JArr mt m)
      in sw_write_array_value sz
           (array_children (unat sz) (null_singleton, \<lambda>st. Inr (push_value ''null'' st))
             (map_snd (\<lambda>c. (c, sw_write_value c)) m)))"
| "sw_write_value (JObj mt m) = sw_write_object_value (map_snd (\<lambda>c. (c, sw_write_value c)) m)"

definition sw_write :: "json \<Rightarrow> wstate \<Rightarrow> wstate res" where
  \<comment> \<open>\<^verbatim>\<open>write(root)\<close> returns \<^verbatim>\<open>document_\<close>\<close>
  "sw_write rt st =
     bind_res (sw_write_value rt (sw_comment_before rt
         (st\<lparr>document := [], addChildValues := False, indentString := []\<rparr>))) (\<lambda>st1.
       Inr (emit [LF] (sw_comment_after rt st1)))"

definition new_writer :: wstate where
  "new_writer = \<lparr>document = [], childValues = [], indentString = [], addChildValues = False,
     indented = False\<rparr>"

section \<open>\<^verbatim>\<open>StyledStreamWriter\<close>\<close>

text \<open>The document is what the stream has received; \<open>ind\<close> is \<^verbatim>\<open>indentation_\<close>.\<close>

definition ss_write_indent :: "wstate \<Rightarrow> wstate" where
  "ss_write_indent st = emit ([LF] @ indentString st) st"

definition ss_write_with_indent :: "string \<Rightarrow> wstate \<Rightarrow> wstate" where
  "ss_write_with_indent s st =
     (emit s (if \<not> indented st then ss_write_indent st else st))\<lparr>indented := False\<rparr>"

definition ss_indent :: "string \<Rightarrow> wstate \<Rightarrow> wstate" where
  "ss_indent ind st = st\<lparr>indentString := indentString st @ ind\<rparr>"

definition ss_unindent :: "string \<Rightarrow> wstate \<Rightarrow> wstate res" where
  "ss_unindent ind st =
     (if length (indentString st) \<ge> length ind
      then Inr (st\<lparr>indentString := take (length (indentString st) - length ind) (indentString st)\<rparr>)
      else Inl (AssertFail ''indentString_.size() >= indentation_.size()''))"

definition ss_comment_before :: "json \<Rightarrow> wstate \<Rightarrow> wstate" where
  "ss_comment_before v st =
     (if \<not> has_comment v commentBefore then st
      else (comment_loop (\<lambda>s. emit (indentString s) s) (get_comment v commentBefore)
             (if \<not> indented st then ss_write_indent st else st))\<lparr>indented := False\<rparr>)"

definition ss_comment_after :: "json \<Rightarrow> wstate \<Rightarrow> wstate" where
  "ss_comment_after v st =
     (let st1 = (if has_comment v commentAfterOnSameLine
                 then emit ('' '' @ get_comment v commentAfterOnSameLine) st else st);
          st2 = (if has_comment v commentAfter
                 then emit (get_comment v commentAfter) (ss_write_indent st1) else st1)
      in st2\<lparr>indented := False\<rparr>)"

definition ss_element :: "bool \<Rightarrow> nat \<Rightarrow> child \<Rightarrow> wstate \<Rightarrow> wstate res" where
  "ss_element hasChildValue index c st =
     (if hasChildValue
      then bind_res (child_value index st) (\<lambda>s. Inr (ss_write_with_indent s st))
      else bind_res (snd c ((if \<not> indented st then ss_write_indent st else st)\<lparr>indented := True\<rparr>))
             (\<lambda>st1. Inr (st1\<lparr>indented := False\<rparr>)))"

definition ss_write_array_value :: "string \<Rightarrow> uint32 \<Rightarrow> child list \<Rightarrow> wstate \<Rightarrow> wstate res" where
  "ss_write_array_value ind sz cs st =
     (if sz = 0 then Inr (push_value ''[]'' st)
      else
        bind_res (is_multiline_array sz cs st) (\<lambda>(isArrayMultiLine, st0).
          if isArrayMultiLine then
            (let st1 = ss_indent ind (ss_write_with_indent ''['' st0);
                 hasChildValue = (childValues st1 \<noteq> [])
             in bind_res (comma_loop ss_comment_before (ss_element hasChildValue) ss_comment_after
                      (zip [0..<length cs] cs) st1) (\<lambda>st2.
                bind_res (ss_unindent ind st2) (\<lambda>st3.
                  Inr (ss_write_with_indent '']'' st3))))
          else if length (childValues st0) \<noteq> unat sz
          then Inl (AssertFail ''childValues_.size() == size'')
          else Inr (emit '' ]'' (separated '', '' (childValues st0) 0 (emit ''[ '' st0)))))"

definition ss_member :: "string \<Rightarrow> child \<Rightarrow> wstate \<Rightarrow> wstate res" where
  "ss_member name c st = snd c (emit '' : '' (ss_write_with_indent (value_to_quoted_cstring name) st))"

definition ss_write_object_value :: "string \<Rightarrow> (string \<times> child) list \<Rightarrow> wstate \<Rightarrow> wstate res" where
  "ss_write_object_value ind members st =
     (if members = [] then Inr (push_value ''{}'' st)
      else
        bind_res (comma_loop ss_comment_before ss_member ss_comment_after members
              (ss_indent ind (ss_write_with_indent ''{'' st))) (\<lambda>st1.
        bind_res (ss_unindent ind st1) (\<lambda>st2.
          Inr (ss_write_with_indent ''}'' st2))))"

fun ss_write_value :: "string \<Rightarrow> json \<Rightarrow> wstate \<Rightarrow> wstate res" where
  "ss_write_value ind (JNull _) = (\<lambda>st. Inr (push_value ''null'' st))"
| "ss_write_value ind (JInt _ i) = (\<lambda>st. Inr (push_value (value_to_string_int i) st))"
| "ss_write_value ind (JUInt _ u) = (\<lambda>st. Inr (push_value (value_to_string_uint u) st))"
| "ss_write_value ind (JReal _ d) =
     (\<lambda>st. Inr (push_value (value_to_string_dbl d default_real_precision significantDigits) st))"
| "ss_write_value ind (JStr _ s) = (\<lambda>st. Inr (push_value (value_to_quoted_string s False) st))"
| "ss_write_value ind (JBool _ b) = (\<lambda>st. Inr (push_value (value_to_string_bool b) st))"
| "ss_write_value ind (JArr mt m) =
     (let sz = size_of (JArr mt m)
      in ss_write_array_value ind sz
           (array_children (unat sz) (null_singleton, \<lambda>st. Inr (push_value ''null'' st))
             (map_snd (\<lambda>c. (c, ss_write_value ind c)) m)))"
| "ss_write_value ind (JObj mt m) =
     ss_write_object_value ind (map_snd (\<lambda>c. (c, ss_write_value ind c)) m)"

definition ss_write :: "string \<Rightarrow> json \<Rightarrow> wstate \<Rightarrow> wstate res" where
  \<comment> \<open>\<^verbatim>\<open>write(out, root)\<close>, the document being what \<^verbatim>\<open>out\<close> holds\<close>
  "ss_write ind rt st =
     (let st1 = ss_comment_before rt (st\<lparr>addChildValues := False, indentString := [], indented := True\<rparr>);
          st2 = (if \<not> indented st1 then ss_write_indent st1 else st1)\<lparr>indented := True\<rparr>
      in bind_res (ss_write_value ind rt st2) (\<lambda>st3.
           Inr (emit [LF] (ss_comment_after rt st3))))"

end
