(* ===== verification/Json_Stream.thy ===== *)
theory Json_Stream
  imports Json_Styled Json_Builder
begin

text \<open>
  \<^verbatim>\<open>BuiltStyledStreamWriter\<close> and \<^verbatim>\<open>StreamWriterBuilder\<close> of src/json_writer.cc, the writer
  behind \<^verbatim>\<open>operator<<\<close>, \<^verbatim>\<open>writeString\<close> and \<^verbatim>\<open>Value::toStyledString\<close>; the service logs its
  configuration with it. The state of the writer is that of \<open>Json_Styled\<close>, \<^verbatim>\<open>*sout_\<close> being
  the document.
\<close>

section \<open>The writer\<close>

datatype comment_style = commentNone | commentMost | commentAll

record stream_writer =
  indentation :: string
  commentStyle :: comment_style
  colonSymbol :: string
  nullSymbol :: string
  endingLineFeedSymbol :: string
  useSpecialFloats :: bool
  emitUTF8 :: bool
  precision :: nat
  precisionType :: precision_type

definition bs_write_indent :: "stream_writer \<Rightarrow> wstate \<Rightarrow> wstate" where
  "bs_write_indent w st = (if indentation w \<noteq> [] then emit ([LF] @ indentString st) st else st)"

definition bs_write_with_indent :: "stream_writer \<Rightarrow> string \<Rightarrow> wstate \<Rightarrow> wstate" where
  "bs_write_with_indent w s st =
     (emit s (if \<not> indented st then bs_write_indent w st else st))\<lparr>indented := False\<rparr>"

definition bs_indent :: "stream_writer \<Rightarrow> wstate \<Rightarrow> wstate" where
  "bs_indent w st = st\<lparr>indentString := indentString st @ indentation w\<rparr>"

definition bs_unindent :: "stream_writer \<Rightarrow> wstate \<Rightarrow> wstate res" where
  "bs_unindent w st =
     (if length (indentString st) \<ge> length (indentation w)
      then Inr (st\<lparr>indentString := take (length (indentString st) - length (indentation w)) (indentString st)\<rparr>)
      else Inl (AssertFail ''indentString_.size() >= indentation_.size()''))"

definition bs_comment_before :: "stream_writer \<Rightarrow> json \<Rightarrow> wstate \<Rightarrow> wstate" where
  "bs_comment_before w v st =
     (if commentStyle w = commentNone then st
      else if \<not> has_comment v commentBefore then st
      else (comment_loop (\<lambda>s. emit (indentString s) s) (get_comment v commentBefore)
             (if \<not> indented st then bs_write_indent w st else st))\<lparr>indented := False\<rparr>)"

definition bs_comment_after :: "stream_writer \<Rightarrow> json \<Rightarrow> wstate \<Rightarrow> wstate" where
  "bs_comment_after w v st =
     (if commentStyle w = commentNone then st
      else
        (let st1 = (if has_comment v commentAfterOnSameLine
                    then emit ('' '' @ get_comment v commentAfterOnSameLine) st else st)
         in if has_comment v commentAfter
            then emit (get_comment v commentAfter) (bs_write_indent w st1) else st1))"

definition bs_element :: "stream_writer \<Rightarrow> bool \<Rightarrow> nat \<Rightarrow> child \<Rightarrow> wstate \<Rightarrow> wstate res" where
  "bs_element w hasChildValue index c st =
     (if hasChildValue
      then bind_res (child_value index st) (\<lambda>s. Inr (bs_write_with_indent w s st))
      else bind_res (snd c ((if \<not> indented st then bs_write_indent w st else st)\<lparr>indented := True\<rparr>))
             (\<lambda>st1. Inr (st1\<lparr>indented := False\<rparr>)))"

definition bs_is_multiline :: "stream_writer \<Rightarrow> uint32 \<Rightarrow> child list \<Rightarrow> wstate \<Rightarrow> (bool \<times> wstate) res" where
  \<comment> \<open>\<^verbatim>\<open>(cs_ == CommentStyle::All) || isMultilineArray(value)\<close>\<close>
  "bs_is_multiline w sz children st =
     (if commentStyle w = commentAll then Inr (True, st) else is_multiline_array sz children st)"

definition bs_write_array_value :: "stream_writer \<Rightarrow> uint32 \<Rightarrow> child list \<Rightarrow> wstate \<Rightarrow> wstate res" where
  "bs_write_array_value w sz children st =
     (if sz = 0 then Inr (push_value ''[]'' st)
      else
        bind_res (bs_is_multiline w sz children st) (\<lambda>(isMultiLine, st0).
          if isMultiLine then
            (let st1 = bs_indent w (bs_write_with_indent w ''['' st0);
                 hasChildValue = (childValues st1 \<noteq> [])
             in bind_res (comma_loop (bs_comment_before w) (bs_element w hasChildValue) (bs_comment_after w)
                      (zip [0..<length children] children) st1) (\<lambda>st2.
                bind_res (bs_unindent w st2) (\<lambda>st3.
                  Inr (bs_write_with_indent w '']'' st3))))
          else if length (childValues st0) \<noteq> unat sz
          then Inl (AssertFail ''childValues_.size() == size'')
          else
            (let space = (if indentation w \<noteq> [] then '' '' else []);
                 st1 = emit space (emit ''['' st0);
                 st2 = separated (if indentation w \<noteq> [] then '', '' else '','') (childValues st0) 0 st1
             in Inr (emit '']'' (emit space st2)))))"

definition bs_member :: "stream_writer \<Rightarrow> string \<Rightarrow> child \<Rightarrow> wstate \<Rightarrow> wstate res" where
  "bs_member w name c st =
     snd c (emit (colonSymbol w)
              (bs_write_with_indent w (value_to_quoted_string name (emitUTF8 w)) st))"

definition bs_write_object_value :: "stream_writer \<Rightarrow> (string \<times> child) list \<Rightarrow> wstate \<Rightarrow> wstate res" where
  "bs_write_object_value w members st =
     (if members = [] then Inr (push_value ''{}'' st)
      else
        bind_res (comma_loop (bs_comment_before w) (bs_member w) (bs_comment_after w) members
              (bs_indent w (bs_write_with_indent w ''{'' st))) (\<lambda>st1.
        bind_res (bs_unindent w st1) (\<lambda>st2.
          Inr (bs_write_with_indent w ''}'' st2))))"

fun bs_write_value :: "stream_writer \<Rightarrow> json \<Rightarrow> wstate \<Rightarrow> wstate res" where
  "bs_write_value w (JNull _) = (\<lambda>st. Inr (push_value (nullSymbol w) st))"
| "bs_write_value w (JInt _ i) = (\<lambda>st. Inr (push_value (value_to_string_int i) st))"
| "bs_write_value w (JUInt _ u) = (\<lambda>st. Inr (push_value (value_to_string_uint u) st))"
| "bs_write_value w (JReal _ d) =
     (\<lambda>st. Inr (push_value
        (value_to_string_dbl_full d (useSpecialFloats w) (precision w) (precisionType w)) st))"
| "bs_write_value w (JStr _ s) = (\<lambda>st. Inr (push_value (value_to_quoted_string s (emitUTF8 w)) st))"
| "bs_write_value w (JBool _ b) = (\<lambda>st. Inr (push_value (value_to_string_bool b) st))"
| "bs_write_value w (JArr mt m) =
     (let sz = size_of (JArr mt m)
      in bs_write_array_value w sz
           (array_children (unat sz) (null_singleton, \<lambda>st. Inr (push_value (nullSymbol w) st))
             (map_snd (\<lambda>c. (c, bs_write_value w c)) m)))"
| "bs_write_value w (JObj mt m) =
     bs_write_object_value w (map_snd (\<lambda>c. (c, bs_write_value w c)) m)"

definition bs_write :: "stream_writer \<Rightarrow> json \<Rightarrow> wstate \<Rightarrow> wstate res" where
  "bs_write w rt st =
     (let st1 = bs_comment_before w rt (st\<lparr>addChildValues := False, indented := True, indentString := []\<rparr>);
          st2 = (if \<not> indented st1 then bs_write_indent w st1 else st1)\<lparr>indented := True\<rparr>
      in bind_res (bs_write_value w rt st2) (\<lambda>st3.
           Inr (emit (endingLineFeedSymbol w) (bs_comment_after w rt st3))))"

section \<open>\<^verbatim>\<open>StreamWriterBuilder\<close>\<close>

definition writer_defaults :: "json \<Rightarrow> json res" where
  \<comment> \<open>\<^verbatim>\<open>setDefaults\<close>\<close>
  "writer_defaults settings =
     bind_res (mk_cstring ''All'') (\<lambda>all.
     bind_res (mk_cstring [TAB]) (\<lambda>tab.
     bind_res (mk_cstring ''significant'') (\<lambda>significant.
       put_settings
         [(''commentStyle'', all),
          (''indentation'', tab),
          (''enableYAMLCompatibility'', mk_bool False),
          (''dropNullPlaceholders'', mk_bool False),
          (''useSpecialFloats'', mk_bool False),
          (''emitUTF8'', mk_bool False),
          (''precision'', mk_int 17),
          (''precisionType'', significant)] settings)))"

definition stream_writer_builder :: "json res" where
  \<comment> \<open>\<^verbatim>\<open>StreamWriterBuilder::StreamWriterBuilder()\<close>\<close>
  "stream_writer_builder = writer_defaults null_singleton"

definition setting_string :: "json \<Rightarrow> string \<Rightarrow> string res" where
  "setting_string settings key = bind_res (member_const_cstr settings key) as_string"

definition comment_style_of :: "string \<Rightarrow> comment_style res" where
  "comment_style_of cs_str =
     (if cs_str = ''All'' then Inr commentAll
      else if cs_str = ''None'' then Inr commentNone
      else Inl (RuntimeError (''commentStyle must be '' @ [SQ] @ ''All'' @ [SQ] @ '' or '' @ [SQ] @ ''None'' @ [SQ])))"

definition precision_type_of :: "string \<Rightarrow> precision_type res" where
  "precision_type_of pt_str =
     (if pt_str = ''significant'' then Inr significantDigits
      else if pt_str = ''decimal'' then Inr decimalPlaces
      else Inl (RuntimeError (''precisionType must be '' @ [SQ] @ ''significant'' @ [SQ] @ '' or '' @ [SQ] @ ''decimal'' @ [SQ])))"

definition new_stream_writer :: "json \<Rightarrow> stream_writer res" where
  "new_stream_writer s =
     bind_res (setting_string s ''indentation'') (\<lambda>ind.
     bind_res (setting_string s ''commentStyle'') (\<lambda>cs_str.
     bind_res (setting_string s ''precisionType'') (\<lambda>pt_str.
     bind_res (setting_bool s ''enableYAMLCompatibility'') (\<lambda>eyc.
     bind_res (setting_bool s ''dropNullPlaceholders'') (\<lambda>dnp.
     bind_res (setting_bool s ''useSpecialFloats'') (\<lambda>usf.
     bind_res (setting_bool s ''emitUTF8'') (\<lambda>utf8.
     bind_res (bind_res (member_const_cstr s ''precision'') as_uint) (\<lambda>pre.
     bind_res (comment_style_of cs_str) (\<lambda>style.
     bind_res (precision_type_of pt_str) (\<lambda>pt.
       Inr \<lparr>indentation = ind, commentStyle = style,
            colonSymbol = (if eyc then '': '' else if ind = [] then '':'' else '' : ''),
            nullSymbol = (if dnp then [] else ''null''),
            endingLineFeedSymbol = [],
            useSpecialFloats = usf, emitUTF8 = utf8,
            precision = (if pre > 17 then 17 else unat pre),
            precisionType = pt\<rparr>))))))))))"

definition writer_valid_keys :: "string list" where
  "writer_valid_keys =
     [''indentation'', ''commentStyle'', ''enableYAMLCompatibility'', ''dropNullPlaceholders'',
      ''useSpecialFloats'', ''emitUTF8'', ''precision'', ''precisionType'']"

fun writer_validate_loop :: "(vkey \<times> json) list \<Rightarrow> json option \<Rightarrow> (bool \<times> json option) res" where
  "writer_validate_loop [] invalid = Inr (True, invalid)"
| "writer_validate_loop ((k, v) # r) invalid =
     (let key = key_name k
      in if key \<in> set writer_valid_keys then writer_validate_loop r invalid
         else (case invalid of
                 None \<Rightarrow> Inr (False, None)
               | Some bad \<Rightarrow>
                   bind_res (member_ref bad key) (\<lambda>bad'.
                     writer_validate_loop r (Some (member_put bad' key v)))))"

definition writer_validate :: "json \<Rightarrow> json option \<Rightarrow> (bool \<times> json option) res" where
  "writer_validate settings invalid =
     bind_res (writer_validate_loop (value_entries settings) invalid) (\<lambda>(go_on, bad).
       Inr (go_on \<and> (case bad of None \<Rightarrow> True | Some i \<Rightarrow> is_empty_value i), bad))"

definition writer_builder_put :: "json \<Rightarrow> string \<Rightarrow> json \<Rightarrow> json res" where
  "writer_builder_put settings key v =
     bind_res (member_ref settings key) (\<lambda>s. Inr (member_put s key v))"

section \<open>Writing a value\<close>

definition write_string :: "json \<Rightarrow> json \<Rightarrow> string res" where
  \<comment> \<open>\<^verbatim>\<open>writeString(factory, root)\<close> for the builder with these settings\<close>
  "write_string settings rt =
     bind_res (new_stream_writer settings) (\<lambda>w.
     bind_res (bs_write w rt new_writer) (\<lambda>st. Inr (document st)))"

definition write_stream :: "string \<Rightarrow> json \<Rightarrow> string res" where
  \<comment> \<open>\<^verbatim>\<open>operator<<(sout, root)\<close>: what the stream holds afterwards\<close>
  "write_stream sout rt =
     bind_res stream_writer_builder (\<lambda>b.
     bind_res (new_stream_writer b) (\<lambda>w.
     bind_res (bs_write w rt (new_writer\<lparr>document := sout\<rparr>)) (\<lambda>st. Inr (document st))))"

definition to_styled_string :: "json \<Rightarrow> string res" where
  "to_styled_string v =
     bind_res stream_writer_builder (\<lambda>b.
     bind_res (write_string b v) (\<lambda>out.
       Inr ((if has_comment v commentBefore then [LF] else []) @ out @ [LF])))"

section \<open>The default writer\<close>

definition default_stream_writer :: stream_writer where
  "default_stream_writer =
     \<lparr>indentation = [TAB], commentStyle = commentAll, colonSymbol = '' : '', nullSymbol = ''null'',
      endingLineFeedSymbol = [], useSpecialFloats = False, emitUTF8 = False, precision = 17,
      precisionType = significantDigits\<rparr>"

lemma default_writer: "bind_res stream_writer_builder new_stream_writer = Inr default_stream_writer"
  by code_simp

end
