(* ===== verification/Json_Styled_Facts.thy ===== *)
theory Json_Styled_Facts
  imports Json_Literal Json_Stream
begin

text \<open>
  The styled writers write the tokens of a value with white space between them. What the
  three classes share is the locale \<open>styled_writer\<close>: the small operations of a class, with the
  tokens each adds to the document; inside it the loops over elements and members are proved
  once. \<open>styled_class\<close> adds the recursion over a value. \<open>Json_Styled_Classes\<close> interprets them.
\<close>

section \<open>The texts of numbers\<close>

definition num_char :: "char \<Rightarrow> bool" where
  "num_char c \<longleftrightarrow> is_digit c \<or> c \<in> set ''.-+e''"

lemma num_char_solid: "num_char c \<Longrightarrow> solid c"
  by (auto simp: num_char_def solid_def white_char_def is_digit_def byte_def)

definition num_text :: "string \<Rightarrow> bool" where
  "num_text s \<longleftrightarrow> (\<forall>c \<in> set s. num_char c)"

lemma num_text_simps [simp]:
  "num_text []" "num_text (c # s) \<longleftrightarrow> num_char c \<and> num_text s"
  "num_text (s @ t) \<longleftrightarrow> num_text s \<and> num_text t" "num_text (rev s) \<longleftrightarrow> num_text s"
  by (auto simp: num_text_def)

lemma num_chars [simp]:
  "num_char (CHR ''.'')" "num_char (CHR ''-'')" "num_char (CHR ''+'')" "num_char (CHR ''e'')"
  "num_char (CHR ''0'')"
  by (simp_all add: num_char_def is_digit_def byte_def)

lemma num_text_subset: "set s \<subseteq> set t \<Longrightarrow> num_text t \<Longrightarrow> num_text s"
  by (auto simp: num_text_def)

lemma num_text_parts:
  "num_text s \<Longrightarrow> num_text (take n s)" "num_text s \<Longrightarrow> num_text (drop n s)"
  "num_text s \<Longrightarrow> num_text (tl s)" "num_text s \<Longrightarrow> num_text (dropWhile P s)"
  by (auto elim: num_text_subset [rotated] dest: in_set_takeD in_set_dropD set_dropWhileD list.set_sel(2) [rotated])
    (metis list.sel(2) list.set_sel(2) num_text_def)

lemma num_text_show_nat [simp]: "num_text (show_nat n)"
  using show_nat_digits by (auto simp: num_text_def num_char_def)

lemma num_text_replicate [simp]: "num_text (replicate n (CHR ''0''))"
  by (simp add: num_text_def)

lemma num_text_place_point [simp]: "num_text (place_point n p)"
  by (simp add: place_point_def Let_def num_text_parts)

lemma num_text_strip_zeros: "num_text s \<Longrightarrow> num_text (strip_zeros s)"
  by (simp add: strip_zeros_def num_text_parts)

lemma num_text_dbl: "num_text (dbl_text pt p s m e)"
  by (simp add: dbl_text_def fmt_g_def fmt_f_def Let_def show_exp_def split_beta num_text_strip_zeros
      split: precision_type.split)

lemma num_text_locale: "num_text s \<Longrightarrow> num_text (fix_numeric_locale s)"
  by (auto simp: num_text_def fix_numeric_locale_def)

lemma num_text_fix_zeros_loop: "num_text s \<Longrightarrow> num_text (fix_zeros_loop p s)"
  by (induction p s rule: fix_zeros_loop.induct) (auto simp: num_text_parts)

lemma num_text_fix_zeros: "num_text s \<Longrightarrow> num_text (fix_zeros_in_the_end s p)"
  by (simp add: fix_zeros_in_the_end_def num_text_fix_zeros_loop)

lemma solid_num_text: "num_text s \<Longrightarrow> list_all solid s"
  by (auto simp: num_text_def list_all_iff num_char_solid)

lemma solid_eval: "solid c \<longleftrightarrow> c \<notin> {DQ, CHR '' '', TAB, CR, LF}"
  by (auto simp: solid_def white_char_def)

lemma solid_dbl: "list_all solid (value_to_string_dbl_full d f p pt)"
proof (cases d)
  case (DFin s m e)
  then have "num_text (value_to_string_dbl_full d f p pt)"
    by (simp add: value_to_string_dbl_full_def Let_def num_text_dbl num_text_locale num_text_fix_zeros)
  then show ?thesis by (rule solid_num_text)
qed (simp_all add: value_to_string_dbl_full_def solid_eval)

lemma solid_int: "list_all solid (value_to_string_int i)"
  by (rule solid_num_text) (simp add: value_to_string_int_show)

lemma solid_uint: "list_all solid (value_to_string_uint u)"
  by (rule solid_num_text) (simp add: value_to_string_uint_show)

lemma solid_bool: "list_all solid (value_to_string_bool b)"
  by (simp add: value_to_string_bool_def solid_eval)

lemmas solid_texts = solid_dbl solid_int solid_uint solid_bool

section \<open>What a call adds to the document\<close>

text \<open>The flag \<open>a\<close> is set for a writer that never collects the texts of children.\<close>

definition ready :: "bool \<Rightarrow> wstate \<Rightarrow> bool" where
  "ready a st \<longleftrightarrow> \<not> addChildValues st \<and> list_all white_char (indentString st) \<and>
     (a \<longrightarrow> childValues st = [])"

definition adds :: "bool \<Rightarrow> wstate \<Rightarrow> string list \<Rightarrow> wstate \<Rightarrow> bool" where
  \<comment> \<open>from \<open>st\<close> to \<open>st'\<close> the document grows by the tokens \<open>ks\<close>, with white space\<close>
  "adds a st ks st' \<longleftrightarrow> ready a st' \<and> indentString st' = indentString st \<and>
     (\<exists>t. document st' = document st @ t \<and> spaced ks t)"

lemma adds_trans: "adds a st s st1 \<Longrightarrow> adds a st1 t st2 \<Longrightarrow> adds a st (s @ t) st2"
  using spaced_append by (force simp: adds_def)

lemma adds_ready: "adds a st s st' \<Longrightarrow> ready a st'"
  by (simp add: adds_def)

lemma adds_refl: "ready a st \<Longrightarrow> adds a st [] st"
  by (simp add: adds_def)

lemma adds_emit: "ready a st \<Longrightarrow> spaced ks s \<Longrightarrow> adds a st ks (emit s st)"
  by (simp add: adds_def ready_def emit_def)

lemma adds_white: "ready a st \<Longrightarrow> list_all white_char s \<Longrightarrow> adds a st [] (emit s st)"
  by (rule adds_emit) simp_all

lemma adds_indented: "adds a st s (st'\<lparr>indented := b\<rparr>) \<longleftrightarrow> adds a st s st'"
  "adds a (st\<lparr>indented := b\<rparr>) s st' \<longleftrightarrow> adds a st s st'"
  by (simp_all add: adds_def ready_def)

lemma ready_indented [simp]: "ready a (st\<lparr>indented := b\<rparr>) = ready a st"
  by (simp add: ready_def)

lemma childValues_emit [simp]: "childValues (emit s st) = childValues st"
  by (simp add: emit_def)

lemma adds_push: "ready a st \<Longrightarrow> spaced ks s \<Longrightarrow> adds a st ks (push_value s st)"
  by (simp add: push_value_def adds_emit) (simp add: ready_def)

lemma white_separators [simp]:
  "white_char (CHR '' '')" "white_char LF" "white_char TAB" "\<not> white_char (CHR '','')"
  "\<not> white_char (CHR ''['')" "\<not> white_char (CHR '']'')" "\<not> white_char (CHR ''{'')"
  "\<not> white_char (CHR ''}'')" "\<not> white_char (CHR '':'')" "\<not> white_char DQ"
  by (simp_all add: white_char_def)

section \<open>Children\<close>

definition no_comment :: "json \<Rightarrow> bool" where
  "no_comment v \<longleftrightarrow> \<not> has_comment_for_value v"

definition complex_value :: "json \<Rightarrow> bool" where
  "complex_value v \<longleftrightarrow> (is_array v \<or> is_object v) \<and> \<not> is_empty_value v"

text \<open>A child that writes the tokens \<open>ks\<close>: it adds them to the document, and unless it is a
  container with members it pushes one token.\<close>

definition child_writes :: "bool \<Rightarrow> child \<Rightarrow> string list \<Rightarrow> bool" where
  "child_writes a c ks \<longleftrightarrow> no_comment (fst c) \<and>
     (\<forall>st. ready a st \<longrightarrow> (\<exists>st'. snd c st = Inr st' \<and> adds a st ks st')) \<and>
     (\<not> complex_value (fst c) \<longrightarrow> (\<exists>t. ks = [t] \<and> snd c = (\<lambda>st. Inr (push_value t st))))"

lemma child_writesD:
  "child_writes a c ks \<Longrightarrow> ready a st \<Longrightarrow> \<exists>st'. snd c st = Inr st' \<and> adds a st ks st'"
  by (simp add: child_writes_def)

lemma push_child_writes: "no_comment v \<Longrightarrow> child_writes a (v, \<lambda>st. Inr (push_value t st)) [t]"
  using adds_push [OF _ spaced_one] by (auto simp: child_writes_def)

lemma length_loop_pushes:
  assumes "list_all2 (child_writes a) cs (map (\<lambda>t. [t]) ts)" "list_all (\<lambda>c. \<not> complex_value (fst c)) cs"
    "addChildValues st" "length (childValues st) = i"
  shows "\<exists>len. length_loop i cs m l st = Inr (m, len, st\<lparr>childValues := childValues st @ ts\<rparr>)"
  using assms
proof (induction ts arbitrary: cs i l st)
  case (Cons t ts)
  then obtain c cs' where cs: "cs = c # cs'" by (cases cs) auto
  let ?st = "st\<lparr>childValues := childValues st @ [t]\<rparr>"
  have c: "snd c st = Inr ?st" "\<not> has_comment_for_value (fst c)"
    using Cons.prems cs by (auto simp: child_writes_def no_comment_def push_value_def)
  have "child_value i ?st = Inr t" using Cons.prems by (simp add: child_value_def nth_append)
  with c Cons.IH [of cs' ?st "Suc i" "l + of_nat (length t)"] Cons.prems show ?case by (simp add: cs)
qed simp

lemma simple_tokens:
  "list_all2 (child_writes a) cs kss \<Longrightarrow> list_all (\<lambda>c. \<not> complex_value (fst c)) cs \<Longrightarrow>
   \<exists>ts. kss = map (\<lambda>t. [t]) ts"
proof (induction cs kss rule: list_all2_induct)
  case (Cons c cs ks kss)
  then obtain t ts where "ks = [t]" "kss = map (\<lambda>t. [t]) ts" by (auto simp: child_writes_def)
  then show ?case by (metis list.map(2))
qed simp

lemma is_multiline_array_cases:
  assumes "list_all2 (child_writes a) cs kss" "ready a st" "cs \<noteq> []"
  shows "\<exists>b vs. is_multiline_array sz cs st = Inr (b, st\<lparr>childValues := vs\<rparr>) \<and> (vs = [] \<and> b \<or>
    kss = map (\<lambda>t. [t]) vs \<and> list_all (\<lambda>c. \<not> complex_value (fst c)) cs)"
proof (cases "sz * 3 \<ge> right_margin \<or> list_ex (\<lambda>c. complex_value (fst c)) cs")
  case True
  then show ?thesis
    by (auto simp: is_multiline_array_def Let_def complex_value_def)
next
  case False
  then have simple: "list_all (\<lambda>c. \<not> complex_value (fst c)) cs"
    by (simp add: list_ex_iff list_all_iff)
  obtain ts where ts: "kss = map (\<lambda>t. [t]) ts" using simple_tokens [OF assms(1) simple] by blast
  from length_loop_pushes [OF assms(1) [unfolded ts] simple, of "st\<lparr>childValues := [], addChildValues := True\<rparr>" 0 False
      "4 + (sz - 1) * 2"]
  obtain len where "length_loop 0 cs False (4 + (sz - 1) * 2) (st\<lparr>childValues := [], addChildValues := True\<rparr>) =
      Inr (False, len, st\<lparr>childValues := ts, addChildValues := True\<rparr>)" by auto
  moreover have "st\<lparr>childValues := ts, addChildValues := False\<rparr> = st\<lparr>childValues := ts\<rparr>"
    using assms(2) by (simp add: ready_def)
  ultimately show ?thesis
    using False simple ts by (auto simp: is_multiline_array_def Let_def complex_value_def)
qed

text \<open>Lists of tokens with commas between.\<close>

fun joint :: "string list list \<Rightarrow> string list" where
  "joint [] = []"
| "joint [ks] = ks"
| "joint (ks # ls # kss) = ks @ '','' # joint (ls # kss)"

lemma joint_Cons: "joint (ks # kss) = ks @ (if kss = [] then [] else '','' # joint kss)"
  by (cases kss) simp_all

lemma concat_joint: "concat (joint kss) = join '','' (map concat kss)"
  by (induction kss rule: joint.induct) simp_all

lemma separated_adds:
  assumes "ready a st" "spaced ['',''] sep"
  shows "adds a st ((if i > 0 \<and> ts \<noteq> [] then ['',''] else []) @ joint (map (\<lambda>t. [t]) ts)) (separated sep ts i st)"
  using assms(1)
proof (induction ts arbitrary: i st)
  case (Cons t ts)
  let ?st1 = "if i > 0 then emit sep st else st"
  have 1: "adds a st (if i > 0 then ['',''] else []) ?st1"
    using Cons.prems assms(2) adds_emit [of a st "['','']" sep] by (simp add: adds_refl)
  have 2: "adds a ?st1 [t] (emit t ?st1)"
    using adds_emit [OF adds_ready [OF 1] spaced_one] by simp
  have 3: "adds a (emit t ?st1) ((if ts \<noteq> [] then ['',''] else []) @ joint (map (\<lambda>t. [t]) ts))
      (separated sep ts (Suc i) (emit t ?st1))"
    using Cons.IH [OF adds_ready [OF 2], of "Suc i"] by simp
  show ?case using adds_trans [OF 1 adds_trans [OF 2 3]]
    by (cases "ts = []"; cases "i > 0") (simp_all add: joint_Cons)
qed (simp add: adds_refl)

lemma comma_loop_adds:
  assumes before: "\<And>k c st. (k, c) \<in> set cs \<Longrightarrow> ready a st \<Longrightarrow> I st \<Longrightarrow> before (fst c) st = st"
    and element: "\<And>k c st. (k, c) \<in> set cs \<Longrightarrow> ready a st \<Longrightarrow> I st \<Longrightarrow>
           \<exists>st'. element k c st = Inr st' \<and> adds a st (tx (k, c)) st' \<and> I st'"
    and after: "\<And>k c st. (k, c) \<in> set cs \<Longrightarrow> ready a st \<Longrightarrow> I st \<Longrightarrow>
           adds a st [] (after (fst c) st) \<and> I (after (fst c) st)"
    and I: "\<And>st s. I st \<Longrightarrow> I (emit s st)"
    and st: "ready a st" "I st"
  shows "\<exists>st'. comma_loop before element after cs st = Inr st' \<and> adds a st (joint (map tx cs)) st'"
  using before element after st
proof (induction cs arbitrary: st)
  case (Cons p cs)
  obtain k c where p: "p = (k, c)" by (cases p)
  have b: "before (fst c) st = st" using Cons.prems(1) [of k c] Cons.prems(4,5) p by simp
  obtain st1 where st1: "element k c st = Inr st1" "adds a st (tx (k, c)) st1" "I st1"
    using Cons.prems(2) [of k c st] Cons.prems(4,5) p by auto
  show ?case
  proof (cases "cs = []")
    case True
    have "adds a st1 [] (after (fst c) st1)"
      using Cons.prems(3) [of k c st1] adds_ready [OF st1(2)] st1(3) p by simp
    from adds_trans [OF st1(2) this] show ?thesis
      using True p b st1(1) by simp
  next
    case False
    let ?st2 = "emit '','' st1"
    have 2: "adds a st1 ['',''] ?st2" using adds_emit [OF adds_ready [OF st1(2)] spaced_one] .
    have 3: "adds a ?st2 [] (after (fst c) ?st2)" "I (after (fst c) ?st2)"
      using Cons.prems(3) [of k c ?st2] adds_ready [OF 2] I [OF st1(3)] p by simp_all
    have "\<exists>st'. comma_loop before element after cs (after (fst c) ?st2) = Inr st' \<and>
        adds a (after (fst c) ?st2) (joint (map tx cs)) st'"
    proof (rule Cons.IH)
      fix k d s assume "(k, d) \<in> set cs" "ready a s" "I s"
      then show "before (fst d) s = s"
        "\<exists>s'. element k d s = Inr s' \<and> adds a s (tx (k, d)) s' \<and> I s'"
        "adds a s [] (after (fst d) s) \<and> I (after (fst d) s)"
        using Cons.prems(1-3) [of k d s] by simp_all
    qed (use adds_ready [OF 3(1)] 3(2) in simp_all)
    then obtain st' where st': "comma_loop before element after cs (after (fst c) ?st2) = Inr st'"
      "adds a (after (fst c) ?st2) (joint (map tx cs)) st'" by blast
    have "joint (map tx (p # cs)) = tx (k, c) @ ['',''] @ [] @ joint (map tx cs)"
      using False p by (cases cs) simp_all
    then show ?thesis
      using adds_trans [OF st1(2) adds_trans [OF 2 adds_trans [OF 3(1) st'(2)]]] False b st1(1) st'(1) p
      by simp
  qed
qed (simp add: adds_refl)

section \<open>What the classes share\<close>

locale styled_writer =
  fixes a :: bool
    and with_indent :: "string \<Rightarrow> wstate \<Rightarrow> wstate"
    and ind :: "wstate \<Rightarrow> wstate"
    and unind :: "wstate \<Rightarrow> wstate res"
    and before :: "json \<Rightarrow> wstate \<Rightarrow> wstate"
    and after :: "json \<Rightarrow> wstate \<Rightarrow> wstate"
    and element :: "bool \<Rightarrow> nat \<Rightarrow> child \<Rightarrow> wstate \<Rightarrow> wstate res"
    and member :: "string \<Rightarrow> child \<Rightarrow> wstate \<Rightarrow> wstate res"
    and quote :: "string \<Rightarrow> string"
  assumes with_indent_adds:
      "ready a st \<Longrightarrow> spaced ks s \<Longrightarrow> adds a st ks (with_indent s st)"
    and with_indent_children: "childValues (with_indent s st) = childValues st"
    and ind_ready: "ready a st \<Longrightarrow> ready a (ind st)"
    and ind_keeps: "document (ind st) = document st \<and> childValues (ind st) = childValues st"
    and unind_ind: "indentString st' = indentString (ind st) \<Longrightarrow>
      unind st' = Inr (st'\<lparr>indentString := indentString st\<rparr>)"
    and before_none: "no_comment v \<Longrightarrow> before v st = st"
    and after_none: "no_comment v \<Longrightarrow> ready a st \<Longrightarrow> adds a st [] (after v st)"
    and after_children: "childValues (after v st) = childValues st"
    and element_child: "child_value i st = Inr s \<Longrightarrow> element True i c st = Inr (with_indent s st)"
    and element_writes: "ready a st \<Longrightarrow> child_writes a c t \<Longrightarrow>
      \<exists>st'. element False i c st = Inr st' \<and> adds a st t st'"
    and member_writes: "ready a st \<Longrightarrow> child_writes a c t \<Longrightarrow>
      \<exists>st'. member k c st = Inr st' \<and> adds a st (quote k # '':'' # t) st'"
begin

lemma block_adds:
  assumes st: "ready a st"
    and body: "\<And>st1. ready a st1 \<Longrightarrow> childValues st1 = childValues st \<Longrightarrow>
      \<exists>st2. body st1 = Inr st2 \<and> adds a st1 t st2"
  shows "\<exists>st'. bind_res (body (ind (with_indent l st))) (\<lambda>st2.
      bind_res (unind st2) (\<lambda>st3. Inr (with_indent r st3))) = Inr st' \<and> adds a st (l # t @ [r]) st'"
proof -
  let ?st0 = "with_indent l st"
  let ?st1 = "ind ?st0"
  have 0: "adds a st [l] ?st0" by (rule with_indent_adds [OF st spaced_one])
  obtain st2 where st2: "body ?st1 = Inr st2" "adds a ?st1 t st2"
    using body [of ?st1] ind_ready [OF adds_ready [OF 0]] ind_keeps with_indent_children by auto
  let ?st3 = "st2\<lparr>indentString := indentString ?st0\<rparr>"
  have u: "unind st2 = Inr ?st3" using unind_ind [of st2 ?st0] st2(2) by (simp add: adds_def)
  have 3: "adds a ?st0 t ?st3"
    using st2(2) adds_ready [OF 0] ind_keeps by (simp add: adds_def ready_def)
  have 4: "adds a ?st3 [r] (with_indent r ?st3)"
    by (rule with_indent_adds [OF adds_ready [OF 3] spaced_one])
  show ?thesis using adds_trans [OF 0 adds_trans [OF 3 4]] st2(1) u by simp
qed

lemma elements_add:
  assumes cs: "list_all2 (child_writes a) cs ts" and st: "ready a st"
    and hc: "hc \<Longrightarrow> ts = map (\<lambda>t. [t]) (childValues st) \<and> list_all (\<lambda>c. \<not> complex_value (fst c)) cs"
  shows "\<exists>st'. comma_loop before (element hc) after (zip [0..<length cs] cs) st = Inr st' \<and>
    adds a st (joint ts) st'"
proof -
  let ?I = "\<lambda>st. hc \<longrightarrow> ts = map (\<lambda>t. [t]) (childValues st)"
  let ?tx = "\<lambda>(k, c :: child). ts ! k"
  have len: "length cs = length ts" using cs by (rule list_all2_lengthD)
  have el: "k < length cs \<and> child_writes a c (ts ! k) \<and> no_comment (fst c) \<and> (hc \<longrightarrow> \<not> complex_value (fst c))"
    if "(k, c) \<in> set (zip [0..<length cs] cs)" for k c
  proof -
    have kc: "k < length cs" "c = cs ! k" using that by (auto simp: in_set_zip)
    then have "child_writes a c (ts ! k)" using list_all2_nthD [OF cs] by simp
    then show ?thesis using kc hc by (auto simp: child_writes_def list_all_length)
  qed
  have "\<exists>st'. comma_loop before (element hc) after (zip [0..<length cs] cs) st = Inr st' \<and>
      adds a st (joint (map ?tx (zip [0..<length cs] cs))) st'"
  proof (rule comma_loop_adds [where I = ?I])
    fix k c s assume kc: "(k, c) \<in> set (zip [0..<length cs] cs)" and s: "ready a s" "?I s"
    note e = el [OF kc]
    show "before (fst c) s = s" using e before_none by simp
    show "adds a s [] (after (fst c) s) \<and> ?I (after (fst c) s)"
      using e s after_none after_children by simp
    show "\<exists>s'. element hc k c s = Inr s' \<and> adds a s (?tx (k, c)) s' \<and> ?I s'"
    proof (cases hc)
      case True
      have "length (childValues s) = length ts" using True s(2) by simp
      then have k: "k < length (childValues s)" using e len by simp
      then have "child_value k s = Inr (childValues s ! k)" by (simp add: child_value_def)
      moreover have "ts ! k = [childValues s ! k]" using True s(2) k by simp
      ultimately show ?thesis
        using True s element_child with_indent_adds [OF s(1) spaced_one] with_indent_children by simp
    next
      case False
      then show ?thesis using element_writes [OF s(1), of c "ts ! k" k] e by simp
    qed
  qed (use st hc in simp_all)
  moreover have "map ?tx (zip [0..<length cs] cs) = ts"
    by (rule nth_equalityI) (simp_all add: len)
  ultimately show ?thesis by simp
qed

lemma array_block:
  assumes "list_all2 (child_writes a) cs ts" "ready a st"
    and "childValues st \<noteq> [] \<Longrightarrow> ts = map (\<lambda>t. [t]) (childValues st) \<and> list_all (\<lambda>c. \<not> complex_value (fst c)) cs"
  shows "\<exists>st'. (let st1 = ind (with_indent ''['' st); hasChildValue = (childValues st1 \<noteq> [])
      in bind_res (comma_loop before (element hasChildValue) after (zip [0..<length cs] cs) st1) (\<lambda>st2.
         bind_res (unind st2) (\<lambda>st3. Inr (with_indent '']'' st3)))) = Inr st' \<and>
    adds a st (''['' # joint ts @ ['']'']) st'"
proof -
  have cv: "childValues (ind (with_indent ''['' st)) = childValues st"
    using ind_keeps with_indent_children by simp
  have "\<exists>st'. bind_res (comma_loop before (element (childValues st \<noteq> [])) after (zip [0..<length cs] cs)
        (ind (with_indent ''['' st))) (\<lambda>st2. bind_res (unind st2) (\<lambda>st3. Inr (with_indent '']'' st3))) = Inr st' \<and>
      adds a st (''['' # joint ts @ ['']'']) st'"
    by (rule block_adds) (use assms in \<open>simp_all add: elements_add\<close>)
  then show ?thesis by (simp add: cv)
qed

lemma object_block:
  assumes "\<And>k c. (k, c) \<in> set ms \<Longrightarrow> child_writes a c (tx (fst c))" "ready a st"
  shows "\<exists>st'. bind_res (comma_loop before member after ms (ind (with_indent ''{'' st))) (\<lambda>st1.
      bind_res (unind st1) (\<lambda>st2. Inr (with_indent ''}'' st2))) = Inr st' \<and>
    adds a st (''{'' # joint (map (\<lambda>(k, c). quote k # '':'' # tx (fst c)) ms) @ [''}'']) st'"
proof -
  let ?t = "\<lambda>(k, c). quote k # '':'' # tx (fst c)"
  have "\<exists>st2. comma_loop before member after ms st1 = Inr st2 \<and> adds a st1 (joint (map ?t ms)) st2"
    if "ready a st1" for st1
  proof (rule comma_loop_adds [where I = "\<lambda>_. True"])
    fix k c s assume kc: "(k, c) \<in> set ms" and s: "ready a s"
    note w = assms(1) [OF kc]
    then have n: "no_comment (fst c)" by (simp add: child_writes_def)
    show "before (fst c) s = s" using n by (rule before_none)
    show "adds a s [] (after (fst c) s) \<and> True" using after_none [OF n s] by simp
    show "\<exists>s'. member k c s = Inr s' \<and> adds a s (?t (k, c)) s' \<and> True"
      using member_writes [OF s w, of k] by simp
  qed (simp_all add: that)
  then have "\<exists>st'. bind_res (comma_loop before member after ms (ind (with_indent ''{'' st))) (\<lambda>st1.
      bind_res (unind st1) (\<lambda>st2. Inr (with_indent ''}'' st2))) = Inr st' \<and>
    adds a st (''{'' # joint (map ?t ms) @ [''}'']) st'"
    by (intro block_adds assms(2)) simp_all
  then show ?thesis by simp
qed

end

lemma single_line_adds:
  assumes "ready a st" "spaced ['',''] sep" "spaced [''[''] l" "spaced ['']''] r"
  shows "adds a st (''['' # joint (map (\<lambda>t. [t]) ts) @ ['']'']) (emit r (separated sep ts 0 (emit l st)))"
proof -
  note 1 = adds_emit [OF assms(1,3)]
  have 2: "adds a (emit l st) (joint (map (\<lambda>t. [t]) ts)) (separated sep ts 0 (emit l st))"
    using separated_adds [OF adds_ready [OF 1] assms(2), of 0] by simp
  note 3 = adds_emit [OF adds_ready [OF 2] assms(4)]
  show ?thesis using adds_trans [OF 1 adds_trans [OF 2 3]] by simp
qed

section \<open>Whole values\<close>

fun compact_text :: "(json \<Rightarrow> string) \<Rightarrow> (string \<Rightarrow> string) \<Rightarrow> json \<Rightarrow> string" where
  \<comment> \<open>the text without white space, given the texts of leaves and names\<close>
  "compact_text leaf q (JArr mt m) =
     (let ts = map_snd (compact_text leaf q) m
      in ''['' @ join '','' (map (\<lambda>i. case om_find (of_nat i) ts of None \<Rightarrow> leaf null_singleton | Some t \<Rightarrow> t)
           [0..<unat (size_of (JArr mt m))]) @ '']'')"
| "compact_text leaf q (JObj mt m) =
     ''{'' @ join '','' (map (\<lambda>(k, t). q k @ '':'' @ t) (map_snd (compact_text leaf q) m)) @ ''}''"
| "compact_text leaf q v = leaf v"

fun value_tokens :: "(json \<Rightarrow> string) \<Rightarrow> (string \<Rightarrow> string) \<Rightarrow> json \<Rightarrow> string list" where
  \<comment> \<open>the tokens of that text; an empty container is one token\<close>
  "value_tokens leaf q (JArr mt m) =
     (if size_of (JArr mt m) = 0 then [''[]'']
      else
        (let ts = map_snd (value_tokens leaf q) m
         in ''['' # joint (map (\<lambda>i. case om_find (of_nat i) ts of None \<Rightarrow> [leaf null_singleton] | Some ks \<Rightarrow> ks)
              [0..<unat (size_of (JArr mt m))]) @ ['']'']))"
| "value_tokens leaf q (JObj mt m) =
     (if m = [] then [''{}'']
      else ''{'' # joint (map (\<lambda>(k, ks). q k # '':'' # ks) (map_snd (value_tokens leaf q) m)) @ [''}''])"
| "value_tokens leaf q v = [leaf v]"

lemma concat_tokens: "concat (value_tokens leaf q v) = compact_text leaf q v"
proof (induction leaf q v rule: value_tokens.induct)
  case (1 leaf q mt m)
  show ?case
  proof (cases "size_of (JArr mt m) = 0")
    case False
    have "concat (case om_find i (map_snd (value_tokens leaf q) m) of None \<Rightarrow> [leaf null_singleton] | Some ks \<Rightarrow> ks) =
        (case om_find i (map_snd (compact_text leaf q) m) of None \<Rightarrow> leaf null_singleton | Some t \<Rightarrow> t)" for i
      using "1.IH" [OF False] om_find_Some_in_set [of i m] by (cases "om_find i m") (auto simp: om_find_map_snd)
    with False show ?thesis by (simp add: Let_def concat_joint comp_def del: size_of.simps)
  qed (simp add: Let_def del: size_of.simps)
next
  case (2 leaf q mt m)
  then show ?case
    by (auto simp: concat_joint map_snd_def intro!: arg_cong [where f = "join _"])
qed simp_all

fun plain_value :: "json \<Rightarrow> bool" where
  \<comment> \<open>no comments, and no object whose number of members overflows its 32-bit size\<close>
  "plain_value (JArr mt m) = (no_comment (JArr mt m) \<and> (\<forall>v \<in> snd ` set m. plain_value v))"
| "plain_value (JObj mt m) = (no_comment (JObj mt m) \<and> length m < 2 ^ 32 \<and> (\<forall>v \<in> snd ` set m. plain_value v))"
| "plain_value v = no_comment v"

lemma plain_value_here: "plain_value v \<Longrightarrow> no_comment v"
  by (cases v) simp_all

lemma no_comment_null [simp]: "no_comment null_singleton"
  by (simp add: no_comment_def has_comment_for_value_def has_comment_def comments_has_def
      null_singleton_def meta0_def)

locale styled_class = styled_writer +
  fixes leaf :: "json \<Rightarrow> string"
    and multi :: "uint32 \<Rightarrow> child list \<Rightarrow> wstate \<Rightarrow> (bool \<times> wstate) res"
    and obr :: string and cbr :: string and sep :: string
    and array :: "uint32 \<Rightarrow> child list \<Rightarrow> wstate \<Rightarrow> wstate res"
    and object :: "(string \<times> child) list \<Rightarrow> wstate \<Rightarrow> wstate res"
    and wr :: "json \<Rightarrow> wstate \<Rightarrow> wstate res"
  assumes brackets: "spaced [''[''] obr" "spaced ['']''] cbr" "spaced ['',''] sep"
    and multi_cases: "list_all2 (child_writes a) cs ts \<Longrightarrow> ready a st \<Longrightarrow> cs \<noteq> [] \<Longrightarrow>
      \<exists>b vs. multi sz cs st = Inr (b, st\<lparr>childValues := vs\<rparr>) \<and> (a \<longrightarrow> vs = []) \<and>
        (vs = [] \<and> b \<or> ts = map (\<lambda>t. [t]) vs \<and> list_all (\<lambda>c. \<not> complex_value (fst c)) cs)"
    and array_eq: "array sz cs st =
      (if sz = 0 then Inr (push_value ''[]'' st)
       else bind_res (multi sz cs st) (\<lambda>(b, st0).
         if b then
           (let st1 = ind (with_indent ''['' st0); hasChildValue = (childValues st1 \<noteq> [])
            in bind_res (comma_loop before (element hasChildValue) after (zip [0..<length cs] cs) st1) (\<lambda>st2.
               bind_res (unind st2) (\<lambda>st3. Inr (with_indent '']'' st3))))
         else if length (childValues st0) \<noteq> unat sz
         then Inl (AssertFail ''childValues_.size() == size'')
         else Inr (emit cbr (separated sep (childValues st0) 0 (emit obr st0)))))"
    and object_eq: "object ms st =
      (if ms = [] then Inr (push_value ''{}'' st)
       else bind_res (comma_loop before member after ms (ind (with_indent ''{'' st))) (\<lambda>st1.
            bind_res (unind st1) (\<lambda>st2. Inr (with_indent ''}'' st2))))"
    and write_leaf: "\<not> is_array v \<Longrightarrow> \<not> is_object v \<Longrightarrow> wr v = (\<lambda>st. Inr (push_value (leaf v) st))"
    and write_array: "wr (JArr mt m) = array (size_of (JArr mt m))
      (array_children (unat (size_of (JArr mt m))) (null_singleton, \<lambda>st. Inr (push_value (leaf null_singleton) st))
        (map_snd (\<lambda>c. (c, wr c)) m))"
    and write_object: "wr (JObj mt' m') = object (map_snd (\<lambda>c. (c, wr c)) m')"
begin

lemma array_adds:
  assumes cs: "list_all2 (child_writes a) cs ts" "unat sz = length cs" "sz \<noteq> 0" and st: "ready a st"
  shows "\<exists>st'. array sz cs st = Inr st' \<and> adds a st (''['' # joint ts @ ['']'']) st'"
proof -
  have "cs \<noteq> []" using cs(2,3) unat_eq_zero by fastforce
  from multi_cases [OF cs(1) st this] obtain b vs where m: "multi sz cs st = Inr (b, st\<lparr>childValues := vs\<rparr>)"
    and av: "a \<longrightarrow> vs = []" and c: "vs = [] \<and> b \<or> ts = map (\<lambda>t. [t]) vs \<and> list_all (\<lambda>c. \<not> complex_value (fst c)) cs" by blast
  let ?st0 = "st\<lparr>childValues := vs\<rparr>"
  have r: "ready a ?st0" using st av by (simp add: ready_def)
  have i: "adds a (st\<lparr>childValues := xs\<rparr>) s st' = adds a st s st'" for xs s st' by (simp add: adds_def)
  show ?thesis
  proof (cases b)
    case True
    have "childValues ?st0 \<noteq> [] \<Longrightarrow> ts = map (\<lambda>t. [t]) (childValues ?st0) \<and> list_all (\<lambda>c. \<not> complex_value (fst c)) cs"
      using c by auto
    from array_block [OF cs(1) r this] show ?thesis
      unfolding i using True m cs(3) by (simp add: array_eq)
  next
    case False
    then have v: "ts = map (\<lambda>t. [t]) vs" using c by auto
    have "length vs = unat sz" using list_all2_lengthD [OF cs(1)] cs(2) v by simp
    then show ?thesis
      using single_line_adds [OF r brackets(3,1,2), of vs] False m v cs(3) by (simp add: array_eq i)
  qed
qed

lemma object_adds:
  assumes "\<And>k c. (k, c) \<in> set ms \<Longrightarrow> child_writes a c (tx (fst c))" "ready a st" "ms \<noteq> []"
  shows "\<exists>st'. object ms st = Inr st' \<and>
    adds a st (''{'' # joint (map (\<lambda>(k, c). quote k # '':'' # tx (fst c)) ms) @ [''}'']) st'"
  using object_block [OF assms(1,2)] assms(3) by (simp add: object_eq)

lemma leaf_writes: "\<not> is_array v \<Longrightarrow> \<not> is_object v \<Longrightarrow> no_comment v \<Longrightarrow> child_writes a (v, wr v) [leaf v]"
  using write_leaf push_child_writes by simp

text \<open>The main lemma: a value without comments is written as its tokens.\<close>

lemma write_adds: "plain_value v \<Longrightarrow> child_writes a (v, wr v) (value_tokens leaf quote v)"
proof (induction v)
  case (JArr mt m)
  let ?n = "unat (size_of (JArr mt m))"
  let ?cs = "array_children ?n (null_singleton, \<lambda>st. Inr (push_value (leaf null_singleton) st))
      (map_snd (\<lambda>c. (c, wr c)) m)"
  let ?t = "\<lambda>i. case om_find (of_nat i) (map_snd (value_tokens leaf quote) m) of None \<Rightarrow> [leaf null_singleton] | Some t \<Rightarrow> t"
  have mem: "child_writes a (c, wr c) (value_tokens leaf quote c)" if "om_find i m = Some c" for i c
    using JArr.IH [of "(i, c)" c] JArr.prems om_find_Some_in_set [OF that] by force
  have null: "child_writes a (null_singleton, \<lambda>st. Inr (push_value (leaf null_singleton) st)) [leaf null_singleton]"
    by (rule push_child_writes) simp
  have all: "list_all2 (child_writes a) ?cs (map ?t [0..<?n])"
    unfolding array_children_def list.rel_map
    by (rule list.rel_refl_strong) (auto simp: om_find_map_snd null mem split: option.split)
  show ?case
  proof (cases "size_of (JArr mt m) = 0")
    case True
    then have "\<not> complex_value (JArr mt m)" "wr (JArr mt m) = (\<lambda>st. Inr (push_value ''[]'' st))"
      by (simp_all add: complex_value_def is_empty_value_def is_array_def write_array array_eq fun_eq_iff)
    then show ?thesis
      using True push_child_writes [of "JArr mt m" a "''[]''"] JArr.prems by simp
  next
    case False
    then have c: "complex_value (JArr mt m)" by (simp add: complex_value_def is_array_def is_empty_value_def)
    have "\<exists>st'. wr (JArr mt m) st = Inr st' \<and> adds a st (value_tokens leaf quote (JArr mt m)) st'"
      if "ready a st" for st
      using array_adds [OF all _ False that] False by (simp add: write_array array_children_def Let_def del: size_of.simps)
    then show ?thesis using c JArr.prems by (simp add: child_writes_def)
  qed
next
  case (JObj mt m)
  let ?ms = "map_snd (\<lambda>c. (c, wr c)) m"
  have mem: "child_writes a d (value_tokens leaf quote (fst d))" if "(k, d) \<in> set ?ms" for k d
    using that JObj.IH JObj.prems by (force simp: map_snd_def)
  have tx: "map (\<lambda>(k, c). quote k # '':'' # value_tokens leaf quote (fst c)) ?ms =
      map (\<lambda>(k, t). quote k # '':'' # t) (map_snd (value_tokens leaf quote) m)"
    by (simp add: map_snd_def split_beta)
  show ?case
  proof (cases "m = []")
    case True
    then have "\<not> complex_value (JObj mt m)" "wr (JObj mt m) = (\<lambda>st. Inr (push_value ''{}'' st))"
      by (simp_all add: complex_value_def is_empty_value_def is_object_def write_object object_eq fun_eq_iff)
    then show ?thesis
      using True push_child_writes [of "JObj mt m" a "''{}''"] JObj.prems by simp
  next
    case False
    have "\<exists>st'. wr (JObj mt m) st = Inr st' \<and> adds a st (value_tokens leaf quote (JObj mt m)) st'"
      if "ready a st" for st
    proof -
      have "?ms \<noteq> []" using False by (simp add: map_snd_def)
      from object_adds [of ?ms "value_tokens leaf quote", OF mem that this] show ?thesis
        by (simp only: write_object value_tokens.simps tx False if_False)
    qed
    moreover have "complex_value (JObj mt m)"
    proof -
      have "unat (of_nat (length m) :: uint32) = length m"
        using JObj.prems by (simp add: unat_of_nat)
      then have "size_of (JObj mt m) \<noteq> 0" using False by (metis length_0_conv size_of.simps(2) unat_0)
      then show ?thesis by (simp add: complex_value_def is_object_def is_empty_value_def)
    qed
    ultimately show ?thesis using JObj.prems by (simp add: child_writes_def)
  qed
qed (use leaf_writes in \<open>simp_all add: is_array_def is_object_def\<close>)

end

end
