(* ===== verification/Json_Styled_Classes.thy ===== *)
theory Json_Styled_Classes
  imports Json_Styled_Facts
begin

text \<open>
  \<^verbatim>\<open>StyledWriter\<close>, \<^verbatim>\<open>StyledStreamWriter\<close> and \<^verbatim>\<open>BuiltStyledStreamWriter\<close> as instances of the
  locale \<open>styled_class\<close>: the first by an interpretation, the other two, which depend on the
  indentation or the settings, as predicates. The consequence for each is the same: it
  writes the tokens of the value with white space between them.
\<close>

section \<open>\<^verbatim>\<open>StyledWriter\<close>\<close>

text \<open>The texts of leaves are those of the fast writer.\<close>

definition leaf_of :: "json \<Rightarrow> string" where
  "leaf_of v = (if is_array v \<or> is_object v then [] else fw_write_value fast_writer_default v)"

lemma leaf_of_text: "token_text_ok (leaf_of v)"
  using strip_literal [of _ False] strip_solid [OF solid_int] strip_solid [OF solid_uint]
    strip_solid [OF solid_bool] strip_solid [OF solid_dbl] strip_solid [of "''null''"]
  by (cases v) (simp_all add: token_text_ok_def leaf_of_def is_array_def is_object_def null_text_def
      fast_writer_default_def value_to_string_dbl_def solid_eval)

text \<open>Brackets, commas and colons with blanks around them.\<close>

lemma spaced_symbols:
  "spaced [''[''] ''[ ''" "spaced ['']''] '' ]''" "spaced ['',''] '', ''" "spaced ['':''] '' : ''"
  "spaced ['':''] '': ''" "spaced [k] k"
  using spaced_around [of "[]" "'' ''" "''[''"] spaced_around [of "'' ''" "[]" "'']''"]
    spaced_around [of "[]" "'' ''" "'',''"] spaced_around [of "'' ''" "'' ''" "'':''"]
    spaced_around [of "[]" "'' ''" "'':''"] spaced_one
  by simp_all

lemma no_commentD: "no_comment v \<Longrightarrow> \<not> has_comment v p"
  by (cases p) (simp_all add: no_comment_def has_comment_for_value_def)

lemma indent_white: "ready a st \<Longrightarrow> list_all white_char (indentString st)"
  by (simp add: ready_def)

lemma sw_write_indent_adds: "ready a st \<Longrightarrow> adds a st [] (sw_write_indent st)"
proof -
  assume r: "ready a st"
  have "adds a st [] (emit [LF] st)" by (rule adds_white [OF r]) simp
  moreover from this have "adds a (emit [LF] st) [] (emit (indentString st) (emit [LF] st))"
    by (intro adds_white indent_white [OF r] adds_ready)
  ultimately show ?thesis
    using adds_refl [OF r] adds_white [OF r indent_white [OF r]] adds_trans [of a st "[]" "emit [LF] st" "[]"]
    by (simp add: sw_write_indent_def)
qed

lemma sw_write_indent_children: "childValues (sw_write_indent st) = childValues st"
  by (simp add: sw_write_indent_def)

interpretation sw: styled_class False sw_write_with_indent sw_indent sw_unindent sw_comment_before
  sw_comment_after sw_element sw_member value_to_quoted_cstring leaf_of is_multiline_array
  "''[ ''" "'' ]''" "'', ''" sw_write_array_value sw_write_object_value sw_write_value
proof unfold_locales
  fix st st' :: wstate and s k :: string and t :: "string list" and c :: child and v :: json and i :: nat
  show "childValues (sw_write_with_indent s st) = childValues st"
    by (simp add: sw_write_with_indent_def sw_write_indent_children)
  show "document (sw_indent st) = document st \<and> childValues (sw_indent st) = childValues st"
    by (simp add: sw_indent_def)
  show "indentString st' = indentString (sw_indent st) \<Longrightarrow>
      sw_unindent st' = Inr (st'\<lparr>indentString := indentString st\<rparr>)"
    by (simp add: sw_indent_def sw_unindent_def)
  show "childValues (sw_comment_after v st) = childValues st"
    by (simp add: sw_comment_after_def Let_def)
  show "child_value i st = Inr s \<Longrightarrow> sw_element True i c st = Inr (sw_write_with_indent s st)"
    by (simp add: sw_element_def)
  assume r: "ready False st"
  note n = sw_write_indent_adds [OF r]
  show 1: "spaced ks s \<Longrightarrow> adds False st ks (sw_write_with_indent s st)" for ks s
    using adds_trans [OF n adds_emit [OF adds_ready [OF n]]] by (simp add: sw_write_with_indent_def)
  show "ready False (sw_indent st)"
    using r by (auto simp: ready_def sw_indent_def list_all_iff)
  assume c: "child_writes False c t"
  from child_writesD [OF c adds_ready [OF n]] adds_trans [OF n]
  show "\<exists>st'. sw_element False i c st = Inr st' \<and> adds False st t st'"
    by (fastforce simp: sw_element_def)
  let ?q = "value_to_quoted_cstring k"
  note a1 = 1 [OF spaced_one [of ?q]]
  have a2: "adds False st [?q, '':''] (emit '' : '' (sw_write_with_indent ?q st))"
    using adds_trans [OF a1 adds_emit [OF adds_ready [OF a1] spaced_symbols(4)]] by simp
  from child_writesD [OF c adds_ready [OF a2]] adds_trans [OF a2]
  show "\<exists>st'. sw_member k c st = Inr st' \<and> adds False st (?q # '':'' # t) st'"
    by (fastforce simp: sw_member_def)
next
  fix v :: json and st :: wstate
  assume n: "no_comment v"
  show "sw_comment_before v st = st" using no_commentD [OF n] by (simp add: sw_comment_before_def)
  show "ready False st \<Longrightarrow> adds False st [] (sw_comment_after v st)"
    using no_commentD [OF n] by (simp add: sw_comment_after_def adds_refl)
next
  fix sz :: uint32 and children :: "child list" and ts :: "string list list" and st :: wstate
  assume "list_all2 (child_writes False) children ts" "ready False st" "children \<noteq> []"
  then show "\<exists>b vs. is_multiline_array sz children st = Inr (b, st\<lparr>childValues := vs\<rparr>) \<and>
      (False \<longrightarrow> vs = []) \<and> (vs = [] \<and> b \<or> ts = map (\<lambda>t. [t]) vs \<and> list_all (\<lambda>c. \<not> complex_value (fst c)) children)"
    using is_multiline_array_cases by simp
next
  fix v :: json
  assume "\<not> is_array v" "\<not> is_object v"
  then show "sw_write_value v = (\<lambda>st. Inr (push_value (leaf_of v) st))"
    by (cases v) (simp_all add: leaf_of_def is_array_def is_object_def null_text_def fast_writer_default_def)
next
  show "sw_write_value (JArr mt m) = sw_write_array_value (size_of (JArr mt m))
      (array_children (unat (size_of (JArr mt m))) (null_singleton, \<lambda>st. Inr (push_value (leaf_of null_singleton) st))
        (map_snd (\<lambda>c. (c, sw_write_value c)) m))" for mt m
    by (simp add: leaf_of_def is_array_def is_object_def null_singleton_def null_text_def
        fast_writer_default_def Let_def)
qed (simp_all add: sw_write_array_value_def sw_write_object_value_def spaced_symbols)

lemma sw_write_adds:
  assumes "plain_value v"
  shows "\<exists>st'. sw_write v st = Inr st' \<and>
    spaced (value_tokens leaf_of value_to_quoted_cstring v) (document st')"
proof -
  let ?st = "st\<lparr>document := [], addChildValues := False, indentString := []\<rparr>"
  have n: "no_comment v" using assms by (rule plain_value_here)
  have r: "ready False ?st" by (simp add: ready_def)
  obtain st1 where st1: "sw_write_value v ?st = Inr st1"
    "adds False ?st (value_tokens leaf_of value_to_quoted_cstring v) st1"
    using child_writesD [OF sw.write_adds [OF assms] r] by auto
  have 2: "adds False st1 [] (sw_comment_after v st1)" using sw.after_none [OF n adds_ready [OF st1(2)]] .
  have 3: "adds False (sw_comment_after v st1) [] (emit [LF] (sw_comment_after v st1))"
    by (rule adds_white [OF adds_ready [OF 2]]) simp
  show ?thesis
    using adds_trans [OF st1(2) adds_trans [OF 2 3]] st1(1) sw.before_none [OF n]
    by (simp add: sw_write_def adds_def)
qed

section \<open>\<^verbatim>\<open>StyledStreamWriter\<close>\<close>

lemma ss_write_indent_adds: "ready a st \<Longrightarrow> adds a st [] (ss_write_indent st)"
  unfolding ss_write_indent_def by (rule adds_white) (simp_all add: ready_def)

lemma ss_indented_adds:
  "ready a st \<Longrightarrow> adds a st [] (if \<not> indented st then ss_write_indent st else st)"
  by (simp add: ss_write_indent_adds adds_refl)

lemma ss_with_indent_adds:
  assumes "ready a st" "spaced ks s"
  shows "adds a st ks (ss_write_with_indent s st)"
  using adds_trans [OF ss_indented_adds [OF assms(1)] adds_emit [OF adds_ready
        [OF ss_indented_adds [OF assms(1)]] assms(2)]]
  by (simp add: ss_write_with_indent_def adds_indented)

lemma ss_element_adds:
  assumes "ready a st" "child_writes a c t"
  shows "\<exists>st'. ss_element False i c st = Inr st' \<and> adds a st t st'"
proof -
  let ?st0 = "(if \<not> indented st then ss_write_indent st else st)\<lparr>indented := True\<rparr>"
  have 0: "adds a st [] ?st0" using ss_indented_adds [OF assms(1)] by (simp add: adds_indented)
  obtain st1 where "snd c ?st0 = Inr st1" "adds a ?st0 t st1"
    using child_writesD [OF assms(2) adds_ready [OF 0]] by auto
  then show ?thesis using adds_trans [OF 0, of t st1] by (simp add: ss_element_def adds_indented)
qed

lemma ss_class:
  assumes "list_all white_char i"
  shows "styled_class False ss_write_with_indent (ss_indent i) (ss_unindent i) ss_comment_before
    ss_comment_after ss_element ss_member value_to_quoted_cstring leaf_of is_multiline_array
    ''[ '' '' ]'' '', '' (ss_write_array_value i) (ss_write_object_value i) (ss_write_value i)"
proof unfold_locales
  fix st st' :: wstate and s k :: string and t :: "string list" and c :: child and v :: json and j :: nat
  show "childValues (ss_write_with_indent s st) = childValues st"
    by (simp add: ss_write_with_indent_def ss_write_indent_def)
  show "document (ss_indent i st) = document st \<and> childValues (ss_indent i st) = childValues st"
    by (simp add: ss_indent_def)
  show "indentString st' = indentString (ss_indent i st) \<Longrightarrow>
      ss_unindent i st' = Inr (st'\<lparr>indentString := indentString st\<rparr>)"
    by (simp add: ss_indent_def ss_unindent_def)
  show "childValues (ss_comment_after v st) = childValues st"
    by (simp add: ss_comment_after_def ss_write_indent_def Let_def)
  show "child_value j st = Inr s \<Longrightarrow> ss_element True j c st = Inr (ss_write_with_indent s st)"
    by (simp add: ss_element_def)
  assume r: "ready False st"
  show "ready False (ss_indent i st)"
    using r assms by (simp add: ready_def ss_indent_def)
  assume c: "child_writes False c t"
  let ?q = "value_to_quoted_cstring k"
  note a1 = ss_with_indent_adds [OF r spaced_one [of ?q]]
  have a2: "adds False st [?q, '':''] (emit '' : '' (ss_write_with_indent ?q st))"
    using adds_trans [OF a1 adds_emit [OF adds_ready [OF a1] spaced_symbols(4)]] by simp
  from child_writesD [OF c adds_ready [OF a2]] adds_trans [OF a2]
  show "\<exists>st'. ss_member k c st = Inr st' \<and> adds False st (?q # '':'' # t) st'"
    by (fastforce simp: ss_member_def)
next
  fix v :: json and st :: wstate
  assume n: "no_comment v"
  show "ss_comment_before v st = st" using no_commentD [OF n] by (simp add: ss_comment_before_def)
  show "ready False st \<Longrightarrow> adds False st [] (ss_comment_after v st)"
    using no_commentD [OF n] by (simp add: ss_comment_after_def adds_indented adds_refl)
next
  fix sz :: uint32 and children :: "child list" and ts :: "string list list" and st :: wstate
  assume "list_all2 (child_writes False) children ts" "ready False st" "children \<noteq> []"
  then show "\<exists>b vs. is_multiline_array sz children st = Inr (b, st\<lparr>childValues := vs\<rparr>) \<and>
      (False \<longrightarrow> vs = []) \<and> (vs = [] \<and> b \<or> ts = map (\<lambda>t. [t]) vs \<and> list_all (\<lambda>c. \<not> complex_value (fst c)) children)"
    using is_multiline_array_cases by simp
next
  fix v :: json
  assume "\<not> is_array v" "\<not> is_object v"
  then show "ss_write_value i v = (\<lambda>st. Inr (push_value (leaf_of v) st))"
    by (cases v) (simp_all add: leaf_of_def is_array_def is_object_def null_text_def fast_writer_default_def)
next
  show "ss_write_value i (JArr mt m) = ss_write_array_value i (size_of (JArr mt m))
      (array_children (unat (size_of (JArr mt m))) (null_singleton, \<lambda>st. Inr (push_value (leaf_of null_singleton) st))
        (map_snd (\<lambda>c. (c, ss_write_value i c)) m))" for mt m
    by (simp add: leaf_of_def is_array_def is_object_def null_singleton_def null_text_def
        fast_writer_default_def Let_def)
qed (simp_all add: ss_write_array_value_def ss_write_object_value_def spaced_symbols
    ss_with_indent_adds ss_element_adds)

lemma ss_write_adds:
  assumes "plain_value v" "list_all white_char i"
  shows "\<exists>st' t. ss_write i v st = Inr st' \<and> document st' = document st @ t \<and>
    spaced (value_tokens leaf_of value_to_quoted_cstring v) t"
proof -
  let ?st = "st\<lparr>addChildValues := False, indentString := [], indented := True\<rparr>"
  note c = ss_class [OF assms(2)]
  have n: "no_comment v" using assms(1) by (rule plain_value_here)
  have r: "ready False ?st" by (simp add: ready_def)
  obtain st1 where st1: "ss_write_value i v ?st = Inr st1"
    "adds False ?st (value_tokens leaf_of value_to_quoted_cstring v) st1"
    using child_writesD [OF styled_class.write_adds [OF c assms(1)] r] by auto
  have 2: "adds False st1 [] (ss_comment_after v st1)"
    using no_commentD [OF n] adds_ready [OF st1(2)] by (simp add: ss_comment_after_def adds_indented adds_refl)
  have 3: "adds False (ss_comment_after v st1) [] (emit [LF] (ss_comment_after v st1))"
    by (rule adds_white [OF adds_ready [OF 2]]) simp
  show ?thesis
    using adds_trans [OF st1(2) adds_trans [OF 2 3]] st1(1) no_commentD [OF n]
    by (simp add: ss_write_def ss_comment_before_def Let_def adds_def)
qed

section \<open>\<^verbatim>\<open>BuiltStyledStreamWriter\<close>\<close>

definition writer_ok :: "stream_writer \<Rightarrow> bool" where
  \<comment> \<open>the indentation is white space, the symbols are those the builder chooses\<close>
  "writer_ok w \<longleftrightarrow> list_all white_char (indentation w) \<and> nullSymbol w \<in> {[], ''null''} \<and>
     colonSymbol w \<in> {'' : '', '': '', '':''} \<and> endingLineFeedSymbol w = []"

definition stream_leaf :: "stream_writer \<Rightarrow> json \<Rightarrow> string" where
  "stream_leaf w v =
     (case v of
        JNull _ \<Rightarrow> nullSymbol w
      | JInt _ i \<Rightarrow> value_to_string_int i
      | JUInt _ u \<Rightarrow> value_to_string_uint u
      | JReal _ d \<Rightarrow> value_to_string_dbl_full d (useSpecialFloats w) (precision w) (precisionType w)
      | JStr _ s \<Rightarrow> value_to_quoted_string s (emitUTF8 w)
      | JBool _ b \<Rightarrow> value_to_string_bool b
      | _ \<Rightarrow> [])"

definition stream_name :: "stream_writer \<Rightarrow> string \<Rightarrow> string" where
  "stream_name w k = value_to_quoted_string k (emitUTF8 w)"

lemma stream_leaf_text:
  "writer_ok w \<Longrightarrow> token_text_ok (stream_leaf w v)"
  using strip_literal [of _ "emitUTF8 w"] strip_solid [OF solid_int] strip_solid [OF solid_uint]
    strip_solid [OF solid_bool] strip_solid [OF solid_dbl] strip_solid [of "''null''"]
  by (cases v) (auto simp: token_text_ok_def stream_leaf_def writer_ok_def solid_eval)

lemma colon_text: "writer_ok w \<Longrightarrow> spaced ['':''] (colonSymbol w)"
  by (auto simp: writer_ok_def spaced_symbols)

lemma bs_indented_adds:
  "ready a st \<Longrightarrow> adds a st [] (if \<not> indented st then bs_write_indent w st else st)"
  using adds_white [of a st "LF # indentString st"] indent_white [of a st]
  by (simp add: bs_write_indent_def adds_refl)

lemma bs_with_indent_adds:
  assumes "ready a st" "spaced ks s"
  shows "adds a st ks (bs_write_with_indent w s st)"
  using adds_trans [OF bs_indented_adds [OF assms(1), of w] adds_emit [OF adds_ready
        [OF bs_indented_adds [OF assms(1), of w]] assms(2)]]
  by (simp add: bs_write_with_indent_def adds_indented)

lemma bs_element_adds:
  assumes "ready a st" "child_writes a c t"
  shows "\<exists>st'. bs_element w False i c st = Inr st' \<and> adds a st t st'"
proof -
  let ?st0 = "(if \<not> indented st then bs_write_indent w st else st)\<lparr>indented := True\<rparr>"
  have 0: "adds a st [] ?st0" using bs_indented_adds [OF assms(1), of w] by (simp add: adds_indented)
  obtain st1 where "snd c ?st0 = Inr st1" "adds a ?st0 t st1"
    using child_writesD [OF assms(2) adds_ready [OF 0]] by auto
  then show ?thesis using adds_trans [OF 0, of t st1] by (simp add: bs_element_def adds_indented)
qed

abbreviation "keeps_all w \<equiv> commentStyle w = commentAll"

lemma emit_emit: "emit t (emit s st) = emit (s @ t) st"
  by (simp add: emit_def)

lemma bs_class:
  assumes w: "writer_ok w"
  shows "styled_class (keeps_all w) (bs_write_with_indent w) (bs_indent w) (bs_unindent w)
    (bs_comment_before w) (bs_comment_after w) (bs_element w) (bs_member w) (stream_name w)
    (stream_leaf w) (bs_is_multiline w)
    (''['' @ (if indentation w \<noteq> [] then '' '' else [])) ((if indentation w \<noteq> [] then '' '' else []) @ '']'')
    (if indentation w \<noteq> [] then '', '' else '','')
    (bs_write_array_value w) (bs_write_object_value w) (bs_write_value w)"
proof unfold_locales
  fix st st' :: wstate and s k :: string and t :: "string list" and c :: child and v :: json and j :: nat
  show "childValues (bs_write_with_indent w s st) = childValues st"
    by (simp add: bs_write_with_indent_def bs_write_indent_def)
  show "document (bs_indent w st) = document st \<and> childValues (bs_indent w st) = childValues st"
    by (simp add: bs_indent_def)
  show "indentString st' = indentString (bs_indent w st) \<Longrightarrow>
      bs_unindent w st' = Inr (st'\<lparr>indentString := indentString st\<rparr>)"
    by (simp add: bs_indent_def bs_unindent_def)
  show "childValues (bs_comment_after w v st) = childValues st"
    by (simp add: bs_comment_after_def bs_write_indent_def Let_def)
  show "child_value j st = Inr s \<Longrightarrow> bs_element w True j c st = Inr (bs_write_with_indent w s st)"
    by (simp add: bs_element_def)
  assume r: "ready (keeps_all w) st"
  show "ready (keeps_all w) (bs_indent w st)"
    using r w by (simp add: ready_def bs_indent_def writer_ok_def)
  assume c: "child_writes (keeps_all w) c t"
  let ?q = "stream_name w k"
  note a1 = bs_with_indent_adds [OF r spaced_one [of ?q], of w]
  have a2: "adds (keeps_all w) st [?q, '':''] (emit (colonSymbol w) (bs_write_with_indent w ?q st))"
    using adds_trans [OF a1 adds_emit [OF adds_ready [OF a1] colon_text [OF w]]] by simp
  from child_writesD [OF c adds_ready [OF a2]] adds_trans [OF a2]
  show "\<exists>st'. bs_member w k c st = Inr st' \<and> adds (keeps_all w) st (?q # '':'' # t) st'"
    by (fastforce simp: bs_member_def stream_name_def)
next
  fix v :: json and st :: wstate
  assume n: "no_comment v"
  show "bs_comment_before w v st = st" using no_commentD [OF n] by (simp add: bs_comment_before_def)
  have "bs_comment_after w v st = st" using no_commentD [OF n] by (simp add: bs_comment_after_def)
  then show "ready (keeps_all w) st \<Longrightarrow> adds (keeps_all w) st [] (bs_comment_after w v st)"
    by (simp only: adds_refl)
next
  fix sz :: uint32 and children :: "child list" and ts :: "string list list" and st :: wstate
  assume c: "list_all2 (child_writes (keeps_all w)) children ts" and r: "ready (keeps_all w) st"
    and n: "children \<noteq> []"
  show "\<exists>b vs. bs_is_multiline w sz children st = Inr (b, st\<lparr>childValues := vs\<rparr>) \<and>
      (keeps_all w \<longrightarrow> vs = []) \<and> (vs = [] \<and> b \<or> ts = map (\<lambda>t. [t]) vs \<and> list_all (\<lambda>c. \<not> complex_value (fst c)) children)"
  proof (cases "keeps_all w")
    case True
    then have "st\<lparr>childValues := []\<rparr> = st" using r by (simp add: ready_def)
    with True show ?thesis by (auto simp: bs_is_multiline_def)
  next
    case False
    then show ?thesis using is_multiline_array_cases [OF c r n] by (simp add: bs_is_multiline_def)
  qed
next
  fix v :: json
  assume "\<not> is_array v" "\<not> is_object v"
  then show "bs_write_value w v = (\<lambda>st. Inr (push_value (stream_leaf w v) st))"
    by (cases v) (simp_all add: stream_leaf_def is_array_def is_object_def)
next
  show "bs_write_value w (JArr mt m) = bs_write_array_value w (size_of (JArr mt m))
      (array_children (unat (size_of (JArr mt m))) (null_singleton, \<lambda>st. Inr (push_value (stream_leaf w null_singleton) st))
        (map_snd (\<lambda>c. (c, bs_write_value w c)) m))" for mt m
    by (simp add: stream_leaf_def null_singleton_def Let_def)
next
  show "bs_write_array_value w sz children st =
      (if sz = 0 then Inr (push_value ''[]'' st)
       else bind_res (bs_is_multiline w sz children st) (\<lambda>(b, st0).
         if b then
           (let st1 = bs_indent w (bs_write_with_indent w ''['' st0); hasChildValue = (childValues st1 \<noteq> [])
            in bind_res (comma_loop (bs_comment_before w) (bs_element w hasChildValue) (bs_comment_after w)
                 (zip [0..<length children] children) st1) (\<lambda>st2.
               bind_res (bs_unindent w st2) (\<lambda>st3. Inr (bs_write_with_indent w '']'' st3))))
         else if length (childValues st0) \<noteq> unat sz
         then Inl (AssertFail ''childValues_.size() == size'')
         else Inr (emit ((if indentation w \<noteq> [] then '' '' else []) @ '']'')
                (separated (if indentation w \<noteq> [] then '', '' else '','') (childValues st0) 0
                  (emit (''['' @ (if indentation w \<noteq> [] then '' '' else [])) st0)))))"
    for sz children st
    unfolding bs_write_array_value_def Let_def emit_emit by (rule refl)
qed (simp_all add: bs_write_object_value_def spaced_symbols bs_with_indent_adds bs_element_adds)

lemma bs_write_adds:
  assumes "plain_value v" "writer_ok w" "keeps_all w \<longrightarrow> childValues st = []"
  shows "\<exists>st' t. bs_write w v st = Inr st' \<and> document st' = document st @ t \<and>
    spaced (value_tokens (stream_leaf w) (stream_name w) v) t"
proof -
  let ?st = "st\<lparr>addChildValues := False, indentString := [], indented := True\<rparr>"
  note c = bs_class [OF assms(2)]
  have n: "no_comment v" using assms(1) by (rule plain_value_here)
  have r: "ready (keeps_all w) ?st" using assms(3) by (simp add: ready_def)
  obtain st1 where st1: "bs_write_value w v ?st = Inr st1"
    "adds (keeps_all w) ?st (value_tokens (stream_leaf w) (stream_name w) v) st1"
    using child_writesD [OF styled_class.write_adds [OF c assms(1)] r] by auto
  have "emit [] x = x" for x :: wstate by (simp add: emit_def)
  then show ?thesis
    using st1 no_commentD [OF n] assms(2)
    by (simp add: bs_write_def bs_comment_before_def bs_comment_after_def Let_def adds_def writer_ok_def ready_def)
qed

section \<open>The text of the fast writer\<close>

fun names_all :: "(string \<Rightarrow> bool) \<Rightarrow> json \<Rightarrow> bool" where
  \<comment> \<open>all member names at any depth\<close>
  "names_all P (JArr _ m) = (\<forall>v \<in> snd ` set m. names_all P v)"
| "names_all P (JObj _ m) = ((\<forall>v \<in> snd ` set m. names_all P v) \<and> (\<forall>k \<in> fst ` set m. P k))"
| "names_all P _ = True"

lemma names_all_mono: "(\<And>k. P k \<Longrightarrow> Q k) \<Longrightarrow> names_all P v \<Longrightarrow> names_all Q v"
  by (induction v) auto

lemma names_all_all: "(\<And>k. P k) \<Longrightarrow> names_all P v"
  by (induction v) auto

lemma cstring_name: "NUL \<notin> set k \<Longrightarrow> value_to_quoted_cstring k = value_to_quoted_string k False"
proof -
  assume "NUL \<notin> set k"
  then have "takeWhile (\<lambda>c. c \<noteq> NUL) k = k" by (subst takeWhile_eq_all_conv) metis
  then show ?thesis by (simp only: value_to_quoted_cstring_def)
qed

lemma compact_fast:
  "wf_json v \<Longrightarrow> names_all (\<lambda>k. q k = value_to_quoted_string k False) v \<Longrightarrow>
   compact_text leaf_of q v = fw_write_value fast_writer_default v"
proof (induction v)
  case (JArr mt m)
  have "compact_text leaf_of q c = fw_write_value fast_writer_default c" if "om_find i m = Some c" for i c
    using JArr.IH [of "(i, c)" c] JArr.prems om_find_Some_in_set [OF that] by (force simp: wf_map_def)
  then have "(case om_find i (map_snd (compact_text leaf_of q) m) of
        None \<Rightarrow> leaf_of null_singleton | Some t \<Rightarrow> t) =
      (case om_find i (map_snd (fw_write_value fast_writer_default) m) of
        None \<Rightarrow> null_text fast_writer_default | Some t \<Rightarrow> t)" for i
    by (cases "om_find i m")
      (simp_all add: om_find_map_snd leaf_of_def is_array_def is_object_def null_singleton_def)
  then show ?case by (simp only: compact_text.simps fw_write_value.simps Let_def)
next
  case (JObj mt m)
  have sorted: "om_sorted m" using JObj.prems by (simp add: wf_map_def)
  have "q k @ '':'' @ compact_text leaf_of q c = value_to_quoted_string k False @ '':'' @
      (case om_find k (map_snd (fw_write_value fast_writer_default) m) of
         None \<Rightarrow> null_text fast_writer_default | Some t \<Rightarrow> t)" if "(k, c) \<in> set m" for k c
    using JObj.IH [of "(k, c)" c] JObj.prems that om_find_in_set [OF sorted that]
    by (force simp: om_find_map_snd wf_map_def)
  then have "map (\<lambda>(k, t). q k @ '':'' @ t) (map_snd (compact_text leaf_of q) m) =
      map (\<lambda>name. value_to_quoted_string name False @ '':'' @
        (case om_find name (map_snd (fw_write_value fast_writer_default) m) of
           None \<Rightarrow> null_text fast_writer_default | Some t \<Rightarrow> t)) (om_keys m)"
    by (auto simp: map_snd_def om_keys_def)
  moreover have "\<not> yamlCompatibilityEnabled fast_writer_default"
    by (simp add: fast_writer_default_def)
  ultimately show ?case by (simp add: Let_def)
qed (simp_all add: leaf_of_def is_array_def is_object_def)

lemma stream_leaf_default: "stream_leaf default_stream_writer v = leaf_of v"
  by (cases v) (simp_all add: stream_leaf_def leaf_of_def default_stream_writer_def is_array_def
      is_object_def null_text_def fast_writer_default_def value_to_string_dbl_def default_real_precision_def)

lemma default_writer_ok: "writer_ok default_stream_writer"
  by (simp add: writer_ok_def default_stream_writer_def)

lemma compact_default:
  assumes "wf_json v"
  shows "compact_text (stream_leaf default_stream_writer) (stream_name default_stream_writer) v =
    fw_write_value fast_writer_default v"
proof -
  have l: "stream_leaf default_stream_writer = leaf_of" by (rule ext) (rule stream_leaf_default)
  have q: "stream_name default_stream_writer k = value_to_quoted_string k False" for k
    by (simp add: stream_name_def default_stream_writer_def)
  show ?thesis unfolding l by (rule compact_fast [OF assms]) (rule names_all_all, rule q)
qed

section \<open>The tokens stripped of white space\<close>

lemma joint_all: "(\<And>ks. ks \<in> set kss \<Longrightarrow> list_all P ks) \<Longrightarrow> P '','' \<Longrightarrow> list_all P (joint kss)"
  by (induction kss rule: joint.induct) auto

lemma value_tokens_all:
  assumes "\<And>v. P (leaf v)" "\<And>k. P (q k)" "\<And>k. k \<in> {''['', '']'', ''{'', ''}'', '','', '':'', ''[]'', ''{}''} \<Longrightarrow> P k"
  shows "list_all P (value_tokens leaf q v)"
proof (induction v)
  case (JArr mt m)
  have "list_all P (case om_find i (map_snd (value_tokens leaf q) m) of None \<Rightarrow> [leaf null_singleton] | Some ks \<Rightarrow> ks)" for i
    using JArr om_find_Some_in_set [of i m] assms(1) by (force simp: om_find_map_snd split: option.split)
  then show ?case using assms(3) by (auto simp: Let_def intro!: joint_all simp del: size_of.simps)
next
  case (JObj mt m)
  then have "list_all P ks" if "(k, ks) \<in> set (map_snd (value_tokens leaf q) m)" for k ks
    using that by (force simp: map_snd_def)
  then show ?case using assms(2,3) by (auto intro!: joint_all)
qed (simp_all add: assms(1))

lemma symbols_ok: "k \<in> {''['', '']'', ''{'', ''}'', '','', '':'', ''[]'', ''{}''} \<Longrightarrow> token_text_ok k"
  by (auto simp: token_text_ok_def)

lemma spaced_compact:
  assumes "spaced (value_tokens leaf q v) t" "\<And>v. token_text_ok (leaf v)" "\<And>k. token_text_ok (q k)"
  shows "closed_text t \<and> strip False t = compact_text leaf q v"
  using spaced_strip [OF assms(1) value_tokens_all [OF assms(2,3) symbols_ok]] by (simp add: concat_tokens)

lemma names_text_ok: "token_text_ok (value_to_quoted_cstring k)" "token_text_ok (stream_name w k)"
  by (simp_all add: token_text_ok_def value_to_quoted_cstring_def stream_name_def strip_literal)

lemma styled_string_spaced:
  assumes "plain_value v"
  shows "\<exists>t. to_styled_string v = Inr t \<and>
    spaced (value_tokens (stream_leaf default_stream_writer) (stream_name default_stream_writer) v) t"
proof -
  obtain b where b: "stream_writer_builder = Inr b" "new_stream_writer b = Inr default_stream_writer"
    using default_writer by (auto simp: bind_res_Inr_iff)
  obtain st where st: "bs_write default_stream_writer v new_writer = Inr st"
    "spaced (value_tokens (stream_leaf default_stream_writer) (stream_name default_stream_writer) v) (document st)"
    using bs_write_adds [OF assms default_writer_ok, of new_writer] by (auto simp: new_writer_def)
  have n: "\<not> has_comment v commentBefore" using no_commentD plain_value_here assms by blast
  have "to_styled_string v = Inr (document st @ [LF])"
    unfolding to_styled_string_def write_string_def b(1) bind_res_simps b(2) st(1) using n by simp
  with spaced_trailing [OF st(2), of "[LF]"] show ?thesis by simp
qed

lemma styled_string_text:
  assumes "plain_value v" "wf_json v"
  shows "\<exists>t. to_styled_string v = Inr t \<and> strip False t = fw_write_value fast_writer_default v"
  using styled_string_spaced [OF assms(1)] spaced_compact stream_leaf_text [OF default_writer_ok] names_text_ok(2)
    compact_default [OF assms(2)] by metis

end
