(* ===== verification/Json_Layout.thy ===== *)
theory Json_Layout
  imports Json_Styled_Classes
begin

text \<open>
  What the styled writers write, for whole documents: up to white space outside of string
  literals, the text of the fast writer. A value is \<open>plain_value\<close> if it carries no comments and
  no object has \<open>2^32\<close> members; on such a value no assertion fails and no access to the
  texts collected for an array is out of range.
\<close>

text \<open>A value to show the theorems on.\<close>

definition layout_demo :: json where
  "layout_demo = JObj meta0
     [(''a'', JArr meta0 [(0, JInt meta0 1), (1, JArr meta0 []), (3, JStr meta0 ''x y'')]),
      (''b'', JObj meta0 [(''c'', JBool meta0 True)])]"

lemma layout_demo_ok:
  "plain_value layout_demo" "wf_json layout_demo" "names_all (\<lambda>k. NUL \<notin> set k) layout_demo"
  by (simp_all add: layout_demo_def no_comment_def has_comment_for_value_def has_comment_def
      comments_has_def meta0_def wf_map_def keys_ok_def)

lemma layout_demo_text:
  \<open>fw_write_value fast_writer_default layout_demo = ''{"a":[1,[],null,"x y"],"b":{"c":true}}''\<close>
  by code_simp

text \<open>C28: \<^verbatim>\<open>StyledWriter\<close> and \<^verbatim>\<open>StyledStreamWriter\<close>, the latter with any white space as
  indentation, write every value without comments whose names contain no NUL, and what they
  write is the text of the fast writer up to white space between the literals.\<close>

theorem styled_writers_text:
  assumes "plain_value v" "wf_json v" "names_all (\<lambda>k. NUL \<notin> set k) v" "list_all white_char i"
  shows "(\<exists>st'. sw_write v st = Inr st' \<and> strip False (document st') = fw_write_value fast_writer_default v) \<and>
    (\<exists>st'. ss_write i v new_writer = Inr st' \<and> strip False (document st') = fw_write_value fast_writer_default v)"
proof -
  have "names_all (\<lambda>k. value_to_quoted_cstring k = value_to_quoted_string k False) v"
    using cstring_name assms(3) by (rule names_all_mono)
  from compact_fast [OF assms(2) this]
  have c: "compact_text leaf_of value_to_quoted_cstring v = fw_write_value fast_writer_default v" .
  show ?thesis
    using sw_write_adds [OF assms(1), of st] ss_write_adds [OF assms(1,4), of new_writer]
      spaced_compact [OF _ leaf_of_text names_text_ok(1)] by (auto simp: new_writer_def simp flip: c)
qed

theorem styled_writers_text_witness:
  \<open>(\<exists>st'. sw_write layout_demo new_writer = Inr st' \<and>
      strip False (document st') = ''{"a":[1,[],null,"x y"],"b":{"c":true}}'') \<and>
   (\<exists>st'. ss_write '' '' layout_demo new_writer = Inr st' \<and>
      strip False (document st') = ''{"a":[1,[],null,"x y"],"b":{"c":true}}'')\<close>
  using styled_writers_text [OF layout_demo_ok, of "'' ''" new_writer] unfolding layout_demo_text
  by simp

text \<open>C29: \<^verbatim>\<open>Value::toStyledString\<close> and \<^verbatim>\<open>operator<<\<close> return for every value without comments,
  and what they write is the text of the fast writer up to white space between the
  literals.\<close>

theorem styled_string_is_value_text:
  assumes "plain_value v" "wf_json v"
  shows "(\<exists>t. to_styled_string v = Inr t \<and> strip False t = fw_write_value fast_writer_default v) \<and>
    (\<exists>t. write_stream [] v = Inr t \<and> strip False t = fw_write_value fast_writer_default v)"
proof
  show "\<exists>t. to_styled_string v = Inr t \<and> strip False t = fw_write_value fast_writer_default v"
    by (rule styled_string_text [OF assms])
  obtain b where b: "stream_writer_builder = Inr b" "new_stream_writer b = Inr default_stream_writer"
    using default_writer by (auto simp: bind_res_Inr_iff)
  have n: "new_writer\<lparr>document := []\<rparr> = new_writer" by (simp add: new_writer_def)
  obtain st where st: "bs_write default_stream_writer v new_writer = Inr st"
    "strip False (document st) = fw_write_value fast_writer_default v"
    using bs_write_adds [OF assms(1) default_writer_ok, of new_writer] compact_default [OF assms(2)]
      spaced_compact [OF _ stream_leaf_text [OF default_writer_ok] names_text_ok(2)]
    by (fastforce simp: new_writer_def)
  have "write_stream [] v = Inr (document st)"
    unfolding write_stream_def b(1) bind_res_simps b(2) n st(1) by simp
  with st(2) show "\<exists>t. write_stream [] v = Inr t \<and> strip False t = fw_write_value fast_writer_default v"
    by blast
qed

theorem styled_string_is_value_text_witness:
  \<open>\<exists>t. to_styled_string layout_demo = Inr t \<and> strip False t = ''{"a":[1,[],null,"x y"],"b":{"c":true}}''\<close>
  using styled_string_is_value_text [OF layout_demo_ok(1,2), THEN conjunct1] unfolding layout_demo_text .

lemma new_writer_ok:
  assumes "new_stream_writer s = Inr w" "list_all white_char (indentation w)"
  shows "writer_ok w"
proof -
  obtain ind style eyc dnp usf utf8 pre pt where w: "w =
      \<lparr>indentation = ind, commentStyle = style,
       colonSymbol = (if eyc then '': '' else if ind = [] then '':'' else '' : ''),
       nullSymbol = (if dnp then [] else ''null''), endingLineFeedSymbol = [],
       useSpecialFloats = usf, emitUTF8 = utf8, precision = pre, precisionType = pt\<rparr>"
    using assms(1) by (auto simp: new_stream_writer_def bind_res_Inr_iff)
  show ?thesis
    using assms(2) unfolding w by (cases eyc; cases dnp; cases "ind = []") (simp_all add: writer_ok_def)
qed

text \<open>C30: For whatever settings of \<^verbatim>\<open>StreamWriterBuilder\<close> that give a writer and indent by white
  space, \<^verbatim>\<open>writeString\<close> returns, and its text is, up to white space between the literals, the
  compact text with the null symbol, the number format and the UTF-8 mode of the settings.\<close>

theorem write_string_text:
  assumes "plain_value v" "new_stream_writer s = Inr w" "list_all white_char (indentation w)"
  shows "\<exists>t. write_string s v = Inr t \<and> strip False t = compact_text (stream_leaf w) (stream_name w) v"
proof -
  note ok = new_writer_ok [OF assms(2,3)]
  obtain st where "bs_write w v new_writer = Inr st"
    "strip False (document st) = compact_text (stream_leaf w) (stream_name w) v"
    using bs_write_adds [OF assms(1), of w new_writer] ok spaced_compact [OF _ stream_leaf_text [OF ok] names_text_ok(2)]
    by (fastforce simp: new_writer_def)
  then show ?thesis by (simp add: write_string_def assms(2))
qed

text \<open>The settings of the instance: no indentation, no comments, nulls dropped.\<close>

definition compact_settings :: json where
  "compact_settings = JObj meta0
     [(''commentStyle'', JStr meta0 ''None''), (''dropNullPlaceholders'', JBool meta0 True),
      (''emitUTF8'', JBool meta0 False), (''enableYAMLCompatibility'', JBool meta0 False),
      (''indentation'', JStr meta0 []), (''precision'', JInt meta0 5),
      (''precisionType'', JStr meta0 ''significant''), (''useSpecialFloats'', JBool meta0 False)]"

definition compact_writer :: stream_writer where
  "compact_writer =
     \<lparr>indentation = [], commentStyle = commentNone, colonSymbol = '':'', nullSymbol = [],
      endingLineFeedSymbol = [], useSpecialFloats = False, emitUTF8 = False, precision = 5,
      precisionType = significantDigits\<rparr>"

lemma compact_writer_made: "new_stream_writer compact_settings = Inr compact_writer"
  by code_simp

lemma compact_demo:
  \<open>compact_text (stream_leaf compact_writer) (stream_name compact_writer) layout_demo =
     ''{"a":[1,[],,"x y"],"b":{"c":true}}''\<close>
  by code_simp

theorem write_string_text_witness:
  \<open>\<exists>t. write_string compact_settings layout_demo = Inr t \<and>
     strip False t = ''{"a":[1,[],,"x y"],"b":{"c":true}}''\<close>
  using write_string_text [OF layout_demo_ok(1) compact_writer_made] unfolding compact_demo
  by (simp add: compact_writer_def)

end
