(* ===== verification/Json_Styled_Roundtrip.thy ===== *)
theory Json_Styled_Roundtrip
  imports Json_Layout Json_Roundtrip
begin

text \<open>
  What the styled writers write is in the grammar of JSON, so the reader reads it back: the
  tokens of a value with white space between them are a text of the value, with white
  space around it.
\<close>

section \<open>Tokens in the grammar\<close>

definition wrapped :: "nat \<Rightarrow> json \<Rightarrow> string \<Rightarrow> bool" where
  \<comment> \<open>a text of the value with white space around\<close>
  "wrapped d v s \<longleftrightarrow> (\<exists>w1 t w2. s = w1 @ t @ w2 \<and> white_text w1 \<and> white_text w2 \<and> value_text d v t)"

lemma white_text_append [simp]: "white_text (s @ t) \<longleftrightarrow> white_text s \<and> white_text t"
  by (simp add: white_text_def)

lemma spaced_Cons_split: "spaced (k # ks) s \<Longrightarrow> \<exists>w t. s = w @ k @ t \<and> white_text w \<and> spaced ks t"
  by (auto elim!: spaced_ConsE simp: white_text_def)

lemma spaced_append_split: "spaced (ks @ ls) s \<Longrightarrow> \<exists>t u. s = t @ u \<and> spaced ks t \<and> spaced ls u"
proof (induction ks arbitrary: s)
  case Nil
  then show ?case by (intro exI [of _ "[]"] exI [of _ s]) simp
next
  case (Cons k ks)
  then obtain w t where s: "s = w @ k @ t" "white_text w" "spaced (ks @ ls) t"
    using spaced_Cons_split [of k "ks @ ls" s] by auto
  then obtain t1 u where "t = t1 @ u" "spaced ks t1" "spaced ls u" using Cons.IH by blast
  moreover have "spaced (k # ks) (w @ k @ t1)"
    using s(2) \<open>spaced ks t1\<close> by (intro token) (simp_all add: white_text_def)
  ultimately show ?case using s(1) by (intro exI [of _ "w @ k @ t1"] exI [of _ u]) simp
qed

lemma wrapped_trailing: "wrapped d v s \<Longrightarrow> white_text w \<Longrightarrow> wrapped d v (s @ w)"
  unfolding wrapped_def by (metis append.assoc white_text_append)

lemma wrapped_one: "spaced [k] s \<Longrightarrow> value_text d v k \<Longrightarrow> wrapped d v s"
  unfolding wrapped_def using spaced_Cons_split [of k "[]" s] by (auto simp: white_text_def)

lemma elements_spaced:
  assumes "list_all2 (\<lambda>ks v. \<forall>s. spaced ks s \<longrightarrow> wrapped d v s) kss vs" "kss \<noteq> []"
    "spaced (joint kss) s" "white_text w"
  shows "elements_text d vs (s @ w)"
  using assms(1-3)
proof (induction kss vs arbitrary: s rule: list_all2_induct)
  case (Cons ks kss v vs)
  show ?case
  proof (cases "kss = []")
    case True
    then have "wrapped d v (s @ w)" "vs = []"
      using Cons.hyps Cons.prems wrapped_trailing assms(4) by auto
    then show ?thesis by (auto simp: wrapped_def intro!: element)
  next
    case False
    then have "spaced (ks @ '','' # joint kss) s" using Cons.prems(2) by (simp add: joint_Cons)
    then obtain s1 w1 s2 where s: "s = s1 @ w1 @ '','' @ s2" "spaced ks s1" "white_text w1" "spaced (joint kss) s2"
      using spaced_append_split spaced_Cons_split by metis
    have "wrapped d v (s1 @ w1)" using Cons.hyps(1) s(2,3) wrapped_trailing by blast
    then obtain w2 t w3 where t: "s1 @ w1 = w2 @ t @ w3" "white_text w2" "white_text w3" "value_text d v t"
      by (auto simp: wrapped_def)
    have "s @ w = w2 @ t @ w3 @ CHR '','' # (s2 @ w)" using s(1) t(1) by (metis append.assoc append_Cons append_Nil)
    then show ?thesis using elements [OF t(2,4,3) Cons.IH [OF False s(4)]] by simp
  qed
qed simp

definition name_text :: "string \<Rightarrow> string \<Rightarrow> bool" where
  "name_text k q \<longleftrightarrow> length k < 2 ^ 30 \<and> (\<exists>b. q = DQ # b @ [DQ] \<and> literal_text k b)"

lemma members_spaced:
  assumes "\<And>k v. (k, v) \<in> set xs \<Longrightarrow> name_text k (q k) \<and> (\<forall>s. spaced (h v) s \<longrightarrow> wrapped d (g v) s)"
    "xs \<noteq> []" "spaced (joint (map (\<lambda>(k, v). q k # '':'' # h v) xs)) s" "white_text w"
  shows "members_text d (map_snd g xs) (s @ w)"
  using assms(1-3)
proof (induction xs arbitrary: s)
  case (Cons x xs)
  obtain k v where x: "x = (k, v)" by (cases x)
  obtain b where k: "length k < 2 ^ 30" "q k = DQ # b @ [DQ]" "literal_text k b"
    using Cons.prems(1) [of k v] by (auto simp: x name_text_def)
  have "spaced ((q k # '':'' # h v) @ (if xs = [] then [] else '','' # joint (map (\<lambda>(k, v). q k # '':'' # h v) xs))) s"
    using Cons.prems(3) by (simp add: x joint_Cons)
  then obtain s1 s2 where s: "s = s1 @ s2" "spaced (q k # '':'' # h v) s1"
      "spaced (if xs = [] then [] else '','' # joint (map (\<lambda>(k, v). q k # '':'' # h v) xs)) s2"
    using spaced_append_split by blast
  obtain w1 w2 s3 where s1: "s1 = w1 @ q k @ w2 @ '':'' @ s3" "white_text w1" "white_text w2" "spaced (h v) s3"
    using s(2) spaced_Cons_split by metis
  have v: "wrapped d (g v) s3" using Cons.prems(1) [of k v] s1(4) by (auto simp: x)
  show ?case
  proof (cases "xs = []")
    case True
    then have "white_text s2" using s(3) by (simp add: white_text_def)
    then have "wrapped d (g v) (s3 @ s2 @ w)" using wrapped_trailing [OF v] assms(4) by simp
    then obtain w3 t w4 where t: "s3 @ s2 @ w = w3 @ t @ w4" "white_text w3" "white_text w4" "value_text d (g v) t"
      by (auto simp: wrapped_def)
    have "s @ w = w1 @ DQ # b @ DQ # w2 @ CHR '':'' # w3 @ t @ w4"
      using t(1) by (simp add: s(1) s1(1) k(2))
    then show ?thesis using member [OF s1(2) k(3,1) s1(3) t(2,4,3)] True by (simp add: x)
  next
    case False
    then have "spaced ('','' # joint (map (\<lambda>(k, v). q k # '':'' # h v) xs)) s2" using s(3) by simp
    then obtain w5 s4 where s2: "s2 = w5 @ '','' @ s4" "white_text w5"
        "spaced (joint (map (\<lambda>(k, v). q k # '':'' # h v) xs)) s4"
      using spaced_Cons_split by blast
    have "wrapped d (g v) (s3 @ w5)" using wrapped_trailing [OF v s2(2)] .
    then obtain w3 t w4 where t: "s3 @ w5 = w3 @ t @ w4" "white_text w3" "white_text w4" "value_text d (g v) t"
      by (auto simp: wrapped_def)
    have "s3 @ w5 @ CHR '','' # s4 @ w = w3 @ t @ w4 @ CHR '','' # s4 @ w"
      using t(1) by (metis append.assoc)
    then have "s @ w = w1 @ DQ # b @ DQ # w2 @ CHR '':'' # w3 @ t @ w4 @ CHR '','' # (s4 @ w)"
      by (simp add: s(1) s1(1) k(2) s2(1))
    moreover have "members_text d (map_snd g xs) (s4 @ w)"
      by (rule Cons.IH [OF _ False s2(3)]) (use Cons.prems(1) in auto)
    ultimately show ?thesis using members [OF s1(2) k(3,1) s1(3) t(2,4,3)] by (simp add: x)
  qed
qed simp

text \<open>What a writer has to do for leaves and names.\<close>

definition writes_json :: "(json \<Rightarrow> string) \<Rightarrow> (string \<Rightarrow> string) \<Rightarrow> json \<Rightarrow> bool" where
  "writes_json leaf q v \<longleftrightarrow> names_all (\<lambda>k. valid_utf8 k \<and> length k < 2 ^ 30 \<longrightarrow> name_text k (q k)) v \<and>
     (\<forall>u d. readable u \<longrightarrow> \<not> is_array u \<longrightarrow> \<not> is_object u \<longrightarrow> value_text (Suc d) (canon u) (leaf u))"

lemma leaf_wrapped:
  assumes "writes_json leaf q u" "readable u" "levels u \<le> d" "spaced (value_tokens leaf q u) s"
    "\<not> is_array u" "\<not> is_object u"
  shows "wrapped d (canon u) s"
proof -
  obtain d' where d: "d = Suc d'" using assms(3) levels_positive [of u] by (cases d) auto
  have "value_text d (canon u) (leaf u)" using assms(1,2,5,6) unfolding writes_json_def d by blast
  moreover have "value_tokens leaf q u = [leaf u]"
    using assms(5,6) by (cases u) (simp_all add: is_array_def is_object_def)
  ultimately show ?thesis using wrapped_one assms(4) by simp
qed

theorem tokens_in_grammar:
  assumes "writes_json leaf q v" "readable v" "wf_json v" "levels v \<le> d" "spaced (value_tokens leaf q v) s"
  shows "wrapped d (canon v) s"
  using assms
proof (induction v arbitrary: d s rule: canon.induct)
  case (2 mt m)
  from "2.prems"(4) obtain d' where d: "d = Suc d'" by (cases d) auto
  let ?n = "unat (size_of (JArr mt m))"
  let ?v = "\<lambda>i. case om_find (of_nat i) (map_snd canon m) of None \<Rightarrow> JNull meta0 | Some c \<Rightarrow> c"
  let ?t = "\<lambda>i. case om_find (of_nat i) (map_snd (value_tokens leaf q) m) of
      None \<Rightarrow> [leaf null_singleton] | Some ks \<Rightarrow> ks"
  show ?case
  proof (cases "size_of (JArr mt m) = 0")
    case True
    then have "canon (JArr mt m) = JArr meta0 []" "spaced [''[]''] s"
      using "2.prems"(5) by (simp_all add: Let_def del: size_of.simps)
    then show ?thesis using wrapped_one [of "''[]''" s d] empty_array [OF white_Nil, of d'] by (simp add: d)
  next
    case False
    then have n: "?n \<noteq> 0" by (simp add: unat_eq_zero del: size_of.simps)
    have elem: "wrapped d' (?v i) u" if u: "spaced (?t i) u" for i u
    proof (cases "om_find (of_nat i :: uint32) m")
      case None
      from False obtain k v where kv: "(k, v) \<in> set m" by (cases m) auto
      with 2 have "levels v \<le> d'" by (intro levels_member) (auto simp: d)
      then obtain d'' where d2: "d' = Suc d''" using levels_positive [of v] by (cases d') auto
      have "value_text d' (JNull meta0) (leaf null_singleton)"
        using "2.prems"(1) d2 by (auto simp: writes_json_def null_singleton_def is_array_def is_object_def
            dest!: spec [of _ "JNull meta0"])
      then show ?thesis using u wrapped_one by (simp add: om_find_map_snd None)
    next
      case (Some v)
      then have kv: "(of_nat i, v) \<in> set m" by (rule om_find_Some_in_set)
      then have "readable v" "wf_json v" "levels v \<le> d'" "writes_json leaf q v"
        using "2.prems" levels_member [OF kv, of d']
        by (auto simp: d map_snd_def list_all_iff wf_map_def writes_json_def)
      then show ?thesis using "2.IH" [OF kv] u by (simp add: om_find_map_snd Some)
    qed
    have all: "list_all2 (\<lambda>ks v. \<forall>s. spaced ks s \<longrightarrow> wrapped d' v s) (map ?t [0..<?n]) (map ?v [0..<?n])"
      using elem by (simp add: list_all2_conv_all_nth)
    have "spaced (''['' # joint (map ?t [0..<?n]) @ ['']'']) s"
      using "2.prems"(5) False by (simp add: Let_def del: size_of.simps)
    then obtain w1 s1 w2 w3 where s: "s = w1 @ ''['' @ s1 @ w2 @ '']'' @ w3" "white_text w1" "white_text w2"
        "white_text w3" "spaced (joint (map ?t [0..<?n])) s1"
      by (auto dest!: spaced_Cons_split spaced_append_split simp: white_text_def)
    have "elements_text d' (map ?v [0..<?n]) (s1 @ w2)"
      using n by (intro elements_spaced [OF all _ s(5,3)]) simp
    then have "value_text d (canon (JArr mt m)) (CHR ''['' # (s1 @ w2) @ '']'')"
      using array [of d' "map ?v [0..<?n]" "s1 @ w2"] "2.prems"(2) by (simp add: d Let_def del: size_of.simps)
    moreover have "s = w1 @ (CHR ''['' # (s1 @ w2) @ '']'') @ w3" by (simp add: s(1))
    ultimately show ?thesis using s(2,4) unfolding wrapped_def by blast
  qed
next
  case (3 mt m)
  from "3.prems"(4) obtain d' where d: "d = Suc d'" by (cases d) auto
  have sorted: "om_sorted m" using "3.prems"(3) by (simp add: wf_map_def)
  show ?case
  proof (cases "m = []")
    case True
    then show ?thesis
      using "3.prems"(5) wrapped_one [of "''{}''" s d] empty_object [OF white_Nil, of d'] by (simp add: d)
  next
    case False
    have kv: "name_text k (q k) \<and> (\<forall>s. spaced (value_tokens leaf q v) s \<longrightarrow> wrapped d' (canon v) s)"
      if "(k, v) \<in> set m" for k v
    proof -
      have l: "levels v \<le> d'" using "3.prems"(4) levels_member [OF that, of d'] by (simp add: d)
      have v: "readable v" "wf_json v" "valid_utf8 k" "length k < 2 ^ 30" "writes_json leaf q v"
        using "3.prems"(1-3) that
        by (auto simp: map_snd_def list_all_iff wf_map_def keys_ok_def writes_json_def)
      have "k \<in> fst ` set m" using that by force
      then have "name_text k (q k)" using "3.prems"(1) v(3,4) unfolding writes_json_def names_all.simps by blast
      then show ?thesis using "3.IH" [OF that v(5,1,2) l] by simp
    qed
    let ?ks = "joint (map (\<lambda>(k, v). q k # '':'' # value_tokens leaf q v) m)"
    have "spaced (''{'' # ?ks @ [''}'']) s"
      using "3.prems"(5) False by (simp add: map_snd_def case_prod_unfold comp_def)
    then obtain w1 s1 w2 w3 where s: "s = w1 @ ''{'' @ s1 @ w2 @ ''}'' @ w3" "white_text w1" "white_text w2"
        "white_text w3" "spaced ?ks s1"
      by (auto dest!: spaced_Cons_split spaced_append_split simp: white_text_def)
    have "members_text d' (map_snd canon m) (s1 @ w2)"
      by (rule members_spaced [OF kv False s(5,3)])
    then have "value_text d (canon (JObj mt m)) (CHR ''{'' # (s1 @ w2) @ ''}'')"
      using object [of d' "map_snd canon m" "s1 @ w2"] fold_put_sorted [of "[]" "map_snd canon m"] sorted by (simp add: d)
    moreover have "s = w1 @ (CHR ''{'' # (s1 @ w2) @ ''}'') @ w3" by (simp add: s(1))
    ultimately show ?thesis using s(2,4) unfolding wrapped_def by blast
  qed
qed (rule leaf_wrapped, assumption, assumption, assumption, assumption; simp add: is_array_def is_object_def)+

section \<open>Literals with and without UTF-8\<close>

text \<open>With \<^verbatim>\<open>emitUTF8\<close> every string is read back, well-formed or not: bytes are copied or escaped
  one by one.\<close>

lemma utf8_loop_literal: "literal_text s (quote_loop True s)"
proof (induction s)
  case (Cons c s)
  have "byte c < 256" by simp
  then have u: "unat (u8 c) = byte c" "wchr (u8 c) = c" by (simp_all add: unat_u8 wchr_def)
  consider "c \<in> set special_chars" | "c \<notin> set special_chars" "byte c < 0x20" | "c \<notin> set special_chars" "\<not> byte c < 0x20"
    by blast
  then show ?case
  proof cases
    case 1
    then have "quote_loop True (c # s) = [BSL, escape_letter c] @ quote_loop True s"
      by (auto simp: special_chars_def escape_letter_def quote_loop.simps(2))
    then show ?thesis using literal_append [OF special_literal [OF 1] Cons.IH] by simp
  next
    case 2
    then have q: "quote_loop True (c # s) = append_hex (u8 c) @ quote_loop True s"
      using u by (simp add: special_chars_def quote_loop.simps(2) word_less_nat_alt)
    have "unat (u8 c) < 65536" "unat (u8 c) < 0xD800" "code_point_to_utf8 (u8 c) = [c]"
      using 2 u by (simp_all add: word_le_nat_alt code_point_to_utf8_def)
    then show ?thesis
      using literal_append [OF append_hex_literal [of "u8 c"] Cons.IH] by (simp add: q)
  next
    case 3
    then have "quote_loop True (c # s) = c # quote_loop True s"
      using u by (simp add: special_chars_def quote_loop.simps(2) append_raw_def word_less_nat_alt)
    moreover have "c \<noteq> DQ" "c \<noteq> BSL" using 3 by (simp_all add: special_chars_def)
    ultimately show ?thesis using lit_char [OF _ _ Cons.IH] by simp
  qed
qed (simp add: lit_end)

lemma literal_text_quoted:
  assumes "e \<or> valid_utf8 s"
  shows "literal_text s (quoted_body s e)"
proof (cases "does_any_char_require_escaping s")
  case False
  then have "quoted_body s e = s" unfolding quoted_body_def no_escape_no_nul [OF False] by simp
  then show ?thesis using plain_literal [OF False] by simp
next
  case True
  show ?thesis
  proof (cases e)
    case True
    then show ?thesis using \<open>does_any_char_require_escaping s\<close> utf8_loop_literal by (simp add: quoted_body_def)
  next
    case False
    then have "quoted_body s e = literal_body s" "valid_utf8 s"
      using assms quoted_string_body [of s False] quoted_literal [of s] by simp_all
    then show ?thesis by (simp add: literal_written)
  qed
qed

lemma name_text_quoted: "length k < 2 ^ 30 \<Longrightarrow> e \<or> valid_utf8 k \<Longrightarrow> name_text k (value_to_quoted_string k e)"
  using literal_text_quoted by (auto simp: name_text_def quoted_string_body)

section \<open>The writers\<close>

lemma styled_writes_json:
  assumes "names_all (\<lambda>k. NUL \<notin> set k) v"
  shows "writes_json leaf_of value_to_quoted_cstring v"
proof -
  have "names_all (\<lambda>k. valid_utf8 k \<and> length k < 2 ^ 30 \<longrightarrow> name_text k (value_to_quoted_cstring k)) v"
    using assms by (rule names_all_mono [rotated]) (simp add: cstring_name name_text_quoted)
  moreover have "value_text (Suc d) (canon u) (leaf_of u)" if "readable u" "\<not> is_array u" "\<not> is_object u" for u d
  proof -
    have "wf_json u" "levels u \<le> Suc d" "\<not> dropNullPlaceholders fast_writer_default"
      using that(2,3) by (cases u; simp add: is_array_def is_object_def fast_writer_default_def)+
    then show ?thesis using written_in_grammar that by (simp add: leaf_of_def)
  qed
  ultimately show ?thesis by (simp add: writes_json_def)
qed

lemma stream_writes_json:
  assumes "nullSymbol w = ''null''"
  shows "writes_json (stream_leaf w) (stream_name w) v"
proof -
  have "value_text (Suc d) (canon u) (stream_leaf w u)" if "readable u" "\<not> is_array u" "\<not> is_object u" for u d
  proof (cases u)
    case (JStr mt s)
    then show ?thesis
      using that(1) string [OF literal_text_quoted] by (simp add: stream_leaf_def quoted_string_body)
  qed (use that assms null number [OF int_value] number [OF uint_value] true false in
      \<open>auto simp: stream_leaf_def is_array_def is_object_def value_to_string_bool_def simp del: canon.simps(1)\<close>)
  moreover have "names_all (\<lambda>k. valid_utf8 k \<and> length k < 2 ^ 30 \<longrightarrow> name_text k (stream_name w k)) v"
    by (rule names_all_all) (simp add: stream_name_def name_text_quoted)
  ultimately show ?thesis by (simp add: writes_json_def)
qed

lemma parse_wrapped:
  assumes "wrapped (stackLimit f) v s" "\<not> rejectDupKeys f" "\<not> strictRoot f \<or> is_array v \<or> is_object v"
  shows "\<exists>v'. parse f s rt = Inr (True, v', []) \<and> erase v' = v"
  using assms(1) parse_accepts [OF _ _ _ assms(2,3)] by (auto simp: wrapped_def)

section \<open>The properties\<close>

lemma canon_container: "is_array (canon v) = is_array v" "is_object (canon v) = is_object v"
  by (cases v; simp add: is_array_def is_object_def Let_def)+

text \<open>C36: What \<^verbatim>\<open>StyledWriter\<close> and \<^verbatim>\<open>StyledStreamWriter\<close> write of a value without comments and
  doubles, whose strings and names are well-formed UTF-8 and whose names contain no NUL, the
  reader reads back as that value, whatever the white space used as indentation.\<close>

theorem styled_text_is_read:
  assumes "plain_value v" "readable v" "wf_json v" "names_all (\<lambda>k. NUL \<notin> set k) v" "list_all white_char i"
    "levels v \<le> stackLimit f" "\<not> rejectDupKeys f" "\<not> strictRoot f \<or> is_array v \<or> is_object v"
  shows "(\<exists>st' v'. sw_write v st = Inr st' \<and> parse f (document st') rt = Inr (True, v', []) \<and> erase v' = canon v) \<and>
    (\<exists>st' v'. ss_write i v new_writer = Inr st' \<and> parse f (document st') rt = Inr (True, v', []) \<and> erase v' = canon v)"
proof -
  note g = tokens_in_grammar [OF styled_writes_json [OF assms(4)] assms(2,3,6)]
  have s: "\<not> strictRoot f \<or> is_array (canon v) \<or> is_object (canon v)"
    using assms(8) by (simp add: canon_container)
  obtain st1 where 1: "sw_write v st = Inr st1" "spaced (value_tokens leaf_of value_to_quoted_cstring v) (document st1)"
    using sw_write_adds [OF assms(1)] by blast
  obtain st2 where 2: "ss_write i v new_writer = Inr st2"
      "spaced (value_tokens leaf_of value_to_quoted_cstring v) (document st2)"
    using ss_write_adds [OF assms(1,5), of new_writer] by (auto simp: new_writer_def)
  show ?thesis
    using 1(1) 2(1) parse_wrapped [OF g [OF 1(2)] assms(7) s] parse_wrapped [OF g [OF 2(2)] assms(7) s] by blast
qed

lemma layout_demo_readable: "readable layout_demo" "levels layout_demo \<le> 1000"
proof -
  have "valid_utf8 ''c''" "valid_utf8 ''x y''"
    by (rule valid_utf8_points [of "[0x63]"], code_simp, code_simp,
        rule valid_utf8_points [of "[0x78, 0x20, 0x79]"], code_simp, code_simp)
  then show "readable layout_demo" "levels layout_demo \<le> 1000"
    using roundtrip_demo_utf8(1,2) by (simp_all add: layout_demo_def)
qed

definition layout_demo_back :: json where
  "layout_demo_back = JObj meta0
     [(''a'', JArr meta0 [(0, JInt meta0 1), (1, JArr meta0 []), (2, JNull meta0), (3, JStr meta0 ''x y'')]),
      (''b'', JObj meta0 [(''c'', JBool meta0 True)])]"

lemma layout_demo_canon: "canon layout_demo = layout_demo_back"
  by (simp add: layout_demo_def layout_demo_back_def indexed_def upt_rec)

theorem styled_text_is_read_witness:
  "\<exists>st' v'. ss_write '' '' layout_demo new_writer = Inr st' \<and>
     parse service_features (document st') null_singleton = Inr (True, v', []) \<and> erase v' = layout_demo_back"
  using styled_text_is_read [OF layout_demo_ok(1) layout_demo_readable(1) layout_demo_ok(2,3), of "'' ''"
      service_features new_writer null_singleton] layout_demo_readable(2)
  unfolding layout_demo_canon by (simp add: service_features_def)

lemma write_string_back:
  assumes "plain_value v" "readable v" "wf_json v" "levels v \<le> stackLimit f"
    "\<not> rejectDupKeys f" "\<not> strictRoot f \<or> is_array v \<or> is_object v"
    "new_stream_writer s = Inr w" "list_all white_char (indentation w)" "nullSymbol w = ''null''"
  shows "\<exists>t v'. write_string s v = Inr t \<and> spaced (value_tokens (stream_leaf w) (stream_name w) v) t \<and>
    parse f t rt = Inr (True, v', []) \<and> erase v' = canon v"
proof -
  have sr: "\<not> strictRoot f \<or> is_array (canon v) \<or> is_object (canon v)"
    using assms(6) by (simp add: canon_container)
  obtain st where 1: "bs_write w v new_writer = Inr st"
      "spaced (value_tokens (stream_leaf w) (stream_name w) v) (document st)"
    using bs_write_adds [OF assms(1) new_writer_ok [OF assms(7,8)], of new_writer] by (auto simp: new_writer_def)
  then show ?thesis
    using parse_wrapped [OF tokens_in_grammar [OF stream_writes_json [OF assms(9)] assms(2,3,4) 1(2)] assms(5) sr]
    by (auto simp: write_string_def assms(7))
qed

text \<open>C37: \<^verbatim>\<open>writeString\<close> is undone by the reader. For settings of \<^verbatim>\<open>StreamWriterBuilder\<close> that give a
  writer, indent by white space and do not drop nulls, a value without comments and doubles,
  of well-formed UTF-8, is written, and what is written is read back as that value; likewise
  with \<^verbatim>\<open>toStyledString\<close>.\<close>

theorem write_string_is_read:
  assumes "plain_value v" "readable v" "wf_json v" "levels v \<le> stackLimit f"
    "\<not> rejectDupKeys f" "\<not> strictRoot f \<or> is_array v \<or> is_object v"
    "new_stream_writer s = Inr w" "list_all white_char (indentation w)" "nullSymbol w = ''null''"
  shows "(\<exists>t v'. write_string s v = Inr t \<and> parse f t rt = Inr (True, v', []) \<and> erase v' = canon v) \<and>
    (\<exists>t v'. to_styled_string v = Inr t \<and> parse f t rt = Inr (True, v', []) \<and> erase v' = canon v)"
proof -
  have sr: "\<not> strictRoot f \<or> is_array (canon v) \<or> is_object (canon v)"
    using assms(6) by (simp add: canon_container)
  have n: "nullSymbol default_stream_writer = ''null''" by (simp add: default_stream_writer_def)
  obtain t where 2: "to_styled_string v = Inr t"
      "spaced (value_tokens (stream_leaf default_stream_writer) (stream_name default_stream_writer) v) t"
    using styled_string_spaced [OF assms(1)] by blast
  show ?thesis
    using write_string_back [OF assms] 2(1)
      parse_wrapped [OF tokens_in_grammar [OF stream_writes_json [OF n] assms(2,3,4) 2(2)] assms(5) sr] by blast
qed

definition spaced_settings :: json where
  "spaced_settings = JObj meta0
     [(''commentStyle'', JStr meta0 ''All''), (''dropNullPlaceholders'', JBool meta0 False),
      (''emitUTF8'', JBool meta0 True), (''enableYAMLCompatibility'', JBool meta0 True),
      (''indentation'', JStr meta0 '' ''), (''precision'', JInt meta0 5),
      (''precisionType'', JStr meta0 ''significant''), (''useSpecialFloats'', JBool meta0 False)]"

definition spaced_writer :: stream_writer where
  "spaced_writer =
     \<lparr>indentation = '' '', commentStyle = commentAll, colonSymbol = '': '', nullSymbol = ''null'',
      endingLineFeedSymbol = [], useSpecialFloats = False, emitUTF8 = True, precision = 5,
      precisionType = significantDigits\<rparr>"

lemma spaced_writer_made: "new_stream_writer spaced_settings = Inr spaced_writer"
  by code_simp

theorem write_string_is_read_witness:
  "\<exists>t v'. write_string spaced_settings layout_demo = Inr t \<and>
     parse service_features t null_singleton = Inr (True, v', []) \<and> erase v' = layout_demo_back"
  using write_string_is_read [OF layout_demo_ok(1) layout_demo_readable(1) layout_demo_ok(2), of service_features,
      OF _ _ _ spaced_writer_made, of null_singleton] layout_demo_readable(2)
  unfolding layout_demo_canon by (simp add: service_features_def spaced_writer_def)

end
