(* ===== verification/Test_Client.thy ===== *)
theory Test_Client
  imports Client Json_Styled_Roundtrip
begin

text \<open>
  src/catchtest.cc: the test client. \<^verbatim>\<open>query\<close> writes a request with \<^verbatim>\<open>writeString\<close>, sends it in a
  frame, reads the frame of the reply and parses it, all in arrays of \<open>max_length\<close> bytes. The
  connection is a parameter: it takes the bytes sent and gives the bytes that come back;
  \<open>over_session\<close> is the connection to a session of the service. The test cases are functions
  to the result of their \<^verbatim>\<open>REQUIRE\<close>s. The lemmas follow a query through both programs.
\<close>

section \<open>The client\<close>

definition max_length :: nat where "max_length = 1024"

definition send_frame :: "string \<Rightarrow> string res" where
  \<comment> \<open>what \<^verbatim>\<open>asio::write\<close> sends of \<^verbatim>\<open>out_data_\<close>; \<^verbatim>\<open>strncpy\<close> writes \<open>length\<close> bytes behind the prefix\<close>
  "send_frame request =
     (let len = (of_nat (length request) :: uint32)
      in if max_length < size32 + unat len then Inl (Undef ''write past the end of out_data_'')
         else Inr (le32 len @ strncpy_bytes request (unat len)))"

definition end_of_file :: exn where
  \<comment> \<open>\<^verbatim>\<open>asio::system_error\<close>, a \<^verbatim>\<open>std::runtime_error\<close>\<close>
  "end_of_file = RuntimeError ''read: End of file''"

definition receive_frame :: "string \<Rightarrow> string res" where
  \<comment> \<open>the two calls of \<^verbatim>\<open>asio::read\<close>, of the length and into \<^verbatim>\<open>reply\<close>; the buffer made of an array is
     no longer than the array\<close>
  "receive_frame inp =
     (if length inp < size32 then Inl end_of_file
      else
        let n = min max_length (unat (of_le32 (take size32 inp))); b = drop size32 inp
        in if length b < n then Inl end_of_file else Inr (take n b))"

definition request_text :: "json \<Rightarrow> string res" where
  \<comment> \<open>\<^verbatim>\<open>Json::writeString(builder, root)\<close> with a new builder\<close>
  "request_text rt = bind_res stream_writer_builder (\<lambda>builder. write_string builder rt)"

definition query ::
    "('st \<Rightarrow> string \<Rightarrow> (string \<times> 'st) res) \<Rightarrow> json \<Rightarrow> 'st \<Rightarrow> ((bool \<times> json) \<times> 'st) res" where
  "query connection rt st =
     bind_res (request_text rt) (\<lambda>request.
     bind_res (send_frame request) (\<lambda>out_data.
     bind_res (connection st out_data) (\<lambda>(inp, st').
     bind_res (receive_frame inp) (\<lambda>reply.
     bind_res char_reader_builder (\<lambda>readerBuilder.
     bind_res (parse_from_stream readerBuilder reply null_singleton) (\<lambda>(retval, root0, errs).
       Inr ((retval, root0), st')))))))"

definition over_session ::
    "(string \<Rightarrow> string list) \<Rightarrow> ('st \<Rightarrow> string \<Rightarrow> (string \<times> 'st) res) \<Rightarrow> 'st \<Rightarrow> string \<Rightarrow> (string \<times> 'st) res" where
  \<comment> \<open>a new session gets the bytes, those behind the header in \<open>pieces\<close>\<close>
  "over_session pieces exec st out_data =
     bind_res (run exec (Header (take size32 out_data) # map Data (pieces (drop size32 out_data)) @ [Written])
                 new_session st) (\<lambda>(s, st'). Inr (s_sent s, st'))"

section \<open>The test cases\<close>

definition request_root :: "(string \<times> string) list \<Rightarrow> json res" where
  \<comment> \<open>\<^verbatim>\<open>Json::Value root; root["..."] = "...";\<close> and so on\<close>
  "request_root kvs =
     fold (\<lambda>(k, s) r. bind_res r (\<lambda>v. bind_res (mk_cstring s) (set_member v k))) kvs (Inr null_singleton)"

definition set_item :: "string \<Rightarrow> string \<Rightarrow> json \<Rightarrow> json res" where
  \<comment> \<open>\<^verbatim>\<open>root["items"][k] = s;\<close>\<close>
  "set_item k s rt =
     bind_res (member_ref_cstr rt ''items'') (\<lambda>r.
     bind_res (mk_cstring s) (\<lambda>c.
     bind_res (set_member (member_get r ''items'') k c) (\<lambda>items. Inr (member_put r ''items'' items))))"

definition error_of :: "json \<Rightarrow> int32 res" where
  \<comment> \<open>\<^verbatim>\<open>root0["error"].asInt()\<close>\<close>
  "error_of v = bind_res (member_ref_cstr v ''error'') (\<lambda>w. as_int (member_get w ''error''))"

definition value_of :: "json \<Rightarrow> string res" where
  \<comment> \<open>\<^verbatim>\<open>root0["value"].asString()\<close>\<close>
  "value_of v = bind_res (member_ref_cstr v ''value'') (\<lambda>w. as_string (member_get w ''value''))"

definition test_section ::
    "('st \<Rightarrow> string \<Rightarrow> (string \<times> 'st) res) \<Rightarrow> json res \<Rightarrow> string option \<Rightarrow> 'st \<Rightarrow> (bool \<times> 'st) res" where
  \<comment> \<open>the query and the \<^verbatim>\<open>REQUIRE\<close>s of a section; a failed one ends it\<close>
  "test_section connection request expected st =
     bind_res request (\<lambda>rt.
     bind_res (query connection rt st) (\<lambda>((retval, root0), st').
       if \<not> retval then Inr (False, st')
       else bind_res (error_of root0) (\<lambda>e.
         if e \<noteq> 0 then Inr (False, st')
         else case expected of
                None \<Rightarrow> Inr (True, st')
              | Some s \<Rightarrow> bind_res (value_of root0) (\<lambda>v. Inr (v = s, st')))))"

definition simple_put :: "('st \<Rightarrow> string \<Rightarrow> (string \<times> 'st) res) \<Rightarrow> 'st \<Rightarrow> (bool \<times> 'st) res" where
  "simple_put connection =
     test_section connection (request_root [(''dbname'', ''testdb''), (''op'', ''put''),
       (''key'', ''JeanMarie''), (''value'', ''USA'')]) None"

definition write_batch :: "('st \<Rightarrow> string \<Rightarrow> (string \<times> 'st) res) \<Rightarrow> 'st \<Rightarrow> (bool \<times> 'st) res" where
  "write_batch connection =
     test_section connection
       (bind_res (request_root [(''dbname'', ''testdb''), (''op'', ''write_batch'')]) (\<lambda>r1.
        bind_res (set_item ''Jack1'' ''USA'' r1) (\<lambda>r2.
        bind_res (set_item ''Jack2'' ''USA'' r2) (set_item ''Jack3'' ''USA'')))) None"

definition simple_get :: "('st \<Rightarrow> string \<Rightarrow> (string \<times> 'st) res) \<Rightarrow> 'st \<Rightarrow> (bool \<times> 'st) res" where
  "simple_get connection =
     test_section connection (request_root [(''dbname'', ''testdb''), (''op'', ''get''),
       (''key'', ''JeanMarie'')]) (Some ''USA'')"

definition cf_put :: "('st \<Rightarrow> string \<Rightarrow> (string \<times> 'st) res) \<Rightarrow> 'st \<Rightarrow> (bool \<times> 'st) res" where
  "cf_put connection =
     test_section connection (request_root [(''dbname'', ''testcf''), (''column'', ''users''),
       (''value'', ''NSW''), (''op'', ''put_cf''), (''key'', ''Joe'')]) None"

definition cf_get :: "('st \<Rightarrow> string \<Rightarrow> (string \<times> 'st) res) \<Rightarrow> 'st \<Rightarrow> (bool \<times> 'st) res" where
  "cf_get connection =
     test_section connection (request_root [(''dbname'', ''testcf''), (''column'', ''users''),
       (''op'', ''get_cf''), (''key'', ''Joe'')]) (Some ''NSW'')"

section \<open>The text of a request\<close>

lemma spaced_chars: "spaced ks t \<Longrightarrow> c \<in> set t \<Longrightarrow> white_char c \<or> c \<in> set (concat ks)"
  by (induction rule: spaced.induct) (auto simp: list_all_iff)

lemma spaced_length: "spaced ks t \<Longrightarrow> k \<in> set ks \<Longrightarrow> length k \<le> length t"
  by (induction rule: spaced.induct) auto

abbreviation "default_tokens \<equiv> value_tokens (stream_leaf default_stream_writer) (stream_name default_stream_writer)"

lemma request_text_facts:
  assumes "plain_value v" "readable v" "wf_json v" "levels v \<le> 1000"
  shows "\<exists>t. request_text v = Inr t \<and> spaced (default_tokens v) t \<and> denotes t (canon v) \<and> NUL \<notin> set t"
proof -
  obtain b where b: "stream_writer_builder = Inr b" "new_stream_writer b = Inr default_stream_writer"
    using default_writer by (auto simp: bind_res_Inr_iff)
  obtain t v' where t: "write_string b v = Inr t" "spaced (default_tokens v) t"
    "parse service_features t null_singleton = Inr (True, v', [])" "erase v' = canon v"
    using write_string_back [OF assms(1-3) _ _ _ b(2), of service_features null_singleton] assms(4)
    by (auto simp: service_features_def default_stream_writer_def white_char_def)
  have "NUL \<notin> set (fw_write_value fast_writer_default v)"
    using fw_write_no_nul [of fast_writer_default v] by (simp add: fw_write_def)
  then have "NUL \<notin> set (concat (default_tokens v))"
    unfolding concat_tokens compact_default [OF assms(3)] .
  then have "NUL \<notin> set t" using spaced_chars [OF t(2), of NUL] by (auto simp: white_char_def)
  moreover have "request_text v = Inr t" unfolding request_text_def b(1) by (simp add: t(1))
  ultimately show ?thesis using t(2) denotes_parsed [OF t(3,4)] by blast
qed

text \<open>The text of an object of strings, as the default writer lays it out.\<close>

fun members_lines :: "(string \<times> string) list \<Rightarrow> string" where
  "members_lines [] = []"
| "members_lines ((k, s) # r) =
     LF # TAB # value_to_quoted_string k False @ '' : '' @ value_to_quoted_string s False @
       (if r = [] then [] else '','' @ members_lines r)"

lemma no_comment_write:
  "meta v = meta0 \<Longrightarrow> bs_comment_before w v st = st" "meta v = meta0 \<Longrightarrow> bs_comment_after w v st = st"
  by (simp_all add: bs_comment_before_def bs_comment_after_def has_comment_def comments_has_def meta0_def)

lemma member_written:
  assumes "indented st = False" "addChildValues st = False" "indentString st = [TAB]"
  shows "bs_member default_stream_writer k (JStr meta0 s, bs_write_value default_stream_writer (JStr meta0 s)) st =
    Inr (st\<lparr>document := document st @ LF # TAB # value_to_quoted_string k False @ '' : '' @
      value_to_quoted_string s False\<rparr>)"
  using assms by (simp add: bs_member_def bs_write_with_indent_def bs_write_indent_def emit_def push_value_def
      default_stream_writer_def)

lemma members_written:
  assumes "kvs \<noteq> []" "indented st = False" "addChildValues st = False" "indentString st = [TAB]"
  shows "comma_loop (bs_comment_before default_stream_writer) (bs_member default_stream_writer)
      (bs_comment_after default_stream_writer)
      (map_snd (\<lambda>c. (c, bs_write_value default_stream_writer c)) (map_snd (JStr meta0) kvs)) st =
    Inr (st\<lparr>document := document st @ members_lines kvs\<rparr>)"
  using assms
proof (induction kvs arbitrary: st)
  case (Cons kv r)
  obtain k s where kv: "kv = (k, s)" by (cases kv)
  note m = member_written [OF Cons.prems(2-4), of k s]
  show ?case
  proof (cases "r = []")
    case True
    then show ?thesis using m by (simp add: kv no_comment_write del: bs_write_value.simps)
  next
    case False
    then have "map_snd (\<lambda>c. (c, bs_write_value default_stream_writer c)) (map_snd (JStr meta0) r) \<noteq> []"
      by (cases r) auto
    then show ?thesis
      using m Cons.IH [OF False] Cons.prems(2-4) False
      by (simp add: kv no_comment_write emit_def del: bs_write_value.simps)
  qed
qed simp

lemma text_of_members:
  assumes "kvs \<noteq> []"
  shows "request_text (text_members kvs) = Inr (''{'' @ members_lines kvs @ [LF] @ ''}'')"
proof -
  obtain b where b: "stream_writer_builder = Inr b" "new_stream_writer b = Inr default_stream_writer"
    using default_writer by (auto simp: bind_res_Inr_iff)
  have n: "map_snd (\<lambda>c. (c, bs_write_value default_stream_writer c)) (map_snd (JStr meta0) kvs) \<noteq> []"
    using assms by (cases kvs) auto
  define d where "d = default_stream_writer"
  have i: "indentation d = [TAB]" "endingLineFeedSymbol d = []" by (simp_all add: d_def default_stream_writer_def)
  have "bs_write d (text_members kvs) new_writer =
      Inr (new_writer\<lparr>addChildValues := False, indented := False, indentString := [],
        document := ''{'' @ members_lines kvs @ [LF] @ ''}''\<rparr>)"
    using n members_written [OF assms] unfolding d_def [symmetric]
    by (simp add: bs_write_def text_members_def no_comment_write bs_write_object_value_def bs_write_with_indent_def
        bs_indent_def bs_unindent_def bs_write_indent_def emit_def new_writer_def Let_def i)
  then show ?thesis unfolding request_text_def b(1) by (simp add: write_string_def b(2) flip: d_def)
qed

section \<open>The connection\<close>

lemma run_reply:
  assumes "s_phase s = AwaitHeader" "length q \<le> max_request" "cuts q cs"
    and "run exec (request_events q cs @ [Written]) s st = Inr (s', st')"
  shows "\<exists>out. exec st q = Inr (out, st') \<and> s_sent s' = s_sent s @ le32 (of_nat (length out)) @
    strncpy_bytes out (unat (of_nat (length out) :: uint32)) \<and> (length out < 2 ^ 32 \<longrightarrow> length out \<le> length q)"
proof -
  obtain t where t: "run exec (request_events q cs) s st =
      do_write exec (of_nat (length q)) (t\<lparr>s_inp := Some (map Some q)\<rparr>) st" "s_sent t = s_sent s"
    using run_request [OF assms(1-3), of exec st] by (elim exE conjE)
  have u: "unat (of_nat (length q) :: uint32) = length q"
    using assms(2) by (simp add: unat_of_nat max_request_def)
  have o: "unat (of_nat (length q) + of_nat size32 :: uint32) = length q + size32"
    using out_size [of "of_nat (length q)"] assms(2) u by simp
  have w: "length out < 2 ^ 32 \<Longrightarrow> unat (of_nat (length out) :: uint32) = length out" for out :: string
    by (simp add: unat_of_nat)
  show ?thesis
    using assms(4) t(2) w
    by (auto simp: run_append t(1) do_write_def u o read_bytes_all Let_def bind_res_Inr_iff step_def split: if_splits)
qed

lemma over_session_reply:
  assumes fr: "send_frame q = Inr fr" "NUL \<notin> set q" "length q < 2 ^ 32" and p: "\<And>q. cuts q (pieces q)"
    and "over_session pieces exec st fr = Inr (inp, st')"
  shows "length q \<le> max_length - size32 \<and> (\<exists>out. exec st q = Inr (out, st') \<and>
    inp = le32 (of_nat (length out)) @ strncpy_bytes out (unat (of_nat (length out) :: uint32)) \<and>
    (length out < 2 ^ 32 \<longrightarrow> length out \<le> length q))"
proof -
  have u: "unat (of_nat (length q) :: uint32) = length q" using assms(3) by (simp add: unat_of_nat)
  have l: "length q \<le> max_length - size32" "fr = le32 (of_nat (length q)) @ q"
    using fr(1) strncpy_bytes_no_nul [OF fr(2)] by (auto simp: send_frame_def u Let_def split: if_splits)
  then have "length q \<le> max_request" by (simp add: max_length_def max_request_def)
  moreover obtain s' where "run exec (request_events q (pieces q) @ [Written]) new_session st = Inr (s', st')"
      "inp = s_sent s'"
    using assms(5) l(2) by (auto simp: over_session_def request_events_def bind_res_Inr_iff)
  ultimately show ?thesis
    using run_reply [OF _ _ p, of new_session q] l(1) by (auto simp: new_session_def)
qed

lemma receive_reply:
  assumes "NUL \<notin> set out" "length out \<le> max_length"
    "receive_frame (le32 (of_nat (length out)) @ strncpy_bytes out (unat (of_nat (length out) :: uint32))) = Inr reply"
  shows "reply = out"
proof -
  have u: "unat (of_nat (length out) :: uint32) = length out"
    using assms(2) by (simp add: unat_of_nat max_length_def)
  show ?thesis
    using assms(2,3) strncpy_bytes_no_nul [OF assms(1)]
    by (auto simp: receive_frame_def u of_le32_le32 Let_def split: if_splits)
qed

section \<open>The reply\<close>

lemma erase_uncommented: "erase (uncommented v) = erase v"
  by (induction v rule: uncommented.induct) (auto simp: map_snd_def)

lemma client_reader: "bind_res char_reader_builder new_char_reader = Inr (True, service_features)"
  by code_simp

lemma reply_read_back:
  assumes "parse service_features t null_singleton = Inr (True, v', [])"
  shows "\<exists>b w errs. char_reader_builder = Inr b \<and>
    parse_from_stream b t null_singleton = Inr (True, w, errs) \<and> erase w = erase v'"
proof -
  obtain b where b: "char_reader_builder = Inr b" "new_char_reader b = Inr (True, service_features)"
    using client_reader by (auto simp: bind_res_Inr_iff)
  obtain w where w: "m_parse service_features True t null_singleton = Inr (True, w, [])"
    "uncommented w = uncommented v'"
    using m_parse_uncommented [where f = service_features and doc = t and rt = null_singleton and collect = True] assms by auto
  have "erase w = erase v'" using w(2) erase_uncommented by metis
  then show ?thesis
    using b(1) by (intro exI [of _ b] exI [of _ w]) (simp add: parse_from_stream_def m_char_reader_parse_def b(2) w(1))
qed

lemma query_reply:
  assumes q: "request_text rt = Inr q" "NUL \<notin> set q" "length q < 2 ^ 32" and p: "\<And>q. cuts q (pieces q)"
    and "query (over_session pieces (exec_json R)) rt st = Inr ((ok, r), st')"
  shows "\<exists>out. exec_json R st q = Inr (out, st') \<and> length q \<le> max_length - size32 \<and>
    (length out < 2 ^ 32 \<longrightarrow> parse service_features out null_singleton = Inr (True, v', []) \<longrightarrow> ok \<and> erase r = erase v')"
proof -
  obtain fr inp reply b errs where x: "send_frame q = Inr fr" "over_session pieces (exec_json R) st fr = Inr (inp, st')"
    "receive_frame inp = Inr reply" "char_reader_builder = Inr b"
    "parse_from_stream b reply null_singleton = Inr (ok, r, errs)"
    using assms(5) by (auto simp: query_def q(1) bind_res_Inr_iff)
  obtain out where o: "length q \<le> max_length - size32" "exec_json R st q = Inr (out, st')"
    "inp = le32 (of_nat (length out)) @ strncpy_bytes out (unat (of_nat (length out) :: uint32))"
    "length out < 2 ^ 32 \<longrightarrow> length out \<le> length q"
    using over_session_reply [OF x(1) q(2,3) p x(2)] by blast
  have "ok \<and> erase r = erase v'"
    if l: "length out < 2 ^ 32" and r: "parse service_features out null_singleton = Inr (True, v', [])"
  proof -
    have "length out \<le> max_length" using o(1,4) l by simp
    then have "reply = out" using receive_reply [OF svc.reply_no_nul [OF o(2)]] x(3) o(3) by simp
    moreover obtain c w errs' where "char_reader_builder = Inr c"
      "parse_from_stream c out null_singleton = Inr (True, w, errs')" "erase w = erase v'"
      using reply_read_back [OF r] by blast
    moreover from this have "c = b" using x(4) by (metis sum.inject(2))
    ultimately show ?thesis using x(5) by simp
  qed
  then show ?thesis using o(1,2) by blast
qed

lemma query_returns:
  assumes q: "request_text rt = Inr q" "NUL \<notin> set q" "length q \<le> max_length - size32" and p: "\<And>q. cuts q (pieces q)"
    and x: "exec_json R st q = Inr (out, st')" "length out \<le> length q"
      "parse service_features out null_singleton = Inr (True, v', [])"
  shows "\<exists>r. query (over_session pieces (exec_json R)) rt st = Inr ((True, r), st') \<and> erase r = erase v'"
proof -
  have u: "unat (of_nat (length q) :: uint32) = length q" "unat (of_nat (length out) :: uint32) = length out"
    using q(3) x(2) by (simp_all add: unat_of_nat max_length_def)
  have fr: "send_frame q = Inr (le32 (of_nat (length q)) @ q)"
    using q(3) strncpy_bytes_no_nul [OF q(2)] by (simp add: send_frame_def u Let_def max_length_def size32_def)
  have "length q \<le> max_request" using q(3) by (simp add: max_length_def max_request_def)
  from svc.serve [OF _ this p x(1,2), of new_session]
  obtain s' where "run (exec_json R) (request_events q (pieces q) @ [Written]) new_session st = Inr (s', st')"
      "s_sent s' = le32 (of_nat (length out)) @ out"
    by (auto simp: new_session_def)
  then have o: "over_session pieces (exec_json R) st (le32 (of_nat (length q)) @ q) = Inr (le32 (of_nat (length out)) @ out, st')"
    by (simp add: over_session_def request_events_def)
  have rc: "receive_frame (le32 (of_nat (length out)) @ out) = Inr out"
    using q(3) x(2) by (simp add: receive_frame_def u of_le32_le32 Let_def max_length_def)
  obtain b w errs where "char_reader_builder = Inr b"
    "parse_from_stream b out null_singleton = Inr (True, w, errs)" "erase w = erase v'"
    using reply_read_back [OF x(3)] by blast
  then show ?thesis
    using q(1) fr o rc by (intro exI [of _ w]) (auto simp: query_def bind_res_Inr_iff)
qed

lemma member_of_erased:
  assumes "erase r = JObj meta0 m" "om_find k m = Some c" "c_str k = k" "length k < 2 ^ 30"
  shows "\<exists>w. member_ref_cstr r k = Inr w \<and> erase (member_get w k) = c"
proof -
  obtain a ys where r: "r = JObj a ys" "m = map_snd erase ys" using assms(1) by (cases r) auto
  then obtain d where d: "om_find k ys = Some d" "erase d = c"
    using assms(2) by (auto simp: om_find_map_snd)
  then show ?thesis
    using assms(3,4) om_find_emplace_old [OF d(1)]
    by (simp add: r(1) member_ref_cstr_object as_object_def member_get_def object_map_def czstring_id)
qed

definition error_codes :: "int set" where
  "error_codes = {0, -2, 1, 3, 4, 6, 7}"

lemma as_int_code: "c \<in> error_codes \<Longrightarrow> as_int (mk_int (of_int c)) = Inr (of_int c)"
proof -
  have "as_int (mk_int (of_int 0)) = Inr (of_int 0)" "as_int (mk_int (of_int (-2))) = Inr (of_int (-2))"
    "as_int (mk_int (of_int 1)) = Inr (of_int 1)" "as_int (mk_int (of_int 3)) = Inr (of_int 3)"
    "as_int (mk_int (of_int 4)) = Inr (of_int 4)" "as_int (mk_int (of_int 6)) = Inr (of_int 6)"
    "as_int (mk_int (of_int 7)) = Inr (of_int 7)"
    by code_simp+
  then show "c \<in> error_codes \<Longrightarrow> as_int (mk_int (of_int c)) = Inr (of_int c)"
    unfolding error_codes_def by blast
qed

lemma as_int_erase: "erase v = mk_int i \<Longrightarrow> as_int v = as_int (mk_int i)"
  by (cases v) (auto simp: mk_int_def)

lemma error_of_reply: "erase r = error_reply c \<Longrightarrow> c \<in> error_codes \<Longrightarrow> error_of r = Inr (of_int c)"
  using member_of_erased [of r "[(''error'', mk_int (of_int c))]" "''error''"] as_int_code [of c]
  by (auto simp: error_reply_def error_of_def c_str_def dest: as_int_erase)

lemma value_reply_members:
  assumes "erase r = value_reply v"
  shows "error_of r = Inr 0" "value_of r = Inr v"
proof -
  let ?m = "[(''error'', mk_int 0), (''value'', JStr meta0 v)]"
  have "erase r = JObj meta0 ?m" using assms by (simp add: value_reply_def)
  note m = member_of_erased [OF this]
  show "error_of r = Inr 0" "value_of r = Inr v"
    using m [of "''error''" "mk_int 0"] m [of "''value''" "JStr meta0 v"] as_int_code [of 0]
    by (auto simp: error_of_def value_of_def c_str_def error_codes_def dest: as_int_erase erase_JStr)
qed

lemma error_reply_short: "c \<in> error_codes \<Longrightarrow> length (reply_text (error_reply c)) < 2 ^ 32"
proof -
  have "length (reply_text (error_reply 0)) < 100" "length (reply_text (error_reply (-2))) < 100"
    "length (reply_text (error_reply 1)) < 100" "length (reply_text (error_reply 3)) < 100"
    "length (reply_text (error_reply 4)) < 100" "length (reply_text (error_reply 6)) < 100"
    "length (reply_text (error_reply 7)) < 100"
    by code_simp+
  then show "c \<in> error_codes \<Longrightarrow> length (reply_text (error_reply c)) < 2 ^ 32"
    unfolding error_codes_def by fastforce
qed

lemma put_reply:
  assumes "rocks_contract R view live cfn" "server_inv R live cfn st" "exec_json R st q = Inr (out, st')"
    and "denotes q (put_request n k v)"
  shows "\<exists>c \<in> error_codes. out = reply_text (error_reply c)"
proof -
  obtain rt where rt: "request_of q = Some rt" "req_string rt ''op'' = Inr ''put''"
  proof -
    obtain rt where "request_of q = Some rt"
        "erase rt = text_members [(''dbname'', n), (''key'', k), (''op'', ''put''), (''value'', v)]"
      using assms(4) by (auto simp: denotes_def put_request_def)
    then show thesis using that req_string_erase [of rt _ "''op''" "''put''"] by (simp add: c_str_def)
  qed
  obtain reply where r: "out = reply_text reply"
      "server_spec (map c_name (configs st)) (map c_cf_names (configs st)) rt
        (abs_state view st) reply (abs_state view st')"
    using exec_json_request [OF assms(1-3)] rt(1) by auto
  from r(2) have "\<exists>c \<in> error_codes. reply = error_reply c"
    by (cases rule: server_spec.cases) (use rt(2) in \<open>auto elim!: kv_spec.cases simp: error_codes_def\<close>)
  then show ?thesis using r(1) by blast
qed

lemma put_text_holds_value:
  "spaced (default_tokens (put_request n k v)) t \<Longrightarrow> length (value_to_quoted_string v False) \<le> length t"
  by (erule spaced_length)
    (simp add: put_request_def text_members_def stream_leaf_def default_stream_writer_def)

lemma queried_after_put:
  assumes R: "rocks_contract R view live cfn" and inv: "server_inv R live cfn st" and p: "\<And>q. cuts q (pieces q)"
    and t: "request_text (put_request n k v) = Inr q1" "length q1 < 2 ^ 32"
      "request_text (get_request n k) = Inr q2" "length q2 < 2 ^ 32"
    and put: "query (over_session pieces (exec_json R)) (put_request n k v) st = Inr ((ok1, r1), st1)" "error_of r1 = Inr 0"
    and qs: "exec_all R st1 qs = Inr (outs, st2)" "\<forall>q \<in> set qs. no_write_to n q"
    and get: "query (over_session pieces (exec_json R)) (get_request n k) st2 = Inr ((ok2, r2), st3)"
    and s: "sendable n" "sendable k" "sendable v"
  shows "ok2 \<and> (error_of r2 = Inr 0 \<and> value_of r2 = Inr v \<or> error_of r2 = Inr (-2))"
proof -
  have pl: "plain_value (put_request n k v)" "plain_value (get_request n k)"
    by (simp_all add: put_request_def get_request_def text_members_def no_comment_def has_comment_for_value_def
        has_comment_def comments_has_def meta0_def)
  have q1: "spaced (default_tokens (put_request n k v)) q1" "denotes q1 (put_request n k v)" "NUL \<notin> set q1"
    using request_text_facts [OF pl(1) put_request_facts(1-3) [OF s]] t(1) put_request_facts(4) [OF s] by auto
  have q2: "denotes q2 (get_request n k)" "NUL \<notin> set q2"
    using request_text_facts [OF pl(2) get_request_facts(1-3) [OF s(1,2)]] t(3) get_request_facts(4) [OF s(1,2)] by auto
  obtain out1 where o1: "exec_json R st q1 = Inr (out1, st1)" "length q1 \<le> max_length - size32"
    using query_reply [OF t(1) q1(3) t(2) p put(1)] by blast
  obtain c where c: "c \<in> error_codes" "out1 = reply_text (error_reply c)"
    using put_reply [OF R inv o1(1) q1(2)] by blast
  have f: "\<not> rejectDupKeys service_features" "2 \<le> stackLimit service_features" by (simp_all add: service_features_def)
  obtain v1 where v1: "parse service_features out1 null_singleton = Inr (True, v1, [])" "erase v1 = error_reply c"
    using replies_read_back(1) [OF f] c(2) by blast
  have "erase r1 = error_reply c"
    using query_reply [OF t(1) q1(3) t(2) p put(1), of v1] o1(1) v1 error_reply_short [OF c(1)] c(2) by auto
  then have "of_int c = (0 :: int32)" using error_of_reply [OF _ c(1)] put(2) by simp
  then have "c = 0" using c(1) by (auto simp: error_codes_def)
  obtain out2 where o2: "exec_json R st2 q2 = Inr (out2, st3)"
    using query_reply [OF t(3) q2(2) t(4) p get] by blast
  have "exec_all R st (q1 # qs @ [q2]) = Inr (out1 # outs @ [out2], st3)"
    using o1(1) qs(1) o2 by (simp add: exec_all_snoc)
  from acknowledged_write_stays [OF R inv this _ put_request_writes [OF q1(2)] qs(2)]
  obtain st' i s where st': "server_inv R live cfn st'" "exec_json R st' q2 = Inr (out2, st3)"
    "find_index n (map c_name (configs st')) = Some i" "abs_state view st' i = Some s"
    "s kDefaultColumnFamilyName k = Some v" "n \<noteq> []"
    using c(2) \<open>c = 0\<close> by auto
  have short: "length (reply_text (value_reply v)) < 2 ^ 32"
    using put_text_holds_value [OF q1(1)] o1(2) by (simp add: reply_text_value max_length_def)
  have e2: "length out2 < 2 ^ 32 \<Longrightarrow> parse service_features out2 null_singleton = Inr (True, v', []) \<Longrightarrow> ok2 \<and> erase r2 = erase v'" for v'
    using query_reply [OF t(3) q2(2) t(4) p get, of v'] o2 by auto
  from get_of_store [OF R st'(1,2) q2(1) st'(3-6) s(3)] show ?thesis
  proof
    assume o: "out2 = reply_text (value_reply v)"
    then have "ok2 \<and> erase r2 = value_reply v"
      using e2 short replies_read_back(2) [OF f s(3), of null_singleton] by auto
    then show ?thesis using value_reply_members by blast
  next
    assume o: "out2 = reply_text (error_reply (-2))"
    have m: "-2 \<in> error_codes" by (simp add: error_codes_def)
    have "ok2 \<and> erase r2 = error_reply (-2)"
      using e2 o error_reply_short [OF m] replies_read_back(1) [OF f, of "-2" null_singleton] by auto
    then show ?thesis using error_of_reply [OF _ m] by auto
  qed
qed

section \<open>The requests of the test cases\<close>

lemma test_requests:
  "request_root [(''dbname'', ''testdb''), (''op'', ''put''), (''key'', ''JeanMarie''), (''value'', ''USA'')] =
     Inr (put_request ''testdb'' ''JeanMarie'' ''USA'')"
  "request_root [(''dbname'', ''testdb''), (''op'', ''get''), (''key'', ''JeanMarie'')] =
     Inr (get_request ''testdb'' ''JeanMarie'')"
  by code_simp+

end
