(* ===== verification/Json_Correct.thy ===== *)
theory Json_Correct
  imports Json_Builder Json_Writer Json_Compare Json_Utf8 "HOL-Library.Code_Target_Nat"
begin

text \<open>
  What is correct about the JSON library of src/: the properties of the reader, of the
  numbers and strings it decodes, of the conversions of a value and of its containers,
  each with a concrete instance evaluated by the kernel. They apply the lemmas of the
  component theories.
\<close>

section \<open>The reader\<close>

text \<open>C15: A run of the reader that returns reports success exactly if it collected no
  error, and the value it leaves in the root is well formed: all maps in it are sorted
  without duplicates and all member names fit their 30-bit length field.\<close>

theorem parse_outcome:
  assumes "parse f doc rt = Inr (ok, v, errs)"
  shows "(ok \<longleftrightarrow> errs = []) \<and> (wf_json rt \<longrightarrow> wf_json v)"
  using parse_result [OF assms] by blast

definition broken_text :: string where
  \<open>broken_text = ''{"a":[1,true],"b" 2}''\<close>

lemma broken_text_run:
  "case parse service_features broken_text null_singleton of
     Inr (ok, v, errs) \<Rightarrow> \<not> ok \<and> length errs = 1 \<and> om_keys (object_map v) = [''a'']
   | Inl _ \<Rightarrow> False"
  by code_simp

theorem parse_outcome_witness:
  "\<exists>v errs. parse service_features broken_text null_singleton = Inr (False, v, errs) \<and>
     (False \<longleftrightarrow> errs = []) \<and> (wf_json null_singleton \<longrightarrow> wf_json v)"
proof -
  obtain v errs where "parse service_features broken_text null_singleton = Inr (False, v, errs)"
    using broken_text_run by (auto split: sum.splits prod.splits)
  with parse_outcome [OF this] show ?thesis by blast
qed

text \<open>C16: On a document below one gigabyte, without numeric member names, the reader always
  returns: the only exception it can raise is the one for too deep a nesting, and the fuel
  of the model is never used up.\<close>

theorem parse_returns:
  assumes "length doc < 2 ^ 30" "\<not> allowNumericKeys f"
  shows "(\<exists>r. parse f doc rt = Inr r) \<or>
    parse f doc rt = Inl (RuntimeError ''Exceeded stackLimit in readValue().'')"
  using parse_only_stack [OF assms, of rt] by (cases "parse f doc rt") (auto simp: only_stack_def)

theorem parse_returns_witness:
  "(\<exists>r. parse service_features broken_text null_singleton = Inr r) \<or>
   parse service_features broken_text null_singleton =
     Inl (RuntimeError ''Exceeded stackLimit in readValue().'')"
  by (rule parse_returns) (simp_all add: broken_text_def service_features_def)

text \<open>C17: A document that opens more arrays than the stack limit allows is refused with that
  exception, whatever follows the brackets.\<close>

theorem parse_refuses_deep:
  assumes "stackLimit f < k"
  shows "parse f (replicate k (CHR ''['') @ r) rt =
    Inl (RuntimeError ''Exceeded stackLimit in readValue().'')"
  by (rule parse_too_deep [OF assms])

theorem parse_refuses_deep_witness:
  "parse service_features (replicate 1001 (CHR ''['') @ replicate 1001 (CHR '']'')) null_singleton =
    Inl (RuntimeError ''Exceeded stackLimit in readValue().'')"
  by (rule parse_refuses_deep) (simp add: service_features_def)

text \<open>C18: Every token lies within the document and ends where the scanner stops; every token
  but the end of the document consumes input; a token is marked as an error exactly if the
  scanner reports failure.\<close>

theorem read_token_moves:
  assumes "read_token f cur = (ok, tok, cur')"
  shows "suffix cur' cur \<and> tok_end tok = cur' \<and> suffix (tok_start tok) cur \<and>
    (tok_type tok \<noteq> tokenEndOfStream \<longrightarrow> length cur' < length cur) \<and>
    (ok \<longleftrightarrow> tok_type tok \<noteq> tokenError)"
  using read_token_ends [OF assms] read_token_progress [OF assms] skip_spaces_suffix [of cur]
  by simp

theorem read_token_moves_witness:
  "\<exists>ok tok cur'. read_token service_features '' -12.5e+3, '' = (ok, tok, cur') \<and> cur' = '', '' \<and>
     suffix cur' '' -12.5e+3, '' \<and> tok_end tok = cur' \<and> suffix (tok_start tok) '' -12.5e+3, '' \<and>
     (tok_type tok \<noteq> tokenEndOfStream \<longrightarrow> length cur' < length '' -12.5e+3, '') \<and>
     (ok \<longleftrightarrow> tok_type tok \<noteq> tokenError)"
proof -
  have "snd (snd (read_token service_features '' -12.5e+3, '')) = '', ''" by code_simp
  then obtain ok tok where "read_token service_features '' -12.5e+3, '' = (ok, tok, '', '')"
    by (metis prod.collapse)
  with read_token_moves [OF this] show ?thesis by blast
qed

section \<open>Numbers\<close>

text \<open>C19: A number token of an optional sign and digits becomes the 64-bit integer it
  denotes exactly if that integer is in range (signed for a negative number, unsigned
  otherwise), with no wrap-around on the way; out of range it becomes a double.\<close>

theorem decode_number_exact:
  assumes "number_token neg ds tok"
  shows "decode_number tok =
     (let n = nat_of_dec 0 ds
      in if neg then (if n \<le> 2 ^ 63 then Inr (mk_int64 (- of_nat n)) else decode_double tok)
         else if n < 2 ^ 63 then Inr (mk_int64 (of_nat n))
         else if n < 2 ^ 64 then Inr (mk_uint64 (of_nat n)) else decode_double tok)"
  unfolding Let_def by (rule decode_number_integer [OF assms])

definition text_token :: "string \<Rightarrow> token" where
  \<comment> \<open>a number token that is the whole of a document\<close>
  "text_token s = \<lparr>tok_type = tokenNumber, tok_start = s, tok_end = []\<rparr>"

lemma token_text_text_token [simp]: "token_text (text_token s) = s"
  by (simp add: token_text_def range_text_def text_token_def)

theorem decode_number_exact_witness:
  "decode_number (text_token ''-9223372036854775808'') = Inr (mk_int64 (- 9223372036854775808))"
proof -
  have "number_token True ''9223372036854775808'' (text_token ''-9223372036854775808'')"
    by (simp add: number_token_def is_digit_def byte_def)
  from decode_number_exact [OF this] show ?thesis
    by (simp add: digit_val_def byte_def)
qed

text \<open>C20: Every 64-bit integer that is written as text and read back as a number token is
  the same integer.\<close>

theorem integer_text_roundtrip:
  assumes "token_text tok = value_to_string_int i"
  shows "decode_number tok = Inr (mk_int64 i)"
proof -
  let ?n = "nat \<bar>sint i\<bar>"
  have "number_token (sint i < 0) (show_nat ?n) tok"
    using assms show_nat_digits by (auto simp: number_token_def value_to_string_int_show)
  from decode_number_integer [OF this] show ?thesis
    using sint64_bounds [of i] by (auto simp: nat_of_dec_show_nat)
qed

theorem integer_text_roundtrip_witness:
  "decode_number (text_token (value_to_string_int (-42))) = Inr (mk_int64 (-42))"
  by (rule integer_text_roundtrip) simp

text \<open>C21: The text of a 64-bit integer denotes that integer: it is digits alone for an unsigned
  integer, and for a signed one a minus sign exactly when the integer is negative, then digits
  that denote its absolute value. With sign and terminator it fits the stack buffer of 25
  characters it is written into.\<close>

theorem integer_text_fits:
  "length (value_to_string_int i) + 1 \<le> uint_to_string_buffer_size \<and>
   length (value_to_string_uint u) + 1 \<le> uint_to_string_buffer_size \<and>
   (\<exists>ds. value_to_string_int i = (if sint i < 0 then ''-'' else []) @ ds \<and>
      ds \<noteq> [] \<and> list_all is_digit ds \<and> int (nat_of_dec 0 ds) = \<bar>sint i\<bar>) \<and>
   list_all is_digit (value_to_string_uint u) \<and> nat_of_dec 0 (value_to_string_uint u) = unat u"
proof -
  have "value_to_string_int i = (if sint i < 0 then ''-'' else []) @ show_nat (nat \<bar>sint i\<bar>)"
    by (simp add: value_to_string_int_show)
  moreover have "list_all is_digit (show_nat n)" for n
    using show_nat_digits by (auto simp: list_all_iff)
  ultimately show ?thesis
    using value_to_string_int_fits [of i] length_uint_to_string [of u]
    by (auto simp: uint_to_string_buffer_size_def value_to_string_uint_def uint_to_string_show_nat
        nat_of_dec_show_nat)
qed

section \<open>Conversions\<close>

text \<open>C22: A conversion to an integer type that succeeds returns the number the value stands
  for, truncated towards zero when it is a double; nothing wraps around.\<close>

theorem conversions_exact:
  "(\<forall>i. as_int v = Inr i \<longrightarrow> int_value v = Some (sint i)) \<and>
   (\<forall>u. as_uint v = Inr u \<longrightarrow> int_value v = Some (uint u)) \<and>
   (\<forall>i. as_int64 v = Inr i \<longrightarrow> int_value v = Some (sint i)) \<and>
   (\<forall>u. as_uint64 v = Inr u \<longrightarrow> int_value v = Some (uint u))"
  using as_int_value as_uint_value as_int64_value as_uint64_value by blast

theorem conversions_exact_witness:
  "as_int (JReal meta0 (DFin True 5 (-1))) = Inr (-2) \<and>
   int_value (JReal meta0 (DFin True 5 (-1))) = Some (sint (-2 :: int32))"
proof -
  have "as_int (JReal meta0 (DFin True 5 (-1))) = Inr (-2)"
    by code_simp
  with conversions_exact [of "JReal meta0 (DFin True 5 (-1))"] show ?thesis by blast
qed

text \<open>C23: The conversions to 32 bits never reach the undefined conversion of a double that
  is out of range. The 64-bit ones do, exactly for the double 2^63 and 2^64: the guard
  compares with the maximal integer rounded up to that double and accepts equality.\<close>

theorem conversions_undefined:
  "as_int v \<noteq> Inl (Undef s) \<and> as_uint v \<noteq> Inl (Undef s) \<and>
   ((\<exists>e. as_int64 (JReal m d) = Inl (Undef e)) \<longleftrightarrow> is_finite d \<and> dval d = 2 ^ 63) \<and>
   ((\<exists>e. as_uint64 (JReal m d) = Inl (Undef e)) \<longleftrightarrow> is_finite d \<and> dval d = 2 ^ 64)"
  using as_int_no_undef as_uint_no_undef as_int64_undef_iff as_uint64_undef_iff by blast

section \<open>Strings\<close>

text \<open>C24: A code point is encoded as UTF-8: the masks and shifts give the bytes of the
  arithmetic definition, at most four, and none beyond U+10FFFF.\<close>

theorem utf8_encoding:
  "map byte (code_point_to_utf8 cp) = utf8_bytes (unat cp) \<and> length (code_point_to_utf8 cp) \<le> 4"
proof -
  have "map byte (map chr bs) = bs" if "\<forall>b \<in> set bs. b < 256" for bs
    using that by (simp add: map_idI)
  then show ?thesis
    using utf8_bytes_less_256 length_code_point_to_utf8 [of cp] by (auto simp: code_point_to_utf8_bytes)
qed

text \<open>C25: The order of member names, \<^verbatim>\<open>memcmp\<close> on the common length and then the length, is
  the lexicographic order of byte strings, and the equality test is equality.\<close>

theorem name_order:
  "(czstring_less a b \<longleftrightarrow> a < b) \<and> (czstring_eq a b \<longleftrightarrow> a = b)"
  by (simp add: czstring_less_lex czstring_eq_iff)

section \<open>The writer\<close>

text \<open>The character 0x7F (DEL) is not among those that the writer escapes.\<close>

lemma del_is_written_raw: "value_to_quoted_string [CHR 0x7F] False = [DQ, CHR 0x7F, DQ]"
  by code_simp

text \<open>C26: Whatever the value, the text of the fast writer consists of bytes from 0x20 to 0x7F up
  to a final line feed: no NUL, no line feed, no other character below the space and no byte
  above 0x7F. The control character 0x7F is let through, as \<open>del_is_written_raw\<close> shows.\<close>

theorem written_text_is_ascii:
  "\<exists>t. fw_write w v = t @ (if omitEndingLineFeed w then [] else [LF]) \<and>
     list_all (\<lambda>c. 0x20 \<le> byte c \<and> byte c < 0x80) t"
  using fw_write_value_plain [of w v]
  by (auto simp: fw_write_def plain_text_def plain_def list_all_iff)

section \<open>Comments\<close>

text \<open>C40: Collecting comments changes nothing but comments: the reader that attaches the
  comments of the document to its values raises the same exceptions, reports the same errors
  and leaves the same value, offsets included, as the reader that skips them, and with the
  setting off it is that reader.\<close>

theorem comments_change_only_comments:
  "m_parse f False doc rt = parse f doc rt \<and>
   (case parse f doc rt of
      Inl e \<Rightarrow> m_parse f collect doc rt = Inl e
    | Inr (ok, v, errs) \<Rightarrow>
        \<exists>v'. m_parse f collect doc rt = Inr (ok, v', errs) \<and> uncommented v' = uncommented v)"
  using m_parse_plain m_parse_uncommented by blast

section \<open>Comparison\<close>

text \<open>C27: On values without a NaN the comparison operators are consistent: comparing the other
  way round negates the sign, the result is zero exactly for values that \<^verbatim>\<open>operator==\<close>
  equates, and the order is transitive.\<close>

theorem value_order:
  assumes "nan_free u" "nan_free v" "nan_free w"
  shows "json_compare u v = - json_compare v u \<and> (json_compare u v = 0 \<longleftrightarrow> json_eq u v) \<and>
    (json_compare u v \<le> 0 \<longrightarrow> json_compare v w \<le> 0 \<longrightarrow> json_compare u w \<le> 0)"
proof -
  have c: "json_compare a b \<le> 0 \<longleftrightarrow> \<not> json_less b a" for a b
    using json_less_asym [of a b] by (auto simp: json_compare_def json_gt_def)
  have "json_compare u v \<le> 0 \<longrightarrow> json_compare v w \<le> 0 \<longrightarrow> json_compare u w \<le> 0"
    using json_less_cotrans [OF assms(3,2,1)] by (auto simp: c)
  moreover have "json_compare u v = - json_compare v u"
    using json_less_asym [of u v] by (simp add: json_compare_def json_gt_def)
  moreover have "json_compare u v = 0 \<longleftrightarrow> json_eq u v"
    using json_eq_iff [OF assms(1,2)] by (simp add: json_compare_def json_gt_def)
  ultimately show ?thesis by blast
qed

theorem value_order_witness:
  "json_compare (JObj meta0 [(''a'', JInt meta0 1)]) (JObj meta0 [(''a'', JInt meta0 2)]) = -1 \<and>
   json_compare (JObj meta0 [(''a'', JInt meta0 2)]) (JObj meta0 [(''a'', JInt meta0 1)]) = 1"
proof -
  let ?u = "JObj meta0 [(''a'', JInt meta0 1)]" and ?v = "JObj meta0 [(''a'', JInt meta0 2)]"
  have "json_compare ?u ?v = -1" by (simp add: json_compare_def)
  moreover have "json_compare ?u ?v = - json_compare ?v ?u"
    using value_order [of ?u ?v ?u] by simp
  ultimately show ?thesis by linarith
qed

end
