(* ===== verification/Json_Path.thy ===== *)
theory Json_Path
  imports Json_Wf
begin

text \<open>
  \<^verbatim>\<open>Json::Path\<close> (src/json_value.cc): the path expressions that address a value inside of
  another. \<^verbatim>\<open>makePath\<close> is a loop that does not end on a path with a NUL where a name should
  begin (the name is empty then, and the position does not move), so it is a partial
  function. The theorems: it ends on every path without a NUL; a list of arguments written
  as a path is read back; what \<^verbatim>\<open>make\<close> has created, \<^verbatim>\<open>resolve\<close> finds.
\<close>

section \<open>Path expressions\<close>

datatype path_argument = kindNone | kindIndex uint32 | kindKey string

fun same_kind :: "path_argument \<Rightarrow> path_argument \<Rightarrow> bool" where
  "same_kind kindNone kindNone = True"
| "same_kind (kindIndex _) (kindIndex _) = True"
| "same_kind (kindKey _) (kindKey _) = True"
| "same_kind _ _ = False"

definition add_path_in_arg ::
    "path_argument list \<Rightarrow> path_argument \<Rightarrow> path_argument list \<Rightarrow> path_argument list \<times> path_argument list" where
  \<comment> \<open>\<^verbatim>\<open>addPathInArg\<close>: the arguments still to use, and \<^verbatim>\<open>args_\<close>; a wrong kind is ignored\<close>
  "add_path_in_arg inp kind args =
     (case inp of [] \<Rightarrow> (inp, args)
      | a # r \<Rightarrow> if \<not> same_kind a kind then (inp, args) else (r, args @ [a]))"

fun index_digits :: "string \<Rightarrow> uint32 \<Rightarrow> uint32 \<times> string" where
  "index_digits [] index = (index, [])"
| "index_digits (c # r) index =
     (if is_digit c then index_digits r (index * 10 + of_nat (digit_val c)) else (index, c # r))"

definition name_char :: "char \<Rightarrow> bool" where
  \<comment> \<open>\<^verbatim>\<open>!strchr("[.", c)\<close>; \<^verbatim>\<open>strchr\<close> also finds the terminating NUL\<close>
  "name_char c \<longleftrightarrow> c \<noteq> CHR ''['' \<and> c \<noteq> CHR ''.'' \<and> c \<noteq> NUL"

partial_function (option) make_path_loop ::
    "string \<Rightarrow> path_argument list \<Rightarrow> path_argument list \<Rightarrow> path_argument list option" where
  "make_path_loop cur inp args =
     (case cur of [] \<Rightarrow> Some args
      | c # r \<Rightarrow>
          if c = CHR ''['' then
            (if r \<noteq> [] \<and> hd r = CHR ''%'' then
               (let ia = add_path_in_arg inp (kindIndex 0) args
                in make_path_loop (tl r) (fst ia) (snd ia))
             else
               (let ir = index_digits r 0
                in make_path_loop (tl (snd ir)) inp (args @ [kindIndex (fst ir)])))
          else if c = CHR ''%'' then
            (let ia = add_path_in_arg inp (kindKey []) args
             in make_path_loop r (fst ia) (snd ia))
          else if c = CHR ''.'' \<or> c = CHR '']'' then make_path_loop r inp args
          else make_path_loop (dropWhile name_char cur) inp (args @ [kindKey (takeWhile name_char cur)]))"

definition make_path :: "string \<Rightarrow> path_argument list \<Rightarrow> path_argument list option" where
  \<comment> \<open>\<^verbatim>\<open>Path(path, a1, ..., a5)\<close>: \<^verbatim>\<open>args_\<close>, or None when the loop does not end\<close>
  "make_path path inp = make_path_loop path inp []"

section \<open>Following a path\<close>

fun path_resolve :: "path_argument list \<Rightarrow> json \<Rightarrow> json res" where
  \<comment> \<open>\<^verbatim>\<open>resolve(root)\<close>; a member that is not there gives the null singleton's address\<close>
  "path_resolve [] node = Inr node"
| "path_resolve (kindIndex i # ps) node =
     (if \<not> is_array node \<or> \<not> is_valid_index node i then Inr null_singleton
      else bind_res (index_const node i) (path_resolve ps))"
| "path_resolve (kindKey k # ps) node =
     (if \<not> is_object node then Inr null_singleton
      else bind_res (find_member node k) (\<lambda>r.
             case r of None \<Rightarrow> Inr null_singleton | Some c \<Rightarrow> path_resolve ps c))"
| "path_resolve (kindNone # ps) node = path_resolve ps node"

fun path_resolve_default :: "path_argument list \<Rightarrow> json \<Rightarrow> json \<Rightarrow> json res" where
  \<comment> \<open>\<^verbatim>\<open>resolve(root, defaultValue)\<close>\<close>
  "path_resolve_default [] node dflt = Inr node"
| "path_resolve_default (kindIndex i # ps) node dflt =
     (if \<not> is_array node \<or> \<not> is_valid_index node i then Inr dflt
      else bind_res (index_const node i) (\<lambda>c. path_resolve_default ps c dflt))"
| "path_resolve_default (kindKey k # ps) node dflt =
     (if \<not> is_object node then Inr dflt
      else bind_res (find_member node k) (\<lambda>r.
             case r of None \<Rightarrow> Inr dflt | Some c \<Rightarrow> path_resolve_default ps c dflt))"
| "path_resolve_default (kindNone # ps) node dflt = path_resolve_default ps node dflt"

fun path_make :: "path_argument list \<Rightarrow> json \<Rightarrow> json res" where
  \<comment> \<open>\<^verbatim>\<open>make(root)\<close>: the root with every value on the path created\<close>
  "path_make [] node = Inr node"
| "path_make (kindIndex i # ps) node =
     bind_res (index_ref node i) (\<lambda>node'.
     bind_res (path_make ps (index_get node' i)) (\<lambda>c. Inr (index_put node' i c)))"
| "path_make (kindKey k # ps) node =
     bind_res (member_ref node k) (\<lambda>node'.
     bind_res (path_make ps (member_get node' k)) (\<lambda>c. Inr (member_put node' k c)))"
| "path_make (kindNone # ps) node = path_make ps node"

section \<open>The loop ends\<close>

lemma index_digits_suffix: "suffix (snd (index_digits r n)) r"
  by (induction r n rule: index_digits.induct) (auto intro: suffix_ConsI)

lemma dropWhile_shorter: "c \<in> set [hd s] \<Longrightarrow> s \<noteq> [] \<Longrightarrow> P c \<Longrightarrow> length (dropWhile P s) < length s"
  by (cases s) (auto simp: length_dropWhile_le less_Suc_eq_le)

lemma make_path_loop_ends: "NUL \<notin> set cur \<Longrightarrow> \<exists>ps. make_path_loop cur inp args = Some ps"
proof (induction cur arbitrary: inp args rule: length_induct)
  case (1 cur)
  have IH: "\<exists>ps. make_path_loop s i a = Some ps" if "suffix s cur" "s \<noteq> cur" for s i a
    using 1 that set_mono_suffix [OF that(1)] suffix_length_less [OF that] by blast
  show ?case
  proof (cases cur)
    case (Cons c r)
    have s: "suffix r cur" "r \<noteq> cur" "suffix (tl r) cur" "tl r \<noteq> cur"
      using Cons by (auto simp: suffix_ConsI suffix_tl) (metis Suc_n_not_le_n length_Cons length_tl diff_le_self)
    have d: "suffix (tl (snd (index_digits r 0))) cur" "tl (snd (index_digits r 0)) \<noteq> cur"
    proof -
      have "suffix (tl (snd (index_digits r 0))) r"
        using index_digits_suffix suffix_order.trans suffix_tl by blast
      then show "suffix (tl (snd (index_digits r 0))) cur" "tl (snd (index_digits r 0)) \<noteq> cur"
        using Cons by (auto simp: suffix_ConsI dest: suffix_length_le)
    qed
    have n: "suffix (dropWhile name_char cur) cur" "dropWhile name_char cur \<noteq> cur"
      if "c \<noteq> CHR ''['' \<and> c \<noteq> CHR ''.''"
    proof -
      have "name_char c" using that "1.prems" Cons by (auto simp: name_char_def)
      then show "dropWhile name_char cur \<noteq> cur"
        using length_dropWhile_le [of name_char r] Cons by auto
    qed (rule suffix_dropWhile)
    show ?thesis
      using IH [OF s(1,2)] IH [OF s(3,4)] IH [OF d] IH [OF n]
      by (subst make_path_loop.simps) (auto simp: Cons Let_def)
  qed (simp add: make_path_loop.simps)
qed

section \<open>Writing and reading a path\<close>

fun render_argument :: "path_argument \<Rightarrow> string" where
  "render_argument kindNone = []"
| "render_argument (kindIndex i) = ''['' @ show_nat (unat i) @ '']''"
| "render_argument (kindKey k) = ''.'' @ k"

fun argument_ok :: "path_argument \<Rightarrow> bool" where
  \<comment> \<open>a name that is not empty, has none of the special characters and begins with no other\<close>
  "argument_ok kindNone = False"
| "argument_ok (kindIndex i) = True"
| "argument_ok (kindKey k) = (k \<noteq> [] \<and> list_all name_char k \<and> hd k \<noteq> CHR ''%'' \<and> hd k \<noteq> CHR '']'')"

lemma index_digits_nat:
  "list_all is_digit ds \<Longrightarrow> r = [] \<or> \<not> is_digit (hd r) \<Longrightarrow>
   index_digits (ds @ r) (of_nat n) = (of_nat (nat_of_dec n ds), r)"
proof (induction ds arbitrary: n)
  case (Cons d ds)
  from Cons.IH [of "n * 10 + digit_val d"] Cons.prems show ?case
    by (simp add: algebra_simps)
qed (cases r; auto)

lemma make_path_loop_argument:
  assumes "argument_ok a" "r = [] \<or> hd r \<in> {CHR ''['', CHR ''.''}"
  shows "make_path_loop (render_argument a @ r) inp args = make_path_loop r inp (args @ [a])"
proof (cases a)
  case (kindIndex i)
  have nd: "\<not> is_digit (CHR '']'')" by (simp add: is_digit_def byte_def)
  have "list_all is_digit (show_nat (unat i))" using show_nat_digits by (auto simp: list_all_iff)
  then have d: "index_digits (show_nat (unat i) @ CHR '']'' # r) 0 = (i, CHR '']'' # r)"
    using index_digits_nat [of "show_nat (unat i)" "CHR '']'' # r" 0] nd by (simp add: nat_of_dec_show_nat)
  have "show_nat (unat i) \<noteq> [] \<and> is_digit (hd (show_nat (unat i)))"
    using show_nat_digits [of _ "unat i"] by (metis show_nat_not_Nil list.set_sel(1))
  then have "hd (show_nat (unat i) @ CHR '']'' # r) \<noteq> CHR ''%''"
    by (auto simp: is_digit_def byte_def)
  then show ?thesis
    by (subst make_path_loop.simps) (simp add: kindIndex d Let_def)
next
  case (kindKey k)
  have w: "takeWhile name_char (k @ r) = k" "dropWhile name_char (k @ r) = r"
  proof -
    have k: "list_all name_char k" using assms(1) kindKey by simp
    have r: "r = [] \<or> \<not> name_char (hd r)" using assms(2) by (auto simp: name_char_def)
    show "takeWhile name_char (k @ r) = k" using k r by (cases r) (auto simp: list_all_iff)
    show "dropWhile name_char (k @ r) = r" using k r by (cases r) (auto simp: list_all_iff)
  qed
  obtain c t where kc: "k = c # t" using assms(1) kindKey by (cases k) auto
  have c: "c \<noteq> CHR ''['' \<and> c \<noteq> CHR ''.'' \<and> c \<noteq> CHR ''%'' \<and> c \<noteq> CHR '']''"
    using assms(1) kindKey kc by (auto simp: name_char_def)
  have "make_path_loop (k @ r) inp args = make_path_loop r inp (args @ [a])"
    using c w by (subst make_path_loop.simps) (simp add: kc kindKey)
  then show ?thesis
    using kindKey by (subst make_path_loop.simps) simp
qed (use assms in simp)

lemma make_path_render:
  "list_all argument_ok ps \<Longrightarrow> make_path (concat (map render_argument ps)) inp = Some ps"
proof -
  have hd: "concat (map render_argument ps) = [] \<or>
      hd (concat (map render_argument ps)) \<in> {CHR ''['', CHR ''.''}" if "list_all argument_ok ps" for ps
  proof (cases ps)
    case (Cons p ps')
    then show ?thesis using that by (cases p) auto
  qed simp
  have "make_path_loop (concat (map render_argument ps)) inp args = Some (args @ ps)"
    if "list_all argument_ok ps" for args
    using that
  proof (induction ps arbitrary: args)
    case (Cons p ps)
    then show ?case
      using make_path_loop_argument [of p "concat (map render_argument ps)" inp args] hd [of ps] by simp
  qed (simp add: make_path_loop.simps)
  then show "list_all argument_ok ps \<Longrightarrow> make_path (concat (map render_argument ps)) inp = Some ps"
    by (simp add: make_path_def)
qed

section \<open>What has been made is found\<close>

fun index_ok :: "path_argument \<Rightarrow> bool" where
  "index_ok (kindIndex i) = (i \<noteq> -1)"
| "index_ok _ = True"

fun sizes_ok :: "json \<Rightarrow> bool" where
  \<comment> \<open>no array has an element at the last index, whose size would wrap around to 0\<close>
  "sizes_ok (JArr _ m) = ((\<forall>v \<in> snd ` set m. sizes_ok v) \<and> (-1) \<notin> fst ` set m)"
| "sizes_ok (JObj _ m) = (\<forall>v \<in> snd ` set m. sizes_ok v)"
| "sizes_ok _ = True"

lemma path_resolve_null: "path_resolve ps null_singleton = Inr null_singleton"
proof (induction ps)
  case (Cons p ps)
  then show ?case by (cases p) (simp_all add: null_singleton_def is_array_def is_object_def)
qed simp

lemma om_last_greatest: "om_sorted m \<Longrightarrow> k \<in> fst ` set m \<Longrightarrow> k \<le> fst (last m)"
proof (induction m)
  case (Cons p m)
  obtain k' v where p: "p = (k', v)" by (cases p)
  show ?case
  proof (cases "m = []")
    case False
    then have "last m \<in> set m" by simp
    then have "k' \<le> fst (last m)" using Cons.prems(1) p by (auto intro: less_imp_le)
    then show ?thesis using Cons.IH Cons.prems False p by (cases "k = k'") auto
  qed (use Cons.prems p in simp)
qed simp

lemma valid_index_member:
  assumes "om_sorted m" "i \<in> fst ` set m" "(-1) \<notin> fst ` set m"
  shows "is_valid_index (JArr mt m) i"
proof -
  have n: "m \<noteq> []" using assms(2) by auto
  let ?l = "fst (last m)"
  have "?l \<in> fst ` set m" using n by simp
  then have "?l \<noteq> -1" using assms(3) by metis
  then have "unat ?l \<noteq> unat (-1 :: uint32)" by (simp only: word_unat_eq_iff not_False_eq_True)
  moreover have "unat (-1 :: uint32) = 2 ^ 32 - 1" by (simp add: unsigned_minus_1_eq_mask mask_eq_exp_minus_1)
  moreover have "unat ?l < 2 ^ 32" using unsigned_less [of ?l] by simp
  ultimately have "unat ?l + unat (1 :: uint32) < 2 ^ LENGTH(32)" by simp
  then have "unat (?l + 1) = unat ?l + 1"
    using unat_add_lem [of ?l 1] by simp
  moreover have "i \<le> ?l" using om_last_greatest [OF assms(1,2)] .
  ultimately have "i < ?l + 1" by (simp add: word_less_nat_alt word_le_nat_alt)
  then show ?thesis using n by (simp add: is_valid_index_def)
qed

lemma sizes_ok_find: "sizes_ok (JArr mt m) \<Longrightarrow> om_find i m = Some c \<Longrightarrow> sizes_ok c"
  "sizes_ok (JObj mt n) \<Longrightarrow> om_find k n = Some c \<Longrightarrow> sizes_ok c"
  by (force dest!: om_find_Some_in_set)+

lemma sizes_ok_null [simp]: "sizes_ok null_singleton"
  by (simp add: null_singleton_def)

lemma om_find_emplace: "om_find k (om_emplace k v m) = Some (case om_find k m of None \<Rightarrow> v | Some w \<Rightarrow> w)"
  by (induction k v m rule: om_emplace.induct) auto

lemma om_emplace_present: "om_find k m \<noteq> None \<Longrightarrow> om_emplace k v m = m"
  by (induction k v m rule: om_emplace.induct) (auto split: if_splits)

lemma om_find_put: "om_find k (om_put k v m) = Some v"
  by (induction k v m rule: om_put.induct) auto

lemma om_put_put: "om_put k w (om_put k v m) = om_put k w m"
  by (induction k v m rule: om_put.induct) auto

text \<open>One step of \<^verbatim>\<open>make\<close> into a container.\<close>

lemma path_make_index:
  assumes "path_make (kindIndex i # ps) v = Inr v'"
  obtains mt m c' where "v' = JArr mt (om_put i c' m)"
    "path_make ps (case om_find i m of None \<Rightarrow> null_singleton | Some x \<Rightarrow> x) = Inr c'"
    "type_of v = nullValue \<and> m = [] \<or> v = JArr mt m"
proof -
  obtain n c' where n: "index_ref v i = Inr n" "path_make ps (index_get n i) = Inr c'" "v' = index_put n i c'"
    using assms by (auto simp: bind_res_Inr_iff)
  have t: "type_of v = nullValue \<or> type_of v = arrayValue"
    using n(1) by (auto simp: index_ref_def json_assert_Inr_iff)
  obtain mt m where m: "n = JArr mt (om_emplace i null_singleton m)" "type_of v = nullValue \<and> m = [] \<or> v = JArr mt m"
    using n(1) t
    by (cases v) (auto simp: index_ref_def json_assert_Inr_iff as_array_def array_map_def Let_def
        ensure_key_emplace meta0_def)
  then show thesis
    using that [of mt c' m] n by (simp add: index_put_def index_get_def array_map_def om_put_emplace om_find_emplace)
qed

lemma path_make_key:
  assumes "path_make (kindKey k # ps) v = Inr v'"
  obtains mt m c' where "v' = JObj mt (om_put (czstring k) c' m)"
    "path_make ps (case om_find (czstring k) m of None \<Rightarrow> null_singleton | Some x \<Rightarrow> x) = Inr c'"
    "type_of v = nullValue \<and> m = [] \<or> v = JObj mt m"
proof -
  obtain n c' where n: "resolve_reference v k = Inr n" "path_make ps (member_get n k) = Inr c'" "v' = member_put n k c'"
    using assms by (auto simp: bind_res_Inr_iff member_ref_def)
  have t: "type_of v = nullValue \<or> type_of v = objectValue"
    using n(1) by (auto simp: resolve_reference_def json_assert_Inr_iff)
  obtain mt m where m: "n = JObj mt (om_emplace (czstring k) null_singleton m)"
    "type_of v = nullValue \<and> m = [] \<or> v = JObj mt m"
    using n(1) t
    by (cases v) (auto simp: resolve_reference_def json_assert_Inr_iff as_object_def object_map_def Let_def
        ensure_key_emplace meta0_def)
  then show thesis
    using that [of mt c' m] n by (simp add: member_put_def member_get_def object_map_def om_put_emplace om_find_emplace)
qed

lemma path_make_found:
  "path_make ps v = Inr v' \<Longrightarrow> wf_json v \<Longrightarrow> sizes_ok v \<Longrightarrow> list_all index_ok ps \<Longrightarrow>
   path_resolve_default ps v' dflt = path_resolve ps v \<and> path_make ps v' = Inr v'"
proof (induction ps arbitrary: v v')
  case (Cons p ps)
  show ?case
  proof (cases p)
    case kindNone
    then show ?thesis using Cons by simp
  next
    case (kindIndex i)
    obtain mt m c' where v': "v' = JArr mt (om_put i c' m)"
      and c': "path_make ps (case om_find i m of None \<Rightarrow> null_singleton | Some x \<Rightarrow> x) = Inr c'"
      and m: "type_of v = nullValue \<and> m = [] \<or> v = JArr mt m"
      using path_make_index [OF Cons.prems(1) [unfolded kindIndex]] by blast
    let ?c = "case om_find i m of None \<Rightarrow> null_singleton | Some x \<Rightarrow> x"
    have s: "om_sorted m" using m Cons.prems(2) by (auto simp: wf_map_def)
    have c: "wf_json ?c" "sizes_ok ?c"
      using m Cons.prems(2,3) sizes_ok_find(1) [of mt m i]
      by (auto split: option.split simp del: sizes_ok.simps intro: wf_map_find)
    have IH: "path_resolve_default ps c' dflt = path_resolve ps ?c" "path_make ps c' = Inr c'"
      using Cons.IH [OF c' c] Cons.prems(4) by simp_all
    have "(-1) \<notin> fst ` set m" using m Cons.prems(3) by (elim disjE) simp_all
    then have "(-1) \<notin> fst ` set (om_put i c' m)"
      using Cons.prems(4) kindIndex unfolding fst_om_put by auto
    then have val: "is_valid_index v' i"
      unfolding v' by (intro valid_index_member om_sorted_put s) (simp_all add: fst_om_put)
    have "path_resolve (p # ps) v = path_resolve ps ?c"
      using m
    proof
      assume v: "v = JArr mt m"
      have "om_find i m = None \<or> is_valid_index v i"
        using valid_index_member [OF s, of i mt] Cons.prems(3) om_find_Some_in_set [of i m]
        unfolding v by (cases "om_find i m") force+
      then show ?thesis
        unfolding kindIndex v
        by (auto simp: index_const_def is_array_def array_map_def path_resolve_null split: option.split)
    next
      assume "type_of v = nullValue \<and> m = []"
      then show ?thesis unfolding kindIndex by (simp add: is_array_def path_resolve_null)
    qed
    moreover have "path_resolve_default (p # ps) v' dflt = path_resolve_default ps c' dflt"
      unfolding kindIndex using val v' by (simp add: is_array_def index_const_def array_map_def om_find_put)
    moreover have "path_make (p # ps) v' = Inr v'"
      unfolding kindIndex v' using IH(2)
      by (simp add: index_ref_def as_array_def array_map_def Let_def ensure_key_emplace om_emplace_present
          om_find_put index_get_def index_put_def om_put_put)
    ultimately show ?thesis using IH(1) by simp
  next
    case (kindKey k)
    let ?k = "czstring k"
    obtain mt m c' where v': "v' = JObj mt (om_put ?k c' m)"
      and c': "path_make ps (case om_find ?k m of None \<Rightarrow> null_singleton | Some x \<Rightarrow> x) = Inr c'"
      and m: "type_of v = nullValue \<and> m = [] \<or> v = JObj mt m"
      using path_make_key [OF Cons.prems(1) [unfolded kindKey]] by blast
    let ?c = "case om_find ?k m of None \<Rightarrow> null_singleton | Some x \<Rightarrow> x"
    have c: "wf_json ?c" "sizes_ok ?c"
      using m Cons.prems(2,3) sizes_ok_find(2) [of mt m ?k]
      by (auto split: option.split simp del: sizes_ok.simps intro: wf_map_find)
    have IH: "path_resolve_default ps c' dflt = path_resolve ps ?c" "path_make ps c' = Inr c'"
      using Cons.IH [OF c' c] Cons.prems(4) by simp_all
    have "path_resolve (p # ps) v = path_resolve ps ?c"
      using m unfolding kindKey
      by (auto simp: find_member_def is_object_def object_map_def path_resolve_null split: option.split)
    moreover have "path_resolve_default (p # ps) v' dflt = path_resolve_default ps c' dflt"
      unfolding kindKey v' by (simp add: is_object_def find_member_def object_map_def om_find_put)
    moreover have "path_make (p # ps) v' = Inr v'"
      unfolding kindKey v' using IH(2)
      by (simp add: member_ref_def resolve_reference_def as_object_def object_map_def Let_def
          ensure_key_emplace om_emplace_present om_find_put member_get_def member_put_def om_put_put)
    ultimately show ?thesis using IH(1) by simp
  qed
qed simp

section \<open>The properties\<close>

lemma make_path_loop_nul:
  assumes "make_path_loop cur inp args = Some ps"
  shows "cur = [] \<or> hd cur \<noteq> NUL"
proof (rule make_path_loop.raw_induct [where P = "\<lambda>cur _ _ _. cur = [] \<or> hd cur \<noteq> NUL", OF _ assms])
  fix loop cur inp args ps
  assume IH: "\<And>cur inp args ps. loop cur inp args = Some ps \<Longrightarrow> cur = [] \<or> hd cur \<noteq> NUL"
    and body: "(case cur of [] \<Rightarrow> Some args
      | c # r \<Rightarrow>
          if c = CHR ''['' then
            (if r \<noteq> [] \<and> hd r = CHR ''%'' then
               (let ia = add_path_in_arg inp (kindIndex 0) args in loop (tl r) (fst ia) (snd ia))
             else (let ir = index_digits r 0 in loop (tl (snd ir)) inp (args @ [kindIndex (fst ir)])))
          else if c = CHR ''%'' then
            (let ia = add_path_in_arg inp (kindKey []) args in loop r (fst ia) (snd ia))
          else if c = CHR ''.'' \<or> c = CHR '']'' then loop r inp args
          else loop (dropWhile name_char cur) inp (args @ [kindKey (takeWhile name_char cur)])) =
      Some (ps :: path_argument list)"
  have "\<not> name_char NUL" by (simp add: name_char_def)
  moreover have "\<not> loop (NUL # r) i a = Some p" for r i a p using IH [of "NUL # r"] by auto
  ultimately show "cur = [] \<or> hd cur \<noteq> NUL"
    using body by (cases cur) (auto simp: Let_def)
qed

text \<open>C31: The constructor of \<^verbatim>\<open>Path\<close> returns for every expression without a NUL character,
  whatever else it contains; on an expression that begins with a NUL it never does.\<close>

theorem path_constructor_returns:
  assumes "NUL \<notin> set path"
  shows "(\<exists>ps. make_path path inp = Some ps) \<and> make_path (NUL # path) inp = None"
proof
  show "\<exists>ps. make_path path inp = Some ps"
    using make_path_loop_ends [OF assms] by (simp add: make_path_def)
  show "make_path (NUL # path) inp = None"
    using make_path_loop_nul [of "NUL # path" inp "[]"] by (cases "make_path (NUL # path) inp") (auto simp: make_path_def)
qed

theorem path_constructor_returns_witness:
  "(\<exists>ps. make_path ''.a[%]]..[7'' [] = Some ps) \<and> make_path (NUL # ''.a[%]]..[7'') [] = None"
  by (rule path_constructor_returns) simp

text \<open>C32: A sequence of indices and names written as a path expression is read back as the
  same sequence, when no name is empty, contains a special character or begins with a
  percent sign or a closing bracket.\<close>

theorem path_roundtrip:
  assumes "list_all argument_ok ps"
  shows "make_path (concat (map render_argument ps)) inp = Some ps"
  by (rule make_path_render [OF assms])

lemma show_nat_12: "show_nat 12 = ''12''"
  by (simp add: show_nat.simps digit_chr_def eq_commute [of "chr _"] eq_chr_iff) (simp add: byte_def)

theorem path_roundtrip_witness:
  "make_path ''.name[12].b'' [] = Some [kindKey ''name'', kindIndex 12, kindKey ''b'']"
  using path_roundtrip [of "[kindKey ''name'', kindIndex 12, kindKey ''b'']" "[]"]
  by (simp add: name_char_def show_nat_12)

text \<open>C33: \<^verbatim>\<open>make\<close> only adds nulls: afterwards \<^verbatim>\<open>resolve\<close> with any default finds at the path
  what \<^verbatim>\<open>resolve\<close> without a default saw before, and making the path again changes nothing.
  The exception is the last array index, where the size of the array wraps around to 0.\<close>

theorem path_made_is_found:
  assumes "path_make ps v = Inr v'" "wf_json v" "sizes_ok v" "list_all index_ok ps"
  shows "path_resolve_default ps v' dflt = path_resolve ps v \<and> path_make ps v' = Inr v'"
  by (rule path_make_found [OF assms])

definition path_demo :: json where
  "path_demo = JObj meta0 [(''a'', JArr meta0 [(0, JInt meta0 1)])]"

lemma path_demo_made:
  "path_make [kindKey ''a'', kindIndex 2, kindKey ''b''] path_demo =
     Inr (JObj meta0 [(''a'', JArr meta0 [(0, JInt meta0 1), (2, JObj meta0 [(''b'', JNull meta0)])])])"
  by code_simp

theorem path_made_is_found_witness:
  "path_resolve_default [kindKey ''a'', kindIndex 2, kindKey ''b'']
     (JObj meta0 [(''a'', JArr meta0 [(0, JInt meta0 1), (2, JObj meta0 [(''b'', JNull meta0)])])]) (JBool meta0 True) =
   path_resolve [kindKey ''a'', kindIndex 2, kindKey ''b''] path_demo"
  by (rule path_made_is_found [OF path_demo_made, THEN conjunct1]) (simp_all add: path_demo_def wf_map_def keys_ok_def)

end
