(* ===== verification/Old_Token.thy ===== *)
theory Old_Token
  imports Json_Pointer
begin

text \<open>
  The scanner and the decoders of the deprecated \<^verbatim>\<open>Json::Reader\<close> (src/json_reader.cc), which
  also collects comments. It keeps pointers to values: \<^verbatim>\<open>nodes_\<close> and \<^verbatim>\<open>lastValue_\<close>. Values in
  a container never move, so a pointer is the path from the root, and the state holds the
  root. A function that may fail an assertion returns in \<open>res\<close>.
\<close>

section \<open>Features and state\<close>

record old_features =
  o_allow_comments :: bool
  o_strict_root :: bool
  o_allow_dropped_null :: bool
  o_allow_numeric_keys :: bool

definition features_all :: old_features where
  \<comment> \<open>\<^verbatim>\<open>Features::all()\<close>, the default values of the members\<close>
  "features_all =
     \<lparr>o_allow_comments = True, o_strict_root = False, o_allow_dropped_null = False,
      o_allow_numeric_keys = False\<rparr>"

definition features_strict_mode :: old_features where
  "features_strict_mode =
     features_all\<lparr>o_allow_comments := False, o_strict_root := True, o_allow_dropped_null := False,
       o_allow_numeric_keys := False\<rparr>"

record ostate =
  o_root :: json
  o_current :: loc
  o_errors :: "err_info list"
  o_last_end :: "loc option"
  o_last :: "path option"
  o_comments :: string

text \<open>\<^verbatim>\<open>currentValue()\<close> is read by \<open>value_at\<close> and written by \<open>set_at\<close>.\<close>

definition value_at :: "path \<Rightarrow> ostate \<Rightarrow> json" where
  "value_at p st = at_path p (o_root st)"

definition set_at :: "path \<Rightarrow> json \<Rightarrow> ostate \<Rightarrow> ostate" where
  "set_at p v st = st\<lparr>o_root := put_at p v (o_root st)\<rparr>"

definition update_at :: "path \<Rightarrow> (json \<Rightarrow> json) \<Rightarrow> ostate \<Rightarrow> ostate" where
  "update_at p g st = set_at p (g (value_at p st)) st"

definition old_add_error :: "err_info \<Rightarrow> ostate \<Rightarrow> ostate" where
  "old_add_error e st = st\<lparr>o_errors := o_errors st @ [e]\<rparr>"

section \<open>Comments\<close>

definition contains_new_line :: "loc \<Rightarrow> loc \<Rightarrow> bool" where
  "contains_new_line begin end' = list_ex (\<lambda>b. b = LF \<or> b = CR) (range_text begin end')"

fun normalize_eol :: "string \<Rightarrow> string" where
  \<comment> \<open>of the characters in \<^verbatim>\<open>[begin, end)\<close>\<close>
  "normalize_eol [] = []"
| "normalize_eol (c # r) =
     (if c = CR then LF # normalize_eol (if r \<noteq> [] \<and> hd r = LF then tl r else r)
      else c # normalize_eol r)"

definition add_comment :: "loc \<Rightarrow> loc \<Rightarrow> comment_placement \<Rightarrow> ostate \<Rightarrow> ostate res" where
  "add_comment begin end' placement st =
     (let normalized = normalize_eol (range_text begin end')
      in if placement = commentAfterOnSameLine then
           (case o_last st of
              None \<Rightarrow> Inl (AssertFail ''lastValue_ != nullptr'')
            | Some p \<Rightarrow>
                bind_res (set_comment (value_at p st) normalized placement) (\<lambda>v. Inr (set_at p v st)))
         else Inr (st\<lparr>o_comments := o_comments st @ normalized\<rparr>))"

fun old_read_c_style_loop :: "loc \<Rightarrow> loc" where
  "old_read_c_style_loop (c # d # r) =
     (if c = CHR ''*'' \<and> d = CHR ''/'' then d # r else old_read_c_style_loop (d # r))"
| "old_read_c_style_loop cur = cur"

definition old_get_next_char :: "loc \<Rightarrow> char \<times> loc" where
  "old_get_next_char cur = (case cur of [] \<Rightarrow> (NUL, []) | c # r \<Rightarrow> (c, r))"

definition old_read_c_style_comment :: "loc \<Rightarrow> bool \<times> loc" where
  "old_read_c_style_comment cur =
     (let (c, cur1) = old_get_next_char (old_read_c_style_loop cur) in (c = CHR ''/'', cur1))"

fun old_read_cpp_style_comment :: "loc \<Rightarrow> loc" where
  \<comment> \<open>always successful\<close>
  "old_read_cpp_style_comment [] = []"
| "old_read_cpp_style_comment (c # r) =
     (if c = LF then r
      else if c = CR then (if r \<noteq> [] \<and> hd r = LF then tl r else r)
      else old_read_cpp_style_comment r)"

definition comment_text_end :: "loc \<Rightarrow> bool \<times> char \<times> loc" where
  \<comment> \<open>the first half of \<^verbatim>\<open>readComment\<close>: success, the second character, \<^verbatim>\<open>current_\<close>\<close>
  "comment_text_end cur =
     (let (c, cur1) = old_get_next_char cur
      in if c = CHR ''*'' then (case old_read_c_style_comment cur1 of (ok, cur2) \<Rightarrow> (ok, c, cur2))
         else if c = CHR ''/'' then (True, c, old_read_cpp_style_comment cur1)
         else (False, c, cur1))"

definition comment_place :: "loc \<Rightarrow> char \<Rightarrow> loc \<Rightarrow> loc option \<Rightarrow> comment_placement" where
  "comment_place commentBegin c cur last_end =
     (case last_end of
        None \<Rightarrow> commentBefore
      | Some e \<Rightarrow>
          if \<not> contains_new_line e commentBegin \<and> (c \<noteq> CHR ''*'' \<or> \<not> contains_new_line commentBegin cur)
          then commentAfterOnSameLine else commentBefore)"

definition old_read_comment :: "bool \<Rightarrow> loc \<Rightarrow> ostate \<Rightarrow> (bool \<times> ostate) res" where
  \<comment> \<open>\<open>commentBegin\<close> is \<^verbatim>\<open>current_ - 1\<close>\<close>
  "old_read_comment collect commentBegin st =
     (case comment_text_end (o_current st) of (successful, c, cur) \<Rightarrow>
        let st1 = st\<lparr>o_current := cur\<rparr>
        in if \<not> successful then Inr (False, st1)
           else if collect then
             bind_res (add_comment commentBegin cur (comment_place commentBegin c cur (o_last_end st1)) st1)
               (\<lambda>st2. Inr (True, st2))
           else Inr (True, st1))"

section \<open>Tokens\<close>

fun old_skip_spaces :: "loc \<Rightarrow> loc" where
  "old_skip_spaces [] = []"
| "old_skip_spaces (c # r) =
     (if c = CHR '' '' \<or> c = TAB \<or> c = CR \<or> c = LF then old_skip_spaces r else c # r)"

definition old_match :: "string \<Rightarrow> loc \<Rightarrow> bool \<times> loc" where
  "old_match pattern cur =
     (if length cur < length pattern then (False, cur)
      else if take (length pattern) cur \<noteq> pattern then (False, cur)
      else (True, drop (length pattern) cur))"

definition old_read_number :: "loc \<Rightarrow> loc" where
  \<comment> \<open>\<open>(c, current_, p)\<close> after each part\<close>
  "old_read_number cur =
     (let s1 = skip_digits cur;
          s2 = (case s1 of (c, _, p) \<Rightarrow> if c = CHR ''.'' then while_digits (next_c p) else s1);
          s3 = (case s2 of (c, _, p) \<Rightarrow>
                  if c = CHR ''e'' \<or> c = CHR ''E'' then
                    (let t = next_c p;
                         u = (case t of (d, _, q) \<Rightarrow>
                                if d = CHR ''+'' \<or> d = CHR ''-'' then next_c q else t)
                     in while_digits u)
                  else s2)
      in fst (snd s3))"

fun old_read_string_loop :: "char \<Rightarrow> loc \<Rightarrow> char \<times> loc" where
  "old_read_string_loop c [] = (c, [])"
| "old_read_string_loop c (d # r) =
     (if d = BSL then old_read_string_loop d (tl r)
      else if d = DQ then (d, r)
      else old_read_string_loop d r)"

definition old_read_string :: "loc \<Rightarrow> bool \<times> loc" where
  "old_read_string cur = (case old_read_string_loop NUL cur of (c, cur') \<Rightarrow> (c = DQ, cur'))"

definition old_token_switch :: "char \<Rightarrow> loc \<Rightarrow> token_type \<times> bool \<times> loc" where
  \<comment> \<open>the cases other than \<^verbatim>\<open>'/'\<close>\<close>
  "old_token_switch c cur =
     (if c = CHR ''{'' then (tokenObjectBegin, True, cur)
      else if c = CHR ''}'' then (tokenObjectEnd, True, cur)
      else if c = CHR ''['' then (tokenArrayBegin, True, cur)
      else if c = CHR '']'' then (tokenArrayEnd, True, cur)
      else if c = DQ then (tokenString, old_read_string cur)
      else if is_digit c \<or> c = CHR ''-'' then (tokenNumber, True, old_read_number cur)
      else if c = CHR ''t'' then (tokenTrue, old_match ''rue'' cur)
      else if c = CHR ''f'' then (tokenFalse, old_match ''alse'' cur)
      else if c = CHR ''n'' then (tokenNull, old_match ''ull'' cur)
      else if c = CHR '','' then (tokenArraySeparator, True, cur)
      else if c = CHR '':'' then (tokenMemberSeparator, True, cur)
      else if c = NUL then (tokenEndOfStream, True, cur)
      else (tokenError, False, cur))"

definition old_read_token :: "bool \<Rightarrow> ostate \<Rightarrow> (bool \<times> token \<times> ostate) res" where
  "old_read_token collect st =
     (let start = old_skip_spaces (o_current st); (c, cur1) = old_get_next_char start
      in if c = CHR ''/'' then
           bind_res (old_read_comment collect start (st\<lparr>o_current := cur1\<rparr>)) (\<lambda>(ok, st').
             Inr (ok, \<lparr>tok_type = (if ok then tokenComment else tokenError), tok_start = start,
                       tok_end = o_current st'\<rparr>, st'))
         else
           (case old_token_switch c cur1 of (ty, ok, cur2) \<Rightarrow>
              Inr (ok, \<lparr>tok_type = (if ok then ty else tokenError), tok_start = start, tok_end = cur2\<rparr>,
                   st\<lparr>o_current := cur2\<rparr>)))"

end
