(* ===== verification/Old_Reader.thy ===== *)
theory Old_Reader
  imports Old_Token Json_Reader
begin

text \<open>
  The deprecated \<^verbatim>\<open>Json::Reader\<close> (src/json_reader.cc): decoding of tokens, \<^verbatim>\<open>readValue\<close>,
  \<^verbatim>\<open>readObject\<close>, \<^verbatim>\<open>readArray\<close> with their comments, \<^verbatim>\<open>parse\<close> and the error messages. The mutual
  recursion runs on fuel, as in \<open>Json_Reader\<close>.
\<close>

section \<open>Decoding\<close>

definition old_error :: "string \<Rightarrow> token \<Rightarrow> loc option \<Rightarrow> 'a dec" where
  \<comment> \<open>\<^verbatim>\<open>return addError(message, token, extra)\<close>\<close>
  "old_error message tok extra = Inl \<lparr>e_token = tok, e_message = message, e_extra = extra\<rparr>"

definition old_decode_double :: "token \<Rightarrow> json dec" where
  "old_decode_double tok =
     (let buffer = token_text tok; (ok, v) = istream_double buffer
      in if ok then Inr (mk_real v)
         else if dbl_eq v (DFin False (2 ^ 53 - 1) 971) then Inr (mk_real (DInf False))
         else if dbl_eq v (DFin True (2 ^ 53 - 1) 971) then Inr (mk_real (DInf True))
         else if \<not> is_inf v then old_error ([SQ] @ token_text tok @ [SQ] @ '' is not a number.'') tok None
         else Inr (mk_real v))"

definition max_integer_value :: "bool \<Rightarrow> uint64" where
  "max_integer_value isNegative = (if isNegative then max_largest_int + 1 else 0xFFFFFFFFFFFFFFFF)"

fun old_decode_number_loop :: "uint64 \<Rightarrow> string \<Rightarrow> uint64 \<Rightarrow> uint64 option" where
  \<comment> \<open>the text is \<open>[current, token.end_)\<close>; None is \<^verbatim>\<open>return decodeDouble(token, decoded)\<close>\<close>
  "old_decode_number_loop maxv [] v = Some v"
| "old_decode_number_loop maxv (c # r) v =
     (if \<not> is_digit c then None
      else let digit = of_nat (digit_val c) :: uint32
           in if maxv div 10 \<le> v \<and> (maxv div 10 < v \<or> r \<noteq> [] \<or> maxv mod 10 < ucast digit) then None
              else old_decode_number_loop maxv r (v * 10 + ucast digit))"

definition old_decode_number :: "token \<Rightarrow> json dec" where
  "old_decode_number tok =
     (let isNegative = (tok_start tok \<noteq> [] \<and> hd (tok_start tok) = CHR ''-'');
          current = (if isNegative then tl (token_text tok) else token_text tok);
          maxIntegerValue = max_integer_value isNegative
      in case old_decode_number_loop maxIntegerValue current 0 of
           None \<Rightarrow> old_decode_double tok
         | Some v \<Rightarrow>
             if isNegative \<and> v = maxIntegerValue then Inr (mk_int64 min_largest_int)
             else if isNegative then Inr (mk_int64 (- v))
             else if v \<le> 0x7FFFFFFF then Inr (mk_int64 v)
             else Inr (mk_uint64 v))"

definition old_decode_unicode_escape_sequence ::
    "token \<Rightarrow> loc \<Rightarrow> string \<Rightarrow> (uint32 \<times> string) dec" where
  "old_decode_unicode_escape_sequence tok fin cur =
     (if length cur < 4
      then old_error ''Bad unicode escape sequence in string: four digits expected.'' tok (Some (cur @ fin))
      else case hex_loop 4 cur 0 of
             Inl r \<Rightarrow> old_error ''Bad unicode escape sequence in string: hexadecimal digit expected.''
                        tok (Some (r @ fin))
           | Inr res \<Rightarrow> Inr res)"

definition old_decode_unicode_code_point ::
    "token \<Rightarrow> loc \<Rightarrow> string \<Rightarrow> (uint32 \<times> string) dec" where
  "old_decode_unicode_code_point tok fin cur =
     bind_dec (old_decode_unicode_escape_sequence tok fin cur) (\<lambda>(unicode, cur1).
       if 0xD800 \<le> unicode \<and> unicode \<le> 0xDBFF then
         if length cur1 < 6
         then old_error ''additional six characters expected to parse unicode surrogate pair.''
                tok (Some (cur1 @ fin))
         else if hd cur1 = BSL \<and> hd (tl cur1) = CHR ''u'' then
           bind_dec (old_decode_unicode_escape_sequence tok fin (tl (tl cur1))) (\<lambda>(surrogatePair, cur2).
             Inr (0x10000 + push_bit 10 (unicode AND 0x3FF) + (surrogatePair AND 0x3FF), cur2))
         else old_error (''expecting another '' @ [BSL] @ ''u token to begin the second half of '' @
                ''a unicode surrogate pair'')
                tok (Some ((if hd cur1 = BSL then tl (tl cur1) else tl cur1) @ fin))
       else Inr (unicode, cur1))"

lemma old_error_eq: "old_error = add_error"
  by (simp add: fun_eq_iff old_error_def add_error_def)

lemma old_decode_unicode_eq: "old_decode_unicode_code_point = decode_unicode_code_point"
proof -
  have "old_decode_unicode_escape_sequence = decode_unicode_escape_sequence"
    by (intro ext) (simp only: old_error_eq old_decode_unicode_escape_sequence_def
        decode_unicode_escape_sequence_def)
  then show ?thesis
    by (intro ext) (simp only: old_decode_unicode_code_point_def decode_unicode_code_point_def old_error_eq)
qed

function old_decode_string_loop :: "token \<Rightarrow> loc \<Rightarrow> string \<Rightarrow> string \<Rightarrow> string dec" where
  "old_decode_string_loop tok fin [] decoded = Inr decoded"
| "old_decode_string_loop tok fin (c # r) decoded =
     (if c = DQ then Inr decoded
      else if c = BSL then
        (case r of
           [] \<Rightarrow> old_error ''Empty escape sequence in string'' tok (Some (r @ fin))
         | e # r1 \<Rightarrow>
             (case simple_escape e of
                Some d \<Rightarrow> old_decode_string_loop tok fin r1 (decoded @ [d])
              | None \<Rightarrow>
                  if e = CHR ''u'' then
                    (case old_decode_unicode_code_point tok fin r1 of
                       Inl err \<Rightarrow> Inl err
                     | Inr (unicode, r2) \<Rightarrow>
                         old_decode_string_loop tok fin r2 (decoded @ code_point_to_utf8 unicode))
                  else old_error ''Bad escape sequence in string'' tok (Some (r1 @ fin))))
      else old_decode_string_loop tok fin r (decoded @ [c]))"
  by pat_completeness auto
termination
  by (relation "measure (\<lambda>(_, _, cur, _). length cur)")
    (auto simp: old_decode_unicode_eq dest!: sym [THEN decode_unicode_code_point_length] decode_unicode_code_point_length)

definition old_decode_string_text :: "token \<Rightarrow> string dec" where
  "old_decode_string_text tok =
     (let tx = token_text tok
      in old_decode_string_loop tok (drop (length tx - 1) (tok_start tok)) (butlast (tl tx)) [])"

section \<open>The scanner moves forward\<close>

lemma old_scanners:
  "old_skip_spaces = skip_spaces" "old_get_next_char = get_next_char" "old_match = match_pattern"
  "old_read_cpp_style_comment = read_cpp_style_comment" "old_read_string = read_string"
  "old_read_c_style_loop cur = fst (read_c_style_loop cur nl)"
proof -
  show e: "old_skip_spaces = skip_spaces"
  proof
    show "old_skip_spaces s = skip_spaces s" for s by (induction s) auto
  qed
  show "old_get_next_char = get_next_char" by (simp add: fun_eq_iff old_get_next_char_def get_next_char_def)
  show "old_match = match_pattern" by (simp add: fun_eq_iff old_match_def match_pattern_def)
  show "old_read_cpp_style_comment = read_cpp_style_comment"
  proof
    show "old_read_cpp_style_comment s = read_cpp_style_comment s" for s by (induction s) auto
  qed
  have "old_read_string_loop c s = read_string_loop DQ c s" for c s
    by (induction DQ c s rule: read_string_loop.induct) auto
  then show "old_read_string = read_string" by (simp add: fun_eq_iff old_read_string_def read_string_def)
  show "old_read_c_style_loop cur = fst (read_c_style_loop cur nl)"
    by (induction cur nl rule: read_c_style_loop.induct) auto
qed

lemma old_read_number_eq: "read_number b cur = (if b \<and> cur \<noteq> [] \<and> hd cur = CHR ''I'' then (False, tl cur) else (True, old_read_number cur))"
  by (simp add: read_number_def old_read_number_def Let_def)

lemma comment_text_end_eq: "comment_text_end cur = (fst (read_comment cur), fst (get_next_char cur), snd (read_comment cur))"
  by (simp add: comment_text_end_def read_comment_def old_scanners(2,4) old_read_c_style_comment_def
      read_c_style_comment_def old_scanners(6) [of _ False] split_beta Let_def)

lemma old_read_comment_current:
  "old_read_comment collect cb st = Inr (ok, st') \<Longrightarrow> read_comment (o_current st) = (ok, o_current st')"
  by (auto simp: old_read_comment_def comment_text_end_eq Let_def bind_res_Inr_iff add_comment_def set_at_def
      prod_eq_iff split: if_splits option.splits)

lemma old_token_switch_suffix: "suffix (snd (snd (old_token_switch c cur))) cur"
proof -
  have "suffix (old_read_number cur) cur"
    using read_number_suffix [of False cur] by (simp add: old_read_number_eq)
  then show ?thesis
    by (simp add: old_token_switch_def old_scanners scan_suffix)
qed

lemma old_read_token_progress:
  assumes "old_read_token collect st = Inr (ok, tok, st')"
  shows "suffix (o_current st') (o_current st)"
    "tok_type tok \<noteq> tokenEndOfStream \<Longrightarrow> length (o_current st') < length (o_current st)"
proof -
  let ?s = "skip_spaces (o_current st)"
  have s: "suffix ?s (o_current st)" by (rule skip_spaces_suffix)
  obtain c r where g: "get_next_char ?s = (c, r)" by (cases "get_next_char ?s")
  have "suffix (o_current st') r \<and> (tok_type tok \<noteq> tokenEndOfStream \<longrightarrow> ?s \<noteq> [])"
  proof (cases "c = CHR ''/''")
    case True
    then obtain st1 where "old_read_comment collect ?s (st\<lparr>o_current := r\<rparr>) = Inr (ok, st1)" "st' = st1"
      using assms g by (auto simp: old_read_token_def old_scanners bind_res_Inr_iff Let_def)
    moreover have "?s \<noteq> []" using g True by (auto simp: get_next_char_def)
    ultimately show ?thesis
      using read_comment_suffix [of r] by (auto dest!: old_read_comment_current)
  next
    case False
    obtain ty b r2 where t: "old_token_switch c r = (ty, b, r2)" by (cases "old_token_switch c r") auto
    have "old_token_switch NUL [] = (tokenEndOfStream, True, [])"
      by (simp add: old_token_switch_def is_digit_def byte_def)
    then show ?thesis
      using assms False g t old_token_switch_suffix [of c r]
      by (cases ?s) (auto simp: old_read_token_def old_scanners get_next_char_def)
  qed
  moreover have "r = tl ?s" using g by (auto simp: get_next_char_def split: list.splits)
  ultimately have r: "suffix (o_current st') (tl ?s)" "tok_type tok \<noteq> tokenEndOfStream \<Longrightarrow> ?s \<noteq> []" by auto
  then show "suffix (o_current st') (o_current st)"
    using s suffix_tl_trans suffix_order.trans by blast
  assume "tok_type tok \<noteq> tokenEndOfStream"
  then have "length (o_current st') < length ?s"
    using r suffix_length_le [OF r(1)] by (cases ?s) auto
  then show "length (o_current st') < length (o_current st)" using suffix_length_le [OF s] by simp
qed

section \<open>Comments and recovery\<close>

function old_skip_comment_tokens :: "bool \<Rightarrow> bool \<Rightarrow> ostate \<Rightarrow> (token \<times> ostate) res" where
  \<comment> \<open>the first argument is \<^verbatim>\<open>features_.allowComments_\<close>, the second \<^verbatim>\<open>collectComments_\<close>\<close>
  "old_skip_comment_tokens allow collect st =
     (case old_read_token collect st of
        Inl e \<Rightarrow> Inl e
      | Inr (_, tok, st') \<Rightarrow>
          if allow \<and> tok_type tok = tokenComment then old_skip_comment_tokens allow collect st'
          else Inr (tok, st'))"
  by pat_completeness auto
termination
  by (relation "measure (\<lambda>(_, _, st). length (o_current st))")
    (auto dest!: old_read_token_progress(2))

declare old_skip_comment_tokens.simps [simp del]

function old_skip_comments ::
    "bool \<Rightarrow> bool \<Rightarrow> token \<Rightarrow> ostate \<Rightarrow> (bool \<times> token \<times> ostate) res" where
  \<comment> \<open>\<^verbatim>\<open>while (token.type_ == tokenComment && ok) ok = readToken(token);\<close>\<close>
  "old_skip_comments collect ok tok st =
     (if tok_type tok = tokenComment \<and> ok
      then (case old_read_token collect st of
              Inl e \<Rightarrow> Inl e
            | Inr (ok', tok', st') \<Rightarrow> old_skip_comments collect ok' tok' st')
      else Inr (ok, tok, st))"
  by pat_completeness auto
termination
proof (relation "measure (\<lambda>(_, _, tok, st). comment_measure tok (o_current st))", goal_cases)
  case (2 collect ok tok st r ok' p tok' st')
  then show ?case
    using old_read_token_progress [of collect st ok' tok' st']
    by (auto simp: comment_measure_def dest!: suffix_length_le)
qed simp

declare old_skip_comments.simps [simp del]

function old_recover_from_error :: "bool \<Rightarrow> token_type \<Rightarrow> ostate \<Rightarrow> ostate res" where
  \<comment> \<open>always returns false; \<^verbatim>\<open>errors_\<close> stays as it was, no token adds an error\<close>
  "old_recover_from_error collect skipUntil st =
     (case old_read_token collect st of
        Inl e \<Rightarrow> Inl e
      | Inr (_, skip, st') \<Rightarrow>
          if tok_type skip = skipUntil \<or> tok_type skip = tokenEndOfStream then Inr st'
          else old_recover_from_error collect skipUntil st')"
  by pat_completeness auto
termination
  by (relation "measure (\<lambda>(_, _, st). length (o_current st))")
    (auto dest!: old_read_token_progress(2))

declare old_recover_from_error.simps [simp del]

definition old_add_error_and_recover ::
    "bool \<Rightarrow> string \<Rightarrow> token \<Rightarrow> token_type \<Rightarrow> ostate \<Rightarrow> ostate res" where
  "old_add_error_and_recover collect message tok skipUntil st =
     old_recover_from_error collect skipUntil (old_add_error (error_info message tok) st)"

section \<open>Values\<close>

definition stackLimit_g :: nat where "stackLimit_g = 1000"

definition comment_before :: "bool \<Rightarrow> path \<Rightarrow> ostate \<Rightarrow> ostate res" where
  \<comment> \<open>\<^verbatim>\<open>readValue\<close> gives the comments collected so far to the value\<close>
  "comment_before collect p st =
     (if collect \<and> o_comments st \<noteq> []
      then bind_res (set_comment (value_at p st) (o_comments st) commentBefore) (\<lambda>v.
             Inr ((set_at p v st)\<lparr>o_comments := []\<rparr>))
      else Inr st)"

definition value_read :: "bool \<Rightarrow> path \<Rightarrow> ostate \<Rightarrow> ostate" where
  \<comment> \<open>the end of \<^verbatim>\<open>readValue\<close>\<close>
  "value_read collect p st =
     (if collect then st\<lparr>o_last_end := Some (o_current st), o_last := Some p\<rparr> else st)"

definition old_decode_into :: "loc \<Rightarrow> token \<Rightarrow> json dec \<Rightarrow> path \<Rightarrow> ostate \<Rightarrow> bool \<times> ostate" where
  \<comment> \<open>\<^verbatim>\<open>decodeNumber(token)\<close>, \<^verbatim>\<open>decodeDouble(token)\<close>\<close>
  "old_decode_into b tok d p st =
     (case d of Inl e \<Rightarrow> (False, old_add_error e st)
      | Inr v \<Rightarrow> (True, update_at p (put_value b tok v) st))"

definition old_decode_string :: "loc \<Rightarrow> token \<Rightarrow> path \<Rightarrow> ostate \<Rightarrow> (bool \<times> ostate) res" where
  "old_decode_string b tok p st =
     (case old_decode_string_text tok of
        Inl e \<Rightarrow> Inr (False, old_add_error e st)
      | Inr s \<Rightarrow> bind_res (mk_string s) (\<lambda>v. Inr (True, update_at p (put_value b tok v) st)))"

definition old_leaf_value :: "token_type \<Rightarrow> json option" where
  "old_leaf_value ty =
     (case ty of
        tokenTrue \<Rightarrow> Some (mk_bool True)
      | tokenFalse \<Rightarrow> Some (mk_bool False)
      | tokenNull \<Rightarrow> Some (mk_type nullValue)
      | _ \<Rightarrow> None)"

definition old_drop_null :: "loc \<Rightarrow> token \<Rightarrow> path \<Rightarrow> ostate \<Rightarrow> ostate" where
  \<comment> \<open>\<^verbatim>\<open>current_--\<close> goes back over the token, one character long\<close>
  "old_drop_null b tok p st =
     update_at p (\<lambda>cur. set_offset_limit (offset b (tok_start tok))
         (set_offset_start (offset b (tok_start tok) - 1)
           (fst (swap_payload cur (mk_type nullValue))))) (st\<lparr>o_current := tok_start tok\<rparr>)"

definition old_value_error :: "loc \<Rightarrow> token \<Rightarrow> path \<Rightarrow> ostate \<Rightarrow> ostate" where
  "old_value_error b tok p st =
     old_add_error (error_info ''Syntax error: value, object or array expected.'' tok)
       (update_at p (\<lambda>cur. set_offset_limit (offset b (tok_end tok))
         (set_offset_start (offset b (tok_start tok)) cur)) st)"

definition old_read_leaf ::
    "old_features \<Rightarrow> bool \<Rightarrow> loc \<Rightarrow> token \<Rightarrow> path \<Rightarrow> ostate \<Rightarrow> (bool \<times> ostate) res" where
  \<comment> \<open>the switch of \<^verbatim>\<open>readValue\<close> apart from objects and arrays; only its default case returns at once\<close>
  "old_read_leaf f collect b tok p st =
     (let ty = tok_type tok; done = (\<lambda>(ok, st'). Inr (ok, value_read collect p st'))
      in if ty = tokenNumber then done (old_decode_into b tok (old_decode_number tok) p st)
         else if ty = tokenString then bind_res (old_decode_string b tok p st) done
         else (case old_leaf_value ty of
                 Some v \<Rightarrow> done (True, update_at p (put_value b tok v) st)
               | None \<Rightarrow>
                   if (ty = tokenArraySeparator \<or> ty = tokenObjectEnd \<or> ty = tokenArrayEnd) \<and>
                      o_allow_dropped_null f
                   then done (True, old_drop_null b tok p st)
                   else Inr (False, old_value_error b tok p st)))"

section \<open>Objects and arrays\<close>

definition old_member_name :: "old_features \<Rightarrow> token \<Rightarrow> string dec option res" where
  \<comment> \<open>the name of a member; None is the \<^verbatim>\<open>break\<close> on any other token\<close>
  "old_member_name f tok =
     (if tok_type tok = tokenString then Inr (Some (old_decode_string_text tok))
      else if tok_type tok = tokenNumber \<and> o_allow_numeric_keys f then
        (case old_decode_number tok of
           Inl e \<Rightarrow> Inr (Some (Inl e))
         | Inr numberName \<Rightarrow> bind_res (as_string numberName) (\<lambda>s. Inr (Some (Inr s))))
      else Inr None)"

datatype old_key_step = OldKeyEnd bool ostate | OldKeyMember string ostate

definition failed_key :: "ostate res \<Rightarrow> old_key_step res" where
  "failed_key r = bind_res r (\<lambda>st. Inr (OldKeyEnd False st))"

definition old_read_colon :: "bool \<Rightarrow> string \<Rightarrow> ostate \<Rightarrow> old_key_step res" where
  "old_read_colon collect name st =
     bind_res (old_read_token collect st) (\<lambda>(ok, colon, st').
       if \<not> ok \<or> tok_type colon \<noteq> tokenMemberSeparator
       then failed_key (old_add_error_and_recover collect
              (''Missing '' @ [SQ] @ '':'' @ [SQ] @ '' after object member name'') colon tokenObjectEnd st')
       else Inr (OldKeyMember name st'))"

definition old_missing_brace :: "bool \<Rightarrow> token \<Rightarrow> ostate \<Rightarrow> old_key_step res" where
  "old_missing_brace collect tok st =
     failed_key (old_add_error_and_recover collect
       (''Missing '' @ [SQ] @ ''}'' @ [SQ] @ '' or object member name'') tok tokenObjectEnd st)"

definition old_object_key ::
    "old_features \<Rightarrow> bool \<Rightarrow> string \<Rightarrow> ostate \<Rightarrow> old_key_step res" where
  "old_object_key f collect name st =
     bind_res (old_read_token collect st) (\<lambda>(ok0, tok0, st0).
       if \<not> ok0 then old_missing_brace collect tok0 st0
       else bind_res (old_skip_comments collect True tok0 st0) (\<lambda>(initialTokenOk, tokenName, st1).
         if \<not> initialTokenOk then old_missing_brace collect tokenName st1
         else if tok_type tokenName = tokenObjectEnd \<and> name = [] then Inr (OldKeyEnd True st1)
         else bind_res (old_member_name f tokenName) (\<lambda>r.
           case r of
             None \<Rightarrow> old_missing_brace collect tokenName st1
           | Some (Inl e) \<Rightarrow>
               failed_key (old_recover_from_error collect tokenObjectEnd (old_add_error e st1))
           | Some (Inr name') \<Rightarrow> old_read_colon collect name' st1)))"

definition old_after_member :: "bool \<Rightarrow> ostate \<Rightarrow> (bool option \<times> ostate) res" where
  \<comment> \<open>None goes on with the loop, Some is the result\<close>
  "old_after_member collect st =
     bind_res (old_read_token collect st) (\<lambda>(ok, comma, st1).
       if \<not> ok \<or> (tok_type comma \<noteq> tokenObjectEnd \<and> tok_type comma \<noteq> tokenArraySeparator \<and>
                   tok_type comma \<noteq> tokenComment)
       then bind_res (old_add_error_and_recover collect
              (''Missing '' @ [SQ] @ '','' @ [SQ] @ '' or '' @ [SQ] @ ''}'' @ [SQ] @
               '' in object declaration'') comma tokenObjectEnd st1) (\<lambda>st2. Inr (Some False, st2))
       else bind_res (old_skip_comments collect True comma st1) (\<lambda>(_, comma', st2).
              Inr (if tok_type comma' = tokenObjectEnd then Some True else None, st2)))"

definition old_after_element :: "bool \<Rightarrow> ostate \<Rightarrow> (bool option \<times> ostate) res" where
  "old_after_element collect st =
     bind_res (old_read_token collect st) (\<lambda>(ok0, tok0, st0).
       bind_res (old_skip_comments collect ok0 tok0 st0) (\<lambda>(ok, tok, st1).
         if \<not> ok \<or> (tok_type tok \<noteq> tokenArraySeparator \<and> tok_type tok \<noteq> tokenArrayEnd)
         then bind_res (old_add_error_and_recover collect
                (''Missing '' @ [SQ] @ '','' @ [SQ] @ '' or '' @ [SQ] @ '']'' @ [SQ] @
                 '' in array declaration'') tok tokenArrayEnd st1) (\<lambda>st2. Inr (Some False, st2))
         else Inr (if tok_type tok = tokenArrayEnd then Some True else None, st1)))"

definition old_init_container :: "loc \<Rightarrow> token \<Rightarrow> value_type \<Rightarrow> path \<Rightarrow> ostate \<Rightarrow> ostate" where
  \<comment> \<open>the first lines of \<^verbatim>\<open>readObject\<close> and \<^verbatim>\<open>readArray\<close>\<close>
  "old_init_container b tok ty p st = update_at p (init_container b tok ty) st"

definition old_array_empty :: "bool \<Rightarrow> ostate \<Rightarrow> (bool \<times> ostate) res" where
  \<comment> \<open>the check for an empty array behind \<^verbatim>\<open>[\<close>; if false, the state where the loop starts\<close>
  "old_array_empty collect st =
     (let st0 = st\<lparr>o_current := old_skip_spaces (o_current st)\<rparr>
      in if o_current st0 \<noteq> [] \<and> hd (o_current st0) = CHR '']''
         then bind_res (old_read_token collect st0) (\<lambda>(_, _, st1). Inr (True, st1))
         else Inr (False, st0))"

definition container_end :: "loc \<Rightarrow> bool \<Rightarrow> path \<Rightarrow> bool \<Rightarrow> ostate \<Rightarrow> (bool \<times> ostate) res" where
  \<comment> \<open>\<^verbatim>\<open>readValue\<close> behind \<^verbatim>\<open>readObject\<close> and \<^verbatim>\<open>readArray\<close>\<close>
  "container_end b collect p ok st =
     Inr (ok, value_read collect p (update_at p (set_offset_limit (offset b (o_current st))) st))"

definition old_recover :: "bool \<Rightarrow> token_type \<Rightarrow> ostate \<Rightarrow> (bool \<times> ostate) res" where
  \<comment> \<open>\<^verbatim>\<open>return recoverFromError(skipUntilToken)\<close>\<close>
  "old_recover collect skipUntil st =
     bind_res (old_recover_from_error collect skipUntil st) (\<lambda>st'. Inr (False, st'))"

text \<open>The first list holds the stack \<^verbatim>\<open>nodes_\<close>, its top first.\<close>

function (sequential) old_read_value ::
      "old_features \<Rightarrow> bool \<Rightarrow> loc \<Rightarrow> nat \<Rightarrow> path list \<Rightarrow> ostate \<Rightarrow> (bool \<times> ostate) res"
  and old_object_loop ::
      "old_features \<Rightarrow> bool \<Rightarrow> loc \<Rightarrow> nat \<Rightarrow> path list \<Rightarrow> string \<Rightarrow> ostate \<Rightarrow> (bool \<times> ostate) res"
  and old_array_loop ::
      "old_features \<Rightarrow> bool \<Rightarrow> loc \<Rightarrow> nat \<Rightarrow> path list \<Rightarrow> int32 \<Rightarrow> ostate \<Rightarrow> (bool \<times> ostate) res"
where
  "old_read_value f cc b 0 nodes st = Inl OutOfFuel"
| "old_read_value f cc b (Suc n) nodes st =
     (if stackLimit_g < length nodes then Inl (RuntimeError ''Exceeded stackLimit in readValue().'')
      else
        bind_res (old_skip_comment_tokens (o_allow_comments f) cc st) (\<lambda>(tok, st0).
        bind_res (comment_before cc (hd nodes) st0) (\<lambda>st1.
          if tok_type tok = tokenObjectBegin then
            bind_res (old_object_loop f cc b n nodes [] (old_init_container b tok objectValue (hd nodes) st1))
              (\<lambda>(ok, st2). container_end b cc (hd nodes) ok st2)
          else if tok_type tok = tokenArrayBegin then
            bind_res (old_array_empty cc (old_init_container b tok arrayValue (hd nodes) st1)) (\<lambda>(e, st2).
            bind_res (if e then Inr (True, st2) else old_array_loop f cc b n nodes 0 st2)
              (\<lambda>(ok, st3). container_end b cc (hd nodes) ok st3))
          else old_read_leaf f cc b tok (hd nodes) st1)))"
| "old_object_loop f cc b 0 nodes name st = Inl OutOfFuel"
| "old_object_loop f cc b (Suc n) nodes name st =
     bind_res (old_object_key f cc name st) (\<lambda>k.
       case k of
         OldKeyEnd ok st1 \<Rightarrow> Inr (ok, st1)
       | OldKeyMember name' st1 \<Rightarrow>
           bind_res (resolve_reference (value_at (hd nodes) st1) name') (\<lambda>v1.
           bind_res (old_read_value f cc b n ((hd nodes @ [KName (czstring name')]) # nodes)
                       (set_at (hd nodes) v1 st1)) (\<lambda>(ok, st2).
             if \<not> ok then old_recover cc tokenObjectEnd st2
             else bind_res (old_after_member cc st2) (\<lambda>r.
                    case r of (Some ok', st3) \<Rightarrow> Inr (ok', st3)
                    | (None, st3) \<Rightarrow> old_object_loop f cc b n nodes name' st3))))"
| "old_array_loop f cc b 0 nodes index st = Inl OutOfFuel"
| "old_array_loop f cc b (Suc n) nodes index st =
     bind_res (index_ref_int (value_at (hd nodes) st) index) (\<lambda>v1.
     bind_res (old_read_value f cc b n ((hd nodes @ [KIndex index]) # nodes) (set_at (hd nodes) v1 st))
       (\<lambda>(ok, st2).
       if \<not> ok then old_recover cc tokenArrayEnd st2
       else bind_res (old_after_element cc st2) (\<lambda>r.
              case r of (Some ok', st3) \<Rightarrow> Inr (ok', st3)
              | (None, st3) \<Rightarrow> old_array_loop f cc b n nodes (index + 1) st3)))"
  by pat_completeness auto
termination
  by (relation "measure (case_sum (\<lambda>(_, _, _, n, _). n)
        (case_sum (\<lambda>(_, _, _, n, _). n) (\<lambda>(_, _, _, n, _). n)))") simp_all

declare old_read_value.simps [simp del] old_object_loop.simps [simp del] old_array_loop.simps [simp del]

section \<open>Documents\<close>

definition old_parse ::
    "old_features \<Rightarrow> bool \<Rightarrow> string \<Rightarrow> json \<Rightarrow> (bool \<times> json \<times> err_info list) res" where
  \<comment> \<open>the result, \<^verbatim>\<open>root\<close> and \<^verbatim>\<open>errors_\<close> after \<^verbatim>\<open>parse(beginDoc, endDoc, root, collectComments)\<close>\<close>
  "old_parse f collectComments doc rt =
     (let cc = (collectComments \<and> o_allow_comments f)
      in bind_res (old_read_value f cc doc (parse_fuel doc) [[]]
                     \<lparr>o_root = rt, o_current = doc, o_errors = [], o_last_end = None, o_last = None,
                      o_comments = []\<rparr>) (\<lambda>(successful, st).
         bind_res (old_skip_comment_tokens (o_allow_comments f) cc st) (\<lambda>(tok, st1).
         bind_res (if cc \<and> o_comments st1 \<noteq> [] then set_comment (o_root st1) (o_comments st1) commentAfter
                   else Inr (o_root st1)) (\<lambda>v.
           if o_strict_root f \<and> \<not> is_array v \<and> \<not> is_object v
           then Inr (False, v, o_errors st1 @
                       [error_info ''A valid JSON document must be either an array or an object value.''
                          \<lparr>tok_type = tokenError, tok_start = doc, tok_end = []\<rparr>])
           else Inr (successful, v, o_errors st1)))))"

section \<open>Errors\<close>

fun old_line_loop :: "loc \<Rightarrow> loc \<Rightarrow> loc \<Rightarrow> nat \<Rightarrow> loc \<times> nat" where
  "old_line_loop location [] lastLineStart line = (lastLineStart, line)"
| "old_line_loop location (c # r) lastLineStart line =
     (if \<not> length location < length (c # r) then (lastLineStart, line)
      else if c = CR then
        (let r' = (if r \<noteq> [] \<and> hd r = LF then tl r else r) in old_line_loop location r' r' (Suc line))
      else if c = LF then old_line_loop location r r (Suc line)
      else old_line_loop location r lastLineStart line)"

definition old_line_and_column :: "loc \<Rightarrow> loc \<Rightarrow> nat \<times> int" where
  "old_line_and_column b location =
     (case old_line_loop location b b 0 of (lastLineStart, line) \<Rightarrow>
        (Suc line, int (length lastLineStart) - int (length location) + 1))"

definition old_location_text :: "loc \<Rightarrow> loc \<Rightarrow> string" where
  "old_location_text b location =
     (case old_line_and_column b location of (line, column) \<Rightarrow>
        ''Line '' @ show_nat line @ '', Column '' @ show_int column)"

definition old_formatted_error_messages :: "loc \<Rightarrow> err_info list \<Rightarrow> string" where
  "old_formatted_error_messages b errors =
     concat (map (\<lambda>e.
       ''* '' @ old_location_text b (tok_start (e_token e)) @ [LF] @ ''  '' @ e_message e @ [LF] @
       (case e_extra e of None \<Rightarrow> []
        | Some x \<Rightarrow> ''See '' @ old_location_text b x @ '' for detail.'' @ [LF])) errors)"

definition old_structured_errors :: "loc \<Rightarrow> err_info list \<Rightarrow> structured_error list" where
  "old_structured_errors b errors =
     map (\<lambda>e. \<lparr>offset_start = offset b (tok_start (e_token e)),
               offset_limit = offset b (tok_end (e_token e)), se_message = e_message e\<rparr>) errors"

definition old_push_error :: "loc \<Rightarrow> json \<Rightarrow> string \<Rightarrow> err_info list \<Rightarrow> bool \<times> err_info list" where
  \<comment> \<open>\<^verbatim>\<open>pushError(value, message)\<close>, for a value whose offsets are not negative\<close>
  "old_push_error b v message errors =
     (if int (length b) < v_start (meta v) \<or> int (length b) < v_limit (meta v) then (False, errors)
      else (True, errors @ [\<lparr>e_token = \<lparr>tok_type = tokenError, tok_start = drop (nat (v_start (meta v))) b,
                                         tok_end = drop (nat (v_limit (meta v))) b\<rparr>,
                             e_message = message, e_extra = None\<rparr>]))"

definition old_push_error_extra ::
    "loc \<Rightarrow> json \<Rightarrow> string \<Rightarrow> json \<Rightarrow> err_info list \<Rightarrow> bool \<times> err_info list" where
  "old_push_error_extra b v message extra errors =
     (if int (length b) < v_start (meta v) \<or> int (length b) < v_limit (meta v) \<or>
         int (length b) < v_limit (meta extra) then (False, errors)
      else (True, errors @ [\<lparr>e_token = \<lparr>tok_type = tokenError, tok_start = drop (nat (v_start (meta v))) b,
                                         tok_end = drop (nat (v_limit (meta v))) b\<rparr>,
                             e_message = message,
                             e_extra = Some (drop (nat (v_start (meta extra))) b)\<rparr>]))"

definition good :: "err_info list \<Rightarrow> bool" where
  "good errors \<longleftrightarrow> errors = []"

end
