(* ===== verification/Old_Paths.thy ===== *)
theory Old_Paths
  imports Json_Pointer
begin

text \<open>
  \<open>bare\<close> is what remains of a value without its comments and offsets and with every unsigned
  integer that fits turned into a signed one: what two readers have to agree on.
\<close>

fun bare :: "json \<Rightarrow> json" where
  "bare (JUInt _ u) = (if u < 2 ^ 63 then JInt meta0 u else JUInt meta0 u)"
| "bare (JArr _ m) = JArr meta0 (map_snd bare m)"
| "bare (JObj _ m) = JObj meta0 (map_snd bare m)"
| "bare v = set_meta meta0 v"

interpretation bare: forgetful bare
proof
  fix m v
  show "bare (set_meta m v) = bare v" by (cases v) simp_all
  show "type_of v \<noteq> arrayValue \<Longrightarrow> type_of v \<noteq> objectValue \<Longrightarrow>
      type_of (bare v) \<noteq> arrayValue \<and> type_of (bare v) \<noteq> objectValue \<and> meta (bare v) = meta0"
    by (cases v) auto
qed simp_all

end
