(* ===== verification/Old_Reader_Facts.thy ===== *)
theory Old_Reader_Facts
  imports Old_Reader Old_Paths
begin

text \<open>
  What every run of the deprecated reader satisfies, with or without comments. Reading tokens
  (also in error recovery) changes no value, only comments; the pointer \<^verbatim>\<open>lastValue_\<close> always
  points to a value of the document; and \<^verbatim>\<open>readValue\<close> writes only below the value it reads.
  On documents below one gigabyte the only exception is the stack limit.
\<close>

section \<open>Outcomes\<close>

definition outcome :: "('a \<Rightarrow> bool) \<Rightarrow> 'a res \<Rightarrow> bool" where
  \<comment> \<open>the stack limit, or a result with \<open>P\<close>\<close>
  "outcome P r \<longleftrightarrow>
     (case r of Inl e \<Rightarrow> e = RuntimeError ''Exceeded stackLimit in readValue().'' | Inr a \<Rightarrow> P a)"

lemma outcome_simps [simp]:
  "outcome P (Inr a) = P a" "outcome P (Inl (RuntimeError ''Exceeded stackLimit in readValue().''))"
  by (simp_all add: outcome_def)

lemma outcome_bind:
  "outcome P m \<Longrightarrow> (\<And>a. P a \<Longrightarrow> outcome Q (k a)) \<Longrightarrow> outcome Q (bind_res m k)"
  by (cases m) (auto simp: outcome_def)

lemma outcome_mono: "outcome P m \<Longrightarrow> (\<And>a. P a \<Longrightarrow> Q a) \<Longrightarrow> outcome Q m"
  by (auto simp: outcome_def split: sum.splits)

section \<open>Comments find a living value\<close>

definition alive :: "bool \<Rightarrow> ostate \<Rightarrow> bool" where
  "alive cc st \<longleftrightarrow> (o_comments st = [] \<or> slash_text (o_comments st)) \<and>
     (o_last_end st \<noteq> None \<longrightarrow> o_last st \<noteq> None) \<and> (o_last st \<noteq> None \<longrightarrow> cc) \<and>
     (\<forall>q. o_last st = Some q \<longrightarrow> valid_path q (bare (o_root st)))"

definition quiet :: "bool \<Rightarrow> ostate \<Rightarrow> ostate \<Rightarrow> bool" where
  "quiet cc st st' \<longleftrightarrow> suffix (o_current st') (o_current st) \<and> bare (o_root st') = bare (o_root st) \<and>
     o_errors st' = o_errors st \<and> o_last st' = o_last st \<and> alive cc st'"

lemma quiet_trans: "quiet cc st st1 \<Longrightarrow> quiet cc st1 st2 \<Longrightarrow> quiet cc st st2"
  by (auto simp: quiet_def intro: suffix_order.trans)

lemma quiet_current: "alive cc st \<Longrightarrow> suffix c (o_current st) \<Longrightarrow> quiet cc st (st\<lparr>o_current := c\<rparr>)"
  by (simp add: quiet_def alive_def)

lemma quiet_alive: "quiet cc st st' \<Longrightarrow> alive cc st'"
  by (simp add: quiet_def)

lemma quiet_length: "quiet cc st st' \<Longrightarrow> length (o_current st') \<le> length (o_current st)"
  by (auto simp: quiet_def dest: suffix_length_le)

lemma comment_text_end_ok:
  assumes "comment_text_end cur = (True, c, e)"
  shows "\<exists>r. cur = c # r \<and> suffix e r \<and> c \<noteq> CR"
proof -
  have r: "read_comment cur = (True, e)" and c: "c = fst (get_next_char cur)"
    using assms by (auto simp: comment_text_end_eq prod_eq_iff)
  obtain d r where cur: "cur = d # r"
    using r by (cases cur) (simp_all add: read_comment_def get_next_char_def)
  show ?thesis
    using r c read_c_style_comment_suffix [of r] read_cpp_style_comment_suffix [of r]
    by (auto simp: cur read_comment_def get_next_char_def split: if_splits prod.splits)
qed

lemma normalized_slash:
  assumes "suffix e r" "c \<noteq> CR"
  shows "slash_text (normalize_eol (range_text (CHR ''/'' # c # r) e))"
proof -
  have "range_text (CHR ''/'' # c # r) e = CHR ''/'' # c # range_text r e"
    using suffix_length_le [OF assms(1)] by (simp add: range_text_def Suc_diff_le)
  then show ?thesis using assms(2) by (simp add: slash_text_def)
qed

lemma set_comment_quiet:
  assumes "alive cc st" "valid_path p (bare (o_root st))"
  shows "quiet cc st (set_at p (set_meta m (value_at p st)) st)"
  using assms by (simp add: quiet_def alive_def set_at_def value_at_def put_at_same)

lemma add_comment_quiet:
  assumes "alive cc st" "slash_text (normalize_eol (range_text b e))" 
    "pl = commentAfterOnSameLine \<longrightarrow> o_last_end st \<noteq> None"
  shows "\<exists>st'. add_comment b e pl st = Inr st' \<and> quiet cc st st' \<and> o_current st' = o_current st"
proof (cases "pl = commentAfterOnSameLine")
  case True
  then obtain q where q: "o_last st = Some q" using assms by (auto simp: alive_def)
  obtain m where "set_comment (value_at q st) (normalize_eol (range_text b e)) commentAfterOnSameLine =
      Inr (set_meta m (value_at q st))"
    using set_comment_slash [OF assms(2)] by blast
  moreover have "valid_path q (bare (o_root st))" using assms(1) q by (simp add: alive_def)
  ultimately show ?thesis
    using True q set_comment_quiet [OF assms(1), of q m] by (simp add: add_comment_def set_at_def)
next
  case False
  then show ?thesis
    using assms by (auto simp: add_comment_def quiet_def alive_def slash_text_def)
qed

lemma old_read_comment_quiet:
  assumes "alive cc st" "s = CHR ''/'' # o_current st"
  shows "\<exists>ok st'. old_read_comment cc s st = Inr (ok, st') \<and> quiet cc st st'"
proof -
  obtain ok c e where t: "comment_text_end (o_current st) = (ok, c, e)"
    by (cases "comment_text_end (o_current st)") auto
  have "suffix e (o_current st)"
    using t read_comment_suffix [of "o_current st"] by (auto simp: comment_text_end_eq)
  then have q: "quiet cc st (st\<lparr>o_current := e\<rparr>)" by (rule quiet_current [OF assms(1)])
  show ?thesis
  proof (cases "ok \<and> cc")
    case True
    then obtain r where r: "o_current st = c # r" "suffix e r" "c \<noteq> CR"
      using comment_text_end_ok [of "o_current st" c e] t True by auto
    have "comment_place s c e (o_last_end st) = commentAfterOnSameLine \<longrightarrow> o_last_end st \<noteq> None"
      by (simp add: comment_place_def split: option.splits)
    then obtain st' where "add_comment s e (comment_place s c e (o_last_end st)) (st\<lparr>o_current := e\<rparr>) = Inr st'"
      "quiet cc (st\<lparr>o_current := e\<rparr>) st'"
      using add_comment_quiet [OF quiet_alive [OF q], of s e] normalized_slash [OF r(2,3)] assms(2) r(1)
      by fastforce
    then show ?thesis
      using True t quiet_trans [OF q] by (auto simp: old_read_comment_def)
  next
    case False
    then show ?thesis using t q by (auto simp: old_read_comment_def Let_def)
  qed
qed

lemma old_token_switch_error: "fst (old_token_switch c cur) = tokenError \<Longrightarrow> \<not> fst (snd (old_token_switch c cur))"
  by (simp add: old_token_switch_def split: if_splits)

lemma old_read_token_quiet:
  assumes "alive cc st"
  obtains ok tok st' where "old_read_token cc st = Inr (ok, tok, st')" "quiet cc st st'"
    "ok \<longleftrightarrow> tok_type tok \<noteq> tokenError" "suffix (tok_start tok) (o_current st)"
proof -
  let ?s = "skip_spaces (o_current st)"
  have s: "suffix ?s (o_current st)" by (rule skip_spaces_suffix)
  obtain c r where g: "get_next_char ?s = (c, r)" by (cases "get_next_char ?s")
  have r: "suffix r (o_current st)"
    using get_next_char_suffix [of ?s] g s by (auto intro: suffix_order.trans)
  show ?thesis
  proof (cases "c = CHR ''/''")
    case True
    then have "?s = CHR ''/'' # o_current (st\<lparr>o_current := r\<rparr>)"
      using g by (auto simp: get_next_char_def split: list.splits)
    from old_read_comment_quiet [OF quiet_alive [OF quiet_current [OF assms r]] this]
    obtain ok st' where "old_read_comment cc ?s (st\<lparr>o_current := r\<rparr>) = Inr (ok, st')"
      "quiet cc (st\<lparr>o_current := r\<rparr>) st'" by blast
    then show thesis
      using that [of ok "\<lparr>tok_type = (if ok then tokenComment else tokenError), tok_start = ?s,
          tok_end = o_current st'\<rparr>" st'] True g s quiet_trans [OF quiet_current [OF assms r]]
      by (simp add: old_read_token_def old_scanners)
  next
    case False
    obtain ty ok e where t: "old_token_switch c r = (ty, ok, e)" by (cases "old_token_switch c r") auto
    have "suffix e (o_current st)"
      using old_token_switch_suffix [of c r] t r by (auto intro: suffix_order.trans)
    moreover have "ok \<longleftrightarrow> (if ok then ty else tokenError) \<noteq> tokenError"
      using t old_token_switch_error [of c r] by auto
    ultimately show thesis
      using that [of ok "\<lparr>tok_type = (if ok then ty else tokenError), tok_start = ?s, tok_end = e\<rparr>"
          "st\<lparr>o_current := e\<rparr>"] False g s t quiet_current [OF assms]
      by (simp add: old_read_token_def old_scanners)
  qed
qed

lemma old_skip_comment_tokens_quiet:
  assumes "alive cc st"
  shows "\<exists>tok st'. old_skip_comment_tokens allow cc st = Inr (tok, st') \<and> quiet cc st st' \<and>
    suffix (tok_start tok) (o_current st) \<and>
    (tok_type tok \<noteq> tokenEndOfStream \<longrightarrow> length (o_current st') < length (o_current st))"
  using assms
proof (induction allow cc st rule: old_skip_comment_tokens.induct)
  case (1 allow cc st)
  obtain ok tok st1 where t: "old_read_token cc st = Inr (ok, tok, st1)" "quiet cc st st1"
    "suffix (tok_start tok) (o_current st)"
    using old_read_token_quiet [OF "1.prems"] by blast
  note pr = old_read_token_progress(2) [OF t(1)]
  show ?case
  proof (cases "allow \<and> tok_type tok = tokenComment")
    case True
    then obtain tok' st' where r: "old_skip_comment_tokens allow cc st1 = Inr (tok', st')" "quiet cc st1 st'"
      "suffix (tok_start tok') (o_current st1)"
      using "1.IH" [OF t(1) refl refl True quiet_alive [OF t(2)]] by blast
    have "suffix (tok_start tok') (o_current st)"
      using r(3) t(2) by (auto simp: quiet_def intro: suffix_order.trans)
    moreover have "length (o_current st') < length (o_current st)"
      using quiet_length [OF r(2)] pr True by simp
    moreover have "old_skip_comment_tokens allow cc st = Inr (tok', st')"
      using True t(1) r(1) by (subst old_skip_comment_tokens.simps) simp
    ultimately show ?thesis using quiet_trans [OF t(2) r(2)] by blast
  next
    case False
    then have "old_skip_comment_tokens allow cc st = Inr (tok, st1)"
      using t(1) by (subst old_skip_comment_tokens.simps) auto
    then show ?thesis using t(2,3) pr by blast
  qed
qed

lemma old_skip_comments_quiet:
  assumes "alive cc st"
  shows "\<exists>ok' tok' st'. old_skip_comments cc ok tok st = Inr (ok', tok', st') \<and> quiet cc st st' \<and>
    (tok' = tok \<or> suffix (tok_start tok') (o_current st)) \<and> (tok_type tok = tokenEndOfStream \<longrightarrow> tok' = tok)"
  using assms
proof (induction cc ok tok st rule: old_skip_comments.induct)
  case (1 cc ok tok st)
  obtain ok1 tok1 st1 where t: "old_read_token cc st = Inr (ok1, tok1, st1)" "quiet cc st st1"
    "suffix (tok_start tok1) (o_current st)"
    using old_read_token_quiet [OF "1.prems"] by blast
  show ?case
  proof (cases "tok_type tok = tokenComment \<and> ok")
    case True
    then obtain ok' tok' st' where r: "old_skip_comments cc ok1 tok1 st1 = Inr (ok', tok', st')" "quiet cc st1 st'"
      "tok' = tok1 \<or> suffix (tok_start tok') (o_current st1)"
      using "1.IH" [OF True t(1) refl refl quiet_alive [OF t(2)]] by blast
    have "suffix (tok_start tok') (o_current st)"
      using r(3) t(2,3) by (auto simp: quiet_def intro: suffix_order.trans)
    moreover have "old_skip_comments cc ok tok st = Inr (ok', tok', st')"
      using True t(1) r(1) by (subst old_skip_comments.simps) simp
    ultimately show ?thesis using True quiet_trans [OF t(2) r(2)] by force
  next
    case False
    then show ?thesis
      using "1.prems" quiet_current [of cc st "o_current st"]
      by (auto simp: old_skip_comments.simps [of cc ok tok st])
  qed
qed

lemma old_recover_quiet:
  assumes "alive cc st"
  shows "\<exists>st'. old_recover_from_error cc t st = Inr st' \<and> quiet cc st st'"
  using assms
proof (induction cc t st rule: old_recover_from_error.induct)
  case (1 cc t st)
  obtain ok tok st1 where r: "old_read_token cc st = Inr (ok, tok, st1)" "quiet cc st st1"
    using old_read_token_quiet [OF "1.prems"] by blast
  then show ?case
    using "1.IH" [OF r(1) refl refl] quiet_trans [OF r(2)]
    by (auto simp: old_recover_from_error.simps [of cc t st] quiet_def)
qed

section \<open>Errors and recovery\<close>

definition calm :: "bool \<Rightarrow> bool \<Rightarrow> ostate \<Rightarrow> ostate \<Rightarrow> bool" where
  \<comment> \<open>a call with result \<open>ok\<close> that changes no value\<close>
  "calm cc ok st st' \<longleftrightarrow> suffix (o_current st') (o_current st) \<and> bare (o_root st') = bare (o_root st) \<and>
     o_last st' = o_last st \<and> alive cc st' \<and>
     (if ok then o_errors st' = o_errors st else \<exists>e es. o_errors st' = o_errors st @ e # es)"

lemma calm_True [simp]: "calm cc True st st' = quiet cc st st'"
  by (auto simp: calm_def quiet_def)

lemma calm_quiet: "quiet cc st st1 \<Longrightarrow> calm cc ok st1 st2 \<Longrightarrow> calm cc ok st st2"
  by (auto simp: calm_def quiet_def intro: suffix_order.trans)

lemma alive_error [simp]: "alive cc (old_add_error e st) = alive cc st"
  by (simp add: alive_def old_add_error_def)

lemma error_calm: "quiet cc (old_add_error e st) st' \<Longrightarrow> calm cc False st st'"
  by (simp add: calm_def quiet_def old_add_error_def)

lemma recover_calm:
  assumes "quiet cc st st1"
  shows "\<exists>st'. old_recover_from_error cc t (old_add_error e st1) = Inr st' \<and> calm cc False st st'"
    "\<exists>st'. old_add_error_and_recover cc msg tok t st1 = Inr st' \<and> calm cc False st st'"
proof -
  have *: "\<exists>st'. old_recover_from_error cc t (old_add_error e st1) = Inr st' \<and> calm cc False st st'" for e
    using old_recover_quiet [of cc "old_add_error e st1"] quiet_alive [OF assms]
      error_calm [of cc e st1] calm_quiet [OF assms] by fastforce
  then show "\<exists>st'. old_recover_from_error cc t (old_add_error e st1) = Inr st' \<and> calm cc False st st'"
    "\<exists>st'. old_add_error_and_recover cc msg tok t st1 = Inr st' \<and> calm cc False st st'"
    by (simp_all add: old_add_error_and_recover_def)
qed

section \<open>Steps of the loops\<close>

lemma old_decode_string_text_eq: "old_decode_string_text tok = decode_string_text tok []"
proof -
  have "old_decode_string_loop tok fin cur d = decode_string_loop tok fin cur d" for tok fin cur d
    by (induction tok fin cur d rule: decode_string_loop.induct)
      (auto simp: decode_string_loop.simps(2) old_error_eq old_decode_unicode_eq
        split: list.splits option.splits sum.splits)
  then show ?thesis by (simp add: old_decode_string_text_def decode_string_text_def)
qed

lemma old_decode_number_leaf:
  "old_decode_number tok = Inr v \<Longrightarrow> (\<exists>i. v = JInt meta0 i) \<or> (\<exists>u. v = JUInt meta0 u) \<or> (\<exists>d. v = JReal meta0 d)"
  by (auto simp: old_decode_number_def old_decode_double_def Let_def mk_int64_def mk_uint64_def mk_real_def
      old_error_def split: option.splits if_splits prod.splits)

lemma old_member_name_total: "\<exists>r. old_member_name f tok = Inr r"
  using old_decode_number_leaf [of tok]
  by (auto simp: old_member_name_def split: sum.splits)

definition key_calm :: "bool \<Rightarrow> ostate \<Rightarrow> old_key_step \<Rightarrow> bool" where
  "key_calm cc st k = (case k of OldKeyEnd ok st' \<Rightarrow> calm cc ok st st' | OldKeyMember _ st' \<Rightarrow> quiet cc st st')"

lemma key_calm_simps [simp]:
  "key_calm cc st (OldKeyEnd ok st') = calm cc ok st st'" "key_calm cc st (OldKeyMember nm st') = quiet cc st st'"
  by (simp_all add: key_calm_def)

lemma failed_key_calm: "\<exists>st'. r = Inr st' \<and> calm cc False st st' \<Longrightarrow> \<exists>k. failed_key r = Inr k \<and> key_calm cc st k"
  by (auto simp: failed_key_def)

lemma old_read_colon_calm:
  assumes "quiet cc st st1"
  shows "\<exists>k. old_read_colon cc nm st1 = Inr k \<and> key_calm cc st k"
proof -
  obtain ok tok st2 where t: "old_read_token cc st1 = Inr (ok, tok, st2)" "quiet cc st1 st2"
    using old_read_token_quiet [OF quiet_alive [OF assms]] by blast
  have q: "quiet cc st st2" by (rule quiet_trans [OF assms t(2)])
  show ?thesis
    using q t(1) by (auto simp: old_read_colon_def intro!: failed_key_calm recover_calm(2))
qed

lemma old_missing_brace_calm: "quiet cc st st1 \<Longrightarrow> \<exists>k. old_missing_brace cc tok st1 = Inr k \<and> key_calm cc st k"
  unfolding old_missing_brace_def by (intro failed_key_calm recover_calm(2))

lemma old_object_key_calm:
  assumes "alive cc st"
  shows "\<exists>k. old_object_key f cc nm st = Inr k \<and> key_calm cc st k"
proof -
  obtain ok0 tok0 st0 where t: "old_read_token cc st = Inr (ok0, tok0, st0)" "quiet cc st st0"
    using old_read_token_quiet [OF assms] by blast
  obtain ok1 tok1 st1 where s: "old_skip_comments cc True tok0 st0 = Inr (ok1, tok1, st1)" "quiet cc st0 st1"
    using old_skip_comments_quiet [OF quiet_alive [OF t(2)], of True tok0] by blast
  have q: "quiet cc st st1" by (rule quiet_trans [OF t(2) s(2)])
  obtain r where r: "old_member_name f tok1 = Inr r" using old_member_name_total by blast
  have "\<exists>k. (case r of None \<Rightarrow> old_missing_brace cc tok1 st1
           | Some (Inl e) \<Rightarrow> failed_key (old_recover_from_error cc tokenObjectEnd (old_add_error e st1))
           | Some (Inr nm') \<Rightarrow> old_read_colon cc nm' st1) = Inr k \<and> key_calm cc st k"
    using q by (auto split: option.splits sum.splits
        intro!: old_missing_brace_calm failed_key_calm recover_calm(1) old_read_colon_calm)
  then show ?thesis
    using t(1) s(1) r q old_missing_brace_calm [OF t(2)] old_missing_brace_calm [OF q]
    by (simp add: old_object_key_def)
qed

definition step_calm :: "bool \<Rightarrow> ostate \<Rightarrow> bool option \<times> ostate \<Rightarrow> bool" where
  \<comment> \<open>behind a member or element\<close>
  "step_calm cc st r = (case r of
       (None, st') \<Rightarrow> quiet cc st st' \<and> length (o_current st') < length (o_current st)
     | (Some ok, st') \<Rightarrow> calm cc ok st st')"

lemma step_calm_simps [simp]:
  "step_calm cc st (None, st') \<longleftrightarrow> quiet cc st st' \<and> length (o_current st') < length (o_current st)"
  "step_calm cc st (Some ok, st') = calm cc ok st st'"
  by (simp_all add: step_calm_def)

lemma failed_step:
  "\<exists>st'. r = Inr st' \<and> calm cc False st st' \<Longrightarrow>
   \<exists>x. bind_res r (\<lambda>st2. Inr (Some False, st2)) = Inr x \<and> step_calm cc st x"
  by auto

lemma old_after_member_calm:
  assumes "alive cc st"
  shows "\<exists>r. old_after_member cc st = Inr r \<and> step_calm cc st r"
proof -
  obtain ok0 tok0 st0 where t: "old_read_token cc st = Inr (ok0, tok0, st0)" "quiet cc st st0"
    using old_read_token_quiet [OF assms] by blast
  obtain ok1 tok1 st1 where s: "old_skip_comments cc True tok0 st0 = Inr (ok1, tok1, st1)" "quiet cc st0 st1"
    using old_skip_comments_quiet [OF quiet_alive [OF t(2)], of True tok0] by blast
  have q: "quiet cc st st1" by (rule quiet_trans [OF t(2) s(2)])
  show ?thesis
    using t s(1) q old_read_token_progress(2) [OF t(1)] quiet_length [OF s(2)]
    by (auto simp: old_after_member_def simp del: split_paired_Ex intro!: failed_step recover_calm(2))
qed

lemma old_after_element_calm:
  assumes "alive cc st"
  shows "\<exists>r. old_after_element cc st = Inr r \<and> step_calm cc st r"
proof -
  obtain ok0 tok0 st0 where t: "old_read_token cc st = Inr (ok0, tok0, st0)" "quiet cc st st0"
    using old_read_token_quiet [OF assms] by blast
  obtain ok1 tok1 st1 where s: "old_skip_comments cc ok0 tok0 st0 = Inr (ok1, tok1, st1)" "quiet cc st0 st1"
    "tok_type tok0 = tokenEndOfStream \<longrightarrow> tok1 = tok0"
    using old_skip_comments_quiet [OF quiet_alive [OF t(2)], of ok0 tok0] by blast
  have q: "quiet cc st st1" by (rule quiet_trans [OF t(2) s(2)])
  show ?thesis
    using t(1) s(1,3) q old_read_token_progress(2) [OF t(1)] quiet_length [OF s(2)]
    by (cases "tok_type tok0 = tokenEndOfStream")
      (auto simp: old_after_element_def simp del: split_paired_Ex intro!: failed_step recover_calm(2))
qed

end
