(* ===== verification/Old_Reader_Runs.thy ===== *)
theory Old_Reader_Runs
  imports Old_Reader_Facts Json_Reader_Facts
begin

text \<open>
  Every run of \<^verbatim>\<open>readValue\<close>, \<^verbatim>\<open>readObject\<close> and \<^verbatim>\<open>readArray\<close> of the deprecated reader: it writes
  only below its value, keeps \<^verbatim>\<open>lastValue_\<close> pointing to a value, adds an error exactly if it
  fails, and raises nothing but the stack limit on documents below one gigabyte.
\<close>

section \<open>Writes below one value\<close>

definition reads :: "bool \<Rightarrow> path \<Rightarrow> bool \<Rightarrow> ostate \<Rightarrow> ostate \<Rightarrow> bool" where
  "reads cc p ok st st' \<longleftrightarrow> suffix (o_current st') (o_current st) \<and> alive cc st' \<and>
     (\<exists>x. bare (o_root st') = put_at p x (bare (o_root st))) \<and>
     (if ok then o_errors st' = o_errors st else \<exists>e es. o_errors st' = o_errors st @ e # es)"

lemma calm_reads: "calm cc ok st st' \<Longrightarrow> valid_path p (bare (o_root st)) \<Longrightarrow> reads cc p ok st st'"
  by (auto simp: calm_def reads_def intro!: exI [of _ "at_path p (bare (o_root st))"] simp: put_at_same)

lemma quiet_reads: "quiet cc st st' \<Longrightarrow> valid_path p (bare (o_root st)) \<Longrightarrow> reads cc p True st st'"
  by (rule calm_reads) simp_all

lemma reads_trans: "reads cc p True st st1 \<Longrightarrow> reads cc p ok st1 st2 \<Longrightarrow> reads cc p ok st st2"
  by (auto simp: reads_def intro: suffix_order.trans)

lemma reads_valid: "reads cc p ok st st' \<Longrightarrow> valid_path p (bare (o_root st'))"
  by (auto simp: reads_def)

lemma reads_length: "reads cc p ok st st' \<Longrightarrow> length (o_current st') \<le> length (o_current st)"
  by (auto simp: reads_def dest: suffix_length_le)

lemma reads_alive: "reads cc p ok st st' \<Longrightarrow> alive cc st'"
  by (simp add: reads_def)

lemma reads_calm: "reads cc p True st st1 \<Longrightarrow> calm cc ok st1 st2 \<Longrightarrow> reads cc p ok st st2"
  by (blast intro: reads_trans calm_reads reads_valid)

lemma reads_error: "reads cc p True st st1 \<Longrightarrow> reads cc p False st (old_add_error e st1)"
  by (simp add: reads_def alive_def old_add_error_def)

lemma reads_recover: "reads cc p False st st1 \<Longrightarrow> quiet cc st1 st2 \<Longrightarrow> reads cc p False st st2"
  by (auto simp: reads_def quiet_def intro: suffix_order.trans)

definition free :: "path \<Rightarrow> ostate \<Rightarrow> bool" where
  \<comment> \<open>\<^verbatim>\<open>lastValue_\<close> is not below the value\<close>
  "free p st \<longleftrightarrow> (\<forall>q. o_last st = Some q \<longrightarrow> \<not> strict_prefix p q)"

lemma quiet_free: "quiet cc st st' \<Longrightarrow> free p st' = free p st"
  by (simp add: quiet_def free_def)

lemma update_reads:
  assumes "alive cc st" "valid_path p (bare (o_root st))" "free p st"
  shows "reads cc p True st (update_at p g st)"
  using assms valid_put [OF assms(2)] by (auto simp: reads_def alive_def free_def update_at_def set_at_def)

lemma update_simps [simp]:
  "o_current (update_at p g st) = o_current st" "o_last (update_at p g st) = o_last st"
  "bare (o_root (update_at p g st)) = put_at p (bare (g (at_path p (o_root st)))) (bare (o_root st))"
  by (simp_all add: update_at_def set_at_def value_at_def)

lemma update_quiet:
  assumes "alive cc st" "valid_path p (bare (o_root st))" "\<And>v. bare (g v) = bare v"
  shows "quiet cc st (update_at p g st)"
  using assms by (simp add: quiet_def alive_def update_at_def set_at_def value_at_def put_at_same)

lemma value_read_simps [simp]:
  "o_current (value_read cc p st) = o_current st" "o_root (value_read cc p st) = o_root st"
  "o_errors (value_read cc p st) = o_errors st"
  by (simp_all add: value_read_def)

definition value_done :: "bool \<Rightarrow> path \<Rightarrow> ostate \<Rightarrow> bool \<times> ostate \<Rightarrow> bool" where
  "value_done cc p st r \<longleftrightarrow> reads cc p (fst r) st (snd r) \<and>
     (fst r \<longrightarrow> o_last (snd r) = (if cc then Some p else None))"

lemma value_read_done: "reads cc p ok st st' \<Longrightarrow> value_done cc p st (ok, value_read cc p st')"
  using reads_valid [of cc p ok st st'] by (auto simp: value_done_def reads_def alive_def value_read_def)

lemma comment_before_quiet:
  assumes "alive cc st" "valid_path p (bare (o_root st))"
  shows "\<exists>st'. comment_before cc p st = Inr st' \<and> quiet cc st st' \<and> o_current st' = o_current st"
proof (cases "cc \<and> o_comments st \<noteq> []")
  case True
  then have "slash_text (o_comments st)" using assms by (simp add: alive_def)
  then obtain m where "set_comment (value_at p st) (o_comments st) commentBefore = Inr (set_meta m (value_at p st))"
    using set_comment_slash by blast
  then show ?thesis
    using True assms by (simp add: comment_before_def quiet_def alive_def set_at_def value_at_def put_at_same)
next
  case False
  then show ?thesis
    using assms(1) quiet_current [of cc st "o_current st"] by (auto simp: comment_before_def)
qed

lemma old_decode_string_total:
  assumes "length (tok_start tok) < 2 ^ 30"
  obtains g where "old_decode_string b tok p st = Inr (True, update_at p g st)"
  | e where "old_decode_string b tok p st = Inr (False, old_add_error e st)"
proof (cases "decode_string_text tok []")
  case (Inr s)
  then show thesis
    using assms decode_string_text_length [of tok s] that(1)
    by (simp add: old_decode_string_def old_decode_string_text_eq mk_string_small)
qed (use that(2) in \<open>simp add: old_decode_string_def old_decode_string_text_eq\<close>)

lemma old_read_leaf_done:
  assumes "quiet cc st0 st" "valid_path p (bare (o_root st))" "free p st"
    and s: "suffix (tok_start tok) (o_current st0)" "length (tok_start tok) < 2 ^ 30"
  shows "\<exists>r. old_read_leaf f cc b tok p st = Inr r \<and> value_done cc p st0 r"
proof -
  have r: "reads cc p True st0 st"
    using assms(1,2) by (intro quiet_reads) (simp_all add: quiet_def)
  have u: "reads cc p True st0 (update_at p g st)" for g
    using reads_trans [OF r update_reads [OF reads_alive [OF r] assms(2,3)]] .
  have e: "reads cc p False st0 (old_add_error e st)" "reads cc p False st0 (old_add_error e (update_at p g st))" for e g
    using reads_error [OF r] reads_error [OF u] by blast+
  have d: "reads cc p True st0 (old_drop_null b tok p st)"
    using u [of "\<lambda>cur. set_offset_limit (offset b (tok_start tok))
         (set_offset_start (offset b (tok_start tok) - 1)
           (fst (swap_payload cur (mk_type nullValue))))"] s(1)
    by (simp add: reads_def alive_def old_drop_null_def update_at_def set_at_def value_at_def)
  obtain ok st' where "old_decode_string b tok p st = Inr (ok, st')" "reads cc p ok st0 st'"
    using old_decode_string_total [OF s(2), of b p st] u e(1) by metis
  then have "\<exists>r. bind_res (old_decode_string b tok p st) (\<lambda>(ok, st'). Inr (ok, value_read cc p st')) = Inr r \<and>
      value_done cc p st0 r" by (auto intro: value_read_done)
  moreover have "\<exists>r. (case old_decode_into b tok dec p st of (ok, st') \<Rightarrow> Inr (ok, value_read cc p st')) = Inr r \<and>
      value_done cc p st0 r" for dec
    using u e by (auto simp: old_decode_into_def split: sum.splits intro!: value_read_done)
  moreover have "value_done cc p st0 (False, old_value_error b tok p st)"
    using e(2) by (simp add: value_done_def old_value_error_def)
  ultimately show ?thesis
    using u d by (auto simp: old_read_leaf_def Let_def split: option.splits intro!: value_read_done)
qed

section \<open>Going to a child and back\<close>

definition near :: "path \<Rightarrow> ostate \<Rightarrow> bool" where
  \<comment> \<open>\<^verbatim>\<open>lastValue_\<close> is not below a child of the value\<close>
  "near p st \<longleftrightarrow> (\<forall>q k. o_last st = Some q \<longrightarrow> \<not> strict_prefix (p @ [k]) q)"

lemma free_near: "free p st \<Longrightarrow> near p st"
  by (auto simp: free_def near_def strict_prefix_def prefix_def)

lemma quiet_near: "quiet cc st st' \<Longrightarrow> near p st' = near p st"
  by (simp add: quiet_def near_def)

lemma value_done_near: "value_done cc (p @ [k]) st0 (True, st) \<Longrightarrow> near p st"
  by (auto simp: value_done_def near_def strict_prefix_def split: if_splits)

lemma enter_child:
  assumes "alive cc st" "valid_path p (bare (o_root st))" "near p st"
    and w: "extends (at_path p (bare (o_root st))) (bare w)" "has_child k (bare w)"
  shows "alive cc (set_at p w st)" "valid_path (p @ [k]) (bare (o_root (set_at p w st)))"
    "free (p @ [k]) (set_at p w st)"
  using assms valid_put_extends [OF assms(2) _ w(1)]
  by (auto simp: alive_def set_at_def path_append near_def free_def)

lemma leave_child:
  assumes "reads cc (p @ [k]) ok (set_at p w st) st'"
  shows "reads cc p ok st st'" "\<exists>x. at_path p (bare (o_root st')) = put_child k x (bare w)"
proof -
  obtain x where "bare (o_root st') = put_at p (put_child k x (bare w)) (bare (o_root st))"
    using assms by (auto simp: reads_def set_at_def path_append)
  then show "reads cc p ok st st'" "\<exists>x. at_path p (bare (o_root st')) = put_child k x (bare w)"
    using assms by (auto simp: reads_def set_at_def)
qed

lemma set_at_simps [simp]: "o_current (set_at p w st) = o_current st"
  by (simp add: set_at_def)

section \<open>All runs\<close>

definition value_runs :: "old_features \<Rightarrow> bool \<Rightarrow> loc \<Rightarrow> nat \<Rightarrow> bool" where
  "value_runs f cc b n \<longleftrightarrow> (\<forall>nodes st. alive cc st \<longrightarrow> valid_path (hd nodes) (bare (o_root st)) \<longrightarrow>
     free (hd nodes) st \<longrightarrow> length (o_current st) < 2 ^ 30 \<longrightarrow> 2 * length (o_current st) + 1 \<le> n \<longrightarrow>
     outcome (value_done cc (hd nodes) st) (old_read_value f cc b n nodes st))"

definition loop_ready :: "bool \<Rightarrow> path \<Rightarrow> nat \<Rightarrow> ostate \<Rightarrow> bool" where
  "loop_ready cc p n st \<longleftrightarrow> alive cc st \<and> valid_path p (bare (o_root st)) \<and> near p st \<and>
     length (o_current st) < 2 ^ 30 \<and> 2 * length (o_current st) + 2 \<le> n"

definition object_runs :: "old_features \<Rightarrow> bool \<Rightarrow> loc \<Rightarrow> nat \<Rightarrow> bool" where
  "object_runs f cc b n \<longleftrightarrow> (\<forall>nodes nm st. loop_ready cc (hd nodes) n st \<longrightarrow>
     is_object (at_path (hd nodes) (bare (o_root st))) \<longrightarrow>
     outcome (\<lambda>(ok, st'). reads cc (hd nodes) ok st st') (old_object_loop f cc b n nodes nm st))"

definition array_runs :: "old_features \<Rightarrow> bool \<Rightarrow> loc \<Rightarrow> nat \<Rightarrow> bool" where
  "array_runs f cc b n \<longleftrightarrow> (\<forall>nodes index st. loop_ready cc (hd nodes) n st \<longrightarrow>
     is_array (at_path (hd nodes) (bare (o_root st))) \<longrightarrow> 0 \<le> sint index \<longrightarrow>
     sint index + int (length (o_current st)) < 2 ^ 31 \<longrightarrow>
     outcome (\<lambda>(ok, st'). reads cc (hd nodes) ok st st') (old_array_loop f cc b n nodes index st))"

lemma container_end_done:
  assumes "reads cc p ok st0 st"
  shows "outcome (value_done cc p st0) (container_end b cc p ok st)"
proof -
  let ?u = "update_at p (set_offset_limit (offset b (o_current st))) st"
  have u: "quiet cc st ?u"
    using reads_alive [OF assms] reads_valid [OF assms] by (intro update_quiet) simp_all
  have "reads cc p ok st0 ?u"
    using reads_calm [of cc p st0 st True] reads_recover [OF _ u] assms u by (cases ok) auto
  then show ?thesis by (simp add: container_end_def value_read_done)
qed

lemma container_outcome:
  assumes "reads cc p True st0 st1" "outcome (\<lambda>(ok, st'). reads cc p ok st1 st') m"
  shows "outcome (value_done cc p st0) (bind_res m (\<lambda>(ok, st'). container_end b cc p ok st'))"
  using assms(2)
proof (rule outcome_bind)
  fix r :: "bool \<times> ostate"
  assume "case r of (ok, st') \<Rightarrow> reads cc p ok st1 st'"
  then show "outcome (value_done cc p st0) (case r of (ok, st') \<Rightarrow> container_end b cc p ok st')"
    by (cases r) (simp add: container_end_done reads_trans [OF assms(1)])
qed

lemma old_recover_outcome:
  "reads cc p False st0 st \<Longrightarrow> outcome (\<lambda>(ok, st'). reads cc p ok st0 st') (old_recover cc t st)"
  using old_recover_quiet [OF reads_alive, of cc p False st0 st t]
  by (auto simp: old_recover_def reads_recover)

lemma old_array_empty_quiet:
  assumes "alive cc st"
  shows "\<exists>e st'. old_array_empty cc st = Inr (e, st') \<and> quiet cc st st'"
proof -
  let ?s = "st\<lparr>o_current := skip_spaces (o_current st)\<rparr>"
  have q: "quiet cc st ?s" by (rule quiet_current [OF assms skip_spaces_suffix])
  obtain ok tok st1 where "old_read_token cc ?s = Inr (ok, tok, st1)" "quiet cc ?s st1"
    using old_read_token_quiet [OF quiet_alive [OF q]] by blast
  then show ?thesis
    using q quiet_trans [OF q] by (auto simp: old_array_empty_def old_scanners Let_def)
qed

lemma init_container_ready:
  assumes "quiet cc st0 st1" "valid_path p (bare (o_root st0))" "free p st0" "ty = objectValue \<or> ty = arrayValue"
  shows "reads cc p True st0 (old_init_container b tok ty p st1)" "near p (old_init_container b tok ty p st1)"
    "o_current (old_init_container b tok ty p st1) = o_current st1"
    "bare (o_root (old_init_container b tok ty p st1)) = put_at p (bare (mk_type ty)) (bare (o_root st1))"
proof -
  have v: "valid_path p (bare (o_root st1))" "free p st1" "alive cc st1"
    using assms(1-3) quiet_free [OF assms(1)] by (auto simp: quiet_def)
  show "reads cc p True st0 (old_init_container b tok ty p st1)"
    unfolding old_init_container_def
    by (rule reads_trans [OF quiet_reads [OF assms(1,2)] update_reads [OF v(3,1,2)]])
  show "near p (old_init_container b tok ty p st1)"
    using free_near [OF v(2)] by (simp add: old_init_container_def near_def)
  show "o_current (old_init_container b tok ty p st1) = o_current st1"
    "bare (o_root (old_init_container b tok ty p st1)) = put_at p (bare (mk_type ty)) (bare (o_root st1))"
    using assms(4) by (auto simp: old_init_container_def)
qed

lemma value_runs_Suc:
  assumes o: "object_runs f cc b n" and a: "array_runs f cc b n"
  shows "value_runs f cc b (Suc n)"
  unfolding value_runs_def
proof (intro allI impI)
  fix nodes :: "path list" and st
  let ?p = "hd nodes"
  assume pre: "alive cc st" "valid_path ?p (bare (o_root st))" "free ?p st" "length (o_current st) < 2 ^ 30"
    "2 * length (o_current st) + 1 \<le> Suc n"
  obtain tok st1 where t: "old_skip_comment_tokens (o_allow_comments f) cc st = Inr (tok, st1)" "quiet cc st st1"
    "suffix (tok_start tok) (o_current st)" "tok_type tok \<noteq> tokenEndOfStream \<longrightarrow> length (o_current st1) < length (o_current st)"
    using old_skip_comment_tokens_quiet [OF pre(1)] by blast
  have v1: "valid_path ?p (bare (o_root st1))" using t(2) pre(2) by (simp add: quiet_def)
  obtain st2 where c: "comment_before cc ?p st1 = Inr st2" "quiet cc st1 st2" "o_current st2 = o_current st1"
    using comment_before_quiet [OF quiet_alive [OF t(2)] v1] by blast
  have q: "quiet cc st st2" by (rule quiet_trans [OF t(2) c(2)])
  have v2: "valid_path ?p (bare (o_root st2))" "free ?p st2"
    using q pre(2,3) quiet_free [OF q] by (auto simp: quiet_def)
  show "outcome (value_done cc ?p st) (old_read_value f cc b (Suc n) nodes st)"
  proof (cases "stackLimit_g < length nodes")
    case True
    then show ?thesis by (simp add: old_read_value.simps)
  next
    case False
    let ?i = "\<lambda>ty. old_init_container b tok ty ?p st2"
    consider (obj) "tok_type tok = tokenObjectBegin" | (arr) "tok_type tok = tokenArrayBegin"
      | (leaf) "tok_type tok \<noteq> tokenObjectBegin" "tok_type tok \<noteq> tokenArrayBegin" by blast
    then show ?thesis
    proof cases
      case obj
      note i = init_container_ready [OF q pre(2,3), of objectValue b tok]
      have "loop_ready cc ?p n (?i objectValue)"
        using i obj t(4) c(3) pre(4,5) reads_alive [OF i(1)] by (simp add: loop_ready_def)
      then have "outcome (\<lambda>(ok, st'). reads cc ?p ok (?i objectValue) st') (old_object_loop f cc b n nodes [] (?i objectValue))"
        using o i(4) by (simp add: object_runs_def is_object_def)
      from container_outcome [OF i(1) this, of b] show ?thesis
        using False t(1) c(1) obj by (simp add: old_read_value.simps)
    next
      case arr
      note i = init_container_ready [OF q pre(2,3), of arrayValue b tok]
      obtain e st3 where e: "old_array_empty cc (?i arrayValue) = Inr (e, st3)" "quiet cc (?i arrayValue) st3"
        using old_array_empty_quiet [OF reads_alive [OF i(1)]] by auto
      have r3: "reads cc ?p True st st3" using reads_calm [OF i(1)] e(2) by simp
      have "loop_ready cc ?p n st3"
        using i(2-4) arr t(4) c(3) pre(4,5) reads_alive [OF r3] reads_valid [OF r3] quiet_length [OF e(2)]
          quiet_near [OF e(2)] by (simp add: loop_ready_def)
      then have "outcome (\<lambda>(ok, st'). reads cc ?p ok st3 st') (old_array_loop f cc b n nodes 0 st3)"
        using a i(4) e(2) by (simp add: array_runs_def is_array_def quiet_def loop_ready_def)
      then have "outcome (\<lambda>(ok, st'). reads cc ?p ok st3 st') (if e then Inr (True, st3) else old_array_loop f cc b n nodes 0 st3)"
        using quiet_reads [OF quiet_current [OF reads_alive [OF r3] suffix_order.refl] reads_valid [OF r3]]
        by simp
      from container_outcome [OF r3 this, of b] show ?thesis
        using False t(1) c(1) arr e(1) by (simp add: old_read_value.simps)
    next
      case leaf
      have "length (tok_start tok) < 2 ^ 30" using suffix_length_le [OF t(3)] pre(4) by linarith
      from old_read_leaf_done [OF q v2 t(3) this, of f b] show ?thesis
        using False t(1) c(1) leaf by (auto simp: old_read_value.simps)
    qed
  qed
qed

lemma outcome_reads_trans:
  "reads cc p True st st1 \<Longrightarrow> outcome (\<lambda>(ok, st'). reads cc p ok st1 st') m \<Longrightarrow>
   outcome (\<lambda>(ok, st'). reads cc p ok st st') m"
  by (erule outcome_mono) (auto intro: reads_trans)

lemma value_runsD:
  "value_runs f cc b n \<Longrightarrow> alive cc st \<Longrightarrow> valid_path (hd nodes) (bare (o_root st)) \<Longrightarrow> free (hd nodes) st \<Longrightarrow>
   length (o_current st) < 2 ^ 30 \<Longrightarrow> 2 * length (o_current st) + 1 \<le> n \<Longrightarrow>
   outcome (value_done cc (hd nodes) st) (old_read_value f cc b n nodes st)"
  by (simp add: value_runs_def)

lemma child_value_outcome:
  assumes v: "value_runs f cc b n" and l: "alive cc st" "valid_path p (bare (o_root st))" "near p st"
    "length (o_current st) < 2 ^ 30" "2 * length (o_current st) + 1 \<le> n"
    and w: "extends (at_path p (bare (o_root st))) (bare w)" "has_child k (bare w)"
  shows "outcome (\<lambda>(ok, st'). reads cc p ok st st' \<and> (ok \<longrightarrow> near p st' \<and>
      (\<exists>x. at_path p (bare (o_root st')) = put_child k x (bare w))))
    (old_read_value f cc b n ((p @ [k]) # nodes) (set_at p w st))"
proof -
  note e = enter_child [OF l(1-3) w]
  have "outcome (value_done cc (p @ [k]) (set_at p w st)) (old_read_value f cc b n ((p @ [k]) # nodes) (set_at p w st))"
    using value_runsD [OF v e(1), of "(p @ [k]) # nodes"] e(2,3) l(4,5) by simp
  then show ?thesis
  proof (rule outcome_mono)
    fix r :: "bool \<times> ostate"
    assume d: "value_done cc (p @ [k]) (set_at p w st) r"
    obtain ok st' where r: "r = (ok, st')" by (cases r)
    have "reads cc (p @ [k]) ok (set_at p w st) st'" using d r by (simp add: value_done_def)
    from leave_child [OF this] show "case r of (ok, st') \<Rightarrow> reads cc p ok st st' \<and> (ok \<longrightarrow> near p st' \<and>
      (\<exists>x. at_path p (bare (o_root st')) = put_child k x (bare w)))"
      using d r value_done_near by auto
  qed
qed

text \<open>The rest of a round of both loops, behind the value.\<close>

lemma round_outcome:
  assumes m: "outcome (\<lambda>(ok, st'). reads cc p ok st st' \<and> (ok \<longrightarrow> near p st' \<and> Q (bare (o_root st')))) m"
    and after: "\<And>st1. alive cc st1 \<Longrightarrow> \<exists>r. after cc st1 = Inr r \<and> step_calm cc st1 r"
    and loop: "\<And>st1. reads cc p True st st1 \<Longrightarrow> near p st1 \<Longrightarrow> Q (bare (o_root st1)) \<Longrightarrow>
      length (o_current st1) < length (o_current st) \<Longrightarrow>
      outcome (\<lambda>(ok, st'). reads cc p ok st1 st') (loop st1)"
  shows "outcome (\<lambda>(ok, st'). reads cc p ok st st')
    (bind_res m (\<lambda>(ok, st1).
       if \<not> ok then old_recover cc t st1
       else bind_res (after cc st1) (\<lambda>r. case r of (Some ok', st2) \<Rightarrow> Inr (ok', st2) | (None, st2) \<Rightarrow> loop st2)))"
  using m
proof (rule outcome_bind)
  fix r :: "bool \<times> ostate"
  assume "case r of (ok, st') \<Rightarrow> reads cc p ok st st' \<and> (ok \<longrightarrow> near p st' \<and> Q (bare (o_root st')))"
  then obtain ok st1 where r: "r = (ok, st1)" "reads cc p ok st st1" "ok \<Longrightarrow> near p st1" "ok \<Longrightarrow> Q (bare (o_root st1))"
    by (cases r) auto
  show "outcome (\<lambda>(ok, st'). reads cc p ok st st') (case r of (ok, st1) \<Rightarrow>
       if \<not> ok then old_recover cc t st1
       else bind_res (after cc st1) (\<lambda>r. case r of (Some ok', st2) \<Rightarrow> Inr (ok', st2) | (None, st2) \<Rightarrow> loop st2))"
  proof (cases ok)
    case False
    then show ?thesis using r old_recover_outcome [of cc p st st1 t] by simp
  next
    case True
    obtain o2 st2 where a: "after cc st1 = Inr (o2, st2)" "step_calm cc st1 (o2, st2)"
      using after [OF reads_alive [OF r(2)]] by (metis surj_pair)
    show ?thesis
    proof (cases o2)
      case None
      then have q: "quiet cc st1 st2" "length (o_current st2) < length (o_current st1)" using a(2) by auto
      have r2: "reads cc p True st st2" using reads_calm [of cc p st st1 True st2] r(2) True q(1) by simp
      have "outcome (\<lambda>(ok, st'). reads cc p ok st2 st') (loop st2)"
        using r2 q r(2-4) True quiet_near [OF q(1)] reads_length [OF r(2)]
        by (intro loop) (auto simp: quiet_def)
      then show ?thesis using outcome_reads_trans [OF r2] r(1) True a(1) None by simp
    next
      case (Some ok')
      then show ?thesis using a r(1,2) True reads_calm [of cc p st st1 ok' st2] by simp
    qed
  qed
qed

lemma object_runs_Suc:
  assumes v: "value_runs f cc b n" and o: "object_runs f cc b n"
  shows "object_runs f cc b (Suc n)"
  unfolding object_runs_def
proof (intro allI impI)
  fix nodes :: "path list" and nm st
  let ?p = "hd nodes"
  assume ready: "loop_ready cc ?p (Suc n) st" and obj: "is_object (at_path ?p (bare (o_root st)))"
  obtain k where k: "old_object_key f cc nm st = Inr k" "key_calm cc st k"
    using old_object_key_calm [of cc st] ready by (auto simp: loop_ready_def)
  show "outcome (\<lambda>(ok, st'). reads cc ?p ok st st') (old_object_loop f cc b (Suc n) nodes nm st)"
  proof (cases k)
    case (OldKeyEnd ok st1)
    then show ?thesis
      using k ready by (auto simp: old_object_loop.simps loop_ready_def intro: calm_reads)
  next
    case (OldKeyMember nm' st1)
    then have q: "quiet cc st st1" using k(2) by simp
    have r1: "reads cc ?p True st st1" using q ready by (auto simp: loop_ready_def intro: quiet_reads)
    have l: "alive cc st1" "valid_path ?p (bare (o_root st1))" "near ?p st1" "length (o_current st1) < 2 ^ 30"
      "2 * length (o_current st1) + 1 \<le> n"
      using ready q quiet_near [OF q] quiet_length [OF q] by (auto simp: loop_ready_def quiet_def)
    have io: "is_object (value_at ?p st1)"
      using obj q bare.containers(2) [of "value_at ?p st1"] by (simp add: quiet_def value_at_def del: bare.containers)
    then obtain w where w: "resolve_reference (value_at ?p st1) nm' = Inr w"
      using object_ops_no_exn(1) [of "value_at ?p st1" nm'] by (auto simp: is_object_def)
    note e = bare.resolve_reference_extends [OF w io]
    have e1: "extends (at_path ?p (bare (o_root st1))) (bare w)" using e(1) by (simp add: value_at_def)
    have "outcome (\<lambda>(ok, st'). reads cc ?p ok st1 st') (bind_res
        (old_read_value f cc b n ((?p @ [KName (czstring nm')]) # nodes) (set_at ?p w st1)) (\<lambda>(ok, st2).
             if \<not> ok then old_recover cc tokenObjectEnd st2
             else bind_res (old_after_member cc st2) (\<lambda>r.
                    case r of (Some ok', st3) \<Rightarrow> Inr (ok', st3)
                    | (None, st3) \<Rightarrow> old_object_loop f cc b n nodes nm' st3)))"
    proof (rule round_outcome [where Q = "\<lambda>R. \<exists>x. at_path ?p R = put_child (KName (czstring nm')) x (bare w)"
          and after = old_after_member, OF child_value_outcome [OF v l e1 e(2)] old_after_member_calm])
      fix st3
      assume 3: "reads cc ?p True st1 st3" "near ?p st3"
        "\<exists>x. at_path ?p (bare (o_root st3)) = put_child (KName (czstring nm')) x (bare w)"
        "length (o_current st3) < length (o_current st1)"
      have "loop_ready cc ?p n st3"
        using 3 l(4,5) reads_alive [OF 3(1)] reads_valid [OF 3(1)] by (simp add: loop_ready_def)
      then show "outcome (\<lambda>(ok, st'). reads cc ?p ok st3 st') (old_object_loop f cc b n nodes nm' st3)"
        using o 3(3) by (auto simp: object_runs_def is_object_def)
    qed
    from outcome_reads_trans [OF r1 this] show ?thesis
      using k(1) OldKeyMember w by (simp add: old_object_loop.simps)
  qed
qed

lemma array_runs_Suc:
  assumes v: "value_runs f cc b n" and a: "array_runs f cc b n"
  shows "array_runs f cc b (Suc n)"
  unfolding array_runs_def
proof (intro allI impI)
  fix nodes :: "path list" and index :: int32 and st
  let ?p = "hd nodes"
  assume ready: "loop_ready cc ?p (Suc n) st" and arr: "is_array (at_path ?p (bare (o_root st)))"
    and i: "0 \<le> sint index" "sint index + int (length (o_current st)) < 2 ^ 31"
  have l: "alive cc st" "valid_path ?p (bare (o_root st))" "near ?p st" "length (o_current st) < 2 ^ 30"
    "2 * length (o_current st) + 1 \<le> n"
    using ready by (auto simp: loop_ready_def)
  have ia: "is_array (value_at ?p st)"
    using arr bare.containers(1) [of "value_at ?p st"] by (simp add: value_at_def del: bare.containers)
  then obtain w where w: "index_ref_int (value_at ?p st) index = Inr w"
    using index_ref_int_no_exn [of "value_at ?p st" index] i(1) by (auto simp: is_array_def)
  note e = bare.index_ref_int_extends [OF w ia]
  have e1: "extends (at_path ?p (bare (o_root st))) (bare w)" using e(1) by (simp add: value_at_def)
  have "outcome (\<lambda>(ok, st'). reads cc ?p ok st st') (bind_res
      (old_read_value f cc b n ((?p @ [KIndex index]) # nodes) (set_at ?p w st)) (\<lambda>(ok, st2).
       if \<not> ok then old_recover cc tokenArrayEnd st2
       else bind_res (old_after_element cc st2) (\<lambda>r.
              case r of (Some ok', st3) \<Rightarrow> Inr (ok', st3)
              | (None, st3) \<Rightarrow> old_array_loop f cc b n nodes (index + 1) st3)))"
  proof (rule round_outcome [where Q = "\<lambda>R. \<exists>x. at_path ?p R = put_child (KIndex index) x (bare w)"
          and after = old_after_element, OF child_value_outcome [OF v l e1 e(2)] old_after_element_calm])
    fix st3
    assume 3: "reads cc ?p True st st3" "near ?p st3"
      "\<exists>x. at_path ?p (bare (o_root st3)) = put_child (KIndex index) x (bare w)"
      "length (o_current st3) < length (o_current st)"
    have "loop_ready cc ?p n st3"
      using 3 l(4,5) reads_alive [OF 3(1)] reads_valid [OF 3(1)] by (simp add: loop_ready_def)
    moreover have "sint (index + 1) = sint index + 1"
      using i 3(4) by (intro sint_word_succ) linarith+
    ultimately show "outcome (\<lambda>(ok, st'). reads cc ?p ok st3 st') (old_array_loop f cc b n nodes (index + 1) st3)"
      using a 3(3,4) i by (auto simp: array_runs_def is_array_def index_put_def)
  qed
  then show "outcome (\<lambda>(ok, st'). reads cc ?p ok st st') (old_array_loop f cc b (Suc n) nodes index st)"
    using w by (simp add: old_array_loop.simps)
qed

theorem all_runs: "value_runs f cc b n \<and> object_runs f cc b n \<and> array_runs f cc b n"
proof (induction n)
  case 0
  show ?case by (simp add: value_runs_def object_runs_def array_runs_def loop_ready_def)
next
  case (Suc n)
  then show ?case by (simp add: value_runs_Suc object_runs_Suc array_runs_Suc)
qed

section \<open>Whole documents\<close>

lemma old_parse_outcome:
  assumes "length doc < 2 ^ 30"
  shows "outcome (\<lambda>(ok, v, errs). good errs = ok) (old_parse f collect doc rt)"
proof -
  let ?cc = "collect \<and> o_allow_comments f"
  let ?st = "\<lparr>o_root = rt, o_current = doc, o_errors = [], o_last_end = None, o_last = None, o_comments = []\<rparr>"
  have "outcome (value_done ?cc (hd [[]]) ?st) (old_read_value f ?cc doc (parse_fuel doc) [[]] ?st)"
    using all_runs assms by (intro value_runsD) (simp_all add: alive_def free_def parse_fuel_def)
  then show ?thesis
    unfolding old_parse_def Let_def
  proof (rule outcome_bind)
    fix r :: "bool \<times> ostate"
    assume d: "value_done ?cc (hd [[]]) ?st r"
    obtain ok st1 where r: "r = (ok, st1)" "reads ?cc [] ok ?st st1"
      using d by (cases r) (simp add: value_done_def)
    obtain tok st2 where t: "old_skip_comment_tokens (o_allow_comments f) ?cc st1 = Inr (tok, st2)" "quiet ?cc st1 st2"
      using old_skip_comment_tokens_quiet [OF reads_alive [OF r(2)]] by blast
    have g: "(o_errors st2 = []) = ok" using r(2) t(2) by (auto simp: reads_def quiet_def split: if_splits)
    have "\<exists>v. (if ?cc \<and> o_comments st2 \<noteq> [] then set_comment (o_root st2) (o_comments st2) commentAfter
        else Inr (o_root st2)) = Inr v"
    proof (cases "?cc \<and> o_comments st2 \<noteq> []")
      case True
      then have "slash_text (o_comments st2)" using quiet_alive [OF t(2)] by (simp add: alive_def)
      then show ?thesis using True set_comment_slash by fastforce
    qed auto
    then obtain v where "(if ?cc \<and> o_comments st2 \<noteq> [] then set_comment (o_root st2) (o_comments st2) commentAfter
        else Inr (o_root st2)) = Inr v" by blast
    then show "outcome (\<lambda>(ok, v, errs). good errs = ok) (case r of (successful, st) \<Rightarrow>
         bind_res (old_skip_comment_tokens (o_allow_comments f) ?cc st) (\<lambda>(tok, st1).
         bind_res (if ?cc \<and> o_comments st1 \<noteq> [] then set_comment (o_root st1) (o_comments st1) commentAfter
                   else Inr (o_root st1)) (\<lambda>v.
           if o_strict_root f \<and> \<not> is_array v \<and> \<not> is_object v
           then Inr (False, v, o_errors st1 @
                       [error_info ''A valid JSON document must be either an array or an object value.''
                          \<lparr>tok_type = tokenError, tok_start = doc, tok_end = []\<rparr>])
           else Inr (successful, v, o_errors st1))))"
      using r(1) t(1) g by (simp add: good_def)
  qed
qed

end
