(* ===== verification/Old_Sim_Tokens.thy ===== *)
theory Old_Sim_Tokens
  imports Old_Reader_Runs Json_Accept
begin

text \<open>
  The deprecated reader against the reader that replaced it, token by token: where the
  deprecated one reads a token, \<open>read_token\<close> reads the same one. The exceptions are a minus
  sign before \<open>I\<close> and a plus sign, which only the new reader takes for the start of a number.
\<close>

definition replaces :: "features \<Rightarrow> old_features \<Rightarrow> bool" where
  \<comment> \<open>features with which the new reader refuses nothing that the old one accepts\<close>
  "replaces f g \<longleftrightarrow> (o_allow_comments g \<longrightarrow> allowComments f) \<and>
     (o_allow_dropped_null g \<longrightarrow> allowDroppedNullPlaceholders f) \<and> (strictRoot f \<longrightarrow> o_strict_root g) \<and>
     \<not> o_allow_numeric_keys g \<and> \<not> allowSingleQuotes f \<and> \<not> allowSpecialFloats f \<and> \<not> rejectDupKeys f \<and>
     \<not> failIfExtra f \<and> stackLimit_g \<le> stackLimit f"

definition at_I :: "loc \<Rightarrow> bool" where
  "at_I c \<longleftrightarrow> c \<noteq> [] \<and> hd c = CHR ''I''"

section \<open>One token\<close>

lemma old_read_number_I: "old_read_number (CHR ''I'' # r) = CHR ''I'' # r"
  by (simp add: old_read_number_def is_digit_def byte_def)

lemma token_switch_eq:
  assumes "c \<noteq> CHR ''/''" "c \<noteq> CHR ''+''" "c \<noteq> CHR ''-''" "\<not> allowSingleQuotes f" "\<not> allowSpecialFloats f"
  shows "token_switch f c r = old_token_switch c r"
proof -
  have n: "snd (read_number False r) = old_read_number r" by (simp add: old_read_number_eq)
  consider "c = SQ" | "c = CHR ''N''" | "c = CHR ''I''" | "c \<noteq> SQ" "c \<noteq> CHR ''N''" "c \<noteq> CHR ''I''" by blast
  then show ?thesis
    by cases (use assms in \<open>simp_all add: token_switch_def old_token_switch_def old_scanners n is_digit_def byte_def\<close>)
qed

lemma token_switch_minus:
  assumes "old_token_switch (CHR ''-'') r = (ty, ok, e)" "\<not> at_I e"
  shows "token_switch f (CHR ''-'') r = (tokenNumber, True, e)" "ty = tokenNumber" "ok"
proof -
  have o: "ty = tokenNumber" "ok" "e = old_read_number r"
    using assms(1) by (simp_all add: old_token_switch_def)
  have "\<not> (r \<noteq> [] \<and> hd r = CHR ''I'')"
    using assms(2) o old_read_number_I [of "tl r"] by (cases r) (auto simp: at_I_def)
  then have "read_number True r = (True, e)" using o by (auto simp: old_read_number_eq)
  then show "token_switch f (CHR ''-'') r = (tokenNumber, True, e)" "ty = tokenNumber" "ok"
    using o by (simp_all add: token_switch_def is_digit_def byte_def)
qed

lemma token_switch_same:
  assumes t: "old_token_switch c r = (ty, ok, e)" "c \<noteq> CHR ''/''" "c \<noteq> CHR ''+''"
    and f: "\<not> allowSingleQuotes f" "\<not> allowSpecialFloats f"
    and i: "ty = tokenNumber \<Longrightarrow> \<not> at_I e"
  shows "token_switch f c r = (ty, ok, e)"
proof (cases "c = CHR ''-''")
  case True
  then have "ty = tokenNumber" using t(1) by (simp add: old_token_switch_def)
  then show ?thesis using token_switch_minus(1) [of r ty ok e f] token_switch_minus(3) [of r ty ok e] t(1) i True by simp
next
  case False
  then show ?thesis using token_switch_eq [OF t(2,3) False f] t(1) by simp
qed

lemma old_read_token_cases:
  assumes "old_read_token cc st = Inr (ok, tok, st')"
  obtains (comment) r where "skip_spaces (o_current st) = CHR ''/'' # r" "read_comment r = (ok, o_current st')"
      "tok = \<lparr>tok_type = (if ok then tokenComment else tokenError), tok_start = CHR ''/'' # r,
              tok_end = o_current st'\<rparr>"
    | (other) c r ty where "get_next_char (skip_spaces (o_current st)) = (c, r)" "c \<noteq> CHR ''/''"
      "old_token_switch c r = (ty, ok, o_current st')"
      "tok = \<lparr>tok_type = (if ok then ty else tokenError), tok_start = skip_spaces (o_current st),
              tok_end = o_current st'\<rparr>"
proof -
  let ?s = "skip_spaces (o_current st)"
  obtain c r where g: "get_next_char ?s = (c, r)" by (cases "get_next_char ?s")
  show thesis
  proof (cases "c = CHR ''/''")
    case True
    then have s: "?s = CHR ''/'' # r" using g by (auto simp: get_next_char_def split: list.splits)
    obtain st1 where "old_read_comment cc ?s (st\<lparr>o_current := r\<rparr>) = Inr (ok, st1)" "st' = st1"
      "tok = \<lparr>tok_type = (if ok then tokenComment else tokenError), tok_start = ?s, tok_end = o_current st'\<rparr>"
      using assms g True by (auto simp: old_read_token_def old_scanners bind_res_Inr_iff Let_def)
    then show thesis using comment [OF s] s by (auto dest!: old_read_comment_current)
  next
    case False
    obtain ty b e where "old_token_switch c r = (ty, b, e)" by (cases "old_token_switch c r") auto
    then show thesis
      using other [OF g False] assms g False by (auto simp: old_read_token_def old_scanners)
  qed
qed

lemma read_token_get:
  "get_next_char (skip_spaces cur) = (c, r) \<Longrightarrow> token_switch f c r = (ty, ok, e) \<Longrightarrow>
   read_token f cur = (ok, \<lparr>tok_type = (if ok then ty else tokenError), tok_start = skip_spaces cur, tok_end = e\<rparr>, e)"
  by (simp add: read_token_def Let_def)

lemma token_same:
  assumes "old_read_token cc st = Inr (True, tok, st')" and f: "replaces f g"
    and i: "tok_type tok = tokenNumber \<Longrightarrow> \<not> at_I (o_current st')"
  shows "read_token f (o_current st) = (True, tok, o_current st')"
  using assms(1)
proof (cases rule: old_read_token_cases)
  case (comment r)
  then have "get_next_char (skip_spaces (o_current st)) = (CHR ''/'', r)" by (simp add: get_next_char_def)
  moreover have "token_switch f (CHR ''/'') r = (tokenComment, True, o_current st')"
    using comment by (simp add: token_switch_def)
  ultimately show ?thesis using comment by (simp add: read_token_get)
next
  case (other c r ty)
  have "c \<noteq> CHR ''+''"
  proof
    assume "c = CHR ''+''"
    then show False using other(3) by (simp add: old_token_switch_def is_digit_def byte_def)
  qed
  from token_switch_same [OF other(3,2) this, of f] have "token_switch f c r = (ty, True, o_current st')"
    using f i other(4) by (auto simp: replaces_def)
  then show ?thesis using other by (simp add: read_token_get)
qed

definition near_sign :: "loc \<Rightarrow> loc \<Rightarrow> bool" where
  \<comment> \<open>the new reader may also have read a number behind a plus sign\<close>
  "near_sign c c' \<longleftrightarrow> c' = c \<or> c' = snd (read_number True c)"

lemma token_error_same:
  assumes "old_read_token cc st = Inr (False, tok, st')" and f: "replaces f g"
  shows "\<exists>b tok' c'. read_token f (o_current st) = (b, tok', c') \<and> tok_type tok' \<noteq> tokenObjectEnd \<and>
    tok_type tok' \<noteq> tokenComment \<and> near_sign (o_current st') c'"
  using assms(1)
proof (cases rule: old_read_token_cases)
  case (comment r)
  then have "get_next_char (skip_spaces (o_current st)) = (CHR ''/'', r)" by (simp add: get_next_char_def)
  moreover have "token_switch f (CHR ''/'') r = (tokenComment, False, o_current st')"
    using comment by (simp add: token_switch_def)
  ultimately show ?thesis using read_token_get by (fastforce simp: near_sign_def)
next
  case (other c r ty)
  show ?thesis
  proof (cases "c = CHR ''+''")
    case True
    then have e: "o_current st' = r"
      using other(3) by (simp add: old_token_switch_def is_digit_def byte_def)
    obtain b c' where n: "read_number True r = (b, c')" by (cases "read_number True r") auto
    have "token_switch f c r = (if b then tokenNumber else tokenPosInf, b, c')"
      using f True n by (cases b) (simp_all add: token_switch_def replaces_def is_digit_def byte_def)
    then show ?thesis using read_token_get [OF other(1)] e n by (simp add: near_sign_def)
  next
    case False
    have "ty \<noteq> tokenNumber" using other(3) by (auto simp: old_token_switch_def split: if_splits)
    then have "token_switch f c r = (ty, False, o_current st')"
      using token_switch_same [OF other(3,2) False, of f] f by (auto simp: replaces_def)
    from read_token_get [OF other(1) this] show ?thesis by (auto simp: near_sign_def)
  qed
qed

lemma old_read_token_ok:
  "old_read_token cc st = Inr (ok, tok, st') \<Longrightarrow> ok \<longleftrightarrow> tok_type tok \<noteq> tokenError"
proof (erule old_read_token_cases)
  fix c r ty
  assume "old_token_switch c r = (ty, ok, o_current st')"
    "tok = \<lparr>tok_type = (if ok then ty else tokenError), tok_start = skip_spaces (o_current st),
      tok_end = o_current st'\<rparr>"
  then show "ok \<longleftrightarrow> tok_type tok \<noteq> tokenError" using old_token_switch_error [of c r] by auto
qed simp

text \<open>A token other than a number, and not an error, starts with no character of a number.\<close>

lemma read_number_stays:
  "\<not> is_digit d \<Longrightarrow> d \<notin> {CHR ''.'', CHR ''e'', CHR ''E'', CHR ''I''} \<Longrightarrow> snd (read_number True (d # x)) = d # x"
  by (simp add: old_read_number_eq old_read_number_def)

lemma old_switch_number_chars:
  "is_digit d \<Longrightarrow> fst (old_token_switch d x) = tokenNumber"
  "d \<in> {CHR ''.'', CHR ''e'', CHR ''E'', CHR ''I''} \<Longrightarrow> old_token_switch d x = (tokenError, False, x)"
proof -
  assume d: "is_digit d"
  then have "d \<notin> {CHR ''{'', CHR ''}'', CHR ''['', CHR '']'', DQ}" by (auto simp: is_digit_def byte_def)
  then show "fst (old_token_switch d x) = tokenNumber" using d by (simp add: old_token_switch_def)
next
  assume "d \<in> {CHR ''.'', CHR ''e'', CHR ''E'', CHR ''I''}"
  then show "old_token_switch d x = (tokenError, False, x)"
    by (elim insertE emptyE; simp add: old_token_switch_def is_digit_def byte_def)
qed

lemma first_char_token:
  assumes "old_read_token cc st = Inr (True, tok, st')"
  shows "\<not> at_I (o_current st)"
    "tok_type tok \<noteq> tokenNumber \<Longrightarrow> snd (read_number True (o_current st)) = o_current st"
proof -
  have "\<not> at_I (o_current st) \<and>
    (tok_type tok \<noteq> tokenNumber \<longrightarrow> snd (read_number True (o_current st)) = o_current st)"
  proof (cases "o_current st")
    case (Cons d x)
    show ?thesis
    proof (cases "white_char d \<or> d = CHR ''/''")
      case True
      then have d: "\<not> is_digit d \<and> d \<notin> {CHR ''.'', CHR ''e'', CHR ''E'', CHR ''I''}"
        by (auto simp: white_char_def is_digit_def byte_def)
      then show ?thesis using Cons read_number_stays [of d x] by (simp add: at_I_def)
    next
      case False
      then have s: "skip_spaces (o_current st) = d # x" using Cons skip_spaces_solid by simp
      from assms show ?thesis
      proof (cases rule: old_read_token_cases)
        case (comment r)
        then show ?thesis using s False by simp
      next
        case (other c r ty)
        then have o: "old_token_switch d x = (ty, True, o_current st')" "tok_type tok = ty"
          using s by (auto simp: get_next_char_def)
        then have n: "d \<notin> {CHR ''.'', CHR ''e'', CHR ''E'', CHR ''I''}"
          using old_switch_number_chars(2) [of d x] by auto
        show ?thesis
          using Cons o n old_switch_number_chars(1) [of d x] read_number_stays [OF _ n, of x]
          by (auto simp: at_I_def)
      qed
    qed
  qed (simp add: at_I_def read_number_def Let_def next_c_def)
  then show "\<not> at_I (o_current st)"
    "tok_type tok \<noteq> tokenNumber \<Longrightarrow> snd (read_number True (o_current st)) = o_current st" by blast+
qed

end
