(* ===== verification/Old_Sim.thy ===== *)
theory Old_Sim
  imports Old_Sim_Tokens
begin

text \<open>
  The deprecated reader against the reader that replaced it: whenever \<^verbatim>\<open>Reader\<close> reads a value,
  \<^verbatim>\<open>OurReader\<close> with features that refuse nothing more reads the same value from the same text.
\<close>

section \<open>Steps\<close>

lemma skip_comment_tokens_same:
  assumes "old_skip_comment_tokens allow cc st = Inr (tok, st')" and f: "replaces f g" "allow \<longrightarrow> allowComments f"
    and "tok_type tok \<noteq> tokenError" "tok_type tok \<noteq> tokenComment"
    and i: "tok_type tok = tokenNumber \<Longrightarrow> \<not> at_I (o_current st')"
  shows "skip_comment_tokens f (o_current st) = (tok, o_current st')"
  using assms(1,2,4,5) f(2) i
proof (induction allow cc st rule: old_skip_comment_tokens.induct)
  case (1 allow cc st)
  obtain ok t s where t: "old_read_token cc st = Inr (ok, t, s)"
    using "1.prems"(1) by (subst (asm) old_skip_comment_tokens.simps) (auto split: sum.splits)
  show ?case
  proof (cases "allow \<and> tok_type t = tokenComment")
    case True
    then have "old_skip_comment_tokens allow cc s = Inr (tok, st')"
      using "1.prems"(1) t by (subst (asm) old_skip_comment_tokens.simps) simp
    then have "skip_comment_tokens f (o_current s) = (tok, o_current st')"
      using "1.IH" [OF t refl refl True] "1.prems" by blast
    moreover have ok using True old_read_token_ok [OF t] by simp
    ultimately show ?thesis
      using True t "1.prems"(5) token_same [of cc st t s f g] f(1)
      by (simp add: skip_comment_tokens.simps [of f "o_current st"])
  next
    case False
    then have "t = tok" "s = st'"
      using "1.prems"(1) t by (subst (asm) old_skip_comment_tokens.simps, simp split: if_splits)+
    moreover from this have ok using "1.prems"(3) old_read_token_ok [OF t] by simp
    ultimately show ?thesis
      using t "1.prems" token_same [of cc st t s f g] f(1)
      by (simp add: skip_comment_tokens.simps [of f "o_current st"])
  qed
qed

definition follows :: "bool \<Rightarrow> token \<Rightarrow> ostate \<Rightarrow> bool \<times> token \<times> loc \<Rightarrow> bool" where
  \<comment> \<open>the same token; behind an error only where it ends\<close>
  "follows ok tok st r \<longleftrightarrow> (case r of (b, t, c) \<Rightarrow>
     if ok then b \<and> t = tok \<and> c = o_current st
     else tok_type t \<noteq> tokenObjectEnd \<and> tok_type t \<noteq> tokenComment \<and> near_sign (o_current st) c)"

lemma read_token_follows:
  assumes "old_read_token cc st = Inr (ok, tok, st')" "replaces f g"
    "tok_type tok = tokenNumber \<Longrightarrow> \<not> at_I (o_current st')"
  shows "follows ok tok st' (read_token f (o_current st))"
  using assms token_same [of cc st tok st' f g] token_error_same [of cc st tok st' f g]
  by (cases ok) (auto simp: follows_def)

lemma skip_comments_stop: "tok_type t \<noteq> tokenComment \<Longrightarrow> skip_comments f b t c = (b, t, c)"
  by (subst skip_comments.simps) simp

lemma skip_comments_follow:
  assumes "old_skip_comments cc ok tok st = Inr (ok', tok', st')" and f: "replaces f g"
    and "follows ok tok st r" "ok \<longleftrightarrow> tok_type tok \<noteq> tokenError"
    and i: "tok_type tok' = tokenNumber \<Longrightarrow> \<not> at_I (o_current st')"
  shows "follows ok' tok' st' (case r of (b, t, c) \<Rightarrow> skip_comments f b t c)"
  using assms(1,3,4) i
proof (induction cc ok tok st arbitrary: r rule: old_skip_comments.induct)
  case (1 cc ok tok st)
  obtain b t c where r: "r = (b, t, c)" by (cases r) auto
  show ?case
  proof (cases "tok_type tok = tokenComment \<and> ok")
    case True
    obtain ok1 tok1 st1 where t1: "old_read_token cc st = Inr (ok1, tok1, st1)"
      using "1.prems"(1) True by (subst (asm) old_skip_comments.simps) (auto split: sum.splits)
    have s1: "old_skip_comments cc ok1 tok1 st1 = Inr (ok', tok', st')"
      using "1.prems"(1) True t1 by (subst (asm) old_skip_comments.simps) simp
    have "tok1 = tok' \<and> st1 = st'" if "tok_type tok1 = tokenNumber"
      using s1 that by (subst (asm) old_skip_comments.simps) simp
    then have "follows ok1 tok1 st1 (read_token f (o_current st))"
      using read_token_follows [OF t1 f] "1.prems"(4) by auto
    from "1.IH" [OF True t1 refl refl s1 this old_read_token_ok [OF t1]]
    have "follows ok' tok' st' (case read_token f (o_current st) of (b, t, c) \<Rightarrow> skip_comments f b t c)"
      using "1.prems"(4) by blast
    moreover have "skip_comments f b t c = (case read_token f (o_current st) of (b, t, c) \<Rightarrow> skip_comments f b t c)"
      using "1.prems"(2) True r by (subst skip_comments.simps) (simp add: follows_def)
    ultimately show ?thesis using r by simp
  next
    case False
    then have e: "ok' = ok" "tok' = tok" "st' = st"
      using "1.prems"(1) by (subst (asm) old_skip_comments.simps, auto)+
    have "tok_type t \<noteq> tokenComment"
      using "1.prems"(2,3) False r by (cases ok) (auto simp: follows_def)
    then show ?thesis using "1.prems"(2) r e by (simp add: skip_comments_stop)
  qed
qed

lemma old_skip_comments_ok:
  "old_skip_comments cc ok tok st = Inr (ok', tok', st') \<Longrightarrow> (ok \<longleftrightarrow> tok_type tok \<noteq> tokenError) \<Longrightarrow>
   ok' \<longleftrightarrow> tok_type tok' \<noteq> tokenError"
proof (induction cc ok tok st rule: old_skip_comments.induct)
  case (1 cc ok tok st)
  show ?case
  proof (cases "tok_type tok = tokenComment \<and> ok")
    case True
    obtain ok1 tok1 st1 where t1: "old_read_token cc st = Inr (ok1, tok1, st1)"
      using "1.prems"(1) True by (subst (asm) old_skip_comments.simps) (auto split: sum.splits)
    have "old_skip_comments cc ok1 tok1 st1 = Inr (ok', tok', st')"
      using "1.prems"(1) True t1 by (subst (asm) old_skip_comments.simps) simp
    then show ?thesis using "1.IH" [OF True t1 refl refl _ old_read_token_ok [OF t1]] by blast
  next
    case False
    then show ?thesis using "1.prems" by (subst (asm) old_skip_comments.simps) auto
  qed
qed

lemma near_sign_token:
  assumes "old_read_token cc st = Inr (True, tok, st')" "tok_type tok \<noteq> tokenNumber" "near_sign (o_current st) c"
  shows "c = o_current st"
  using assms first_char_token(2) by (auto simp: near_sign_def)

lemma old_colon_end: "old_read_colon cc nm st = Inr (OldKeyEnd ok st') \<Longrightarrow> \<not> ok"
  by (auto simp: old_read_colon_def failed_key_def bind_res_Inr_iff split: if_splits)

lemma old_missing_brace_end: "old_missing_brace cc tok st = Inr k \<Longrightarrow> \<exists>st'. k = OldKeyEnd False st'"
  by (auto simp: old_missing_brace_def failed_key_def bind_res_Inr_iff)

text \<open>A key that is read, or the end of the object.\<close>

fun key_read :: "old_key_step \<Rightarrow> bool" where
  "key_read (OldKeyEnd ok _) = ok"
| "key_read (OldKeyMember _ _) = True"

fun key_same :: "err_info list \<Rightarrow> old_key_step \<Rightarrow> key_step" where
  "key_same es (OldKeyEnd ok st) = KeyEnd ok (at_text (o_current st) es)"
| "key_same es (OldKeyMember nm st) = KeyMember nm (at_text (o_current st) es)"

lemma read_colon_same:
  assumes "old_read_colon cc nm st = Inr k" "key_read k" "replaces f g" "length nm < 2 ^ 30"
  shows "read_colon f v tok nm (at_text (o_current st) es) = Inr (key_same es k)"
proof -
  obtain ok colon st' where t: "old_read_token cc st = Inr (ok, colon, st')"
    and k: "ok" "tok_type colon = tokenMemberSeparator" "k = OldKeyMember nm st'"
    using assms(1,2) by (auto simp: old_read_colon_def failed_key_def bind_res_Inr_iff split: if_splits)
  have "read_token f (o_current st) = (True, colon, o_current st')"
    using token_same [of cc st colon st' f g] t k assms(3) by simp
  then show ?thesis using k assms(3,4) by (simp add: read_colon_def replaces_def)
qed

lemma object_key_same:
  assumes k: "old_object_key g cc nm st = Inr k" "key_read k" and f: "replaces f g"
    and l: "alive cc st" "length (o_current st) < 2 ^ 30" and c: "near_sign (o_current st) c"
  shows "object_key f v nm (at_text c es) = Inr (key_same es k)"
proof -
  obtain ok0 tok0 st0 where t: "old_read_token cc st = Inr (ok0, tok0, st0)" "quiet cc st st0"
      "suffix (tok_start tok0) (o_current st)"
    using old_read_token_quiet [OF l(1)] by blast
  obtain ok1 tok1 st1 where s: "old_skip_comments cc True tok0 st0 = Inr (ok1, tok1, st1)"
      "tok1 = tok0 \<or> suffix (tok_start tok1) (o_current st0)"
    using old_skip_comments_quiet [OF quiet_alive [OF t(2)], of True tok0] by blast
  have ok: "ok0" "ok1"
    using k t(1) s(1) by (auto simp: old_object_key_def dest!: old_missing_brace_end split: if_splits)
  have step: "if tok_type tok1 = tokenObjectEnd \<and> nm = [] then k = OldKeyEnd True st1
      else bind_res (old_member_name g tok1) (\<lambda>r.
           case r of
             None \<Rightarrow> old_missing_brace cc tok1 st1
           | Some (Inl e) \<Rightarrow>
               failed_key (old_recover_from_error cc tokenObjectEnd (old_add_error e st1))
           | Some (Inr name') \<Rightarrow> old_read_colon cc name' st1) = Inr k"
    using k(1) t(1) s(1) ok by (auto simp: old_object_key_def)
  have n1: "tok_type tok1 \<noteq> tokenNumber"
  proof
    assume "tok_type tok1 = tokenNumber"
    then show False
      using step f k(2) by (auto simp: old_member_name_def replaces_def dest!: old_missing_brace_end)
  qed
  have n0: "tok_type tok0 \<noteq> tokenNumber"
  proof
    assume n: "tok_type tok0 = tokenNumber"
    then have "tok1 = tok0" using s(1) by (subst (asm) old_skip_comments.simps) simp
    then show False using n n1 by simp
  qed
  have "c = o_current st" using near_sign_token [of cc st tok0 st0 c] t(1) ok n0 c by simp
  then have r0: "read_token f c = (True, tok0, o_current st0)"
    using token_same [of cc st tok0 st0 f g] t(1) ok n0 f by simp
  have "follows True tok0 st0 (True, tok0, o_current st0)" by (simp add: follows_def)
  from skip_comments_follow [OF s(1) f this] have r1: "skip_comments f True tok0 (o_current st0) = (True, tok1, o_current st1)"
    using ok n1 old_read_token_ok [OF t(1)] by (auto simp: follows_def split: prod.splits)
  show ?thesis
  proof (cases "tok_type tok1 = tokenObjectEnd \<and> nm = []")
    case True
    then show ?thesis using step r0 r1 by (simp add: object_key_def)
  next
    case False
    then obtain nm' where m: "tok_type tok1 = tokenString" "decode_string_text tok1 [] = Inr nm'"
        "old_read_colon cc nm' st1 = Inr k"
      using step k(2) f by (auto simp: old_member_name_def replaces_def old_decode_string_text_eq failed_key_def
          bind_res_Inr_iff dest!: old_missing_brace_end split: if_splits sum.splits)
    have "suffix (tok_start tok1) (o_current st)"
      using s(2) t(2,3) by (auto simp: quiet_def intro: suffix_order.trans)
    then have "length nm' < 2 ^ 30"
      using decode_string_text_length [OF m(2)] suffix_length_le [of "tok_start tok1" "o_current st"] l(2) by linarith
    from read_colon_same [OF m(3) k(2) f this]
    show ?thesis using r0 r1 False m by (simp add: object_key_def member_name_def)
  qed
qed

lemma after_member_same:
  assumes a: "old_after_member cc st = Inr (r, st')" "r \<noteq> Some False" and f: "replaces f g"
    and i: "r = None \<Longrightarrow> \<not> at_I (o_current st')"
  shows "\<exists>c. after_member f (at_text (o_current st) es) = (r, at_text c es) \<and>
      (if r = None then near_sign (o_current st') c else c = o_current st')"
    "\<not> at_I (o_current st)"
proof -
  obtain ok comma st1 where t: "old_read_token cc st = Inr (ok, comma, st1)"
    using a(1) by (auto simp: old_after_member_def bind_res_Inr_iff)
  then obtain ok2 comma2 where ok: "ok" and ty: "tok_type comma = tokenObjectEnd \<or>
      tok_type comma = tokenArraySeparator \<or> tok_type comma = tokenComment"
    and s: "old_skip_comments cc True comma st1 = Inr (ok2, comma2, st')"
    and r: "r = (if tok_type comma2 = tokenObjectEnd then Some True else None)"
    using a by (auto simp: old_after_member_def bind_res_Inr_iff split: if_splits)
  show "\<not> at_I (o_current st)" using first_char_token(1) t ok by simp
  have t1: "read_token f (o_current st) = (True, comma, o_current st1)"
    using token_same [of cc st comma st1 f g] t ok ty f by auto
  have "follows True comma st1 (True, comma, o_current st1)" by (simp add: follows_def)
  from skip_comments_follow [OF s f this]
  have "follows ok2 comma2 st' (skip_comments f True comma (o_current st1))"
    using i r ty by auto
  then obtain b t c where k: "skip_comments f True comma (o_current st1) = (b, t, c)" "follows ok2 comma2 st' (b, t, c)"
    by (cases "skip_comments f True comma (o_current st1)") auto
  show "\<exists>c. after_member f (at_text (o_current st) es) = (r, at_text c es) \<and>
      (if r = None then near_sign (o_current st') c else c = o_current st')"
  proof (cases ok2)
    case True
    then show ?thesis using k t1 ty r by (auto simp: after_member_def follows_def near_sign_def)
  next
    case False
    have "tok_type comma2 \<noteq> tokenObjectEnd"
      using old_skip_comments_ok [OF s] ty False by auto
    then show ?thesis using False k t1 ty r by (auto simp: after_member_def follows_def)
  qed
qed

lemma after_element_same:
  assumes a: "old_after_element cc st = Inr (r, st')" "r \<noteq> Some False" and f: "replaces f g"
  shows "after_element f (at_text (o_current st) es) = (r, at_text (o_current st') es)"
    "\<not> at_I (o_current st)"
proof -
  obtain ok0 tok0 st0 where t: "old_read_token cc st = Inr (ok0, tok0, st0)"
    using a(1) by (auto simp: old_after_element_def bind_res_Inr_iff)
  then obtain ok tok where s: "old_skip_comments cc ok0 tok0 st0 = Inr (ok, tok, st')"
    and ok: "ok" "tok_type tok = tokenArraySeparator \<or> tok_type tok = tokenArrayEnd"
    and r: "r = (if tok_type tok = tokenArrayEnd then Some True else None)"
    using a by (auto simp: old_after_element_def bind_res_Inr_iff split: if_splits)
  have ok0: "ok0" using s ok(1) by (subst (asm) old_skip_comments.simps) (simp split: if_splits)
  show "\<not> at_I (o_current st)" using first_char_token(1) t ok0 by simp
  have n: "tok_type tok0 \<noteq> tokenNumber"
  proof
    assume n: "tok_type tok0 = tokenNumber"
    then have "tok = tok0" using s by (subst (asm) old_skip_comments.simps) simp
    then show False using n ok(2) by auto
  qed
  have t1: "read_token f (o_current st) = (True, tok0, o_current st0)"
    using token_same [of cc st tok0 st0 f g] t ok0 n f by auto
  have "follows True tok0 st0 (True, tok0, o_current st0)" by (simp add: follows_def)
  from skip_comments_follow [OF s f _ old_read_token_ok [OF t]] this
  have "follows ok tok st' (skip_comments f True tok0 (o_current st0))"
    using ok ok0 by auto
  then show "after_element f (at_text (o_current st) es) = (r, at_text (o_current st') es)"
    using t1 ok r by (auto simp: after_element_def follows_def split: prod.splits)
qed

end
