(* ===== verification/Old_Equiv.thy ===== *)
theory Old_Equiv
  imports Old_Sim
begin

text \<open>
  Values, containers and documents: whatever the deprecated reader accepts, the reader that
  replaced it accepts with the same value.
\<close>

section \<open>Leaves\<close>

lemma old_threshold:
  "max_integer_value neg div 10 = threshold neg" "max_integer_value neg mod 10 = ucast (max_last_digit neg)"
  by (simp_all add: max_integer_value_def threshold_def max_last_digit_def max_largest_uint_def max_largest_int_def)

lemma ucast_less: "ucast a < (ucast b :: uint64) \<longleftrightarrow> a < (b :: uint32)"
proof -
  have "unat (ucast a :: uint64) = unat a" for a :: uint32
  proof -
    have "unat a < 2 ^ LENGTH(32)" by (rule unsigned_less)
    then show ?thesis by (simp add: unsigned_ucast_eq take_bit_nat_eq_self)
  qed
  then show ?thesis by (simp only: word_less_nat_alt)
qed

lemma old_decode_number_loop_eq:
  "old_decode_number_loop (max_integer_value neg) ds v = decode_number_loop (threshold neg) (max_last_digit neg) ds v"
  by (induction ds arbitrary: v) (auto simp: old_threshold ucast_less Let_def)

lemma old_decode_double_eq: "old_decode_double tok = decode_double tok"
  by (simp only: old_decode_double_def decode_double_def old_error_eq Let_def)

lemma decode_number_same:
  assumes "old_decode_number tok = Inr v"
  shows "\<exists>v'. decode_number tok = Inr v' \<and> bare v' = bare v"
proof -
  let ?neg = "tok_start tok \<noteq> [] \<and> hd (tok_start tok) = CHR ''-''"
  let ?ds = "if ?neg then tl (token_text tok) else token_text tok"
  show ?thesis
  proof (cases "decode_number_loop (threshold ?neg) (max_last_digit ?neg) ?ds 0")
    case None
    then show ?thesis
      using assms by (simp add: old_decode_number_def decode_number_def Let_def old_decode_number_loop_eq
          old_decode_double_eq)
  next
    case (Some u)
    have neg: "- (u div 10) * 10 - ucast (ucast (u mod 10) :: uint32) = - u"
      using div_mult_mod_eq [of u 10] by (simp add: ucast_mod_10 algebra_simps)
    have m: "min_largest_int = - max_integer_value True"
      by (simp add: min_largest_int_def max_integer_value_def max_largest_int_def)
    have pos: "u \<le> max_largest_int \<longleftrightarrow> u < 2 ^ 63" "u \<le> 0x7FFFFFFF \<Longrightarrow> u < 2 ^ 63"
      by (simp_all add: max_largest_int_def word_le_nat_alt word_less_nat_alt) linarith
    show ?thesis
      using assms Some neg m pos
      by (cases ?neg) (auto simp: old_decode_number_def decode_number_def Let_def old_decode_number_loop_eq
          mk_int64_def mk_uint64_def split: if_splits)
  qed
qed

lemma leaf_same:
  assumes r: "old_read_leaf g cc b tok p st = Inr (True, st')" and f: "replaces f g"
  shows "\<exists>v'. read_leaf f b tok cur (at_text (o_current st) es) = Inr (True, v', at_text (o_current st') es) \<and>
      bare (o_root st') = put_at p (bare v') (bare (o_root st))"
    "tok_type tok = tokenNumber \<Longrightarrow> valid_path p (bare (o_root st)) \<Longrightarrow>
       \<not> is_array (at_path p (bare (o_root st'))) \<and> \<not> is_object (at_path p (bare (o_root st')))"
proof -
  consider (number) v where "tok_type tok = tokenNumber" "old_decode_number tok = Inr v"
      "st' = value_read cc p (update_at p (put_value b tok v) st)"
    | (string) s v where "tok_type tok = tokenString" "decode_string_text tok [] = Inr s" "mk_string s = Inr v"
      "st' = value_read cc p (update_at p (put_value b tok v) st)"
    | (leaf) v where "tok_type tok \<noteq> tokenNumber" "tok_type tok \<noteq> tokenString" "old_leaf_value (tok_type tok) = Some v"
      "st' = value_read cc p (update_at p (put_value b tok v) st)"
    | (drop) "tok_type tok = tokenArraySeparator \<or> tok_type tok = tokenObjectEnd \<or> tok_type tok = tokenArrayEnd"
      "o_allow_dropped_null g" "st' = value_read cc p (old_drop_null b tok p st)"
    using r by (auto simp: old_read_leaf_def Let_def old_decode_into_def old_decode_string_def
        old_decode_string_text_eq bind_res_Inr_iff split: if_splits sum.splits option.splits)
  then show "\<exists>v'. read_leaf f b tok cur (at_text (o_current st) es) = Inr (True, v', at_text (o_current st') es) \<and>
      bare (o_root st') = put_at p (bare v') (bare (o_root st))"
  proof cases
    case number
    then obtain v' where "decode_number tok = Inr v'" "bare v' = bare v" using decode_number_same by blast
    then show ?thesis using number by (simp add: read_leaf_def decode_into_def)
  next
    case string
    then show ?thesis by (simp add: read_leaf_def decode_string_def)
  next
    case leaf
    then have "leaf_value (tok_type tok) = Some v"
      by (auto simp: old_leaf_value_def leaf_value_def split: token_type.splits)
    then show ?thesis using leaf by (simp add: read_leaf_def)
  next
    case drop
    then have "allowDroppedNullPlaceholders f" using f by (simp add: replaces_def)
    moreover have "bare (o_root st') = put_at p (JNull meta0) (bare (o_root st))"
      "o_current st' = tok_start tok"
      using drop(3) by (simp_all add: old_drop_null_def)
    ultimately show ?thesis
      using drop(1) by (auto simp: read_leaf_def leaf_value_def drop_null_def Let_def)
  qed
  assume t: "tok_type tok = tokenNumber"
  then obtain v where "old_decode_number tok = Inr v" "bare (o_root st') = put_at p (bare v) (bare (o_root st))"
    using r by (auto simp: old_read_leaf_def Let_def old_decode_into_def split: sum.splits)
  then show "\<not> is_array (at_path p (bare (o_root st'))) \<and> \<not> is_object (at_path p (bare (o_root st')))"
    using old_decode_number_leaf [of tok v] by (auto simp: is_array_def is_object_def split: if_splits)
qed

section \<open>Containers\<close>

lemma member_put_child: "member_put v nm c = put_child (KName (czstring nm)) c v"
  by (simp add: member_put_def)

lemma outcomeD: "outcome P r \<Longrightarrow> r = Inr a \<Longrightarrow> P a"
  by simp

section \<open>Runs\<close>

definition value_same :: "features \<Rightarrow> old_features \<Rightarrow> bool \<Rightarrow> loc \<Rightarrow> nat \<Rightarrow> bool" where
  "value_same f g cc b n \<longleftrightarrow> (\<forall>nodes st st' es cur. old_read_value g cc b n nodes st = Inr (True, st') \<longrightarrow>
     alive cc st \<longrightarrow> valid_path (hd nodes) (bare (o_root st)) \<longrightarrow> free (hd nodes) st \<longrightarrow>
     length (o_current st) < 2 ^ 30 \<longrightarrow> 2 * length (o_current st) + 1 \<le> n \<longrightarrow>
     is_array (at_path (hd nodes) (bare (o_root st'))) \<or> is_object (at_path (hd nodes) (bare (o_root st'))) \<or>
       \<not> at_I (o_current st') \<longrightarrow>
     (\<exists>v'. read_value f b n (length nodes) cur (at_text (o_current st) es) = Inr (True, v', at_text (o_current st') es) \<and>
        bare (o_root st') = put_at (hd nodes) (bare v') (bare (o_root st))))"

definition object_same :: "features \<Rightarrow> old_features \<Rightarrow> bool \<Rightarrow> loc \<Rightarrow> nat \<Rightarrow> bool" where
  "object_same f g cc b n \<longleftrightarrow> (\<forall>nodes nm st st' es v c. old_object_loop g cc b n nodes nm st = Inr (True, st') \<longrightarrow>
     loop_ready cc (hd nodes) n st \<longrightarrow> is_object v \<longrightarrow> bare v = at_path (hd nodes) (bare (o_root st)) \<longrightarrow>
     near_sign (o_current st) c \<longrightarrow>
     (\<exists>v'. read_object f b n (length nodes) v nm (at_text c es) = Inr (True, v', at_text (o_current st') es) \<and>
        bare (o_root st') = put_at (hd nodes) (bare v') (bare (o_root st))))"

definition array_same :: "features \<Rightarrow> old_features \<Rightarrow> bool \<Rightarrow> loc \<Rightarrow> nat \<Rightarrow> bool" where
  "array_same f g cc b n \<longleftrightarrow> (\<forall>nodes index st st' es v. old_array_loop g cc b n nodes index st = Inr (True, st') \<longrightarrow>
     loop_ready cc (hd nodes) n st \<longrightarrow> is_array v \<longrightarrow> bare v = at_path (hd nodes) (bare (o_root st)) \<longrightarrow>
     0 \<le> sint index \<longrightarrow> sint index + int (length (o_current st)) < 2 ^ 31 \<longrightarrow>
     (index = 0 \<longrightarrow> \<not> (\<exists>r. skip_spaces (o_current st) = CHR '']'' # r)) \<longrightarrow>
     (\<exists>v'. read_array f b n (length nodes) v index (at_text (o_current st) es) = Inr (True, v', at_text (o_current st') es) \<and>
        bare (o_root st') = put_at (hd nodes) (bare v') (bare (o_root st))))"

definition ends_array :: "loc \<Rightarrow> bool" where
  "ends_array c \<longleftrightarrow> skip_spaces c \<noteq> [] \<and> hd (skip_spaces c) = CHR '']''"

lemma skip_spaces_twice [simp]: "skip_spaces (skip_spaces c) = skip_spaces c"
  by (induction c) auto

lemma read_array_skip:
  "read_array f b n nodes v i (at_text (skip_spaces c) es) = read_array f b n nodes v i (at_text c es)"
  by (cases n) (simp_all add: read_array.simps Let_def)

lemma read_value_skip:
  "read_value f b n nodes v (at_text (skip_spaces c) es) = read_value f b n nodes v (at_text c es)"
proof -
  have "read_token f (skip_spaces c) = read_token f c" by (simp add: read_token_def)
  then have "skip_comment_tokens f (skip_spaces c) = skip_comment_tokens f c"
    by (simp add: skip_comment_tokens.simps [of f "skip_spaces c"] skip_comment_tokens.simps [of f c])
  then show ?thesis by (cases n) (simp_all add: read_value.simps Let_def)
qed

lemma closing_bracket:
  assumes "ends_array c"
  shows "\<exists>t. old_read_token cc (st\<lparr>o_current := skip_spaces c\<rparr>) =
    Inr (True, t, st\<lparr>o_current := snd (snd (read_token f (skip_spaces c)))\<rparr>)"
proof -
  obtain r where r: "skip_spaces c = CHR '']'' # r"
    using assms by (cases "skip_spaces c") (auto simp: ends_array_def)
  have "read_token f (skip_spaces c) = (True, text_token tokenArrayEnd '']'' r, r)"
    unfolding r by (rule read_token_punctuation) (simp add: punctuation_def)
  then show ?thesis
    by (simp add: r old_read_token_def old_scanners get_next_char_def old_token_switch_def)
qed

lemma object_sameD:
  "object_same f g cc b n \<Longrightarrow> old_object_loop g cc b n nodes nm st = Inr (True, st') \<Longrightarrow>
   loop_ready cc (hd nodes) n st \<Longrightarrow> is_object v \<Longrightarrow> bare v = at_path (hd nodes) (bare (o_root st)) \<Longrightarrow>
   near_sign (o_current st) c \<Longrightarrow>
   \<exists>v'. read_object f b n (length nodes) v nm (at_text c es) = Inr (True, v', at_text (o_current st') es) \<and>
        bare (o_root st') = put_at (hd nodes) (bare v') (bare (o_root st))"
  unfolding object_same_def by blast

lemma array_sameD:
  "array_same f g cc b n \<Longrightarrow> old_array_loop g cc b n nodes index st = Inr (True, st') \<Longrightarrow>
   loop_ready cc (hd nodes) n st \<Longrightarrow> is_array v \<Longrightarrow> bare v = at_path (hd nodes) (bare (o_root st)) \<Longrightarrow>
   0 \<le> sint index \<Longrightarrow> sint index + int (length (o_current st)) < 2 ^ 31 \<Longrightarrow>
   (index = 0 \<longrightarrow> \<not> (\<exists>r. skip_spaces (o_current st) = CHR '']'' # r)) \<Longrightarrow>
   \<exists>v'. read_array f b n (length nodes) v index (at_text (o_current st) es) = Inr (True, v', at_text (o_current st') es) \<and>
        bare (o_root st') = put_at (hd nodes) (bare v') (bare (o_root st))"
  unfolding array_same_def by blast

lemma value_same_Suc:
  assumes o: "object_same f g cc b n" and a: "array_same f g cc b n" and f: "replaces f g"
  shows "value_same f g cc b (Suc n)"
  unfolding value_same_def
proof (intro allI impI)
  fix nodes :: "path list" and st st' es cur
  let ?p = "hd nodes"
  assume run: "old_read_value g cc b (Suc n) nodes st = Inr (True, st')"
    and pre: "alive cc st" "valid_path ?p (bare (o_root st))" "free ?p st" "length (o_current st) < 2 ^ 30"
      "2 * length (o_current st) + 1 \<le> Suc n"
    and i: "is_array (at_path ?p (bare (o_root st'))) \<or> is_object (at_path ?p (bare (o_root st'))) \<or>
       \<not> at_I (o_current st')"
  obtain tok st1 where t: "old_skip_comment_tokens (o_allow_comments g) cc st = Inr (tok, st1)" "quiet cc st st1"
    "suffix (tok_start tok) (o_current st)" "tok_type tok \<noteq> tokenEndOfStream \<longrightarrow> length (o_current st1) < length (o_current st)"
    using old_skip_comment_tokens_quiet [OF pre(1)] by blast
  have v1: "valid_path ?p (bare (o_root st1))" using t(2) pre(2) by (simp add: quiet_def)
  obtain st2 where c: "comment_before cc ?p st1 = Inr st2" "quiet cc st1 st2" "o_current st2 = o_current st1"
    using comment_before_quiet [OF quiet_alive [OF t(2)] v1] by blast
  have q: "quiet cc st st2" by (rule quiet_trans [OF t(2) c(2)])
  have root: "bare (o_root st2) = bare (o_root st)" using q by (simp add: quiet_def)
  have lim: "length nodes \<le> stackLimit_g" "\<not> stackLimit f < length nodes"
    using run f by (auto simp: old_read_value.simps replaces_def split: if_splits)
  have al: "o_allow_comments g \<longrightarrow> allowComments f" using f by (simp add: replaces_def)
  let ?i = "\<lambda>ty. old_init_container b tok ty ?p st2"
  consider (obj) "tok_type tok = tokenObjectBegin" | (arr) "tok_type tok = tokenArrayBegin"
    | (leaf) "tok_type tok \<noteq> tokenObjectBegin" "tok_type tok \<noteq> tokenArrayBegin" by blast
  then show "\<exists>v'. read_value f b (Suc n) (length nodes) cur (at_text (o_current st) es) =
        Inr (True, v', at_text (o_current st') es) \<and> bare (o_root st') = put_at ?p (bare v') (bare (o_root st))"
  proof cases
    case obj
    have s: "skip_comment_tokens f (o_current st) = (tok, o_current st1)"
      using skip_comment_tokens_same [OF t(1) f al] obj by simp
    obtain st3 where l: "old_object_loop g cc b n nodes [] (?i objectValue) = Inr (True, st3)"
      and e: "container_end b cc ?p True st3 = Inr (True, st')"
      using run t(1) c(1) obj lim by (auto simp: old_read_value.simps bind_res_Inr_iff container_end_def)
    note ic = init_container_ready [OF q pre(2,3), of objectValue b tok]
    have "loop_ready cc ?p n (?i objectValue)"
      using ic obj t(4) c(3) pre(4,5) reads_alive [OF ic(1)] by (simp add: loop_ready_def)
    then obtain v' where v': "read_object f b n (length nodes) (init_container b tok objectValue cur) []
        (at_text (o_current (?i objectValue)) es) = Inr (True, v', at_text (o_current st3) es)"
        "bare (o_root st3) = put_at ?p (bare v') (bare (o_root (?i objectValue)))"
      using object_sameD [OF o l, of "init_container b tok objectValue cur" _ es] ic(4)
      by (auto simp: is_object_def near_sign_def)
    then show ?thesis
      using s obj lim(2) e ic(3,4) c(3) root by (auto simp: read_value.simps container_end_def)
  next
    case arr
    have s: "skip_comment_tokens f (o_current st) = (tok, o_current st1)"
      using skip_comment_tokens_same [OF t(1) f al] arr by simp
    note ic = init_container_ready [OF q pre(2,3), of arrayValue b tok]
    obtain e st3 where ae: "old_array_empty cc (?i arrayValue) = Inr (e, st3)" "quiet cc (?i arrayValue) st3"
      using old_array_empty_quiet [OF reads_alive [OF ic(1)]] by auto
    obtain st4 where l: "(if e then Inr (True, st3) else old_array_loop g cc b n nodes 0 st3) = Inr (True, st4)"
      and ce: "container_end b cc ?p True st4 = Inr (True, st')"
      using run t(1) c(1) arr ae(1) lim by (auto simp: old_read_value.simps bind_res_Inr_iff container_end_def)
    have r3: "reads cc ?p True st st3" using reads_calm [OF ic(1)] ae(2) by simp
    have ready: "loop_ready cc ?p n st3"
      using ic(2-4) arr t(4) c(3) pre(4,5) reads_alive [OF r3] reads_valid [OF r3] quiet_length [OF ae(2)]
        quiet_near [OF ae(2)] by (simp add: loop_ready_def)
    have "\<exists>v'. read_array f b n (length nodes) (init_container b tok arrayValue cur) 0
        (at_text (o_current st1) es) = Inr (True, v', at_text (o_current st4) es) \<and>
        bare (o_root st4) = put_at ?p (bare v') (bare (o_root st3))"
    proof (cases e)
      case True
      then have x: "ends_array (o_current st1)" and "st4 = st3"
        and tk: "\<exists>ok t. old_read_token cc ((?i arrayValue)\<lparr>o_current := skip_spaces (o_current st1)\<rparr>) = Inr (ok, t, st3)"
        using ae(1) l ic(3) c(3)
        by (auto simp: old_array_empty_def old_scanners Let_def bind_res_Inr_iff ends_array_def split: if_splits)
      obtain m where n: "n = Suc m" using ready by (cases n) (auto simp: loop_ready_def)
      have "snd (snd (read_token f (skip_spaces (o_current st1)))) = o_current st3"
        using tk closing_bracket [OF x, of cc "?i arrayValue" f] by auto
      then show ?thesis
        using x n \<open>st4 = st3\<close> ae(2) ic(4)
        by (auto simp: read_array.simps array_ends_def ends_array_def quiet_def)
    next
      case False
      then have x: "st3 = (?i arrayValue)\<lparr>o_current := skip_spaces (o_current st1)\<rparr>" "\<not> ends_array (o_current st1)"
        using ae(1) ic(3) c(3) by (auto simp: old_array_empty_def old_scanners Let_def bind_res_Inr_iff ends_array_def
            split: if_splits)
      have l': "old_array_loop g cc b n nodes 0 st3 = Inr (True, st4)" using l False by simp
      have "bare (init_container b tok arrayValue cur) = at_path ?p (bare (o_root st3))"
        using x(1) ic(4) by simp
      moreover have "\<not> (\<exists>r. skip_spaces (o_current st3) = CHR '']'' # r)"
        using x by (auto simp: ends_array_def)
      moreover have "length (o_current st3) < 2 ^ 30" using ready by (simp add: loop_ready_def)
      ultimately obtain v' where "read_array f b n (length nodes) (init_container b tok arrayValue cur) 0
          (at_text (o_current st3) es) = Inr (True, v', at_text (o_current st4) es)"
          "bare (o_root st4) = put_at ?p (bare v') (bare (o_root st3))"
        using array_sameD [OF a l' ready, of "init_container b tok arrayValue cur" es] by (auto simp: is_array_def)
      then show ?thesis using x(1) by (auto simp: read_array_skip)
    qed
    then show ?thesis
      using s arr lim(2) ce ic(4) root ae(2) by (auto simp: read_value.simps container_end_def quiet_def)
  next
    case leaf
    have r: "old_read_leaf g cc b tok ?p st2 = Inr (True, st')"
      using run t(1) c(1) leaf lim by (simp add: old_read_value.simps)
    have ty: "tok_type tok \<noteq> tokenError" "tok_type tok \<noteq> tokenComment"
      using r by (auto simp: old_read_leaf_def old_leaf_value_def)
    have v2: "valid_path ?p (bare (o_root st2))" using root pre(2) by simp
    have "\<not> at_I (o_current st1)" if "tok_type tok = tokenNumber"
    proof -
      have "o_current st' = o_current st2"
        using r that by (auto simp: old_read_leaf_def old_decode_into_def Let_def split: sum.splits)
      then show ?thesis using leaf_same(2) [OF r f that v2] i c(3) by auto
    qed
    then have "skip_comment_tokens f (o_current st) = (tok, o_current st1)"
      by (rule skip_comment_tokens_same [OF t(1) f al ty])
    then show ?thesis
      using leaf_same(1) [OF r f, of cur es] leaf lim(2) c(3) root by (auto simp: read_value.simps)
  qed
qed

lemma value_sameD:
  "value_same f g cc b n \<Longrightarrow> old_read_value g cc b n nodes st = Inr (True, st') \<Longrightarrow> alive cc st \<Longrightarrow>
   valid_path (hd nodes) (bare (o_root st)) \<Longrightarrow> free (hd nodes) st \<Longrightarrow> length (o_current st) < 2 ^ 30 \<Longrightarrow>
   2 * length (o_current st) + 1 \<le> n \<Longrightarrow>
   is_array (at_path (hd nodes) (bare (o_root st'))) \<or> is_object (at_path (hd nodes) (bare (o_root st'))) \<or>
     \<not> at_I (o_current st') \<Longrightarrow>
   \<exists>v'. read_value f b n (length nodes) cur (at_text (o_current st) es) = Inr (True, v', at_text (o_current st') es) \<and>
        bare (o_root st') = put_at (hd nodes) (bare v') (bare (o_root st))"
  unfolding value_same_def by blast

text \<open>The value of a member or element.\<close>

lemma child_same:
  assumes v: "value_same f g cc b n" and l: "alive cc st" "valid_path p (bare (o_root st))" "near p st"
    "length (o_current st) < 2 ^ 30" "2 * length (o_current st) + 1 \<le> n"
    and w: "extends (at_path p (bare (o_root st))) (bare w)" "has_child k (bare w)"
    and r: "old_read_value g cc b n ((p @ [k]) # nodes) (set_at p w st) = Inr (True, st')"
    and i: "\<not> at_I (o_current st')"
  shows "\<exists>v'. read_value f b n (Suc (length nodes)) cur (at_text (o_current st) es) =
      Inr (True, v', at_text (o_current st') es) \<and> reads cc p True st st' \<and> near p st' \<and>
      bare (o_root st') = put_at p (put_child k (bare v') (bare w)) (bare (o_root st))"
proof -
  note e = enter_child [OF l(1-3) w]
  have "reads cc p True st st' \<and> near p st'"
    using outcomeD [OF child_value_outcome [OF _ l w] r] all_runs [of g cc b n] by simp
  moreover obtain v' where "read_value f b n (Suc (length nodes)) cur (at_text (o_current st) es) =
      Inr (True, v', at_text (o_current st') es)"
      "bare (o_root st') = put_at (p @ [k]) (bare v') (bare (o_root (set_at p w st)))"
    using value_sameD [OF v r e(1), of cur es] e(2,3) l(4,5) i by auto
  ultimately show ?thesis by (auto simp: path_append set_at_def)
qed

lemma old_object_loop_start:
  assumes "old_object_loop g cc b n nodes nm st = Inr (True, st')"
  shows "\<not> at_I (o_current st)"
proof -
  obtain m where "n = Suc m" using assms by (cases n) (auto simp: old_object_loop.simps)
  then obtain k where k: "old_object_key g cc nm st = Inr k"
    using assms by (cases "old_object_key g cc nm st") (simp_all add: old_object_loop.simps)
  have "key_read k" using assms k \<open>n = Suc m\<close> by (cases k) (simp_all add: old_object_loop.simps)
  with k obtain tok st0 where "old_read_token cc st = Inr (True, tok, st0)"
    by (auto simp: old_object_key_def bind_res_Inr_iff dest!: old_missing_brace_end split: if_splits)
  then show ?thesis by (rule first_char_token(1))
qed

lemma object_same_Suc:
  assumes v: "value_same f g cc b n" and o: "object_same f g cc b n" and f: "replaces f g"
  shows "object_same f g cc b (Suc n)"
  unfolding object_same_def
proof (intro allI impI)
  fix nodes :: "path list" and nm st st' es u c
  let ?p = "hd nodes"
  assume run: "old_object_loop g cc b (Suc n) nodes nm st = Inr (True, st')"
    and ready: "loop_ready cc ?p (Suc n) st" and obj: "is_object u" "bare u = at_path ?p (bare (o_root st))"
    and c: "near_sign (o_current st) c"
  obtain k where k: "old_object_key g cc nm st = Inr k" "key_calm cc st k"
    using old_object_key_calm [of cc st] ready by (auto simp: loop_ready_def)
  have kr: "key_read k" using run k(1) by (cases k) (auto simp: old_object_loop.simps)
  have key: "object_key f u nm (at_text c es) = Inr (key_same es k)"
    using object_key_same [OF k(1) kr f _ _ c] ready by (simp add: loop_ready_def)
  show "\<exists>v'. read_object f b (Suc n) (length nodes) u nm (at_text c es) = Inr (True, v', at_text (o_current st') es) \<and>
        bare (o_root st') = put_at ?p (bare v') (bare (o_root st))"
  proof (cases k)
    case (OldKeyEnd ok st1)
    then have "st1 = st'" ok using run k(1) by (auto simp: old_object_loop.simps)
    then show ?thesis
      using OldKeyEnd key k(2) ready obj(2) by (simp add: read_object.simps quiet_def loop_ready_def put_at_same)
  next
    case (OldKeyMember nm' st1)
    then have q: "quiet cc st st1" using k(2) by simp
    have l: "alive cc st1" "valid_path ?p (bare (o_root st1))" "near ?p st1" "length (o_current st1) < 2 ^ 30"
      "2 * length (o_current st1) + 1 \<le> n"
      using ready q quiet_near [OF q] quiet_length [OF q] by (auto simp: loop_ready_def quiet_def)
    have bu: "bare u = bare (value_at ?p st1)" using obj(2) q by (simp add: value_at_def quiet_def)
    then have io: "is_object (value_at ?p st1)" using obj(1) bare.containers(2) by metis
    obtain w ok st2 where w: "resolve_reference (value_at ?p st1) nm' = Inr w"
      and rv: "old_read_value g cc b n ((?p @ [KName (czstring nm')]) # nodes) (set_at ?p w st1) = Inr (ok, st2)"
      and rest: "(if \<not> ok then old_recover cc tokenObjectEnd st2
             else bind_res (old_after_member cc st2) (\<lambda>r.
                    case r of (Some ok', st3) \<Rightarrow> Inr (ok', st3)
                    | (None, st3) \<Rightarrow> old_object_loop g cc b n nodes nm' st3)) = Inr (True, st')"
      using run k(1) OldKeyMember by (auto simp: old_object_loop.simps bind_res_Inr_iff)
    have ok: ok using rest by (auto simp: old_recover_def bind_res_Inr_iff split: if_splits)
    obtain a where a: "old_after_member cc st2 = Inr a" using rest ok by (cases "old_after_member cc st2") auto
    obtain r st3 where a': "a = (r, st3)" by (cases a)
    have am: "old_after_member cc st2 = Inr (r, st3)"
      and nx: "(case r of Some ok' \<Rightarrow> Inr (ok', st3) | None \<Rightarrow> old_object_loop g cc b n nodes nm' st3) = Inr (True, st')"
      using rest ok a a' by simp_all
    obtain w' where w': "resolve_reference u nm' = Inr w'" "bare w' = bare w"
      using bare.resolve_reference_same [OF w io obj(1) bu] by blast
    note e = bare.resolve_reference_extends [OF w io]
    have e1: "extends (at_path ?p (bare (o_root st1))) (bare w)" using e(1) by (simp add: value_at_def)
    have ri: "r \<noteq> Some False" using nx by auto
    have i3: "\<not> at_I (o_current st3)" if "r = None"
      using nx that by (auto dest: old_object_loop_start)
    note ams = after_member_same [OF am ri f i3]
    obtain x where x: "read_value f b n (Suc (length nodes)) (member_get w' nm') (at_text (o_current st1) es) =
        Inr (True, x, at_text (o_current st2) es)" "reads cc ?p True st1 st2" "near ?p st2"
        "bare (o_root st2) = put_at ?p (put_child (KName (czstring nm')) (bare x) (bare w)) (bare (o_root st1))"
      using child_same [OF v l e1 e(2), of nodes st2 "member_get w' nm'" es] rv ok ams(2) by auto
    let ?u = "member_put w' nm' x"
    have bu2: "bare ?u = at_path ?p (bare (o_root st2))" using x(4) w'(2) bare.child(2) [of "KName (czstring nm')" x w']
      by (simp add: member_put_def)
    obtain c' where c': "after_member f (at_text (o_current st2) es) = (r, at_text c' es)"
        "if r = None then near_sign (o_current st3) c' else c' = o_current st3"
      using ams(1) by blast
    have sc: "step_calm cc st2 (r, st3)"
      using old_after_member_calm [OF reads_alive [OF x(2)]] am by auto
    have unf: "read_object f b (Suc n) (length nodes) u nm (at_text c es) =
        (case r of Some ok' \<Rightarrow> Inr (ok', ?u, at_text c' es)
         | None \<Rightarrow> read_object f b n (length nodes) ?u nm' (at_text c' es))"
      using key OldKeyMember w'(1) x(1) c'(1) by (simp add: read_object.simps split: option.splits)
    show ?thesis
    proof (cases r)
      case (Some ok')
      then have "ok'" "st3 = st'" using nx by auto
      moreover have "bare (o_root st3) = bare (o_root st2)" using sc Some \<open>ok'\<close> by (simp add: quiet_def)
      ultimately show ?thesis
        using unf Some c'(2) x(4) bu2 q by (auto simp: quiet_def)
    next
      case None
      then have q3: "quiet cc st2 st3" "length (o_current st3) < length (o_current st2)" using sc by auto
      have root3: "bare (o_root st3) = bare (o_root st2)" using q3(1) by (simp add: quiet_def)
      have "loop_ready cc ?p n st3"
        using l(4,5) x(3) reads_valid [OF x(2)] reads_length [OF x(2)] q3 quiet_near [OF q3(1)] quiet_alive [OF q3(1)] root3
        by (auto simp: loop_ready_def)
      moreover have "is_object ?u" by (simp add: member_put_def is_object_def)
      moreover have "old_object_loop g cc b n nodes nm' st3 = Inr (True, st')" using nx None by simp
      ultimately obtain y where "read_object f b n (length nodes) ?u nm' (at_text c' es) =
          Inr (True, y, at_text (o_current st') es)" "bare (o_root st') = put_at ?p (bare y) (bare (o_root st3))"
        using object_sameD [OF o, of nodes nm' st3 st' ?u c' es] bu2 root3 c'(2) None by auto
      then show ?thesis using unf None root3 x(4) bu2 q by (auto simp: quiet_def)
    qed
  qed
qed

lemma old_bracket_token:
  assumes "old_skip_comment_tokens allow cc st = Inr (tok, st')" "ends_array (o_current st)"
  shows "tok_type tok = tokenArrayEnd"
proof -
  obtain r where r: "skip_spaces (o_current st) = CHR '']'' # r"
    using assms(2) by (cases "skip_spaces (o_current st)") (auto simp: ends_array_def)
  then have "old_read_token cc st = Inr (True, text_token tokenArrayEnd '']'' r, st\<lparr>o_current := r\<rparr>)"
    by (simp add: old_read_token_def old_scanners get_next_char_def old_token_switch_def text_token_def)
  then show ?thesis using assms(1) by (subst (asm) old_skip_comment_tokens.simps) auto
qed

lemma old_bracket_value:
  assumes r: "old_read_value g cc b n nodes st = Inr (True, st')" and e: "ends_array (o_current st)"
  shows "o_allow_dropped_null g"
proof -
  obtain m where n: "n = Suc m" using r by (cases n) (auto simp: old_read_value.simps)
  obtain tok st1 st2 where t: "old_skip_comment_tokens (o_allow_comments g) cc st = Inr (tok, st1)"
      "comment_before cc (hd nodes) st1 = Inr st2"
    using r n by (auto simp: old_read_value.simps bind_res_Inr_iff split: if_splits)
  have ty: "tok_type tok = tokenArrayEnd" by (rule old_bracket_token [OF t(1) e])
  then have "old_read_leaf g cc b tok (hd nodes) st2 = Inr (True, st')"
    using r n t by (simp add: old_read_value.simps split: if_splits)
  then show ?thesis using ty by (simp add: old_read_leaf_def old_leaf_value_def split: if_splits)
qed

lemma array_same_Suc:
  assumes v: "value_same f g cc b n" and a: "array_same f g cc b n" and f: "replaces f g"
  shows "array_same f g cc b (Suc n)"
  unfolding array_same_def
proof (intro allI impI)
  fix nodes :: "path list" and index :: int32 and st st' es u
  let ?p = "hd nodes"
  assume run: "old_array_loop g cc b (Suc n) nodes index st = Inr (True, st')"
    and ready: "loop_ready cc ?p (Suc n) st" and arr: "is_array u" "bare u = at_path ?p (bare (o_root st))"
    and i: "0 \<le> sint index" "sint index + int (length (o_current st)) < 2 ^ 31"
    and z: "index = 0 \<longrightarrow> \<not> (\<exists>r. skip_spaces (o_current st) = CHR '']'' # r)"
  have l: "alive cc st" "valid_path ?p (bare (o_root st))" "near ?p st" "length (o_current st) < 2 ^ 30"
    "2 * length (o_current st) + 1 \<le> n"
    using ready by (auto simp: loop_ready_def)
  have bu: "bare u = bare (value_at ?p st)" using arr(2) by (simp add: value_at_def)
  then have ia: "is_array (value_at ?p st)" using arr(1) bare.containers(1) by metis
  obtain w ok st2 where w: "index_ref_int (value_at ?p st) index = Inr w"
    and rv: "old_read_value g cc b n ((?p @ [KIndex index]) # nodes) (set_at ?p w st) = Inr (ok, st2)"
    and rest: "(if \<not> ok then old_recover cc tokenArrayEnd st2
       else bind_res (old_after_element cc st2) (\<lambda>r.
              case r of (Some ok', st3) \<Rightarrow> Inr (ok', st3)
              | (None, st3) \<Rightarrow> old_array_loop g cc b n nodes (index + 1) st3)) = Inr (True, st')"
    using run by (auto simp: old_array_loop.simps bind_res_Inr_iff)
  have ok: ok using rest by (auto simp: old_recover_def bind_res_Inr_iff split: if_splits)
  obtain x where x: "old_after_element cc st2 = Inr x" using rest ok by (cases "old_after_element cc st2") auto
  obtain r st3 where x': "x = (r, st3)" by (cases x)
  have am: "old_after_element cc st2 = Inr (r, st3)"
    and nx: "(case r of Some ok' \<Rightarrow> Inr (ok', st3) | None \<Rightarrow> old_array_loop g cc b n nodes (index + 1) st3) = Inr (True, st')"
    using rest ok x x' by simp_all
  obtain w' where w': "index_ref_int u index = Inr w'" "bare w' = bare w"
    using bare.index_ref_int_same [OF w ia arr(1) bu] by blast
  note e = bare.index_ref_int_extends [OF w ia]
  have e1: "extends (at_path ?p (bare (o_root st))) (bare w)" using e(1) by (simp add: value_at_def)
  have ri: "r \<noteq> Some False" using nx by auto
  note ams = after_element_same [OF am ri f]
  obtain y where y: "read_value f b n (Suc (length nodes)) (index_get w' index) (at_text (o_current st) es) =
      Inr (True, y, at_text (o_current st2) es)" "reads cc ?p True st st2" "near ?p st2"
      "bare (o_root st2) = put_at ?p (put_child (KIndex index) (bare y) (bare w)) (bare (o_root st))"
    using child_same [OF v l e1 e(2), of nodes st2 "index_get w' index" es] rv ok ams(2) by auto
  let ?u = "index_put w' index y"
  have bu2: "bare ?u = at_path ?p (bare (o_root st2))"
    using y(4) w'(2) bare.child(2) [of "KIndex index" y w'] by simp
  have sc: "step_calm cc st2 (r, st3)"
    using old_after_element_calm [OF reads_alive [OF y(2)]] am by auto
  have "\<not> array_ends f index (skip_spaces (o_current st))"
  proof
    assume ae: "array_ends f index (skip_spaces (o_current st))"
    then have ea: "ends_array (o_current st)" by (simp add: array_ends_def ends_array_def)
    then have "index \<noteq> 0" using z by (cases "skip_spaces (o_current st)") (auto simp: ends_array_def)
    moreover have "o_allow_dropped_null g" using old_bracket_value rv ok ea by fastforce
    ultimately show False using ae f by (simp add: array_ends_def replaces_def)
  qed
  moreover have "read_value f b n (Suc (length nodes)) (index_get w' index)
      (at_text (skip_spaces (o_current st)) es) = Inr (True, y, at_text (o_current st2) es)"
    using y(1) read_value_skip by metis
  ultimately have unf: "read_array f b (Suc n) (length nodes) u index (at_text (o_current st) es) =
        (case r of Some ok' \<Rightarrow> Inr (ok', ?u, at_text (o_current st3) es)
         | None \<Rightarrow> read_array f b n (length nodes) ?u (index + 1) (at_text (o_current st3) es))"
    using w'(1) ams(1) [of es] by (simp add: read_array.simps split: option.splits)
  show "\<exists>v'. read_array f b (Suc n) (length nodes) u index (at_text (o_current st) es) =
      Inr (True, v', at_text (o_current st') es) \<and> bare (o_root st') = put_at ?p (bare v') (bare (o_root st))"
  proof (cases r)
    case (Some ok')
    then have "ok'" "st3 = st'" using nx by auto
    moreover have "bare (o_root st3) = bare (o_root st2)" using sc Some \<open>ok'\<close> by (simp add: quiet_def)
    ultimately show ?thesis using unf Some y(4) bu2 by auto
  next
    case None
    then have q3: "quiet cc st2 st3" "length (o_current st3) < length (o_current st2)" using sc by auto
    have root3: "bare (o_root st3) = bare (o_root st2)" using q3(1) by (simp add: quiet_def)
    have len: "length (o_current st3) < length (o_current st)" using q3(2) reads_length [OF y(2)] by simp
    have s1: "sint (index + 1) = sint index + 1" using i len by (intro sint_word_succ) linarith+
    then have "index + 1 \<noteq> 0" using i(1) by (metis add_nonneg_pos less_irrefl sint_0 zero_less_one)
    moreover have "loop_ready cc ?p n st3"
      using l(4,5) y(3) reads_valid [OF y(2)] len quiet_near [OF q3(1)] quiet_alive [OF q3(1)] root3
      by (auto simp: loop_ready_def)
    moreover have "is_array ?u" by (simp add: index_put_def is_array_def)
    moreover have "old_array_loop g cc b n nodes (index + 1) st3 = Inr (True, st')" using nx None by simp
    ultimately obtain t where "read_array f b n (length nodes) ?u (index + 1) (at_text (o_current st3) es) =
        Inr (True, t, at_text (o_current st') es)" "bare (o_root st') = put_at ?p (bare t) (bare (o_root st3))"
      using array_sameD [OF a, of nodes "index + 1" st3 st' ?u es] bu2 root3 s1 i len by auto
    then show ?thesis using unf None root3 y(4) by auto
  qed
qed

theorem all_same:
  assumes "replaces f g"
  shows "value_same f g cc b n \<and> object_same f g cc b n \<and> array_same f g cc b n"
proof (induction n)
  case 0
  show ?case by (simp add: value_same_def object_same_def array_same_def loop_ready_def)
next
  case (Suc n)
  then show ?case using assms by (simp add: value_same_Suc object_same_Suc array_same_Suc)
qed

end
