(* ===== verification/Old_Correct.thy ===== *)
theory Old_Correct
  imports Old_Equiv Json_Builder "HOL-Library.Code_Target_Nat"
begin

text \<open>
  The properties of the deprecated reader: it fails in no other way than the stack limit, and
  the reader that replaced it accepts every array and object it accepts, with the same value.
\<close>

section \<open>It returns, and \<open>good()\<close> says whether it succeeded\<close>

text \<open>C39: On a document below one gigabyte, with comments collected or not, \<^verbatim>\<open>Reader::parse\<close>
  returns or throws the stack limit: no assertion on \<^verbatim>\<open>lastValue_\<close>, on a comment or on the
  type of a value fails. If it returns, \<^verbatim>\<open>good()\<close>, that no error was added, says whether it
  was successful.\<close>

theorem old_parse_returns:
  assumes "length doc < 2 ^ 30"
  shows "case old_parse f collect doc rt of
      Inl e \<Rightarrow> e = RuntimeError ''Exceeded stackLimit in readValue().''
    | Inr (ok, v, errs) \<Rightarrow> good errs = ok"
  using old_parse_outcome [OF assms, of f collect rt] by (simp add: outcome_def split: sum.splits)

definition commented_text :: string where
  "commented_text = ''[7/**/]''"

theorem old_parse_returns_witness:
  "case old_parse features_all True commented_text null_singleton of
      Inl e \<Rightarrow> e = RuntimeError ''Exceeded stackLimit in readValue().''
    | Inr (ok, v, errs) \<Rightarrow> good errs = ok"
  by (rule old_parse_returns) (simp add: commented_text_def)

section \<open>The reader that replaced it\<close>

lemma old_parse_cases:
  assumes "old_parse g collect doc rt = Inr (True, v, errs)"
  obtains st where "old_read_value g (collect \<and> o_allow_comments g) doc (parse_fuel doc) [[]]
      \<lparr>o_root = rt, o_current = doc, o_errors = [], o_last_end = None, o_last = None, o_comments = []\<rparr> = Inr (True, st)"
    "alive (collect \<and> o_allow_comments g) st \<Longrightarrow> bare (o_root st) = bare v"
    "o_strict_root g \<Longrightarrow> is_array v \<or> is_object v"
proof -
  let ?cc = "collect \<and> o_allow_comments g"
  obtain ok st tok st1 where r: "old_read_value g ?cc doc (parse_fuel doc) [[]]
      \<lparr>o_root = rt, o_current = doc, o_errors = [], o_last_end = None, o_last = None, o_comments = []\<rparr> = Inr (ok, st)"
    and t: "old_skip_comment_tokens (o_allow_comments g) ?cc st = Inr (tok, st1)"
    and rest: "(if ?cc \<and> o_comments st1 \<noteq> [] then set_comment (o_root st1) (o_comments st1) commentAfter
        else Inr (o_root st1)) = Inr v" "ok" "o_strict_root g \<longrightarrow> is_array v \<or> is_object v"
    using assms by (auto simp: old_parse_def Let_def bind_res_Inr_iff split: if_splits)
  have "bare v = bare (o_root st1)"
    using rest(1) by (auto split: if_splits dest!: set_comment_payload) (metis bare.set_meta)
  moreover have "bare (o_root st1) = bare (o_root st)" if "alive ?cc st"
    using old_skip_comment_tokens_quiet [OF that, of "o_allow_comments g"] t by (auto simp: quiet_def)
  ultimately show thesis using that r rest(2,3) by auto
qed

lemma old_reader_no_bom:
  assumes "old_read_value g cc b n nodes st = Inr (True, st')"
  shows "skip_bom k (o_current st) = o_current st"
proof (rule ccontr)
  assume "skip_bom k (o_current st) \<noteq> o_current st"
  then obtain r where c: "o_current st = CHR 0xEF # r"
    by (cases "o_current st") (auto simp: skip_bom_def split: if_splits)
  obtain m where n: "n = Suc m" using assms by (cases n) (auto simp: old_read_value.simps)
  have "\<exists>t. old_read_token cc st = Inr (False, t, st\<lparr>o_current := r\<rparr>) \<and> tok_type t = tokenError"
    using c by (simp add: old_read_token_def old_scanners get_next_char_def old_token_switch_def is_digit_def byte_def)
  then obtain t where t: "old_read_token cc st = Inr (False, t, st\<lparr>o_current := r\<rparr>)" "tok_type t = tokenError"
    by blast
  then have "old_skip_comment_tokens (o_allow_comments g) cc st = Inr (t, st\<lparr>o_current := r\<rparr>)"
    by (subst old_skip_comment_tokens.simps) simp
  then show False
    using assms n t(2) by (auto simp: old_read_value.simps bind_res_Inr_iff old_read_leaf_def old_leaf_value_def
        split: if_splits)
qed

text \<open>C38: Let the features of the new reader refuse nothing the old one allows (no numeric keys,
  no extra-text or duplicate-key check, comments and dropped nulls as the old one, an equal or
  higher stack limit). Then every array and object that \<^verbatim>\<open>Reader::parse\<close> accepts, with comments
  collected or not, \<^verbatim>\<open>OurReader::parse\<close> accepts, too, without an error and with the same value
  apart from comments and offsets, where an unsigned integer below \<open>2^63\<close> counts as the signed
  one.\<close>

theorem old_reader_replaced:
  assumes "replaces f g" "length doc < 2 ^ 30" "old_parse g collect doc rt = Inr (True, v, errs)"
    "is_array v \<or> is_object v"
  shows "\<exists>v'. parse f doc rt = Inr (True, v', []) \<and> bare v' = bare v"
proof -
  let ?cc = "collect \<and> o_allow_comments g"
  let ?st = "\<lparr>o_root = rt, o_current = doc, o_errors = [], o_last_end = None, o_last = None, o_comments = []\<rparr>"
  obtain st where r: "old_read_value g ?cc doc (parse_fuel doc) [[]] ?st = Inr (True, st)"
    "alive ?cc st \<Longrightarrow> bare (o_root st) = bare v" "o_strict_root g \<Longrightarrow> is_array v \<or> is_object v"
    using assms(3) by (rule old_parse_cases) blast
  have pre: "alive ?cc ?st" "valid_path (hd [[]]) (bare (o_root ?st))" "free (hd [[]]) ?st"
    "length (o_current ?st) < 2 ^ 30" "2 * length (o_current ?st) + 1 \<le> parse_fuel doc"
    using assms(2) by (simp_all add: alive_def free_def parse_fuel_def)
  have "value_done ?cc (hd [[]]) ?st (True, st)"
    using outcomeD [OF value_runsD [OF _ pre] r(1)] all_runs by blast
  then have v: "bare (o_root st) = bare v" using r(2) by (simp add: value_done_def reads_def)
  have vs: "value_same f g ?cc doc (parse_fuel doc)" using all_same [OF assms(1)] by blast
  have "is_array (bare (o_root st)) \<or> is_object (bare (o_root st))" unfolding v using assms(4) by simp
  then obtain v' where v': "read_value f doc (parse_fuel doc) 1 rt (at_text doc []) =
      Inr (True, v', at_text (o_current st) [])" "bare v' = bare (o_root st)"
    using value_sameD [OF vs r(1) pre, of rt "[]"] by auto
  have b: "skip_bom (skipBom f) doc = doc" using old_reader_no_bom [OF r(1), of "skipBom f"] by simp
  have "is_array v' \<or> is_object v'" using v' v assms(4) bare.containers by metis
  then show ?thesis
    using v' v b assms(1) by (auto simp: parse_def Let_def replaces_def at_text_def split: prod.splits)
qed

lemma commented_text_run:
  "case old_parse features_all True commented_text null_singleton of
     Inr (ok, v, errs) \<Rightarrow> ok \<and> is_array v \<and>
       bare v = JArr meta0 [(0, JInt meta0 7)]
   | Inl _ \<Rightarrow> False"
  by code_simp

theorem old_reader_replaced_witness:
  "\<exists>v'. parse service_features commented_text null_singleton = Inr (True, v', []) \<and>
     bare v' = JArr meta0 [(0, JInt meta0 7)]"
proof -
  obtain v errs where "old_parse features_all True commented_text null_singleton = Inr (True, v, errs)" "is_array v"
    and v: "bare v = JArr meta0 [(0, JInt meta0 7)]"
    using commented_text_run by (auto split: sum.splits prod.splits)
  moreover have "replaces service_features features_all"
    by (simp add: replaces_def service_features_def features_all_def stackLimit_g_def)
  moreover have "length commented_text < 2 ^ 30" by (simp add: commented_text_def)
  ultimately show ?thesis
    using old_reader_replaced [of service_features features_all commented_text True null_singleton v errs]
    unfolding v by blast
qed

end
