(* ===== verification/Spec2Isabelle.thy ===== *)
theory Spec2Isabelle
  imports Test_Client Json_Correct Json_Styled_Roundtrip Json_Path Old_Correct Options
begin

text \<open>
  A JSON-over-TCP service in front of RocksDB: a model of the program under src/ and the
  theorems that make it correct.

  \<^bold>\<open>The program.\<close> src/src/server.cc holds \<^verbatim>\<open>config\<close>, one object per configured database, and
  \<^verbatim>\<open>exec_json\<close>, which parses a request, finds the database it names, performs the operation
  and writes the reply. src/src/networkinterface.cc holds \<^verbatim>\<open>session\<close> and \<^verbatim>\<open>server\<close>, which read
  length-prefixed requests from a socket, hand them to \<^verbatim>\<open>exec_json\<close> and write the
  length-prefixed replies. src/src/options_json.cc fills RocksDB's options from the
  configuration file. The JSON library (src/src/json_reader.cc, json_value.cc,
  json_writer.cc and their headers) is compiled into the program.

  \<^bold>\<open>The theories.\<close>
  \<^item> \<open>Prelude\<close>: exceptions as values (\<open>exn\<close>, \<open>res\<close>, \<open>bind_res\<close>), characters and bytes,
    64-bit and 32-bit words; \<open>OMap\<close>: \<^verbatim>\<open>std::map\<close> as a sorted association list, with the
    locale \<open>ordered_map\<close> interpreted on it; \<open>Dbl\<close>: IEEE doubles as sign, mantissa and
    exponent, with exact comparison, reading and printing; \<open>Dbl_Round\<close>: its rounding is within half a
    unit in the last place.
  \<^item> \<open>Json_Text\<close>: numbers and code points as text (json_tool.h, the \<^verbatim>\<open>valueToString\<close> functions);
    \<open>Json_Quote\<close>: string literals (\<^verbatim>\<open>valueToQuotedStringN\<close>); \<open>Json_Value\<close>, \<open>Json_Convert\<close>,
    \<open>Json_Container\<close>, \<open>Json_Compare\<close>: the class \<^verbatim>\<open>Value\<close> (json_value.cc) with its type
    conversions, array and object operations, iterators, comparison operators and comments;
    \<open>Json_Wf\<close>: every operation keeps the invariant \<open>wf_json\<close>.
  \<^item> \<open>Json_Token\<close>, \<open>Json_Decode\<close>, \<open>Json_Reader\<close>: the class \<^verbatim>\<open>OurReader\<close> (json_reader.cc), from
    scanner to error messages, run as the service runs it, with comments skipped;
    \<open>Json_Reader_Facts\<close>: what every run satisfies; \<open>Json_Pointer\<close>: pointers into a value as paths, and
    the locale \<open>natural\<close> for functions that commute with them; \<open>Json_Comments\<close>: the same class with
    comments collected; \<open>Json_Comments_Facts\<close>: its simulation by the former, in the locale \<open>mirror\<close>;
    \<open>Json_Builder\<close>: \<^verbatim>\<open>CharReaderBuilder\<close> and its settings; \<open>Json_Writer\<close>: \<^verbatim>\<open>FastWriter\<close>
    (json_writer.cc); \<open>Json_Utf8\<close>: the grammar of literals, \<open>literal_text\<close>, which the
    reader decodes and the writer keeps to;
    \<open>Json_Correct\<close>: the properties of the reader, the values and the fast writer.
  \<^item> \<open>Json_Styled\<close>: \<^verbatim>\<open>StyledWriter\<close> and \<^verbatim>\<open>StyledStreamWriter\<close>; \<open>Json_Stream\<close>:
    \<^verbatim>\<open>BuiltStyledStreamWriter\<close>, \<^verbatim>\<open>StreamWriterBuilder\<close>, \<^verbatim>\<open>writeString\<close>, \<^verbatim>\<open>operator<<\<close> and
    \<^verbatim>\<open>toStyledString\<close> (json_writer.cc). \<open>Json_Literal\<close>: literals, and texts as tokens with white space
    between; \<open>Json_Styled_Facts\<close>: the locales \<open>styled_writer\<close> (the steps the three writers
    share) and \<open>styled_class\<close> (what their recursion over a value is); \<open>Json_Styled_Classes\<close>:
    their instances; \<open>Json_Layout\<close>: the styled texts against the fast writer's. \<open>Json_Path\<close>: \<^verbatim>\<open>Path\<close> (json_value.cc).
  \<^item> \<open>Json_Grammar\<close>: the grammar of JSON as an inductive relation \<open>value_text\<close> between values
    and texts, down to the strings and numbers, and without reference to the reader; \<open>Json_Accept\<close>: the reader accepts it; \<open>Json_Roundtrip\<close>, \<open>Json_Styled_Roundtrip\<close>:
    the writers' texts are in it, so they are read back.
  \<^item> \<open>Old_Token\<close>, \<open>Old_Reader\<close>: the deprecated class \<^verbatim>\<open>Reader\<close> (json_reader.cc), which collects
    comments, too. \<open>Old_Paths\<close>: what two values have to agree on; \<open>Old_Reader_Facts\<close>, \<open>Old_Reader_Runs\<close>: what
    every run satisfies; \<open>Old_Sim_Tokens\<close>, \<open>Old_Sim\<close>, \<open>Old_Equiv\<close>: the simulation of its runs by
    \<^verbatim>\<open>OurReader\<close>; \<open>Old_Correct\<close>: its two properties.
  \<^item> \<open>Rocks\<close>: the RocksDB interface the service calls, the record \<open>rocks\<close> of functions, and
    its documented preconditions as guards (\<open>delete_db\<close>, \<open>with_handle\<close>: no call on a deleted
    database or a dead column family handle, no \<^verbatim>\<open>delete\<close> of a database before its handles), and its
    contract \<open>rocks_contract\<close>; a store in memory satisfies it. \<open>Server\<close>,
    \<open>Server_Facts\<close>: \<^verbatim>\<open>config\<close>, \<^verbatim>\<open>exec_json\<close>, the loading of the configuration and the signal
    handler (server.cc). \<open>Options\<close>: \<^verbatim>\<open>options_from_json\<close>.
  \<^item> \<open>Session\<close>, \<open>Session_Facts\<close>: \<^verbatim>\<open>session\<close> and \<^verbatim>\<open>server\<close> (networkinterface.cc) as step
    functions on the events of the network, and the thread that runs them (\<open>net_step\<close>), with the
    locale \<open>framed_service\<close> for whatever answers a request; \<open>Service\<close> interprets it on \<open>exec_json\<close> and joins the components;
    \<open>Client\<close>: what a client sees that uses the same JSON library; \<open>Test_Client\<close>: the client in
    catchtest.cc, joined to a session of the service (C14).

  \<^bold>\<open>How the state corresponds.\<close> A \<^verbatim>\<open>Value\<close> is a \<open>json\<close>, whose payload is its constructor and whose
  comments and offsets are its \<open>vmeta\<close>; a pointer into a document is the rest of the
  document; a pointer to a value (\<^verbatim>\<open>nodes_\<close>, \<^verbatim>\<open>lastValue_\<close> of the readers that collect comments) is
  the \<open>path\<close> to it from the root; an exception is an \<open>Inl\<close>; undefined behaviour of C++ is the exception \<open>Undef\<close>,
  so that its absence is a theorem. A database object is a \<open>config\<close>, whose handle pointers are
  numbers that the parameter \<open>rocks\<close> interprets in the \<open>world\<close> it carries along.

  \<^bold>\<open>Bounds and fuel.\<close> Only the mutually recursive readers take fuel: \<open>parse_fuel\<close> is twice the
  length of the document plus two, and C16 and C39 show that it is never used up. Integers keep
  their width (\<open>64 word\<close>, \<open>32 word\<close>); lengths are \<open>nat\<close>, with a hypothesis \<open>< 2 ^ 30\<close> where a
  30-bit or 32-bit length field would cut them.

  \<^bold>\<open>What the theorems show.\<close> C1-C12 and C14 in the list below: \<open>exec_json\<close> refines an abstract
  specification of a map of stores, what has been stored is what is read, and a request runs into
  undefined behaviour only where C4 says so; a conversation is answered in order, reply by
  reply, whatever pieces the network delivers it in; and where the code is wrong (the creation of
  a database with column families, a reply longer than its request, a connection that sends
  nothing, a request that is no object, a shutdown before the databases are opened or with open
  column families) the theorem says exactly when. The rest is about options and JSON: outcomes,
  termination and depth bound of the reader, exactness of numbers and conversions, round
  trips, order of values, the bytes that the fast writer writes, that all writers write the
  same text up to layout, and that the reader replaces the deprecated one (C38, C39): what that
  one accepts, it accepts with the same value. C40 covers the collecting of comments: it changes
  nothing but comments, so what is shown of the reader that skips them holds of both.

  \<^bold>\<open>Not modelled.\<close> asio and RocksDB, which are parameters; the opening of the configuration file and
  of the socket, and logging (pure I/O); the Lua bindings (cf.cc, db_open.cc, iter.cc, writebatch.cc,
  writebatch_cf.cc), which the build does not compile and which call the Lua C API.
\<close>

section \<open>A configuration and some requests\<close>

text \<open>Concrete inputs for the instances of the theorems, over the store in memory.\<close>

definition demo_file :: string where
  \<open>demo_file = ''{"dbs":{"db":{"dbname":"/tmp/db","options":{"create_if_missing":true}}}}''\<close>

definition demo_options :: "unit options_scheme" where
  "demo_options = (default_options mem_api)\<lparr>create_if_missing := True\<rparr>"

definition demo_start :: "(mem_state, unit, nat, string) server_state" where
  "demo_start =
     \<lparr>configs = [new_config ''db'' ''/tmp/db'' demo_options []],
      world = \<lparr>disk = [], opened = [], handed = []\<rparr>\<rparr>"

definition put_text :: string where
  \<open>put_text = ''{"dbname":"db","op":"put","key":"k","value":"v"}''\<close>

definition get_text :: string where
  \<open>get_text = ''{"dbname":"db","op":"get","key":"k"}''\<close>

definition demo_opened :: "(mem_state, unit, nat, string) server_state" where
  \<comment> \<open>after \<open>put_text\<close>\<close>
  "demo_opened =
     \<lparr>configs = [(new_config ''db'' ''/tmp/db'' demo_options [])\<lparr>c_is_open := True, c_db := Ptr 1\<rparr>],
      world = \<lparr>disk = [(''/tmp/db'', [])],
               opened = [(1, ''/tmp/db'', [(''default'', [(''k'', ''v'')])]), (1, ''/tmp/db'', [])],
               handed = [(1, [])]\<rparr>\<rparr>"

lemma length_put_text: "length put_text = 48"
  by (simp add: put_text_def)

lemma demo_loads: "load_configs mem_rocks demo_file = Inr (Some (configs demo_start))"
  by code_simp

lemma demo_put: "exec_json mem_rocks demo_start put_text = Inr (reply_text (error_reply 0), demo_opened)"
  by code_simp

lemma demo_get: "exec_json mem_rocks demo_opened get_text = Inr (reply_text (value_reply ''v''), demo_opened)"
  by code_simp


lemma demo_reachable: "service_reachable mem_rocks demo_file (world demo_start) demo_start"
  using service_reachable.started [OF demo_loads, of "world demo_start"]
  by (simp add: demo_start_def)

lemma demo_reachable_opened: "service_reachable mem_rocks demo_file (world demo_start) demo_opened"
  by (rule service_reachable.request [OF demo_reachable demo_put])

lemma demo_inv: "server_inv mem_rocks mem_live id demo_start"
  by (rule service_reachable_inv [OF mem_rocks_contract demo_reachable])

section \<open>The service\<close>

text \<open>C1: The service implements its abstract specification. For a state that satisfies the
  invariant, a request text that is executed is either not JSON, and then answered with
  error 1 and without effect, or denotes a request whose reply and whose effect on the
  stored data are allowed by \<open>server_spec\<close>; the configured names and families stay.\<close>

theorem exec_json_refines:
  assumes "rocks_contract R view live cfn" "server_inv R live cfn st" "exec_json R st q = Inr (out, st')"
  shows "\<exists>reply. out = reply_text reply \<and> server_inv R live cfn st' \<and>
    map c_name (configs st') = map c_name (configs st) \<and>
    map c_cf_names (configs st') = map c_cf_names (configs st) \<and>
    (case request_of q of
       None \<Rightarrow> reply = error_reply 1 \<and> st' = st
     | Some rt \<Rightarrow> server_spec (map c_name (configs st)) (map c_cf_names (configs st)) rt
                   (abs_state view st) reply (abs_state view st'))"
  by (rule exec_json_request [OF assms])

theorem exec_json_refines_witness:
  "\<exists>reply. reply_text (error_reply 0) = reply_text reply \<and> server_inv mem_rocks mem_live id demo_opened \<and>
    map c_name (configs demo_opened) = map c_name (configs demo_start) \<and>
    map c_cf_names (configs demo_opened) = map c_cf_names (configs demo_start) \<and>
    (case request_of put_text of
       None \<Rightarrow> reply = error_reply 1 \<and> demo_opened = demo_start
     | Some rt \<Rightarrow> server_spec (map c_name (configs demo_start)) (map c_cf_names (configs demo_start)) rt
                   (abs_state mem_view demo_start) reply (abs_state mem_view demo_opened))"
  by (rule exec_json_refines [OF mem_rocks_contract demo_inv demo_put])

text \<open>C2: What a client stored is what a client reads. In a reachable state, after a write of
  \<open>v\<close> under a key that was acknowledged with error 0, and after any requests that do not
  write to that database, a read of the key is answered with \<open>v\<close>, or with error -2 when
  RocksDB fails, or with error 7 when the column family is not configured.\<close>

theorem stored_value_is_read:
  assumes "rocks_contract R view live cfn" "service_reachable R file_text w0 st"
    and "exec_all R st (q1 # qs @ [q2]) = Inr (outs, st')" "hd outs = reply_text (error_reply 0)"
    and "writes_key q1 n cf k v" "\<forall>q \<in> set qs. no_write_to n q" "reads_key q2 n cf k"
    and "length v < 2147483643"
  shows "last outs \<in> {reply_text (value_reply v), reply_text (error_reply (-2))} \<or>
    last outs = reply_text (error_reply 7) \<and> cf \<notin> set (families_of st n)"
proof -
  obtain st2 i s where st2: "server_inv R live cfn st2" "exec_json R st2 q2 = Inr (last outs, st')"
      "find_index n (map c_name (configs st2)) = Some i" "abs_state view st2 i = Some s" "s cf k = Some v"
      "n \<noteq> []" "families_of st2 n = families_of st n"
    using acknowledged_write_stays [OF assms(1) service_reachable_inv [OF assms(1, 2)] assms(3-6)] by blast
  show ?thesis
    using read_of_store [OF assms(1) st2(1,2) assms(7) st2(3-5) assms(8)] st2(6,7) by simp
qed


lemma demo_put_writes: "writes_key put_text ''db'' kDefaultColumnFamilyName ''k'' ''v''"
proof -
  have "case request_of put_text of None \<Rightarrow> False
     | Some rt \<Rightarrow> req_string rt ''dbname'' = Inr ''db'' \<and> req_string rt ''key'' = Inr ''k'' \<and>
         req_string rt ''value'' = Inr ''v'' \<and> req_string rt ''op'' = Inr ''put''"
    by code_simp
  then show ?thesis by (auto simp: writes_key_def split: option.splits)
qed

lemma demo_get_reads: "reads_key get_text ''db'' kDefaultColumnFamilyName ''k''"
proof -
  have "case request_of get_text of None \<Rightarrow> False
     | Some rt \<Rightarrow> req_string rt ''dbname'' = Inr ''db'' \<and> req_string rt ''key'' = Inr ''k'' \<and>
         req_string rt ''op'' = Inr ''get''"
    by code_simp
  then show ?thesis by (auto simp: reads_key_def split: option.splits)
qed

lemma demo_get_no_write: "no_write_to ''db'' get_text"
proof -
  have "case request_of get_text of None \<Rightarrow> False | Some rt \<Rightarrow> req_string rt ''op'' = Inr ''get''"
    by code_simp
  then show ?thesis by (auto simp: no_write_to_def write_ops_def split: option.splits)
qed

lemma demo_history:
  "exec_all mem_rocks demo_start (put_text # [get_text] @ [get_text]) =
     Inr ([reply_text (error_reply 0), reply_text (value_reply ''v''), reply_text (value_reply ''v'')],
          demo_opened)"
  by (simp add: demo_put demo_get)

theorem stored_value_is_read_witness:
  "let outs = [reply_text (error_reply 0), reply_text (value_reply ''v''), reply_text (value_reply ''v'')]
   in last outs \<in> {reply_text (value_reply ''v''), reply_text (error_reply (-2))} \<or>
      last outs = reply_text (error_reply 7) \<and>
      kDefaultColumnFamilyName \<notin> set (families_of demo_start ''db'')"
  unfolding Let_def
  by (rule stored_value_is_read [OF mem_rocks_contract demo_reachable demo_history _ demo_put_writes _
        demo_get_reads]) (simp_all add: demo_get_no_write)

text \<open>C3: A client that writes its requests and reads the replies with the JSON library gets the
  bytes it has put. In a reachable state, after a put of \<open>v\<close> acknowledged with error 0 and
  any requests that do not write to that database, parsing the reply to a get of the key
  returns true and gives the value \<open>v\<close>, or error -2 when RocksDB fails; name, key and
  value being any well-formed UTF-8, with quotes, NUL and control characters.\<close>

theorem client_gets_what_it_put:
  assumes "rocks_contract R view live cfn" "service_reachable R file_text w0 st"
    and "exec_all R st (fw_write w (put_request n k v) # qs @ [fw_write w (get_request n k)]) = Inr (outs, st')"
    and "hd outs = reply_text (error_reply 0)" "\<forall>q \<in> set qs. no_write_to n q"
    and "sendable n" "sendable k" "sendable v" "\<not> dropNullPlaceholders w" "\<not> rejectDupKeys f" "2 \<le> stackLimit f"
  shows "\<exists>v'. parse f (last outs) rt = Inr (True, v', []) \<and> erase v' \<in> {value_reply v, error_reply (-2)}"
proof -
  obtain st2 i s where st2: "server_inv R live cfn st2"
      "exec_json R st2 (fw_write w (get_request n k)) = Inr (last outs, st')"
      "find_index n (map c_name (configs st2)) = Some i" "abs_state view st2 i = Some s"
      "s kDefaultColumnFamilyName k = Some v" "n \<noteq> []"
    using acknowledged_write_stays [OF assms(1) service_reachable_inv [OF assms(1, 2)] assms(3,4)
        put_request_writes [OF put_written [OF assms(6-9)]] assms(5)] by blast
  have "last outs = reply_text (value_reply v) \<or> last outs = reply_text (error_reply (-2))"
    by (rule get_of_store [OF assms(1) st2(1,2) get_written [OF assms(6,7,9)] st2(3-6) assms(8)])
  then show ?thesis
    using replies_read_back(1) [OF assms(10,11), of "-2" rt] replies_read_back(2) [OF assms(10,11,8), of rt]
    by auto
qed

lemma demo_client:
  "exec_all mem_rocks demo_start
     (fw_write fast_writer_default (put_request ''db'' ''k'' ''v'') # [] @
      [fw_write fast_writer_default (get_request ''db'' ''k'')]) =
   Inr ([reply_text (error_reply 0), reply_text (value_reply ''v'')], demo_opened)"
  by code_simp

theorem client_gets_what_it_put_witness:
  "\<exists>v'. parse service_features (reply_text (value_reply ''v'')) null_singleton = Inr (True, v', []) \<and>
     erase v' \<in> {value_reply ''v'', error_reply (-2)}"
  using client_gets_what_it_put [OF mem_rocks_contract demo_reachable demo_client, of service_features null_singleton]
  by (simp add: ascii_sendable byte_def fast_writer_default_def service_features_def)

text \<open>C14: The test client gets what it put. Two calls of \<^verbatim>\<open>query\<close> (catchtest.cc), each over a connection
  of its own to a session of the service, whatever pieces the network makes of the bytes: if the
  put of \<open>v\<close> reported error 0 and later requests did not write to that database, the get of the
  key parses and reports error 0 and the value \<open>v\<close>, or error -2 when RocksDB fails.\<close>

theorem test_client_gets_what_it_put:
  assumes "rocks_contract R view live cfn" "service_reachable R file_text w0 st" "\<And>q. cuts q (pieces q)"
    and "request_text (put_request n k v) = Inr q1" "length q1 < 2 ^ 32"
    and "request_text (get_request n k) = Inr q2" "length q2 < 2 ^ 32"
    and "query (over_session pieces (exec_json R)) (put_request n k v) st = Inr ((ok1, r1), st1)" "error_of r1 = Inr 0"
    and "exec_all R st1 qs = Inr (outs, st2)" "\<forall>q \<in> set qs. no_write_to n q"
    and "query (over_session pieces (exec_json R)) (get_request n k) st2 = Inr ((ok2, r2), st3)"
    and "sendable n" "sendable k" "sendable v"
  shows "ok2 \<and> (error_of r2 = Inr 0 \<and> value_of r2 = Inr v \<or> error_of r2 = Inr (-2))"
  by (rule queried_after_put [OF assms(1) service_reachable_inv [OF assms(1,2)] assms(3-15)])

text \<open>The instance: one piece, the store in memory.\<close>

definition put_lines :: string where
  "put_lines = ''{'' @ members_lines [(''dbname'', ''db''), (''key'', ''k''), (''op'', ''put''), (''value'', ''v'')] @ [LF] @ ''}''"
definition get_lines :: string where
  "get_lines = ''{'' @ members_lines [(''dbname'', ''db''), (''key'', ''k''), (''op'', ''get'')] @ [LF] @ ''}''"
lemma demo_lines:
  "request_text (put_request ''db'' ''k'' ''v'') = Inr put_lines" "request_text (get_request ''db'' ''k'') = Inr get_lines"
  unfolding put_request_def get_request_def put_lines_def get_lines_def by (rule text_of_members; simp)+
lemma put_lines_len: "12 \<le> length put_lines \<and> length put_lines \<le> 1020 \<and> NUL \<notin> set put_lines"
  by code_simp
lemma get_lines_len: "24 \<le> length get_lines \<and> length get_lines \<le> 1020 \<and> NUL \<notin> set get_lines"
  by code_simp
lemma demo_put_lines: "exec_json mem_rocks demo_start put_lines = Inr (reply_text (error_reply 0), demo_opened)"
  by code_simp
lemma demo_get_lines: "exec_json mem_rocks demo_opened get_lines = Inr (reply_text (value_reply ''v''), demo_opened)"
  by code_simp

lemma reply_lens: "length (reply_text (error_reply 0)) = 12" "length (reply_text (value_reply ''v'')) = 24"
  by code_simp+

lemma cuts_one: "cuts q [q]" by (simp add: cuts_def)

lemma demo_sendable: "sendable ''db''" "sendable ''k''" "sendable ''v''"
  by (rule ascii_sendable; simp add: byte_def)+

lemma demo_queries:
  "\<exists>r. query (over_session (\<lambda>q. [q]) (exec_json mem_rocks)) (put_request ''db'' ''k'' ''v'') demo_start =
     Inr ((True, r), demo_opened) \<and> error_of r = Inr 0"
  "\<exists>r. query (over_session (\<lambda>q. [q]) (exec_json mem_rocks)) (get_request ''db'' ''k'') demo_opened =
     Inr ((True, r), demo_opened) \<and> error_of r = Inr 0 \<and> value_of r = Inr ''v''"
proof -
  have f: "\<not> rejectDupKeys service_features" "2 \<le> stackLimit service_features" by (simp_all add: service_features_def)
  obtain v1 where v1: "parse service_features (reply_text (error_reply 0)) null_singleton = Inr (True, v1, [])"
      "erase v1 = error_reply 0"
    using replies_read_back(1) [OF f] by blast
  obtain v2 where v2: "parse service_features (reply_text (value_reply ''v'')) null_singleton = Inr (True, v2, [])"
      "erase v2 = value_reply ''v''"
    using replies_read_back(2) [OF f demo_sendable(3)] by blast
  show "\<exists>r. query (over_session (\<lambda>q. [q]) (exec_json mem_rocks)) (put_request ''db'' ''k'' ''v'') demo_start =
     Inr ((True, r), demo_opened) \<and> error_of r = Inr 0"
    using query_returns [OF demo_lines(1) _ _ cuts_one demo_put_lines _ v1(1)] put_lines_len reply_lens v1(2)
      error_of_reply [of _ 0] by (auto simp: max_length_def size32_def error_codes_def)
  show "\<exists>r. query (over_session (\<lambda>q. [q]) (exec_json mem_rocks)) (get_request ''db'' ''k'') demo_opened =
     Inr ((True, r), demo_opened) \<and> error_of r = Inr 0 \<and> value_of r = Inr ''v''"
    using query_returns [OF demo_lines(2) _ _ cuts_one demo_get_lines _ v2(1)] get_lines_len reply_lens v2(2)
      value_reply_members by (auto simp: max_length_def size32_def)
qed

theorem test_client_gets_what_it_put_witness:
  "\<exists>r1 r2. query (over_session (\<lambda>q. [q]) (exec_json mem_rocks)) (put_request ''db'' ''k'' ''v'') demo_start =
      Inr ((True, r1), demo_opened) \<and>
    query (over_session (\<lambda>q. [q]) (exec_json mem_rocks)) (get_request ''db'' ''k'') demo_opened =
      Inr ((True, r2), demo_opened) \<and>
    (error_of r2 = Inr 0 \<and> value_of r2 = Inr ''v'' \<or> error_of r2 = Inr (-2))"
proof -
  obtain r1 r2 where p: "query (over_session (\<lambda>q. [q]) (exec_json mem_rocks)) (put_request ''db'' ''k'' ''v'') demo_start =
      Inr ((True, r1), demo_opened)" "error_of r1 = Inr 0"
    and g: "query (over_session (\<lambda>q. [q]) (exec_json mem_rocks)) (get_request ''db'' ''k'') demo_opened =
      Inr ((True, r2), demo_opened)"
    using demo_queries by blast
  have l: "length put_lines < 2 ^ 32" "length get_lines < 2 ^ 32" using put_lines_len get_lines_len by simp_all
  have e: "exec_all mem_rocks demo_opened [] = Inr ([], demo_opened)" by simp
  show ?thesis
    using test_client_gets_what_it_put [OF mem_rocks_contract demo_reachable cuts_one demo_lines(1) l(1) demo_lines(2) l(2)
        p e _ g demo_sendable] p(1) g by auto
qed

text \<open>C4: The requests that make the service execute undefined behaviour are known. In a reachable
  state, a request (below one gigabyte) for a configured database that is not open and does not
  exist yet, and that has column families besides the default one, either fails the assertion
  on the status of RocksDB or deletes the database it has just created while the column family
  handles of its \<^verbatim>\<open>CreateColumnFamily\<close> calls are still there, which RocksDB forbids: it is never
  answered. Every other request ends with a reply, an exception of the JSON library or a
  failed assertion; in particular it uses no database pointer before it is set, no deleted
  database, no dead column family handle and no handle out of range.\<close>

theorem exec_json_defined_behaviour:
  assumes "rocks_contract R view live cfn" "service_reachable R file_text w0 st" "length q < 2 ^ 30"
  shows "if \<exists>rt. request_of q = Some rt \<and> request_creates R st rt
    then exec_json R st q = Inl (Undef ''delete of a database with column family handles'') \<or>
      exec_json R st q = Inl (AssertFail ''status.ok()'')
    else case exec_json R st q of
        Inr (out, st') \<Rightarrow> service_reachable R file_text w0 st'
      | Inl e \<Rightarrow> (\<exists>m. e \<in> {RuntimeError m, LogicError m, AssertFail m})"
proof -
  note o = exec_json_outcome [OF assms(1) service_reachable_inv [OF assms(1, 2)] assms(3)]
  have "case exec_json R st q of
        Inr (out, st') \<Rightarrow> service_reachable R file_text w0 st'
      | Inl e \<Rightarrow> (\<exists>m. e \<in> {RuntimeError m, LogicError m, AssertFail m})" if d: "defined (exec_json R st q)"
  proof -
    have "\<exists>m. e \<in> {RuntimeError m, LogicError m, AssertFail m}" if "exec_json R st q = Inl e" for e
      using that d by (cases e) (auto simp: defined_def)
    then show ?thesis
      using service_reachable.request [OF assms(2)] by (auto split: sum.split prod.split)
  qed
  then show ?thesis
    using o by (cases "\<exists>rt. request_of q = Some rt \<and> request_creates R st rt") (auto simp: ends_badly_def)
qed

text \<open>The instances: a request for a database with a family that does not exist yet, and one that
  is no object.\<close>

definition family_file :: string where
  \<open>family_file = ''{"dbs":{"f":{"dbname":"/tmp/f","column_family":["cf"]}}}''\<close>

definition family_text :: string where
  \<open>family_text = ''{"dbname":"f","op":"get","key":"k"}''\<close>

definition family_start :: "(mem_state, unit, nat, string) server_state" where
  "family_start =
     \<lparr>configs = [new_config ''f'' ''/tmp/f'' (default_options mem_api) [''default'', ''cf'']],
      world = world demo_start\<rparr>"

lemma family_reachable: "service_reachable mem_rocks family_file (world demo_start) family_start"
proof -
  have "load_configs mem_rocks family_file = Inr (Some (configs family_start))" by code_simp
  from service_reachable.started [OF this, of "world demo_start"] show ?thesis
    by (simp add: family_start_def)
qed

lemma family_creates: "\<exists>rt. request_of family_text = Some rt \<and> request_creates mem_rocks family_start rt"
proof -
  have "case request_of family_text of None \<Rightarrow> False | Some rt \<Rightarrow> request_creates mem_rocks family_start rt"
    by code_simp
  then show ?thesis by (auto split: option.splits)
qed

lemma no_object_creates_nothing:
  "\<not> (\<exists>rt. request_of ''[]'' = Some rt \<and> request_creates mem_rocks demo_opened rt)"
proof -
  have "case request_of ''[]'' of None \<Rightarrow> False | Some rt \<Rightarrow> \<not> request_creates mem_rocks demo_opened rt"
    by code_simp
  then show ?thesis by (auto split: option.splits)
qed

theorem exec_json_defined_behaviour_witness:
  "(exec_json mem_rocks family_start family_text =
      Inl (Undef ''delete of a database with column family handles'') \<or>
    exec_json mem_rocks family_start family_text = Inl (AssertFail ''status.ok()'')) \<and>
   (case exec_json mem_rocks demo_opened ''[]'' of
      Inr (out, st') \<Rightarrow> service_reachable mem_rocks demo_file (world demo_start) st'
    | Inl e \<Rightarrow> (\<exists>m. e \<in> {RuntimeError m, LogicError m, AssertFail m}))"
proof
  have "length family_text < 2 ^ 30" by (simp add: family_text_def)
  from exec_json_defined_behaviour [OF mem_rocks_contract family_reachable this]
  show "exec_json mem_rocks family_start family_text =
      Inl (Undef ''delete of a database with column family handles'') \<or>
    exec_json mem_rocks family_start family_text = Inl (AssertFail ''status.ok()'')"
    unfolding if_P [OF family_creates] .
  have "length ''[]'' < 2 ^ 30" by simp
  from exec_json_defined_behaviour [OF mem_rocks_contract demo_reachable_opened this]
  show "case exec_json mem_rocks demo_opened ''[]'' of
      Inr (out, st') \<Rightarrow> service_reachable mem_rocks demo_file (world demo_start) st'
    | Inl e \<Rightarrow> (\<exists>m. e \<in> {RuntimeError m, LogicError m, AssertFail m})"
    unfolding if_not_P [OF no_object_creates_nothing] .
qed

text \<open>The same misuse at the end: once a database with column families is open, which takes a path
  that exists, the signal handler deletes it with its handles.\<close>

lemma shutdown_misuses_families:
  assumes "rocks_contract R view live cfn" "service_reachable R file_text w0 st"
    and "c \<in> set (configs st)" "c_is_open c" "c_is_cf c"
  shows "\<exists>m. shutdown R (configs st) (world st) = Inl (Undef m)"
  by (rule shutdown_with_families [OF assms(1) service_reachable_inv [OF assms(1,2)] assms(3-5)])

text \<open>C5: In every reachable state the configurations are consistent: a database marked open
  has a live handle of its own, shared with no other, and one column family handle per
  configured family, in their order, so that \<^verbatim>\<open>get_handle\<close> returns the family asked for.\<close>

theorem reachable_configs_consistent:
  assumes "rocks_contract R view live cfn" "service_reachable R file_text w0 st"
    and "i < length (configs st)" "c_is_open (configs st ! i)"
  shows "(\<exists>d. c_db (configs st ! i) = Ptr d \<and> d \<in> live (world st) \<and>
      (\<forall>j < length (configs st). j \<noteq> i \<longrightarrow> c_is_open (configs st ! j) \<longrightarrow> c_db (configs st ! j) \<noteq> Ptr d)) \<and>
    (\<forall>cf. if cf \<in> set (c_cf_names (configs st ! i))
       then \<exists>h. get_handle (configs st ! i) cf = Inr (Some h) \<and> cfn h = cf
       else get_handle (configs st ! i) cf = Inr None)"
proof -
  have inv: "server_inv R live cfn st" by (rule service_reachable_inv [OF assms(1, 2)])
  note ok = server_invD [OF inv assms(3)]
  then obtain d where d: "c_db (configs st ! i) = Ptr d" "d \<in> live (world st)"
    using assms(4) by (auto simp: config_ok_def)
  moreover have "c_db (configs st ! j) \<noteq> Ptr d"
    if "j < length (configs st)" "j \<noteq> i" "c_is_open (configs st ! j)" for j
    using server_inv_distinct [OF inv that(1) assms(3) that(2, 3) assms(4)] d(1) by simp
  ultimately show ?thesis using get_handle_open [OF ok assms(4)] by blast
qed

theorem reachable_configs_consistent_witness:
  "(\<exists>d. c_db (configs demo_opened ! 0) = Ptr d \<and> d \<in> mem_live (world demo_opened) \<and>
      (\<forall>j < length (configs demo_opened). j \<noteq> 0 \<longrightarrow> c_is_open (configs demo_opened ! j) \<longrightarrow>
         c_db (configs demo_opened ! j) \<noteq> Ptr d)) \<and>
    (\<forall>cf. if cf \<in> set (c_cf_names (configs demo_opened ! 0))
       then \<exists>h. get_handle (configs demo_opened ! 0) cf = Inr (Some h) \<and> id h = cf
       else get_handle (configs demo_opened ! 0) cf = Inr None)"
  by (rule reachable_configs_consistent [OF mem_rocks_contract demo_reachable_opened])
    (simp_all add: demo_opened_def)

section \<open>The connections\<close>

text \<open>C6: Whatever pieces the network delivers the requests in, a session answers each of
  them in order with the length and the bytes of its reply and waits for the next one, as
  long as no reply is longer than its request.\<close>

theorem conversation_is_answered:
  assumes "answers (exec_json R) st qs bytes st'" "list_all2 cuts qs css" "s_phase s = AwaitHeader"
  shows "\<exists>s'. run (exec_json R) (concat (map2 (\<lambda>q cs. request_events q cs @ [Written]) qs css)) s st =
      Inr (s', st') \<and> s_phase s' = AwaitHeader \<and> s_sent s' = s_sent s @ bytes"
  by (rule svc.serve_all [OF assms])

theorem conversation_is_answered_witness:
  "\<exists>s'. run (exec_json mem_rocks)
      (concat (map2 (\<lambda>q cs. request_events q cs @ [Written]) [put_text] [[take 7 put_text, drop 7 put_text]]))
      new_session demo_start = Inr (s', demo_opened) \<and>
    s_phase s' = AwaitHeader \<and>
    s_sent s' = s_sent new_session @ le32 12 @ reply_text (error_reply 0) @ []"
proof (rule conversation_is_answered)
  have "length (reply_text (error_reply 0)) = 12" by code_simp
  then show "answers (exec_json mem_rocks) demo_start [put_text] (le32 12 @ reply_text (error_reply 0) @ []) demo_opened"
    using demo_put by (auto simp: length_put_text max_request_def)
qed (simp_all add: cuts_def put_text_def new_session_def)

text \<open>C7: The output buffer is too small exactly when the reply is longer than the request:
  \<^verbatim>\<open>do_write\<close> sizes it by the request, so a longer reply is written past its end.\<close>

theorem long_reply_overflows:
  assumes "s_phase s = AwaitHeader" "length q \<le> max_request" "cuts q cs"
    and "exec_json R st q = Inr (out, st')" "length out < 2 ^ 32"
  shows "run (exec_json R) (request_events q cs) s st = Inl (Undef ''write past the end of out_data_'') \<longleftrightarrow>
    length q < length out"
proof
  assume u: "run (exec_json R) (request_events q cs) s st = Inl (Undef ''write past the end of out_data_'')"
  show "length q < length out"
  proof (rule ccontr)
    assume "\<not> length q < length out"
    then have "length out \<le> length q" by simp
    from svc.serve [OF assms(1-4) this] u show False by (auto simp: run_append)
  qed
qed (rule svc.serve_overflow [OF assms(1-4) _ assms(5)])

theorem long_reply_overflows_witness:
  "run (exec_json mem_rocks) (request_events ''{}'' [''{}'']) new_session demo_start =
     Inl (Undef ''write past the end of out_data_'') \<longleftrightarrow> length ''{}'' < length (reply_text (error_reply 6))"
proof (rule long_reply_overflows)
  show "exec_json mem_rocks demo_start ''{}'' = Inr (reply_text (error_reply 6), demo_start)"
    by code_simp
  have "length (reply_text (error_reply 6)) = 12" by code_simp
  then show "length (reply_text (error_reply 6)) < 2 ^ 32" by simp
qed (simp_all add: cuts_def new_session_def max_request_def)

text \<open>C8: In every reachable state of the server each session satisfies its invariant, and a
  completed operation either keeps it, or raises what the request raised, or is the write
  past the output buffer: all other accesses to the buffers are in bounds, and only bytes
  that were received are read.\<close>

theorem sessions_stay_in_bounds:
  assumes "net_reachable exec st0 n" "i < length (n_sessions n)" "event_ok (n_sessions n ! i) e"
  shows "session_inv (n_sessions n ! i) \<and>
    (case step exec e (n_sessions n ! i) (n_service n) of
       Inr (s', st') \<Rightarrow> session_inv s'
     | Inl x \<Rightarrow> x = Undef ''write past the end of out_data_'' \<or> (\<exists>q. exec (n_service n) q = Inl x))"
proof -
  have "session_inv (n_sessions n ! i)"
    using net_reachable_inv [OF assms(1)] assms(2) by simp
  with step_cases [OF this assms(3), of exec "n_service n"] show ?thesis
    by (auto split: sum.split)
qed

definition one_session :: "(mem_state, unit, nat, string) server_state server_net" where
  \<comment> \<open>after the first connection: the thread waits for its header\<close>
  "one_session = \<lparr>n_sessions = [new_session], n_service = demo_start, n_thread = Some 0\<rparr>"

lemma one_session_reachable: "net_reachable (exec_json mem_rocks) demo_start one_session"
proof -
  have "net_step (exec_json mem_rocks) \<lparr>n_sessions = [], n_service = demo_start, n_thread = None\<rparr> one_session"
    using net_step.accept [of "\<lparr>n_sessions = [], n_service = demo_start, n_thread = None\<rparr>" "exec_json mem_rocks"]
    by (simp add: one_session_def thread_after_def new_session_def)
  from net_reachable.more [OF net_reachable.start this] show ?thesis .
qed

theorem sessions_stay_in_bounds_witness:
  "session_inv (n_sessions one_session ! 0) \<and>
    (case step (exec_json mem_rocks) HeaderFailed
       (n_sessions one_session ! 0)
       (n_service one_session) of
       Inr (s', st') \<Rightarrow> session_inv s'
     | Inl x \<Rightarrow> x = Undef ''write past the end of out_data_'' \<or>
         (\<exists>q. exec_json mem_rocks (n_service one_session) q = Inl x))"
  by (rule sessions_stay_in_bounds [OF one_session_reachable])
    (simp_all add: one_session_def event_ok_def new_session_def)

text \<open>C9: One client can stop the server. While a session of a reachable server waits for the header
  of its next request, the one thread is inside its \<^verbatim>\<open>asio::read\<close>: the only possible step is that this
  read ends, so until then no request is executed, no connection is accepted and no other
  session moves, however long the client takes.\<close>

theorem waiting_session_blocks_server:
  assumes "net_reachable exec st0 n" "net_step exec n n'"
    and "i < length (n_sessions n)" "s_phase (n_sessions n ! i) = AwaitHeader"
  shows "s_phase (n_sessions n' ! i) \<noteq> AwaitHeader \<and>
    n_service n' = n_service n \<and> length (n_sessions n') = length (n_sessions n) \<and>
    (\<forall>j < length (n_sessions n). j \<noteq> i \<longrightarrow> n_sessions n' ! j = n_sessions n ! j)"
  using waiting_thread_step [OF assms] assms(3) by auto

theorem waiting_session_blocks_server_witness:
  "let n' = \<lparr>n_sessions = [new_session\<lparr>s_phase := Ended\<rparr>], n_service = demo_start, n_thread = None\<rparr>
   in s_phase (n_sessions n' ! 0) \<noteq> AwaitHeader \<and>
    n_service n' = n_service one_session \<and> length (n_sessions n') = length (n_sessions one_session) \<and>
    (\<forall>j < length (n_sessions one_session). j \<noteq> 0 \<longrightarrow> n_sessions n' ! j = n_sessions one_session ! j)"
  unfolding Let_def
proof (rule waiting_session_blocks_server [OF one_session_reachable])
  show "net_step (exec_json mem_rocks) one_session
      \<lparr>n_sessions = [new_session\<lparr>s_phase := Ended\<rparr>], n_service = demo_start, n_thread = None\<rparr>"
    using net_step.returned [of one_session 0 HeaderFailed "exec_json mem_rocks"
        "new_session\<lparr>s_phase := Ended\<rparr>" demo_start]
    by (simp add: one_session_def event_ok_def step_def new_session_def thread_after_def)
qed (simp_all add: one_session_def new_session_def)


section \<open>Errors, start and end\<close>

text \<open>C10: A request that is JSON but neither an object nor null ends in an exception that
  nothing catches: \<^verbatim>\<open>root["dbname"]\<close> requires an object.\<close>

theorem non_object_request_raises:
  assumes "request_of q = Some rt" "type_of rt \<notin> {nullValue, objectValue}"
  shows "exec_json R st q =
    Inl (LogicError ''in Json::Value::resolveReference(key, end): requires objectValue'')"
proof -
  obtain errs where "char_reader_parse service_features q null_singleton = Inr (True, rt, errs)"
    using assms(1) by (auto simp: request_of_def split: sum.splits bool.splits)
  then show ?thesis
    using assms(2)
    by (simp add: exec_json_unfold exec_request_def fetch_string_def fetch_def member_ref_cstr_def
        resolve_reference_def json_assert_def)
qed

theorem non_object_request_raises_witness:
  "exec_json mem_rocks demo_start ''[]'' =
    Inl (LogicError ''in Json::Value::resolveReference(key, end): requires objectValue'')"
proof -
  have "case request_of ''[]'' of None \<Rightarrow> False | Some rt \<Rightarrow> type_of rt = arrayValue"
    by code_simp
  then obtain rt where "request_of ''[]'' = Some rt" "type_of rt = arrayValue"
    by (auto split: option.splits)
  then show ?thesis using non_object_request_raises [of "''[]''" rt] by simp
qed

text \<open>C11: The configurations that \<^verbatim>\<open>main\<close> reads are closed and satisfy the invariant for every
  state of the world; with column families, the default family is the first of them and
  occurs once.\<close>

theorem loaded_configs_consistent:
  assumes "load_configs R file_text = Inr (Some cs)"
  shows "server_inv R live cfn \<lparr>configs = cs, world = w\<rparr> \<and>
    (\<forall>c \<in> set cs. \<not> c_is_open c \<and> (c_cf_names c = [] \<or>
       (\<exists>r. c_cf_names c = kDefaultColumnFamilyName # r \<and> kDefaultColumnFamilyName \<notin> set r)))"
proof -
  note inv = load_configs_inv(1) [OF assms, of live cfn w]
  then have "c_cf_names c = [] \<or> column_families (c_cf_names c) = c_cf_names c" if "c \<in> set cs" for c
    using that by (auto simp: server_inv_def config_ok_def)
  then have "c_cf_names c = [] \<or>
       (\<exists>r. c_cf_names c = kDefaultColumnFamilyName # r \<and> kDefaultColumnFamilyName \<notin> set r)"
    if "c \<in> set cs" for c
    using that column_families_shape by metis
  with inv load_configs_inv(2) [OF assms] show ?thesis by blast
qed

theorem loaded_configs_consistent_witness:
  "server_inv mem_rocks mem_live id \<lparr>configs = configs demo_start, world = world demo_opened\<rparr> \<and>
    list_all (\<lambda>c. \<not> c_is_open c) (configs demo_start)"
  using loaded_configs_consistent [OF demo_loads, of mem_live id "world demo_opened"]
  by (simp add: list_all_iff)

text \<open>C12: The signal handler deletes the database pointer of every configuration. Since no
  constructor sets it, the handler is defined only if an open was tried for each database:
  right after the start it is undefined as soon as one database is configured.\<close>

theorem shutdown_needs_opened:
  assumes "load_configs R file_text = Inr (Some cs)"
  shows "(\<exists>e. shutdown R cs w = Inl (Undef e)) \<longleftrightarrow> cs \<noteq> []"
  using load_configs_uninit [OF assms] by (cases cs) auto

theorem shutdown_needs_opened_witness:
  "(\<exists>e. shutdown mem_rocks (configs demo_start) (world demo_start) = Inl (Undef e)) \<longleftrightarrow>
     configs demo_start \<noteq> []"
  by (rule shutdown_needs_opened [OF demo_loads])

section \<open>Options\<close>

lemma mem_api_keeps: "methods_keep get mem_api"
  by (simp add: methods_keep_def mem_api_def)

lemma one_member_wf:
  "length k < 2 ^ 30 \<Longrightarrow> wf_json c \<Longrightarrow> wf_json (JObj mt [(k, c)])"
  by (simp add: wf_map_def keys_ok_def)

text \<open>C13: A JSON object of options that is accepted sets \<^verbatim>\<open>create_if_missing\<close> to the Boolean of
  its member of that name, whatever the other members, and leaves the default without one.\<close>

theorem create_if_missing_is_set:
  assumes "options_from_json api (JObj mt m) = Inr opts" "methods_keep create_if_missing api"
    and "wf_json (JObj mt m)"
  shows "case om_find ''create_if_missing'' m of
      None \<Rightarrow> create_if_missing opts = create_if_missing (default_options api)
    | Some v \<Rightarrow> as_bool v = Inr (create_if_missing opts)"
  by (rule options_field [OF create_if_missing_written [OF assms(2)] create_if_missing_own assms(1)
        wf_short_keys [OF assms(3)] assms(3)])

theorem create_if_missing_is_set_witness:
  "create_if_missing demo_options"
proof -
  have "options_from_json mem_api (JObj meta0 [(''create_if_missing'', mk_bool True)]) = Inr demo_options"
    by code_simp
  from create_if_missing_is_set [OF this mem_api_keeps one_member_wf] show ?thesis
    by (simp add: mk_bool_def)
qed

text \<open>Likewise \<^verbatim>\<open>max_open_files\<close> becomes the 32-bit integer of its member.\<close>

theorem max_open_files_is_set:
  assumes "options_from_json api (JObj mt m) = Inr opts" "methods_keep max_open_files api"
    and "wf_json (JObj mt m)"
  shows "case om_find ''max_open_files'' m of
      None \<Rightarrow> max_open_files opts = max_open_files (default_options api)
    | Some v \<Rightarrow> as_int v = Inr (max_open_files opts)"
  by (rule options_field [OF max_open_files_written [OF assms(2)] max_open_files_own assms(1)
        wf_short_keys [OF assms(3)] assms(3)])

theorem max_open_files_is_set_witness:
  "\<exists>opts. options_from_json mem_api (JObj meta0 [(''max_open_files'', mk_int 500)]) = Inr opts \<and>
     max_open_files opts = 500"
proof -
  have "case options_from_json mem_api (JObj meta0 [(''max_open_files'', mk_int 500)]) of
      Inr opts \<Rightarrow> True | Inl _ \<Rightarrow> False"
    by code_simp
  then obtain opts where x:
    "options_from_json mem_api (JObj meta0 [(''max_open_files'', mk_int 500)]) = Inr opts"
    by (auto split: sum.splits)
  have "as_int (mk_int 500) = Inr 500" by code_simp
  with max_open_files_is_set [OF x mem_api_keeps one_member_wf] show ?thesis
    using x by (simp add: mk_int_def)
qed

end
